(* ===== verification/Prelude.thy ===== *)
theory Prelude
  imports Main "HOL-Library.Word"
begin

unbundle bit_operations_syntax

text \<open>
  Shared vocabulary of the development: the Rust result type, the machine
  integers with their checked, saturating and wrapping operations, and the
  \<open>position\<close> search that every fixed-capacity table of the kernel uses.
  A Rust array of length \<open>N\<close> is a list whose length the invariants fix;
  an update goes through \<open>xs[i := v]\<close> at an index the code has checked.
\<close>

section \<open>Machine integers\<close>

type_synonym u8 = "8 word"
type_synonym u16 = "16 word"
type_synonym u32 = "32 word"
type_synonym u64 = "64 word"

text \<open>\<open>usize\<close> values that index or count are natural numbers; where the code
  checks the 64-bit range it is written out against \<open>usize_limit\<close>.\<close>

abbreviation usize_limit :: nat where
  "usize_limit \<equiv> 2 ^ 64"

text \<open>The integer methods of the Rust core library that the kernel calls.\<close>

definition checked_add :: "'a::len word \<Rightarrow> 'a word \<Rightarrow> 'a word option" where
  "checked_add a b = (if unat a + unat b < 2 ^ LENGTH('a) then Some (a + b) else None)"

definition checked_sub :: "'a::len word \<Rightarrow> 'a word \<Rightarrow> 'a word option" where
  "checked_sub a b = (if b \<le> a then Some (a - b) else None)"

definition saturating_add :: "'a::len word \<Rightarrow> 'a word \<Rightarrow> 'a word" where
  "saturating_add a b = (if unat a + unat b < 2 ^ LENGTH('a) then a + b else - 1)"

definition saturating_mul :: "'a::len word \<Rightarrow> 'a word \<Rightarrow> 'a word" where
  "saturating_mul a b = (if unat a * unat b < 2 ^ LENGTH('a) then a * b else - 1)"

definition saturating_sub :: "'a::len word \<Rightarrow> 'a word \<Rightarrow> 'a word" where
  "saturating_sub a b = (if b \<le> a then a - b else 0)"

text \<open>\<open>checked_add_signed\<close>: the second operand is read as two's complement.\<close>

definition checked_add_signed :: "'a::len word \<Rightarrow> 'a word \<Rightarrow> 'a word option" where
  "checked_add_signed a b =
     (if 0 \<le> uint a + sint b \<and> uint a + sint b < 2 ^ LENGTH('a) then Some (a + b) else None)"

text \<open>\<open>trailing_zeros\<close> as the least set bit, searched upward; \<open>LENGTH('a)\<close> for zero.\<close>

fun tz_from :: "nat \<Rightarrow> nat \<Rightarrow> 'a::len word \<Rightarrow> nat" where
  "tz_from 0 i w = i"
| "tz_from (Suc n) i w = (if bit w i then i else tz_from n (Suc i) w)"

definition trailing_zeros :: "'a::len word \<Rightarrow> nat" where
  "trailing_zeros w = tz_from LENGTH('a) 0 w"

text \<open>\<open>to_ne_bytes\<close> on the little-endian target.\<close>

definition le_bytes :: "u32 \<Rightarrow> u8 list" where
  "le_bytes w = map (\<lambda>k. ucast (drop_bit (8 * k) w)) [0..<4]"

section \<open>Results\<close>

text \<open>Rust's \<open>Result\<close>. An operation on kernel state returns the result paired with
  the state, so that what an error path has already changed stays visible.\<close>

datatype ('a, 'e) result = is_Ok: Ok (the_Ok: 'a) | Err (the_Err: 'e)

primrec map_err :: "('e \<Rightarrow> 'f) \<Rightarrow> ('a, 'e) result \<Rightarrow> ('a, 'f) result" where
  "map_err f (Ok a) = Ok a"
| "map_err f (Err e) = Err (f e)"

primrec ok_or :: "'e \<Rightarrow> 'a option \<Rightarrow> ('a, 'e) result" where
  "ok_or e None = Err e"
| "ok_or e (Some a) = Ok a"

section \<open>Searching a fixed table\<close>

text \<open>\<open>iter().position(p)\<close>, and \<open>iter().enumerate().find(p)\<close> read for its index.\<close>

fun position :: "('a \<Rightarrow> bool) \<Rightarrow> 'a list \<Rightarrow> nat option" where
  "position P [] = None"
| "position P (x # xs) = (if P x then Some 0 else map_option Suc (position P xs))"

text \<open>The first index from \<open>n\<close> on: \<open>enumerate().skip(n).find(p)\<close>.\<close>

definition position_from :: "nat \<Rightarrow> ('a \<Rightarrow> bool) \<Rightarrow> 'a list \<Rightarrow> nat option" where
  "position_from n P xs = map_option (\<lambda>i. n + i) (position P (drop n xs))"

section \<open>Rule collections\<close>

named_theorems table_simps "facts about slot tables: searches, updates and lengths"
named_theorems rust_splits "case splits for results, options and conditionals"

declare result.splits [rust_splits] option.splits [rust_splits] if_splits [rust_splits]
  prod.splits [rust_splits]

section \<open>Generic lemmas\<close>

subsection \<open>Searches\<close>

lemma position_Some_iff:
  "position P xs = Some i \<longleftrightarrow> i < length xs \<and> P (xs ! i) \<and> (\<forall>j<i. \<not> P (xs ! j))"
proof (induction xs arbitrary: i)
  case Nil
  then show ?case by simp
next
  case (Cons x xs)
  show ?case
  proof (cases i)
    case 0
    then show ?thesis by simp
  next
    case (Suc k)
    then show ?thesis using Cons.IH [of k] by (auto simp: less_Suc_eq_0_disj)
  qed
qed

lemma position_None_iff: "position P xs = None \<longleftrightarrow> (\<forall>x \<in> set xs. \<not> P x)"
  by (induction xs) auto

lemma position_None_nth: "position P xs = None \<Longrightarrow> i < length xs \<Longrightarrow> \<not> P (xs ! i)"
  by (auto simp: position_None_iff)

lemma position_length [table_simps]: "position P xs = Some i \<Longrightarrow> i < length xs"
  by (simp add: position_Some_iff)

lemma position_sat [table_simps]: "position P xs = Some i \<Longrightarrow> P (xs ! i)"
  by (simp add: position_Some_iff)

lemma position_least: "position P xs = Some i \<Longrightarrow> j < i \<Longrightarrow> \<not> P (xs ! j)"
  by (simp add: position_Some_iff)

lemma position_exists: "i < length xs \<Longrightarrow> P (xs ! i) \<Longrightarrow> \<exists>j. position P xs = Some j"
  by (metis not_Some_eq position_None_nth)

lemma position_replicate: "position P (replicate n x) = (if 0 < n \<and> P x then Some 0 else None)"
  by (induction n) auto

lemma position_from_Some:
  assumes "position_from n P xs = Some i"
  shows "n \<le> i \<and> i < length xs \<and> P (xs ! i) \<and> (\<forall>j. n \<le> j \<longrightarrow> j < i \<longrightarrow> \<not> P (xs ! j))"
proof -
  from assms obtain k where k: "position P (drop n xs) = Some k" and i: "i = n + k"
    by (auto simp: position_from_def)
  from k have b: "k < length xs - n" and p: "P (xs ! (n + k))"
    and l: "\<And>j. j < k \<Longrightarrow> \<not> P (drop n xs ! j)"
    by (auto simp: position_Some_iff)
  have "\<not> P (xs ! j)" if "n \<le> j" "j < i" for j
  proof -
    from that i b have "j - n < k" and "drop n xs ! (j - n) = xs ! j" by auto
    with l show ?thesis by metis
  qed
  with b p i show ?thesis by auto
qed

text \<open>Where at most one entry satisfies a predicate, the search finds it.\<close>

lemma position_unique:
  assumes "i < length xs" "P (xs ! i)" "\<And>j. j < length xs \<Longrightarrow> P (xs ! j) \<Longrightarrow> j = i"
  shows "position P xs = Some i"
proof -
  from assms(1,2) obtain j where j: "position P xs = Some j"
    using position_exists by metis
  then have "j = i" by (intro assms(3)) (simp_all add: position_Some_iff)
  with j show ?thesis by simp
qed

subsection \<open>Updates\<close>

lemma nth_update: "xs[i := v] ! j = (if i = j \<and> i < length xs then v else xs ! j)"
  by (cases "i < length xs") (auto simp: list_update_beyond)

lemma position_update:
  assumes "P v = P (xs ! i)"
  shows "position P (xs[i := v]) = position P xs"
  using assms
proof (induction xs arbitrary: i)
  case (Cons x xs)
  then show ?case by (cases i) simp_all
qed simp

lemma list_all_update: "list_all P xs \<Longrightarrow> P v \<Longrightarrow> list_all P (xs[i := v])"
  by (auto simp: list_all_length nth_update)

text \<open>What an update does to a sum over the table.\<close>

lemma sum_table_update:
  fixes f :: "'a \<Rightarrow> 'b::comm_monoid_add"
  assumes "i < length xs"
  shows "(\<Sum>x \<leftarrow> xs[i := v]. f x) + f (xs ! i) = (\<Sum>x \<leftarrow> xs. f x) + f v"
  using assms
proof (induction xs arbitrary: i)
  case (Cons x xs)
  show ?case
  proof (cases i)
    case (Suc k)
    then show ?thesis using Cons.IH [of k] Cons.prems by (simp add: ac_simps)
  qed (simp add: ac_simps)
qed simp

subsection \<open>Checked arithmetic\<close>

lemma checked_add_Some_iff:
  fixes a b c :: "'a::len word"
  shows "checked_add a b = Some c \<longleftrightarrow> unat c = unat a + unat b"
proof
  assume "checked_add a b = Some c"
  then show "unat c = unat a + unat b"
    by (auto simp: checked_add_def unat_word_ariths split: if_splits)
next
  assume c: "unat c = unat a + unat b"
  then have "unat a + unat b < 2 ^ LENGTH('a)" by (metis unsigned_less)
  moreover from this c have "c = a + b"
    by (metis unat_add_lem unsigned_word_eqI)
  ultimately show "checked_add a b = Some c" by (simp add: checked_add_def)
qed

text \<open>Evaluation goes through binary integers instead of natural numbers.\<close>

lemma nat_power_bound: "n < 2 ^ k \<longleftrightarrow> int n < 2 ^ k"
  by (metis of_nat_less_iff of_nat_numeral of_nat_power)

lemma unat_add_bound:
  "unat (a :: 'a::len word) + unat b < 2 ^ LENGTH('a) \<longleftrightarrow> uint a + uint b < 2 ^ LENGTH('a)"
  by (subst nat_power_bound) simp

lemma unat_mult_bound:
  "unat (a :: 'a::len word) * unat b < 2 ^ LENGTH('a) \<longleftrightarrow> uint a * uint b < 2 ^ LENGTH('a)"
  by (subst nat_power_bound) simp

lemma checked_add_code [code]:
  "checked_add (a :: 'a::len word) b =
    (if uint a + uint b < 2 ^ LENGTH('a) then Some (a + b) else None)"
  by (simp add: checked_add_def unat_add_bound)

lemma saturating_add_code [code]:
  "saturating_add (a :: 'a::len word) b = (if uint a + uint b < 2 ^ LENGTH('a) then a + b else - 1)"
  by (simp add: saturating_add_def unat_add_bound)

lemma saturating_mul_code [code]:
  "saturating_mul (a :: 'a::len word) b = (if uint a * uint b < 2 ^ LENGTH('a) then a * b else - 1)"
  by (simp add: saturating_mul_def unat_mult_bound)

lemma checked_add_None_iff:
  "checked_add (a :: 'a::len word) b = None \<longleftrightarrow> 2 ^ LENGTH('a) \<le> unat a + unat b"
  by (auto simp: checked_add_def)

lemma checked_add_one_nonzero: "checked_add (a :: 'a::len word) 1 = Some c \<Longrightarrow> c \<noteq> 0"
  by (auto simp: checked_add_Some_iff)

lemma checked_add_one_less: "checked_add (a :: 'a::len word) 1 = Some c \<Longrightarrow> a < c"
  by (simp add: checked_add_Some_iff word_less_nat_alt)

lemma checked_sub_Some_iff: "checked_sub a b = Some c \<longleftrightarrow> b \<le> a \<and> c = a - b"
  by (auto simp: checked_sub_def)

lemma unat_max_word: "unat (- 1 :: 'a::len word) = 2 ^ LENGTH('a) - 1"
  by (simp add: unsigned_minus_1_eq_mask mask_eq_exp_minus_1)

lemma room_for_one: "unat (c :: 'a::len word) + 1 < 2 ^ LENGTH('a) \<longleftrightarrow> c \<noteq> - 1"
proof -
  have "unat c = 2 ^ LENGTH('a) - 1 \<longleftrightarrow> c = - 1"
    by (metis unat_max_word unsigned_word_eqI)
  then show ?thesis using unsigned_less [of c, where ?'a = nat] by linarith
qed

lemma checked_add_one_defined:
  assumes "(a :: 'a::len word) \<noteq> - 1"
  obtains g where "checked_add a 1 = Some g"
proof -
  from assms have "unat a + unat (1 :: 'a word) < 2 ^ LENGTH('a)"
    using room_for_one [of a] by simp
  then have "checked_add a 1 = Some (a + 1)" unfolding checked_add_def by (simp only: if_True)
  then show thesis by (rule that)
qed

lemma unat_dec_word: "(w :: 'a::len word) \<noteq> 0 \<Longrightarrow> unat (w - 1) = unat w - 1"
  by (simp add: unat_sub word_le_nat_alt Suc_leI unat_gt_0)

lemma unat_saturating_add:
  "unat (saturating_add a b :: 'a::len word) = min (unat a + unat b) (2 ^ LENGTH('a) - 1)"
  by (auto simp: saturating_add_def unat_word_ariths unat_max_word)

lemma unat_saturating_mul:
  "unat (saturating_mul a b :: 'a::len word) = min (unat a * unat b) (2 ^ LENGTH('a) - 1)"
  by (auto simp: saturating_mul_def unat_word_ariths unat_max_word)

subsection \<open>The least set bit\<close>

lemma tz_from_set:
  assumes "bit w j" "i \<le> j" "j < i + n"
  shows "bit w (tz_from n i w) \<and> i \<le> tz_from n i w \<and> tz_from n i w \<le> j \<and>
    (\<forall>k. i \<le> k \<longrightarrow> k < tz_from n i w \<longrightarrow> \<not> bit w k)"
  using assms
proof (induction n arbitrary: i)
  case 0
  then show ?case by simp
next
  case (Suc n)
  show ?case
  proof (cases "bit w i")
    case True
    then show ?thesis using Suc.prems by simp
  next
    case False
    with Suc.prems have "Suc i \<le> j" by (metis le_antisym not_less_eq_eq)
    with Suc.IH [of "Suc i"] Suc.prems(1,3) have ih: "bit w (tz_from n (Suc i) w)" "Suc i \<le> tz_from n (Suc i) w"
      "tz_from n (Suc i) w \<le> j" "\<And>k. Suc i \<le> k \<Longrightarrow> k < tz_from n (Suc i) w \<Longrightarrow> \<not> bit w k"
      by auto
    have "\<not> bit w k" if "i \<le> k" "k < tz_from n (Suc i) w" for k
      using that False ih(4) by (cases "k = i") auto
    with ih(1-3) False show ?thesis by simp
  qed
qed

lemma trailing_zeros_least:
  assumes "bit (w :: 'a::len word) j"
  shows "bit w (trailing_zeros w) \<and> trailing_zeros w \<le> j \<and> (\<forall>k < trailing_zeros w. \<not> bit w k)"
proof -
  have "j < LENGTH('a)" using assms by (rule bit_imp_le_length)
  with tz_from_set [OF assms, of 0 "LENGTH('a)"] show ?thesis by (simp add: trailing_zeros_def)
qed

lemma trailing_zeros_bit:
  assumes "(w :: 'a::len word) \<noteq> 0"
  shows "bit w (trailing_zeros w)" "trailing_zeros w < LENGTH('a)" "k < trailing_zeros w \<Longrightarrow> \<not> bit w k"
proof -
  obtain j where "bit w j" using assms by (metis bit_word_eqI bit_0_eq bot_apply bot_bool_def)
  note t = trailing_zeros_least [OF this]
  show "bit w (trailing_zeros w)" "k < trailing_zeros w \<Longrightarrow> \<not> bit w k" using t by auto
  then show "trailing_zeros w < LENGTH('a)" by (blast intro: bit_imp_le_length)
qed

lemma clear_bit_less:
  assumes "bit (w :: 'a::len word) n"
  shows "unat (w AND NOT (push_bit n 1)) < unat w"
proof -
  have "w AND NOT (push_bit n 1) \<le> w" by (rule word_and_le2)
  moreover have "\<not> bit (w AND NOT (push_bit n 1)) n"
    using bit_imp_le_length [OF assms] by (simp add: bit_simps)
  then have "w AND NOT (push_bit n 1) \<noteq> w" using assms by metis
  ultimately have "w AND NOT (push_bit n 1) < w" by simp
  then show ?thesis by (simp add: word_less_nat_alt)
qed

end
