(* ===== verification/Handles.thy ===== *)
theory Handles
  imports Prelude
begin

text \<open>
  Identities shared by every component: the process handle of
  \<^verbatim>\<open>src/src/process/lifecycle.rs\<close>, the interfaces that the handle tables of the
  kernel implement (\<open>handle_codec\<close> for generation-tagged handles,
  \<open>offset_codec\<close> for handles that are an index above a base,
  \<open>generation_lifetime\<close> for slots that are reused under fresh generations,
  \<open>invariant_machine\<close> for invariants of a transition relation) and the lemmas
  proved once inside them.
\<close>

section \<open>Process handles\<close>

record process_handle =
  ph_pid :: u32
  ph_generation :: u32

definition no_handle :: process_handle where
  "no_handle = \<lparr>ph_pid = 0, ph_generation = 0\<rparr>"

definition valid_owner :: "process_handle \<Rightarrow> bool" where
  "valid_owner h \<longleftrightarrow> ph_pid h \<noteq> 0 \<and> ph_generation h \<noteq> 0"

lemma no_handle_invalid [simp]: "\<not> valid_owner no_handle"
  by (simp add: no_handle_def valid_owner_def)

section \<open>Generation-tagged handles\<close>

text \<open>A handle names a slot index and the generation of the slot it was issued for.\<close>

locale handle_codec =
  fixes encode :: "nat \<Rightarrow> u32 \<Rightarrow> u32 option"
    and decode :: "u32 \<Rightarrow> (nat \<times> u32) option"
    and capacity :: nat
  assumes decode_encode: "encode i g = Some h \<Longrightarrow> decode h = Some (i, g)"
    and encode_decode: "decode h = Some (i, g) \<Longrightarrow> encode i g = Some h"
    and decode_range: "decode h = Some (i, g) \<Longrightarrow> i < capacity \<and> g \<noteq> 0"
begin

lemma encode_eq_iff: "encode i g = Some h \<longleftrightarrow> decode h = Some (i, g)"
  using decode_encode encode_decode by blast

lemma encode_inject: "encode i g = Some h \<Longrightarrow> encode j k = Some h \<Longrightarrow> i = j \<and> g = k"
  by (simp add: encode_eq_iff)

lemma handle_fresh: "encode i g = Some h \<Longrightarrow> encode i g' = Some h' \<Longrightarrow> g \<noteq> g' \<Longrightarrow> h \<noteq> h'"
  using encode_inject by blast

end

text \<open>The bit layout every generation-tagged handle of the kernel uses: the index
  plus one in the low \<open>k\<close> bits, the generation above.\<close>

lemma small_word_bits:
  fixes w :: "'a::len word"
  assumes "unat w < 2 ^ k" "k \<le> n"
  shows "\<not> bit w n"
proof -
  from assms have "unat w < 2 ^ n"
    by (meson less_le_trans one_le_numeral power_increasing)
  then have "drop_bit n (unat w) = 0"
    by (simp add: drop_bit_eq_div)
  then have "drop_bit n w = 0"
    by (metis unat_drop_bit_eq unat_eq_zero)
  then show ?thesis by (simp add: bit_iff_odd_drop_bit)
qed

lemma small_word_bitD: "unat (w :: 'a::len word) < 2 ^ k \<Longrightarrow> bit w n \<Longrightarrow> n < k"
  using small_word_bits not_le by blast

lemma tagged_low:
  fixes g w :: u32
  assumes "unat w < 2 ^ k"
  shows "(push_bit k g OR w) AND mask k = w"
  by (rule bit_word_eqI) (auto simp: bit_simps dest: small_word_bitD [OF assms])

lemma tagged_high:
  fixes g w :: u32
  assumes "unat w < 2 ^ k" "unat g < 2 ^ (32 - k)"
  shows "drop_bit k (push_bit k g OR w) = g"
proof (rule bit_word_eqI)
  fix n
  assume n: "n < LENGTH(32)"
  show "bit (drop_bit k (push_bit k g OR w)) n = bit g n"
    using n small_word_bitD [OF assms(1), of "k + n"] small_word_bitD [OF assms(2), of n]
    by (auto simp: bit_simps)
qed

lemma tagged_split: "push_bit k (drop_bit k h) OR (h AND mask k) = (h :: u32)"
  by (rule bit_word_eqI) (auto simp: bit_simps)

text \<open>The layout as a pair of functions, for a capacity that fits the index field.\<close>

definition tagged_encode :: "nat \<Rightarrow> nat \<Rightarrow> nat \<Rightarrow> u32 \<Rightarrow> u32 option" where
  "tagged_encode k cap index generation =
     (if index \<ge> cap \<or> generation = 0 \<or> unat generation \<ge> 2 ^ (32 - k) then None
      else Some (push_bit k generation OR (of_nat index + 1)))"

definition tagged_decode :: "nat \<Rightarrow> nat \<Rightarrow> u32 \<Rightarrow> (nat \<times> u32) option" where
  "tagged_decode k cap handle =
     (let encoded_index = handle AND mask k; generation = drop_bit k handle
      in if encoded_index = 0 \<or> generation = 0 then None
         else let index = unat (encoded_index - 1)
              in if index < cap then Some (index, generation) else None)"

lemma tagged_codecI:
  assumes "cap < 2 ^ k" "k < 32"
  shows "handle_codec (tagged_encode k cap) (tagged_decode k cap) cap"
proof unfold_locales
  fix i g h
  assume e: "tagged_encode k cap i g = Some h"
  then have i: "i < cap" and g: "g \<noteq> 0" "unat g < 2 ^ (32 - k)"
    and h: "h = push_bit k g OR (of_nat i + 1)"
    by (auto simp: tagged_encode_def split: if_splits)
  have "(2 :: nat) ^ k < 2 ^ 32" using assms(2) by (intro power_strict_increasing) simp_all
  with i assms have w: "unat (of_nat i + 1 :: u32) = i + 1"
    by (simp add: unat_word_ariths unat_of_nat)
  then have "of_nat i + 1 \<noteq> (0 :: u32)" by (metis add_is_0 unat_0 zero_neq_one)
  moreover have s: "unat (of_nat i + 1 :: u32) < 2 ^ k" using w i assms by simp
  moreover have "h AND mask k = of_nat i + 1" "drop_bit k h = g"
    unfolding h using tagged_low [OF s] tagged_high [OF s g(2)] by blast+
  moreover have "unat (of_nat i :: u32) = i"
    using i assms \<open>(2 :: nat) ^ k < 2 ^ 32\<close> by (simp add: unat_of_nat)
  ultimately show "tagged_decode k cap h = Some (i, g)"
    using i g by (simp add: tagged_decode_def)
next
  fix h i g
  assume "tagged_decode k cap h = Some (i, g)"
  then have e: "h AND mask k \<noteq> 0" and g: "g = drop_bit k h" "g \<noteq> 0"
    and i: "i < cap" "i = unat ((h AND mask k) - 1)"
    by (auto simp: tagged_decode_def Let_def split: if_splits)
  have "unat h < 2 ^ (32 - k) * 2 ^ k"
    using assms(2) unsigned_less [of h, where ?'a = nat] by (simp flip: power_add)
  then have "unat h div 2 ^ k < 2 ^ (32 - k)" by (rule less_mult_imp_div_less)
  moreover have "unat g = unat h div 2 ^ k"
    unfolding g(1) unat_drop_bit_eq by (rule drop_bit_eq_div)
  ultimately have "unat g < 2 ^ (32 - k)" by simp
  moreover have "of_nat i + 1 = h AND mask k" using i(2) by simp
  ultimately show "tagged_encode k cap i g = Some h"
    using g i(1) by (simp add: tagged_encode_def tagged_split)
next
  fix h i g
  assume "tagged_decode k cap h = Some (i, g)"
  then show "i < cap \<and> g \<noteq> 0" by (auto simp: tagged_decode_def Let_def split: if_splits)
qed

lemma tagged_codec_of:
  assumes "cap < 2 ^ k" "k < 32" "\<And>i g. e i g = tagged_encode k cap i g"
    "\<And>h. d h = tagged_decode k cap h"
  shows "handle_codec e d cap"
proof -
  from assms(3,4) have "e = tagged_encode k cap" "d = tagged_decode k cap" by (simp_all add: fun_eq_iff)
  with tagged_codecI [OF assms(1,2)] show ?thesis by (simp only:)
qed

section \<open>Handles above a base\<close>

locale offset_codec =
  fixes index_for :: "u32 \<Rightarrow> nat option"
    and handle_for :: "nat \<Rightarrow> u32"
    and capacity :: nat
  assumes index_handle: "i < capacity \<Longrightarrow> index_for (handle_for i) = Some i"
    and handle_index: "index_for h = Some i \<Longrightarrow> i < capacity \<and> handle_for i = h"
begin

lemma handle_for_inject: "i < capacity \<Longrightarrow> j < capacity \<Longrightarrow> handle_for i = handle_for j \<longleftrightarrow> i = j"
  by (metis index_handle option.inject)

lemma index_for_inject: "index_for h = Some i \<Longrightarrow> index_for h' = Some i \<Longrightarrow> h = h'"
  using handle_index by metis

end

text \<open>The arithmetic of a base-relative handle, for a base and capacity that fit 32 bits.\<close>

definition offset_index :: "u32 \<Rightarrow> nat \<Rightarrow> u32 \<Rightarrow> nat option" where
  "offset_index base cap fd =
     (if fd < base then None
      else let index = unat (fd - base) in if index < cap then Some index else None)"

definition offset_handle :: "u32 \<Rightarrow> nat \<Rightarrow> u32" where
  "offset_handle base index = base + of_nat index"

lemma offset_codecI:
  assumes "unat base + cap < 2 ^ 32"
  shows "offset_codec (offset_index base cap) (offset_handle base) cap"
proof unfold_locales
  fix i
  assume i: "i < cap"
  with assms have b: "unat base + unat (of_nat i :: u32) < 2 ^ 32" and ui: "unat (of_nat i :: u32) = i"
    by (simp_all add: unat_of_nat)
  then have u: "unat (base + of_nat i) = unat base + i"
    by (simp add: unat_word_ariths)
  then have "\<not> base + of_nat i < base" by (simp add: word_less_nat_alt)
  moreover have "base + of_nat i - base = (of_nat i :: u32)" by simp
  ultimately show "offset_index base cap (offset_handle base i) = Some i"
    using i ui by (simp add: offset_index_def offset_handle_def)
next
  fix h i
  assume "offset_index base cap h = Some i"
  then have "i < cap" "i = unat (h - base)"
    by (auto simp: offset_index_def Let_def split: if_splits)
  then show "i < cap \<and> offset_handle base i = h" by (simp add: offset_handle_def)
qed

lemma offset_codec_of:
  assumes "unat base + cap < 2 ^ 32" "\<And>fd. f fd = offset_index base cap fd"
    "\<And>i. g i = offset_handle base i"
  shows "offset_codec f g cap"
proof -
  from assms(2,3) have "f = offset_index base cap" "g = offset_handle base" by (simp_all add: fun_eq_iff)
  with offset_codecI [OF assms(1)] show ?thesis by (simp only:)
qed

section \<open>Slot lifetimes\<close>

text \<open>
  The contract of a table whose slots are reused: an operation never lowers a slot's
  generation, and a slot that becomes live carries a generation above the one it had
  while it was free. Then a handle issued for a former generation never resolves again,
  whatever operations follow.
\<close>

locale generation_lifetime =
  fixes step :: "'s \<Rightarrow> 's \<Rightarrow> bool"
    and live :: "'s \<Rightarrow> nat \<Rightarrow> bool"
    and gen :: "'s \<Rightarrow> nat \<Rightarrow> 'g::linorder"
  assumes gen_mono: "step s t \<Longrightarrow> gen s i \<le> gen t i"
    and gen_fresh: "step s t \<Longrightarrow> \<not> live s i \<Longrightarrow> live t i \<Longrightarrow> gen s i < gen t i"
begin

lemma gen_mono_steps: "step\<^sup>*\<^sup>* s t \<Longrightarrow> gen s i \<le> gen t i"
  by (induction rule: rtranclp_induct) (auto dest: gen_mono order_trans)

lemma dead_generation:
  assumes "step\<^sup>*\<^sup>* s t" "\<not> live s i"
  shows "\<not> (live t i \<and> gen t i = gen s i)"
  using assms
proof (induction rule: rtranclp_induct)
  case base
  then show ?case by simp
next
  case (step t u)
  show ?case
  proof (cases "gen t i = gen s i")
    case True
    then show ?thesis using step gen_fresh [of t u i] by force
  next
    case False
    with gen_mono_steps [OF step.hyps(1), of i] gen_mono [OF step.hyps(2), of i]
    have "gen s i < gen u i" by order
    then show ?thesis by auto
  qed
qed

lemma superseded_generation:
  assumes "step\<^sup>*\<^sup>* s t" "g < gen s i"
  shows "gen t i \<noteq> g"
  using gen_mono_steps [OF assms(1), of i] assms(2) by auto

end

section \<open>Invariants of a transition relation\<close>

locale invariant_machine =
  fixes init :: "'s \<Rightarrow> bool"
    and step :: "'s \<Rightarrow> 's \<Rightarrow> bool"
    and inv :: "'s \<Rightarrow> bool"
  assumes inv_init: "init s \<Longrightarrow> inv s"
    and inv_step: "inv s \<Longrightarrow> step s t \<Longrightarrow> inv t"
begin

lemma inv_steps: "step\<^sup>*\<^sup>* s t \<Longrightarrow> inv s \<Longrightarrow> inv t"
  by (induction rule: rtranclp_induct) (auto intro: inv_step)

lemma inv_reachable: "init s0 \<Longrightarrow> step\<^sup>*\<^sup>* s0 s \<Longrightarrow> inv s"
  using inv_steps inv_init by blast

end

end
