(* ===== verification/Ring.thy ===== *)
theory Ring
  imports Prelude
begin

text \<open>
  Bounded rings: the contents of a circular array and the interface
  \<open>byte_stream\<close> of a bounded FIFO byte channel, with the integrity of a whole
  run of transfers proved once for every implementation.
\<close>

section \<open>Ring contents\<close>

text \<open>The \<open>len\<close> elements from \<open>head\<close> on, wrapping at the end of the array.\<close>

definition ring_contents :: "nat \<Rightarrow> nat \<Rightarrow> 'a list \<Rightarrow> 'a list" where
  "ring_contents head len buf = map (\<lambda>k. buf ! ((head + k) mod length buf)) [0..<len]"

lemma length_ring_contents [simp]: "length (ring_contents head len buf) = len"
  by (simp add: ring_contents_def)

lemma ring_contents_0 [simp]: "ring_contents head 0 buf = []"
  by (simp add: ring_contents_def)

lemma ring_contents_nth:
  "k < len \<Longrightarrow> ring_contents head len buf ! k = buf ! ((head + k) mod length buf)"
  by (simp add: ring_contents_def)

lemma mod_add_inj_le:
  fixes a b h n :: nat
  assumes "a \<le> b" "b < n" "(h + a) mod n = (h + b) mod n"
  shows "a = b"
proof -
  have "n dvd (h + b) - (h + a)"
    using assms(1,3) by (subst mod_eq_dvd_iff_nat [symmetric]) simp_all
  then have "n dvd b - a" by simp
  with assms(1,2) show ?thesis
    by (metis diff_is_0_eq' dvd_imp_le le_antisym less_imp_diff_less not_gr0 not_le zero_less_diff)
qed

lemma mod_add_inj:
  fixes a b h n :: nat
  assumes "a < n" "b < n" "(h + a) mod n = (h + b) mod n"
  shows "a = b"
  using mod_add_inj_le [of a b n h] mod_add_inj_le [of b a n h] assms by linarith

text \<open>Storing at the tail appends; moving the head drops from the front.\<close>

lemma ring_contents_push:
  assumes "len < length buf"
  shows "ring_contents head (Suc len) (buf[(head + len) mod length buf := x])
    = ring_contents head len buf @ [x]"
proof -
  have n: "0 < length buf" using assms by auto
  have "buf[(head + len) mod length buf := x] ! ((head + k) mod length buf)
      = buf ! ((head + k) mod length buf)" if "k < len" for k
  proof -
    have "(head + k) mod length buf \<noteq> (head + len) mod length buf"
      using mod_add_inj [of k "length buf" len head] that assms by auto
    then show ?thesis by simp
  qed
  then show ?thesis using n by (simp add: ring_contents_def)
qed

lemma ring_contents_drop:
  assumes "n \<le> len"
  shows "ring_contents ((head + n) mod length buf) (len - n) buf = drop n (ring_contents head len buf)"
  by (rule nth_equalityI) (simp_all add: ring_contents_nth mod_add_left_eq add.assoc)

lemma ring_contents_take:
  assumes "n \<le> len"
  shows "ring_contents head n buf = take n (ring_contents head len buf)"
  using assms by (intro nth_equalityI) (simp_all add: ring_contents_nth)

lemma ring_contents_Suc:
  assumes "head < length buf"
  shows "ring_contents head (Suc len) buf
    = buf ! head # ring_contents ((head + 1) mod length buf) len buf"
  using assms by (intro nth_equalityI) (auto simp: ring_contents_nth nth_Cons mod_add_left_eq split: nat.splits)

text \<open>Wiping the slot behind a moved head changes nothing that is still queued.\<close>

lemma ring_contents_update_head:
  assumes "head < length buf" "len < length buf"
  shows "ring_contents ((head + 1) mod length buf) len (buf[head := x]) = ring_contents ((head + 1) mod length buf) len buf"
proof (rule nth_equalityI)
  fix k
  assume "k < length (ring_contents ((head + 1) mod length buf) len (buf[head := x]))"
  then have k: "k < len" by simp
  have "(head + (1 + k)) mod length buf \<noteq> (head + 0) mod length buf"
    using mod_add_inj [of "1 + k" "length buf" 0 head] k assms by linarith
  then have "((head + 1) mod length buf + k) mod length buf \<noteq> head" using assms(1) by (simp add: mod_add_left_eq)
  then show "ring_contents ((head + 1) mod length buf) len (buf[head := x]) ! k
      = ring_contents ((head + 1) mod length buf) len buf ! k"
    using k by (simp add: ring_contents_nth)
qed simp

section \<open>Bounded byte streams\<close>

text \<open>A transfer on a stream: bytes put at the tail, or a number of bytes got from the head.\<close>

datatype 'b transfer = Put "'b list" | Get nat

text \<open>A run of transfers: refused transfers leave the stream alone, as the code's
  would-block errors do. The result is the bytes accepted, the bytes delivered and
  the stream.\<close>

fun transfers :: "('q \<Rightarrow> 'b list) \<Rightarrow> nat \<Rightarrow> ('b list \<Rightarrow> 'q \<Rightarrow> 'q) \<Rightarrow> (nat \<Rightarrow> 'q \<Rightarrow> 'b list \<times> 'q)
    \<Rightarrow> 'b transfer list \<Rightarrow> 'q \<Rightarrow> 'b list \<times> 'b list \<times> 'q" where
  "transfers contents cap put get [] q = ([], [], q)"
| "transfers contents cap put get (Put xs # ts) q =
     (if length (contents q) + length xs \<le> cap
      then (let (a, d, q') = transfers contents cap put get ts (put xs q) in (xs @ a, d, q'))
      else transfers contents cap put get ts q)"
| "transfers contents cap put get (Get n # ts) q =
     (if n \<le> length (contents q)
      then (let (a, d, q') = transfers contents cap put get ts (snd (get n q))
            in (a, fst (get n q) @ d, q'))
      else transfers contents cap put get ts q)"

text \<open>
  The contract of a bounded channel. \<open>put\<close> and \<open>get\<close> are the copy loops of the
  code, called only when the space or the data suffice.
\<close>

locale byte_stream =
  fixes contents :: "'q \<Rightarrow> 'b list"
    and invar :: "'q \<Rightarrow> bool"
    and capacity :: nat
    and put :: "'b list \<Rightarrow> 'q \<Rightarrow> 'q"
    and get :: "nat \<Rightarrow> 'q \<Rightarrow> 'b list \<times> 'q"
  assumes bounded: "invar q \<Longrightarrow> length (contents q) \<le> capacity"
    and put_contents: "invar q \<Longrightarrow> length (contents q) + length xs \<le> capacity \<Longrightarrow>
      contents (put xs q) = contents q @ xs"
    and put_invar: "invar q \<Longrightarrow> length (contents q) + length xs \<le> capacity \<Longrightarrow> invar (put xs q)"
    and get_bytes: "invar q \<Longrightarrow> n \<le> length (contents q) \<Longrightarrow> fst (get n q) = take n (contents q)"
    and get_contents: "invar q \<Longrightarrow> n \<le> length (contents q) \<Longrightarrow>
      contents (snd (get n q)) = drop n (contents q)"
    and get_invar: "invar q \<Longrightarrow> n \<le> length (contents q) \<Longrightarrow> invar (snd (get n q))"
begin

lemma transfers_invar:
  "invar q \<Longrightarrow> transfers contents capacity put get ts q = (a, d, q') \<Longrightarrow> invar q'"
proof (induction ts arbitrary: q a d q')
  case (Cons t ts)
  then show ?case
    by (cases t) (auto split: if_splits prod.splits intro: Cons.IH put_invar get_invar)
qed simp

lemma stream_integrity:
  "invar q \<Longrightarrow> transfers contents capacity put get ts q = (a, d, q') \<Longrightarrow>
    d @ contents q' = contents q @ a"
proof (induction ts arbitrary: q a d q')
  case (Cons t ts)
  then show ?case
    by (cases t) (auto simp: put_invar get_invar put_contents get_contents get_bytes
        split: if_splits prod.splits dest: Cons.IH [rotated])
qed simp

lemma put_get:
  assumes "invar q" "contents q = []" "length xs \<le> capacity"
  shows "fst (get (length xs) (put xs q)) = xs"
  using assms by (simp add: get_bytes put_contents put_invar)

end

end
