(* ===== verification/EventFd.thy ===== *)
theory EventFd
  imports Handles
begin

unbundle bit_operations_syntax

text \<open>
  \<^verbatim>\<open>src/src/linux_eventfd.rs\<close>: a table of 64 process-owned counters. The state is
  the table behind the module's lock; each public function is one definition that
  takes the table and returns its result with the new table. A backend descriptor
  is the slot index above \<open>EVENTFD_BASE\<close>. The readiness bits that poll and epoll
  share are declared here, as in the source.
\<close>

section \<open>State\<close>

definition EFD_SEMAPHORE :: u32 where "EFD_SEMAPHORE = 0x1"
definition EFD_NONBLOCK :: u32 where "EFD_NONBLOCK = 0x800"
definition EFD_CLOEXEC :: u32 where "EFD_CLOEXEC = 0x80000"

definition EVENTFD_ALLOWED_FLAGS :: u32 where
  "EVENTFD_ALLOWED_FLAGS = EFD_SEMAPHORE OR EFD_NONBLOCK OR EFD_CLOEXEC"

definition READY_IN :: u32 where "READY_IN = 0x001"
definition READY_OUT :: u32 where "READY_OUT = 0x004"
definition READY_ERR :: u32 where "READY_ERR = 0x008"
definition READY_HUP :: u32 where "READY_HUP = 0x010"

lemmas ready_defs = READY_IN_def READY_OUT_def READY_ERR_def READY_HUP_def

abbreviation MAXIMUM_EVENTFDS :: nat where "MAXIMUM_EVENTFDS \<equiv> 64"
definition EVENTFD_BASE :: u32 where "EVENTFD_BASE = 0x100"

datatype eventfd_error =
    EfInvalidArgument | EfBadFileDescriptor | EfWouldBlock | EfOverflow | EfCapacity
  | EfPermissionDenied

record eventfd_slot =
  ef_owner :: u32
  ef_counter :: u64
  ef_flags :: u32
  ef_readiness_generation :: u64

definition EVENTFD_EMPTY :: eventfd_slot where
  "EVENTFD_EMPTY = \<lparr>ef_owner = 0, ef_counter = 0, ef_flags = 0, ef_readiness_generation = 0\<rparr>"

definition eventfd_occupied :: "eventfd_slot \<Rightarrow> bool" where
  "eventfd_occupied slot \<longleftrightarrow> ef_owner slot \<noteq> 0"

type_synonym eventfd_table = "eventfd_slot list"

definition eventfd_table_new :: eventfd_table where
  "eventfd_table_new = replicate MAXIMUM_EVENTFDS EVENTFD_EMPTY"

definition eventfd_index_for_fd :: "u32 \<Rightarrow> nat option" where
  "eventfd_index_for_fd fd =
     (if fd < EVENTFD_BASE then None
      else let index = unat (fd - EVENTFD_BASE)
           in if index < MAXIMUM_EVENTFDS then Some index else None)"

definition eventfd_fd_for_index :: "nat \<Rightarrow> u32" where
  "eventfd_fd_for_index index = EVENTFD_BASE + of_nat index"

section \<open>Operations\<close>

text \<open>The guard every operation on a descriptor repeats: the index is in range and
  the slot is occupied by the caller.\<close>

definition eventfd_lookup :: "u32 \<Rightarrow> u32 \<Rightarrow> eventfd_table \<Rightarrow> (nat, eventfd_error) result" where
  "eventfd_lookup owner fd table =
     (case eventfd_index_for_fd fd of
        None \<Rightarrow> Err EfBadFileDescriptor
      | Some index \<Rightarrow>
          if \<not> eventfd_occupied (table ! index) \<or> ef_owner (table ! index) \<noteq> owner
          then Err EfBadFileDescriptor else Ok index)"

definition eventfd_create ::
    "u32 \<Rightarrow> u64 \<Rightarrow> u32 \<Rightarrow> eventfd_table \<Rightarrow> (u32, eventfd_error) result \<times> eventfd_table" where
  "eventfd_create owner initial flags table =
     (if owner = 0 \<or> flags AND NOT EVENTFD_ALLOWED_FLAGS \<noteq> 0 then (Err EfInvalidArgument, table)
      else case position (\<lambda>slot. \<not> eventfd_occupied slot) table of
        None \<Rightarrow> (Err EfCapacity, table)
      | Some index \<Rightarrow>
          (Ok (eventfd_fd_for_index index),
           table[index := \<lparr>ef_owner = owner, ef_counter = initial, ef_flags = flags,
             ef_readiness_generation = (if initial \<noteq> 0 then 1 else 0)\<rparr>]))"

definition eventfd_read :: "u32 \<Rightarrow> u32 \<Rightarrow> eventfd_table \<Rightarrow> (u64, eventfd_error) result \<times> eventfd_table" where
  "eventfd_read owner fd table =
     (case eventfd_lookup owner fd table of
        Err e \<Rightarrow> (Err e, table)
      | Ok index \<Rightarrow>
          let slot = table ! index in
          if ef_counter slot = 0 then (Err EfWouldBlock, table)
          else if ef_flags slot AND EFD_SEMAPHORE \<noteq> 0 then
            let counter = ef_counter slot - 1 in
            (Ok 1, table[index := slot\<lparr>ef_counter := counter,
               ef_readiness_generation := (if counter = 0 then ef_readiness_generation slot + 1
                 else ef_readiness_generation slot)\<rparr>])
          else
            (Ok (ef_counter slot), table[index := slot\<lparr>ef_counter := 0,
               ef_readiness_generation := ef_readiness_generation slot + 1\<rparr>]))"

definition eventfd_write :: "u32 \<Rightarrow> u32 \<Rightarrow> u64 \<Rightarrow> eventfd_table \<Rightarrow> (unit, eventfd_error) result \<times> eventfd_table" where
  "eventfd_write owner fd value table =
     (case eventfd_index_for_fd fd of
        None \<Rightarrow> (Err EfBadFileDescriptor, table)
      | Some index \<Rightarrow>
          if value = - 1 then (Err EfInvalidArgument, table)
          else let slot = table ! index in
          if \<not> eventfd_occupied slot \<or> ef_owner slot \<noteq> owner then (Err EfBadFileDescriptor, table)
          else case checked_add (ef_counter slot) value of
            None \<Rightarrow> (Err EfOverflow, table)
          | Some counter \<Rightarrow>
              (Ok (), table[index := slot\<lparr>ef_counter := counter,
                 ef_readiness_generation :=
                   (if ef_counter slot = 0 \<and> counter \<noteq> 0 then ef_readiness_generation slot + 1
                    else ef_readiness_generation slot)\<rparr>]))"

definition eventfd_readiness :: "u32 \<Rightarrow> u32 \<Rightarrow> eventfd_table \<Rightarrow> (u32, eventfd_error) result" where
  "eventfd_readiness owner fd table =
     (case eventfd_lookup owner fd table of
        Err e \<Rightarrow> Err e
      | Ok index \<Rightarrow>
          let slot = table ! index;
              ready = READY_OUT;
              ready = (if ef_counter slot \<noteq> 0 then ready OR READY_IN else ready);
              ready = (if ef_counter slot = - 1 then ready AND NOT READY_OUT else ready)
          in Ok ready)"

definition eventfd_readiness_generation :: "u32 \<Rightarrow> u32 \<Rightarrow> eventfd_table \<Rightarrow> (u64, eventfd_error) result" where
  "eventfd_readiness_generation owner fd table =
     (case eventfd_lookup owner fd table of
        Err e \<Rightarrow> Err e
      | Ok index \<Rightarrow> Ok (ef_readiness_generation (table ! index)))"

definition eventfd_close :: "u32 \<Rightarrow> u32 \<Rightarrow> eventfd_table \<Rightarrow> (unit, eventfd_error) result \<times> eventfd_table" where
  "eventfd_close owner fd table =
     (case eventfd_lookup owner fd table of
        Err e \<Rightarrow> (Err e, table)
      | Ok index \<Rightarrow> (Ok (), table[index := EVENTFD_EMPTY]))"

definition eventfd_close_all :: "u32 \<Rightarrow> eventfd_table \<Rightarrow> nat \<times> eventfd_table" where
  "eventfd_close_all owner table =
     (if owner = 0 then (0, table)
      else (length (filter (\<lambda>slot. ef_owner slot = owner) table),
            map (\<lambda>slot. if ef_owner slot = owner then EVENTFD_EMPTY else slot) table))"

definition eventfd_close_on_exec :: "u32 \<Rightarrow> eventfd_table \<Rightarrow> nat \<times> eventfd_table" where
  "eventfd_close_on_exec owner table =
     (if owner = 0 then (0, table)
      else let doomed = (\<lambda>slot. ef_owner slot = owner \<and> ef_flags slot AND EFD_CLOEXEC \<noteq> 0)
           in (length (filter doomed table), map (\<lambda>slot. if doomed slot then EVENTFD_EMPTY else slot) table))"

section \<open>Lemmas\<close>

interpretation efd: offset_codec eventfd_index_for_fd eventfd_fd_for_index MAXIMUM_EVENTFDS
  by (rule offset_codec_of [where base = EVENTFD_BASE])
    (simp_all add: EVENTFD_BASE_def eventfd_index_for_fd_def offset_index_def eventfd_fd_for_index_def
      offset_handle_def)

lemmas eventfd_defs = eventfd_read_def eventfd_write_def eventfd_close_def eventfd_readiness_def
  eventfd_readiness_generation_def

lemma eventfd_lookup_Ok:
  "eventfd_lookup owner fd table = Ok index \<longleftrightarrow>
     eventfd_index_for_fd fd = Some index \<and> eventfd_occupied (table ! index)
     \<and> ef_owner (table ! index) = owner"
  by (auto simp: eventfd_lookup_def split: rust_splits)

lemma eventfd_lookup_index: "eventfd_lookup owner fd table = Ok index \<Longrightarrow> index < MAXIMUM_EVENTFDS"
  using efd.handle_index by (auto simp: eventfd_lookup_Ok)

text \<open>What a successful lookup and the slot's counter say about a slot update that
  keeps the owner: the descriptor still resolves to the same slot.\<close>

lemma eventfd_lookup_update:
  assumes "eventfd_lookup owner fd table = Ok index" "length table = MAXIMUM_EVENTFDS"
    "ef_owner slot = ef_owner (table ! index)"
  shows "eventfd_lookup owner fd (table[index := slot]) = Ok index"
  using assms eventfd_lookup_index [OF assms(1)]
  by (auto simp: eventfd_lookup_Ok eventfd_occupied_def)


subsection \<open>Units are conserved\<close>

text \<open>A run of reads and writes on one descriptor, with the totals the successful
  calls report.\<close>

datatype eventfd_call = EfdRead | EfdWrite u64

fun eventfd_run :: "u32 \<Rightarrow> u32 \<Rightarrow> eventfd_call list \<Rightarrow> eventfd_table \<Rightarrow> nat \<times> nat \<times> eventfd_table" where
  "eventfd_run owner fd [] table = (0, 0, table)"
| "eventfd_run owner fd (EfdRead # calls) table =
     (case eventfd_read owner fd table of
        (Err e, table') \<Rightarrow> eventfd_run owner fd calls table'
      | (Ok v, table') \<Rightarrow>
          let (w, r, table'') = eventfd_run owner fd calls table' in (w, unat v + r, table''))"
| "eventfd_run owner fd (EfdWrite v # calls) table =
     (case eventfd_write owner fd v table of
        (Err e, table') \<Rightarrow> eventfd_run owner fd calls table'
      | (Ok _, table') \<Rightarrow>
          let (w, r, table'') = eventfd_run owner fd calls table' in (unat v + w, r, table''))"

lemma eventfd_read_effect:
  assumes "eventfd_lookup owner fd table = Ok i" "length table = MAXIMUM_EVENTFDS"
    "eventfd_read owner fd table = (res, table')"
  shows "length table' = MAXIMUM_EVENTFDS \<and> eventfd_lookup owner fd table' = Ok i \<and>
    (case res of Ok v \<Rightarrow> unat (ef_counter (table' ! i)) + unat v = unat (ef_counter (table ! i))
     | Err e \<Rightarrow> table' = table \<and> e = EfWouldBlock \<and> ef_counter (table ! i) = 0)"
proof (cases "ef_counter (table ! i) = 0")
  case True
  then show ?thesis using assms by (auto simp: eventfd_read_def Let_def)
next
  case False
  have i: "i < length table" using assms(2) eventfd_lookup_index [OF assms(1)] by simp
  have "unat (ef_counter (table ! i) - 1) + 1 = unat (ef_counter (table ! i))"
    using False by (metis Suc_eq_plus1 unat_minus_one unat_gt_0 Suc_pred')
  then show ?thesis
    using assms False i by (auto simp: eventfd_read_def Let_def eventfd_lookup_update split: if_splits)
qed

lemma eventfd_write_effect:
  assumes "eventfd_lookup owner fd table = Ok i" "length table = MAXIMUM_EVENTFDS"
    "eventfd_write owner fd v table = (res, table')"
  shows "length table' = MAXIMUM_EVENTFDS \<and> eventfd_lookup owner fd table' = Ok i \<and>
    (case res of Ok _ \<Rightarrow> unat (ef_counter (table' ! i)) = unat (ef_counter (table ! i)) + unat v
     | Err e \<Rightarrow> table' = table)"
proof -
  have i: "i < length table" using assms(2) eventfd_lookup_index [OF assms(1)] by simp
  have l: "eventfd_index_for_fd fd = Some i" "eventfd_occupied (table ! i)" "ef_owner (table ! i) = owner"
    using assms(1) by (simp_all add: eventfd_lookup_Ok)
  show ?thesis
    using assms i l by (auto simp: eventfd_write_def Let_def eventfd_lookup_update checked_add_Some_iff
        split: if_splits option.splits)
qed

lemma eventfd_run_conserves:
  assumes "eventfd_lookup owner fd table = Ok i" "length table = MAXIMUM_EVENTFDS"
    "eventfd_run owner fd calls table = (w, r, table')"
  shows "eventfd_lookup owner fd table' = Ok i \<and>
    unat (ef_counter (table' ! i)) + r = unat (ef_counter (table ! i)) + w"
  using assms
proof (induction calls arbitrary: table w r)
  case Nil
  then show ?case by simp
next
  case (Cons c calls)
  show ?case
  proof (cases c)
    case EfdRead
    obtain res t where t: "eventfd_read owner fd table = (res, t)" by fastforce
    show ?thesis
      using Cons.IH [of t] Cons.prems eventfd_read_effect [OF Cons.prems(1,2) t] t EfdRead
      by (cases res) (auto split: prod.splits)
  next
    case (EfdWrite v)
    obtain res t where t: "eventfd_write owner fd v table = (res, t)" by fastforce
    show ?thesis
      using Cons.IH [of t] Cons.prems eventfd_write_effect [OF Cons.prems(1,2) t] t EfdWrite
      by (cases res) (auto split: prod.splits)
  qed
qed

subsection \<open>Readiness\<close>

lemma eventfd_ready_in:
  "eventfd_lookup owner fd table = Ok i \<Longrightarrow> eventfd_readiness owner fd table = Ok r \<Longrightarrow>
    (r AND READY_IN \<noteq> 0) = (ef_counter (table ! i) \<noteq> 0)"
  by (auto simp: eventfd_readiness_def ready_defs Let_def split: if_splits)

lemma eventfd_ready_out:
  "eventfd_lookup owner fd table = Ok i \<Longrightarrow> eventfd_readiness owner fd table = Ok r \<Longrightarrow>
    (r AND READY_OUT \<noteq> 0) = (ef_counter (table ! i) \<noteq> - 1)"
  by (auto simp: eventfd_readiness_def ready_defs Let_def split: if_splits)

subsection \<open>Properties\<close>

text \<open>
  Readiness of an eventfd is exact: the input bit is reported if and only if a read
  would deliver a value, and the output bit if and only if a write of one unit would be
  accepted, in the same state.
\<close>

theorem eventfd_readiness_exact:
  assumes "length table = MAXIMUM_EVENTFDS" "eventfd_readiness owner fd table = Ok r"
  shows "(r AND READY_IN \<noteq> 0) = is_Ok (fst (eventfd_read owner fd table)) \<and>
    (r AND READY_OUT \<noteq> 0) = is_Ok (fst (eventfd_write owner fd 1 table))"
proof -
  obtain i where i: "eventfd_lookup owner fd table = Ok i"
    using assms(2) by (auto simp: eventfd_readiness_def split: result.splits)
  have "(r AND READY_IN \<noteq> 0) = is_Ok (fst (eventfd_read owner fd table))"
    using eventfd_ready_in [OF i assms(2)] i by (auto simp: eventfd_read_def Let_def)
  moreover have "(r AND READY_OUT \<noteq> 0) = is_Ok (fst (eventfd_write owner fd 1 table))"
    using eventfd_ready_out [OF i assms(2)] i room_for_one [of "ef_counter (table ! i)"]
    by (auto simp: eventfd_write_def eventfd_lookup_Ok Let_def checked_add_def split: option.splits)
  ultimately show ?thesis by blast
qed

theorem eventfd_readiness_exact_witness:
  "length eventfd_table_new = MAXIMUM_EVENTFDS \<and>
   eventfd_create 7 3 0 eventfd_table_new = (Ok 0x100, (snd (eventfd_create 7 3 0 eventfd_table_new))) \<and>
   eventfd_readiness 7 0x100 (snd (eventfd_create 7 3 0 eventfd_table_new)) = Ok 5 \<and>
   ((5 :: u32) AND READY_IN \<noteq> 0)
     = is_Ok (fst (eventfd_read 7 0x100 (snd (eventfd_create 7 3 0 eventfd_table_new))))"
proof -
  let ?t = "snd (eventfd_create 7 3 0 eventfd_table_new)"
  have c: "eventfd_create 7 3 0 eventfd_table_new = (Ok 0x100, ?t)" by code_simp
  have l: "length ?t = MAXIMUM_EVENTFDS" by code_simp
  have r: "eventfd_readiness 7 0x100 ?t = Ok 5" by code_simp
  from eventfd_readiness_exact [OF l r] c r show ?thesis by (simp add: eventfd_table_new_def)
qed


text \<open>
  C31. No unit is lost or duplicated: over any sequence of reads and writes on an open
  eventfd, in either mode, the counter plus everything the successful reads returned
  equals the first counter plus everything the successful writes added.
\<close>

theorem eventfd_units_conserved:
  assumes "length table = MAXIMUM_EVENTFDS" "eventfd_lookup owner fd table = Ok i"
    "eventfd_run owner fd calls table = (w, r, table')"
  shows "eventfd_lookup owner fd table' = Ok i \<and>
    unat (ef_counter (table' ! i)) + r = unat (ef_counter (table ! i)) + w"
  using eventfd_run_conserves [OF assms(2,1,3)] .

theorem eventfd_units_conserved_witness:
  "let table = snd (eventfd_create 7 3 EFD_SEMAPHORE eventfd_table_new);
       table' = snd (snd (eventfd_run 7 0x100 [EfdRead, EfdWrite 5, EfdRead] table))
   in length table = MAXIMUM_EVENTFDS \<and> eventfd_lookup 7 0x100 table = Ok 0 \<and>
      eventfd_run 7 0x100 [EfdRead, EfdWrite 5, EfdRead] table = (5, 2, table') \<and>
      unat (ef_counter (table' ! 0)) + 2 = unat (ef_counter (table ! 0)) + 5"
proof -
  let ?t = "snd (eventfd_create 7 3 EFD_SEMAPHORE eventfd_table_new)"
  let ?calls = "[EfdRead, EfdWrite 5, EfdRead]"
  let ?t' = "snd (snd (eventfd_run 7 0x100 ?calls ?t))"
  have l: "length ?t = MAXIMUM_EVENTFDS" by code_simp
  have k: "eventfd_lookup 7 0x100 ?t = Ok 0" by code_simp
  have "fst (eventfd_run 7 0x100 ?calls ?t) = 5 \<and> fst (snd (eventfd_run 7 0x100 ?calls ?t)) = 2"
    by code_simp
  then have r: "eventfd_run 7 0x100 ?calls ?t = (5, 2, ?t')" by (metis prod.collapse)
  from eventfd_units_conserved [OF l k r] l k r show ?thesis by (simp add: Let_def)
qed

text \<open>
  The transition generation that edge-triggered watches observe advances exactly when a
  successful call moves the counter between empty and readable: a read advances it if
  and only if it empties the counter, a write if and only if it fills an empty one.
\<close>

theorem eventfd_generation_tracks_input:
  assumes "length table = MAXIMUM_EVENTFDS" "eventfd_lookup owner fd table = Ok i"
  shows "(\<forall>v table'. eventfd_read owner fd table = (Ok v, table') \<longrightarrow>
      ef_readiness_generation (table' ! i) = ef_readiness_generation (table ! i)
        + (if ef_counter (table' ! i) = 0 then 1 else 0)) \<and>
    (\<forall>v table'. eventfd_write owner fd v table = (Ok (), table') \<longrightarrow>
      ef_readiness_generation (table' ! i) = ef_readiness_generation (table ! i)
        + (if ef_counter (table ! i) = 0 \<and> ef_counter (table' ! i) \<noteq> 0 then 1 else 0))"
proof -
  have i: "i < length table" using assms(1) eventfd_lookup_index [OF assms(2)] by simp
  have l: "eventfd_index_for_fd fd = Some i" "eventfd_occupied (table ! i)" "ef_owner (table ! i) = owner"
    using assms(2) by (simp_all add: eventfd_lookup_Ok)
  show ?thesis
    using i l assms(2)
    by (auto simp: eventfd_read_def eventfd_write_def Let_def split: if_splits option.splits)
qed

theorem eventfd_generation_tracks_input_witness:
  "let table = snd (eventfd_create 7 3 0 eventfd_table_new)
   in length table = MAXIMUM_EVENTFDS \<and> eventfd_lookup 7 0x100 table = Ok 0 \<and>
      eventfd_read 7 0x100 table = (Ok 3, snd (eventfd_read 7 0x100 table)) \<and>
      ef_readiness_generation (snd (eventfd_read 7 0x100 table) ! 0)
        = ef_readiness_generation (table ! 0) + 1"
proof -
  let ?t = "snd (eventfd_create 7 3 0 eventfd_table_new)"
  have l: "length ?t = MAXIMUM_EVENTFDS" by code_simp
  have k: "eventfd_lookup 7 0x100 ?t = Ok 0" by code_simp
  have "fst (eventfd_read 7 0x100 ?t) = Ok 3" by code_simp
  then have r: "eventfd_read 7 0x100 ?t = (Ok 3, snd (eventfd_read 7 0x100 ?t))"
    by (metis prod.collapse)
  have c: "ef_counter (snd (eventfd_read 7 0x100 ?t) ! 0) = 0" by code_simp
  from conjunct1 [OF eventfd_generation_tracks_input [OF l k]] r c l k show ?thesis
    by (simp add: Let_def)
qed

text \<open>
  C38. A full counter that becomes writable again is not announced: a semaphore read of the
  all-ones counter makes the descriptor writable while the transition generation stays
  the same, so an edge-triggered output watch sees no edge.
\<close>

theorem eventfd_full_to_writable_unannounced:
  assumes "length table = MAXIMUM_EVENTFDS" "eventfd_lookup owner fd table = Ok i"
    "ef_counter (table ! i) = - 1" "ef_flags (table ! i) AND EFD_SEMAPHORE \<noteq> 0"
  shows "\<exists>table' r r'. eventfd_read owner fd table = (Ok 1, table') \<and>
    eventfd_readiness owner fd table = Ok r \<and> r AND READY_OUT = 0 \<and>
    eventfd_readiness owner fd table' = Ok r' \<and> r' AND READY_OUT \<noteq> 0 \<and>
    eventfd_readiness_generation owner fd table' = eventfd_readiness_generation owner fd table"
proof -
  have i: "i < length table" using assms(1) eventfd_lookup_index [OF assms(2)] by simp
  let ?slot = "(table ! i)\<lparr>ef_counter := - 2\<rparr>"
  have rd: "eventfd_read owner fd table = (Ok 1, table[i := ?slot])"
    using assms by (simp add: eventfd_read_def Let_def)
  have k: "eventfd_lookup owner fd (table[i := ?slot]) = Ok i"
    using assms by (simp add: eventfd_lookup_update)
  show ?thesis
    using rd k i assms
    by (auto simp: eventfd_readiness_def eventfd_readiness_generation_def ready_defs Let_def)
qed

theorem eventfd_full_to_writable_unannounced_witness:
  "let table = snd (eventfd_create 7 (- 1) EFD_SEMAPHORE eventfd_table_new)
   in length table = MAXIMUM_EVENTFDS \<and> eventfd_lookup 7 0x100 table = Ok 0 \<and>
      (\<exists>table' r r'. eventfd_read 7 0x100 table = (Ok 1, table') \<and>
        eventfd_readiness 7 0x100 table = Ok r \<and> r AND READY_OUT = 0 \<and>
        eventfd_readiness 7 0x100 table' = Ok r' \<and> r' AND READY_OUT \<noteq> 0 \<and>
        eventfd_readiness_generation 7 0x100 table' = eventfd_readiness_generation 7 0x100 table)"
proof -
  let ?t = "snd (eventfd_create 7 (- 1) EFD_SEMAPHORE eventfd_table_new)"
  have l: "length ?t = MAXIMUM_EVENTFDS" by code_simp
  have k: "eventfd_lookup 7 0x100 ?t = Ok 0" by code_simp
  have c: "ef_counter (?t ! 0) = - 1" by code_simp
  have f: "ef_flags (?t ! 0) AND EFD_SEMAPHORE \<noteq> 0" by code_simp
  from eventfd_full_to_writable_unannounced [OF l k c f] l k show ?thesis by (simp add: Let_def)
qed

end
