(* ===== verification/Pipe.thy ===== *)
theory Pipe
  imports Handles Ring EventFd
begin

unbundle bit_operations_syntax

text \<open>
  \<^verbatim>\<open>src/src/linux_pipe.rs\<close>: 32 bounded pipes and the 64 endpoint slots that name
  them. The registry behind the module's lock is the record \<open>pipe_registry\<close>; each
  public function is one definition. The copy loops of \<open>read\<close> and \<open>write\<close> are the
  recursive functions \<open>pipe_take\<close> and \<open>pipe_append\<close>, which implement the interface
  \<open>byte_stream\<close>. Endpoint handles implement \<open>handle_codec\<close>, the endpoint table
  \<open>generation_lifetime\<close> and the registry invariant \<open>invariant_machine\<close>.
\<close>

section \<open>State\<close>

abbreviation PIPE_BUF :: nat where "PIPE_BUF \<equiv> 4096"
abbreviation MAXIMUM_PIPES :: nat where "MAXIMUM_PIPES \<equiv> 32"
abbreviation MAXIMUM_ENDPOINTS :: nat where "MAXIMUM_ENDPOINTS \<equiv> 64"
abbreviation ENDPOINT_INDEX_BITS :: nat where "ENDPOINT_INDEX_BITS \<equiv> 8"

definition ENDPOINT_INDEX_MASK :: u32 where "ENDPOINT_INDEX_MASK = 0xFF"
definition MAXIMUM_ENDPOINT_GENERATION :: u32 where "MAXIMUM_ENDPOINT_GENERATION = 0xFFFFFF"

datatype pipe_error =
    PipeInvalidArgument | PipeBadFileDescriptor | PipeWouldBlock | PipeBrokenPipe | PipeCapacity

datatype direction = DirRead | DirWrite

record endpoint_slot =
  ep_occupied :: bool
  ep_generation :: u32
  ep_owner :: process_handle
  ep_pipe_index :: u8
  ep_pipe_generation :: u32
  ep_direction :: direction

definition ENDPOINT_EMPTY :: endpoint_slot where
  "ENDPOINT_EMPTY = \<lparr>ep_occupied = False, ep_generation = 0, ep_owner = no_handle,
     ep_pipe_index = 0, ep_pipe_generation = 0, ep_direction = DirRead\<rparr>"

record pipe_slot =
  pp_occupied :: bool
  pp_generation :: u32
  pp_owner :: process_handle
  pp_read_open :: bool
  pp_write_open :: bool
  pp_head :: nat
  pp_length :: nat
  pp_bytes :: "u8 list"
  pp_readiness_generation :: u64

definition PIPE_EMPTY :: pipe_slot where
  "PIPE_EMPTY = \<lparr>pp_occupied = False, pp_generation = 0, pp_owner = no_handle,
     pp_read_open = False, pp_write_open = False, pp_head = 0, pp_length = 0,
     pp_bytes = replicate PIPE_BUF 0, pp_readiness_generation = 0\<rparr>"

record pipe_registry =
  pr_pipes :: "pipe_slot list"
  pr_endpoints :: "endpoint_slot list"

definition pipe_registry_new :: pipe_registry where
  "pipe_registry_new = \<lparr>pr_pipes = replicate MAXIMUM_PIPES PIPE_EMPTY,
     pr_endpoints = replicate MAXIMUM_ENDPOINTS ENDPOINT_EMPTY\<rparr>"

section \<open>Operations\<close>

definition encode_endpoint :: "nat \<Rightarrow> u32 \<Rightarrow> u32 option" where
  "encode_endpoint index generation =
     (if index \<ge> MAXIMUM_ENDPOINTS \<or> generation = 0 \<or> generation > MAXIMUM_ENDPOINT_GENERATION then None
      else Some (push_bit ENDPOINT_INDEX_BITS generation OR (of_nat index + 1)))"

definition decode_endpoint :: "u32 \<Rightarrow> (nat \<times> u32) option" where
  "decode_endpoint handle =
     (let encoded_index = handle AND ENDPOINT_INDEX_MASK;
          generation = drop_bit ENDPOINT_INDEX_BITS handle
      in if encoded_index = 0 \<or> generation = 0 then None
         else let index = unat (encoded_index - 1)
              in if index < MAXIMUM_ENDPOINTS then Some (index, generation) else None)"

definition pipe_next_generation :: "u32 \<Rightarrow> u32 option" where
  "pipe_next_generation current =
     (case checked_add current 1 of
        None \<Rightarrow> None
      | Some generation \<Rightarrow>
          if generation \<le> MAXIMUM_ENDPOINT_GENERATION then Some generation else None)"

definition resolved_endpoint ::
    "pipe_registry \<Rightarrow> process_handle \<Rightarrow> u32 \<Rightarrow> (nat \<times> endpoint_slot, pipe_error) result" where
  "resolved_endpoint registry owner handle =
     (case decode_endpoint handle of
        None \<Rightarrow> Err PipeBadFileDescriptor
      | Some (endpoint_index, generation) \<Rightarrow>
          let endpoint = pr_endpoints registry ! endpoint_index in
          if \<not> ep_occupied endpoint \<or> ep_generation endpoint \<noteq> generation \<or> ep_owner endpoint \<noteq> owner
          then Err PipeBadFileDescriptor
          else
            let pipe_index = unat (ep_pipe_index endpoint);
                pipe = pr_pipes registry ! pipe_index in
            if \<not> pp_occupied pipe \<or> pp_generation pipe \<noteq> ep_pipe_generation endpoint
                \<or> pp_owner pipe \<noteq> owner
            then Err PipeBadFileDescriptor
            else Ok (pipe_index, endpoint))"

text \<open>The slots that \<open>create\<close> stores.\<close>

definition fresh_pipe :: "u32 \<Rightarrow> process_handle \<Rightarrow> pipe_slot" where
  "fresh_pipe generation owner =
     \<lparr>pp_occupied = True, pp_generation = generation, pp_owner = owner, pp_read_open = True,
      pp_write_open = True, pp_head = 0, pp_length = 0, pp_bytes = replicate PIPE_BUF 0,
      pp_readiness_generation = 1\<rparr>"

definition fresh_endpoint :: "u32 \<Rightarrow> process_handle \<Rightarrow> nat \<Rightarrow> u32 \<Rightarrow> direction \<Rightarrow> endpoint_slot" where
  "fresh_endpoint generation owner pipe_index pipe_generation direction =
     \<lparr>ep_occupied = True, ep_generation = generation, ep_owner = owner,
      ep_pipe_index = of_nat pipe_index, ep_pipe_generation = pipe_generation, ep_direction = direction\<rparr>"

text \<open>The indices and generations \<open>create\<close> settles before it stores anything.\<close>

definition pipe_create_plan ::
    "pipe_registry \<Rightarrow> (nat \<times> nat \<times> nat \<times> u32 \<times> u32 \<times> u32) option" where
  "pipe_create_plan registry =
     (case position (\<lambda>pipe. \<not> pp_occupied pipe) (pr_pipes registry) of None \<Rightarrow> None
      | Some pipe_index \<Rightarrow>
     case position (\<lambda>endpoint. \<not> ep_occupied endpoint) (pr_endpoints registry) of None \<Rightarrow> None
      | Some read_index \<Rightarrow>
     case position_from (Suc read_index) (\<lambda>endpoint. \<not> ep_occupied endpoint) (pr_endpoints registry) of
        None \<Rightarrow> None
      | Some write_index \<Rightarrow>
     case checked_add (pp_generation (pr_pipes registry ! pipe_index)) 1 of None \<Rightarrow> None
      | Some pipe_generation \<Rightarrow>
     case pipe_next_generation (ep_generation (pr_endpoints registry ! read_index)) of None \<Rightarrow> None
      | Some read_generation \<Rightarrow>
     case pipe_next_generation (ep_generation (pr_endpoints registry ! write_index)) of None \<Rightarrow> None
      | Some write_generation \<Rightarrow>
        Some (pipe_index, read_index, write_index, pipe_generation, read_generation, write_generation))"

definition pipe_create ::
    "process_handle \<Rightarrow> pipe_registry \<Rightarrow> (u32 \<times> u32, pipe_error) result \<times> pipe_registry" where
  "pipe_create owner registry =
     (if ph_pid owner = 0 \<or> ph_generation owner = 0 then (Err PipeInvalidArgument, registry)
      else case pipe_create_plan registry of None \<Rightarrow> (Err PipeCapacity, registry)
      | Some (pipe_index, read_index, write_index, pipe_generation, read_generation, write_generation) \<Rightarrow>
     case encode_endpoint read_index read_generation of None \<Rightarrow> (Err PipeCapacity, registry)
      | Some read_handle \<Rightarrow>
     case encode_endpoint write_index write_generation of None \<Rightarrow> (Err PipeCapacity, registry)
      | Some write_handle \<Rightarrow>
         (Ok (read_handle, write_handle), registry
            \<lparr>pr_pipes := (pr_pipes registry)[pipe_index := fresh_pipe pipe_generation owner],
             pr_endpoints := (pr_endpoints registry)
               [read_index := fresh_endpoint read_generation owner pipe_index pipe_generation DirRead,
                write_index := fresh_endpoint write_generation owner pipe_index pipe_generation DirWrite]\<rparr>))"

text \<open>The copy loop of \<open>read\<close> moves the head only; the length is lowered afterwards.\<close>

fun pipe_take :: "nat \<Rightarrow> pipe_slot \<Rightarrow> u8 list \<times> pipe_slot" where
  "pipe_take 0 pipe = ([], pipe)"
| "pipe_take (Suc n) pipe =
     (let byte = pp_bytes pipe ! pp_head pipe;
          (rest, pipe') = pipe_take n (pipe\<lparr>pp_head := (pp_head pipe + 1) mod PIPE_BUF\<rparr>)
      in (byte # rest, pipe'))"

definition pipe_drain :: "nat \<Rightarrow> pipe_slot \<Rightarrow> u8 list \<times> pipe_slot" where
  "pipe_drain copied pipe =
     (let (output, pipe') = pipe_take copied pipe
      in (output, pipe'\<lparr>pp_length := pp_length pipe' - copied\<rparr>))"

fun pipe_append :: "u8 list \<Rightarrow> pipe_slot \<Rightarrow> pipe_slot" where
  "pipe_append [] pipe = pipe"
| "pipe_append (byte # input) pipe =
     (let tail = (pp_head pipe + pp_length pipe) mod PIPE_BUF
      in pipe_append input (pipe\<lparr>pp_bytes := (pp_bytes pipe)[tail := byte],
           pp_length := pp_length pipe + 1\<rparr>))"

definition pipe_touch :: "pipe_slot \<Rightarrow> pipe_slot" where
  "pipe_touch pipe = pipe\<lparr>pp_readiness_generation := pp_readiness_generation pipe + 1\<rparr>"

definition set_pipe :: "nat \<Rightarrow> pipe_slot \<Rightarrow> pipe_registry \<Rightarrow> pipe_registry" where
  "set_pipe index pipe registry = registry\<lparr>pr_pipes := (pr_pipes registry)[index := pipe]\<rparr>"

text \<open>\<open>read\<close> into an output slice of length \<open>n\<close>; the result is the slice's copied prefix.\<close>

definition pipe_read ::
    "process_handle \<Rightarrow> u32 \<Rightarrow> nat \<Rightarrow> pipe_registry \<Rightarrow> (u8 list, pipe_error) result \<times> pipe_registry" where
  "pipe_read owner handle n registry =
     (if n = 0 then (Ok [], registry)
      else case resolved_endpoint registry owner handle of
        Err e \<Rightarrow> (Err e, registry)
      | Ok (pipe_index, endpoint) \<Rightarrow>
          if ep_direction endpoint \<noteq> DirRead then (Err PipeBadFileDescriptor, registry)
          else let pipe = pr_pipes registry ! pipe_index in
          if pp_length pipe = 0
          then (if pp_write_open pipe then (Err PipeWouldBlock, registry) else (Ok [], registry))
          else
            let copied = min n (pp_length pipe);
                (output, pipe') = pipe_drain copied pipe
            in (Ok output, set_pipe pipe_index (pipe_touch pipe') registry))"

definition pipe_write ::
    "process_handle \<Rightarrow> u32 \<Rightarrow> u8 list \<Rightarrow> pipe_registry \<Rightarrow> (nat, pipe_error) result \<times> pipe_registry" where
  "pipe_write owner handle input registry =
     (if input = [] then (Ok 0, registry)
      else if length input > PIPE_BUF then (Err PipeInvalidArgument, registry)
      else case resolved_endpoint registry owner handle of
        Err e \<Rightarrow> (Err e, registry)
      | Ok (pipe_index, endpoint) \<Rightarrow>
          if ep_direction endpoint \<noteq> DirWrite then (Err PipeBadFileDescriptor, registry)
          else let pipe = pr_pipes registry ! pipe_index in
          if \<not> pp_read_open pipe then (Err PipeBrokenPipe, registry)
          else let available = PIPE_BUF - pp_length pipe in
          if length input > available then (Err PipeWouldBlock, registry)
          else (Ok (length input), set_pipe pipe_index (pipe_touch (pipe_append input pipe)) registry))"

definition pipe_readiness :: "process_handle \<Rightarrow> u32 \<Rightarrow> pipe_registry \<Rightarrow> (u32, pipe_error) result" where
  "pipe_readiness owner handle registry =
     (case resolved_endpoint registry owner handle of
        Err e \<Rightarrow> Err e
      | Ok (pipe_index, endpoint) \<Rightarrow>
          let pipe = pr_pipes registry ! pipe_index in
          case ep_direction endpoint of
            DirRead \<Rightarrow> Ok ((if pp_length pipe \<noteq> 0 then READY_IN else 0)
              OR (if \<not> pp_write_open pipe then READY_HUP else 0))
          | DirWrite \<Rightarrow>
              if \<not> pp_read_open pipe then Ok READY_ERR
              else if pp_length pipe < PIPE_BUF then Ok READY_OUT
              else Ok 0)"

definition pipe_readiness_generation ::
    "process_handle \<Rightarrow> u32 \<Rightarrow> pipe_registry \<Rightarrow> (u64, pipe_error) result" where
  "pipe_readiness_generation owner handle registry =
     (case resolved_endpoint registry owner handle of
        Err e \<Rightarrow> Err e
      | Ok (pipe_index, _) \<Rightarrow> Ok (pp_readiness_generation (pr_pipes registry ! pipe_index)))"

text \<open>What \<open>close\<close> does to the pipe: one direction is shut, and the slot is wiped once
  both are.\<close>

definition pipe_shut :: "direction \<Rightarrow> pipe_slot \<Rightarrow> pipe_slot" where
  "pipe_shut direction pipe =
     (let pipe = (case direction of DirRead \<Rightarrow> pipe\<lparr>pp_read_open := False\<rparr>
                   | DirWrite \<Rightarrow> pipe\<lparr>pp_write_open := False\<rparr>);
          pipe = pipe_touch pipe
      in if \<not> pp_read_open pipe \<and> \<not> pp_write_open pipe
         then pipe\<lparr>pp_occupied := False, pp_owner := no_handle, pp_head := 0, pp_length := 0,
                pp_bytes := replicate PIPE_BUF 0\<rparr>
         else pipe)"

definition pipe_close ::
    "process_handle \<Rightarrow> u32 \<Rightarrow> pipe_registry \<Rightarrow> (unit, pipe_error) result \<times> pipe_registry" where
  "pipe_close owner handle registry =
     (case resolved_endpoint registry owner handle of
        Err e \<Rightarrow> (Err e, registry)
      | Ok (pipe_index, endpoint) \<Rightarrow>
     case decode_endpoint handle of
        None \<Rightarrow> (Err PipeBadFileDescriptor, registry)
      | Some (endpoint_index, _) \<Rightarrow>
          (Ok (), set_pipe pipe_index (pipe_shut (ep_direction endpoint) (pr_pipes registry ! pipe_index))
             (registry\<lparr>pr_endpoints := (pr_endpoints registry)
                [endpoint_index := (pr_endpoints registry ! endpoint_index)\<lparr>ep_occupied := False\<rparr>]\<rparr>)))"

section \<open>Lemmas\<close>

subsection \<open>Endpoint handles\<close>

interpretation pep: handle_codec encode_endpoint decode_endpoint MAXIMUM_ENDPOINTS
proof (rule tagged_codec_of [where k = ENDPOINT_INDEX_BITS])
  show "encode_endpoint i g = tagged_encode ENDPOINT_INDEX_BITS MAXIMUM_ENDPOINTS i g" for i g
    by (auto simp: encode_endpoint_def tagged_encode_def MAXIMUM_ENDPOINT_GENERATION_def word_less_nat_alt)
  show "decode_endpoint h = tagged_decode ENDPOINT_INDEX_BITS MAXIMUM_ENDPOINTS h" for h
    by (simp add: decode_endpoint_def tagged_decode_def ENDPOINT_INDEX_MASK_def mask_eq_exp_minus_1)
qed simp_all

lemma encode_endpoint_next:
  assumes "i < MAXIMUM_ENDPOINTS" "pipe_next_generation g = Some g'"
  shows "\<exists>h. encode_endpoint i g' = Some h"
proof -
  from assms(2) have "g' \<noteq> 0" "g' \<le> MAXIMUM_ENDPOINT_GENERATION"
    using checked_add_one_nonzero by (auto simp: pipe_next_generation_def split: option.splits if_splits)
  with assms(1) show ?thesis by (auto simp: encode_endpoint_def)
qed

lemma pipe_next_generation_less: "pipe_next_generation g = Some g' \<Longrightarrow> g < g'"
  using checked_add_one_less by (auto simp: pipe_next_generation_def split: option.splits if_splits)

lemma resolved_endpoint_Ok:
  "resolved_endpoint registry owner handle = Ok (i, e) \<longleftrightarrow>
    (\<exists>j. decode_endpoint handle = Some (j, ep_generation e) \<and> e = pr_endpoints registry ! j \<and>
      ep_occupied e \<and> ep_owner e = owner \<and> i = unat (ep_pipe_index e) \<and>
      pp_occupied (pr_pipes registry ! i) \<and>
      pp_generation (pr_pipes registry ! i) = ep_pipe_generation e \<and>
      pp_owner (pr_pipes registry ! i) = owner)"
  by (auto simp: resolved_endpoint_def Let_def split: rust_splits)

subsection \<open>The byte stream of one pipe\<close>

definition pipe_contents :: "pipe_slot \<Rightarrow> u8 list" where
  "pipe_contents pipe = ring_contents (pp_head pipe) (pp_length pipe) (pp_bytes pipe)"

definition pipe_ring :: "pipe_slot \<Rightarrow> bool" where
  "pipe_ring pipe \<longleftrightarrow> length (pp_bytes pipe) = PIPE_BUF \<and> pp_head pipe < PIPE_BUF \<and> pp_length pipe \<le> PIPE_BUF"

lemma length_pipe_contents [simp]: "length (pipe_contents pipe) = pp_length pipe"
  by (simp add: pipe_contents_def)

lemma pipe_take_ring:
  assumes "length (pp_bytes pipe) = PIPE_BUF" "pp_head pipe < PIPE_BUF"
  shows "pipe_take n pipe = (ring_contents (pp_head pipe) n (pp_bytes pipe),
    pipe\<lparr>pp_head := (pp_head pipe + n) mod PIPE_BUF\<rparr>)"
  using assms
proof (induction n arbitrary: pipe)
  case (Suc n)
  then show ?case by (simp add: Let_def ring_contents_Suc mod_add_left_eq)
qed simp

lemma pipe_drain_ring:
  assumes "pipe_ring pipe"
  shows "pipe_drain n pipe = (ring_contents (pp_head pipe) n (pp_bytes pipe),
    pipe\<lparr>pp_head := (pp_head pipe + n) mod PIPE_BUF, pp_length := pp_length pipe - n\<rparr>)"
  using assms by (simp add: pipe_drain_def pipe_take_ring pipe_ring_def)

lemma pipe_append_ring:
  "pipe_ring pipe \<Longrightarrow> pp_length pipe + length input \<le> PIPE_BUF \<Longrightarrow>
    pipe_ring (pipe_append input pipe) \<and>
    pipe_contents (pipe_append input pipe) = pipe_contents pipe @ input"
proof (induction input arbitrary: pipe)
  case (Cons byte input)
  then show ?case
    using ring_contents_push [of "pp_length pipe" "pp_bytes pipe" "pp_head pipe" byte]
    by (simp add: Let_def pipe_ring_def pipe_contents_def)
qed simp

interpretation pst: byte_stream pipe_contents pipe_ring PIPE_BUF pipe_append pipe_drain
proof unfold_locales
  show "length (pipe_contents q) \<le> PIPE_BUF" if "pipe_ring q" for q
    using that by (simp add: pipe_ring_def)
  show "pipe_ring (snd (pipe_drain n q))" if "pipe_ring q" for q n
    using that by (auto simp: pipe_drain_ring pipe_ring_def)
  show "fst (pipe_drain n q) = take n (pipe_contents q)"
    if "pipe_ring q" "n \<le> length (pipe_contents q)" for q n
    using that by (simp add: pipe_drain_ring pipe_contents_def ring_contents_take)
  show "pipe_contents (snd (pipe_drain n q)) = drop n (pipe_contents q)"
    if "pipe_ring q" "n \<le> length (pipe_contents q)" for q n
    using that ring_contents_drop [of n "pp_length q" "pp_head q" "pp_bytes q"]
    by (simp add: pipe_drain_ring pipe_contents_def pipe_ring_def)
qed (simp_all add: pipe_append_ring)

text \<open>The copy loops and the readiness counter leave the rest of the slot alone.\<close>

definition pipe_frame :: "pipe_slot \<Rightarrow> pipe_slot \<Rightarrow> bool" where
  "pipe_frame p q \<longleftrightarrow> pp_occupied q = pp_occupied p \<and> pp_generation q = pp_generation p \<and>
     pp_owner q = pp_owner p \<and> pp_read_open q = pp_read_open p \<and> pp_write_open q = pp_write_open p"

lemma pipe_append_frame: "pipe_frame pipe (pipe_append input pipe)"
  by (induction input arbitrary: pipe) (simp_all add: pipe_frame_def Let_def)

lemma pipe_drain_frame: "pipe_ring pipe \<Longrightarrow> pipe_frame pipe (snd (pipe_drain n pipe))"
  by (simp add: pipe_drain_ring pipe_frame_def)

lemma pipe_touch_simps [simp]:
  "pipe_frame p (pipe_touch q) = pipe_frame p q" "pipe_ring (pipe_touch q) = pipe_ring q"
  "pipe_contents (pipe_touch q) = pipe_contents q"
  by (simp_all add: pipe_touch_def pipe_frame_def pipe_ring_def pipe_contents_def)

lemma set_pipe_simps [simp]:
  "pr_endpoints (set_pipe i p r) = pr_endpoints r" "pr_pipes (set_pipe i p r) = (pr_pipes r)[i := p]"
  by (simp_all add: set_pipe_def)

subsection \<open>The registry invariant\<close>

definition pipe_open :: "direction \<Rightarrow> pipe_slot \<Rightarrow> bool" where
  "pipe_open d pipe = (case d of DirRead \<Rightarrow> pp_read_open pipe | DirWrite \<Rightarrow> pp_write_open pipe)"

text \<open>An occupied endpoint names an occupied pipe of the same generation and owner whose
  direction is open.\<close>

definition endpoint_ok :: "pipe_slot list \<Rightarrow> endpoint_slot \<Rightarrow> bool" where
  "endpoint_ok pipes e \<longleftrightarrow> unat (ep_pipe_index e) < MAXIMUM_PIPES \<and> valid_owner (ep_owner e) \<and>
     (let pipe = pipes ! unat (ep_pipe_index e)
      in pp_occupied pipe \<and> pp_generation pipe = ep_pipe_generation e \<and> pp_owner pipe = ep_owner e \<and>
         pipe_open (ep_direction e) pipe)"

definition names_pipe :: "endpoint_slot \<Rightarrow> nat \<Rightarrow> direction \<Rightarrow> bool" where
  "names_pipe e i d \<longleftrightarrow> ep_occupied e \<and> unat (ep_pipe_index e) = i \<and> ep_direction e = d"

definition pipe_inv :: "pipe_registry \<Rightarrow> bool" where
  "pipe_inv r \<longleftrightarrow> length (pr_pipes r) = MAXIMUM_PIPES \<and> length (pr_endpoints r) = MAXIMUM_ENDPOINTS \<and>
     (\<forall>i < MAXIMUM_PIPES. pipe_ring (pr_pipes r ! i)) \<and>
     (\<forall>j < MAXIMUM_ENDPOINTS. ep_occupied (pr_endpoints r ! j) \<longrightarrow>
        endpoint_ok (pr_pipes r) (pr_endpoints r ! j)) \<and>
     (\<forall>j < MAXIMUM_ENDPOINTS. \<forall>k < MAXIMUM_ENDPOINTS. \<forall>i d.
        names_pipe (pr_endpoints r ! j) i d \<longrightarrow> names_pipe (pr_endpoints r ! k) i d \<longrightarrow> j = k) \<and>
     (\<forall>i < MAXIMUM_PIPES. \<forall>d. pipe_open d (pr_pipes r ! i) \<longrightarrow>
        (\<exists>j < MAXIMUM_ENDPOINTS. names_pipe (pr_endpoints r ! j) i d)) \<and>
     (\<forall>i < MAXIMUM_PIPES. pp_occupied (pr_pipes r ! i) =
        (pp_read_open (pr_pipes r ! i) \<or> pp_write_open (pr_pipes r ! i)))"

inductive pipe_step :: "pipe_registry \<Rightarrow> pipe_registry \<Rightarrow> bool" where
  created: "pipe_create owner r = (created, r') \<Longrightarrow> pipe_step r r'"
| read: "pipe_read owner handle n r = (output, r') \<Longrightarrow> pipe_step r r'"
| written: "pipe_write owner handle input r = (count, r') \<Longrightarrow> pipe_step r r'"
| closed: "pipe_close owner handle r = (closed, r') \<Longrightarrow> pipe_step r r'"

text \<open>The ways an operation changes the registry; every other outcome leaves it alone.\<close>

lemma pipe_create_plan_Some:
  assumes "pipe_create_plan r = Some (i, j, k, g, gr, gw)"
  shows "position (\<lambda>pipe. \<not> pp_occupied pipe) (pr_pipes r) = Some i"
    "position (\<lambda>e. \<not> ep_occupied e) (pr_endpoints r) = Some j"
    "position_from (Suc j) (\<lambda>e. \<not> ep_occupied e) (pr_endpoints r) = Some k"
    "ep_generation (pr_endpoints r ! j) < gr" "ep_generation (pr_endpoints r ! k) < gw"
  using assms by (auto simp: pipe_create_plan_def pipe_next_generation_less split: option.splits)

lemma pipe_create_cases:
  assumes "pipe_create owner r = (res, r')"
  obtains (same) e where "r' = r" "res = Err e"
  | (created) i j k g gr gw hr hw where
      "position (\<lambda>pipe. \<not> pp_occupied pipe) (pr_pipes r) = Some i"
      "position (\<lambda>e. \<not> ep_occupied e) (pr_endpoints r) = Some j"
      "position_from (Suc j) (\<lambda>e. \<not> ep_occupied e) (pr_endpoints r) = Some k"
      "valid_owner owner" "ep_generation (pr_endpoints r ! j) < gr" "ep_generation (pr_endpoints r ! k) < gw"
      "encode_endpoint j gr = Some hr" "encode_endpoint k gw = Some hw" "res = Ok (hr, hw)"
      "r' = r\<lparr>pr_pipes := (pr_pipes r)[i := fresh_pipe g owner],
        pr_endpoints := (pr_endpoints r)[j := fresh_endpoint gr owner i g DirRead,
          k := fresh_endpoint gw owner i g DirWrite]\<rparr>"
proof (cases "valid_owner owner \<and> is_Ok res")
  case False
  then show thesis
    using assms same by (fastforce simp: pipe_create_def valid_owner_def split: option.splits if_splits prod.splits)
next
  case True
  then obtain i j k g gr gw hr hw where p: "pipe_create_plan r = Some (i, j, k, g, gr, gw)"
    and "encode_endpoint j gr = Some hr" "encode_endpoint k gw = Some hw" "res = Ok (hr, hw)"
      "r' = r\<lparr>pr_pipes := (pr_pipes r)[i := fresh_pipe g owner],
        pr_endpoints := (pr_endpoints r)[j := fresh_endpoint gr owner i g DirRead,
          k := fresh_endpoint gw owner i g DirWrite]\<rparr>"
    using assms by (auto simp: pipe_create_def split: option.splits if_splits)
  with pipe_create_plan_Some [OF p] True show thesis by (intro created) simp_all
qed

lemma pipe_read_cases:
  assumes "pipe_read owner h n r = (res, r')"
  obtains (same) "r' = r" "case res of Ok bs \<Rightarrow> bs = [] | Err e \<Rightarrow> True"
  | (moved) i e where "resolved_endpoint r owner h = Ok (i, e)" "ep_direction e = DirRead"
      "pp_length (pr_pipes r ! i) \<noteq> 0" "n \<noteq> 0"
      "res = Ok (fst (pipe_drain (min n (pp_length (pr_pipes r ! i))) (pr_pipes r ! i)))"
      "r' = set_pipe i (pipe_touch
        (snd (pipe_drain (min n (pp_length (pr_pipes r ! i))) (pr_pipes r ! i)))) r"
  using assms by (auto simp: pipe_read_def Let_def split: rust_splits)

lemma pipe_write_cases:
  assumes "pipe_write owner h bs r = (res, r')"
  obtains (same) "r' = r" "case res of Ok n \<Rightarrow> n = 0 \<and> bs = [] | Err e \<Rightarrow> True"
  | (moved) i e where "resolved_endpoint r owner h = Ok (i, e)" "ep_direction e = DirWrite"
      "bs \<noteq> []" "pp_read_open (pr_pipes r ! i)" "pp_length (pr_pipes r ! i) + length bs \<le> PIPE_BUF"
      "res = Ok (length bs)"
      "r' = set_pipe i (pipe_touch (pipe_append bs (pr_pipes r ! i))) r"
proof (cases "bs = [] \<or> \<not> is_Ok res")
  case True
  with assms show thesis by (intro same) (auto simp: pipe_write_def Let_def split: rust_splits)
next
  case False
  then obtain i e where r: "resolved_endpoint r owner h = Ok (i, e)" "bs \<noteq> []"
    "\<not> length bs > PIPE_BUF - pp_length (pr_pipes r ! i)" "ep_direction e = DirWrite"
    "pp_read_open (pr_pipes r ! i)" "res = Ok (length bs)"
    "r' = set_pipe i (pipe_touch (pipe_append bs (pr_pipes r ! i))) r"
    using assms by (auto simp: pipe_write_def Let_def split: rust_splits)
  moreover from r(2,3) have "pp_length (pr_pipes r ! i) + length bs \<le> PIPE_BUF"
    by (cases bs) auto
  ultimately show thesis by (intro moved)
qed

lemma pipe_close_cases:
  assumes "pipe_close owner h r = (res, r')"
  obtains (same) e where "r' = r" "res = Err e"
  | (closed) i e j where "resolved_endpoint r owner h = Ok (i, e)" "e = pr_endpoints r ! j"
      "decode_endpoint h = Some (j, ep_generation e)" "ep_occupied e" "res = Ok ()"
      "i = unat (ep_pipe_index e)"
      "r' = r\<lparr>pr_endpoints := (pr_endpoints r)[j := e\<lparr>ep_occupied := False\<rparr>],
        pr_pipes := (pr_pipes r)[i := pipe_shut (ep_direction e) (pr_pipes r ! i)]\<rparr>"
proof (cases "resolved_endpoint r owner h")
  case (Ok ie)
  obtain i e where ie: "ie = (i, e)" by fastforce
  with Ok obtain j where j: "decode_endpoint h = Some (j, ep_generation e)" "e = pr_endpoints r ! j"
    "ep_occupied e" "i = unat (ep_pipe_index e)" by (auto simp: resolved_endpoint_Ok)
  show thesis
    by (rule closed [OF Ok [unfolded ie] j(2,1,3) _ j(4)])
      (use assms Ok ie j in \<open>simp_all add: pipe_close_def set_pipe_def\<close>)
next
  case (Err x)
  with assms show thesis by (intro same [of x]) (simp_all add: pipe_close_def)
qed

lemma pipe_inv_new: "pipe_inv pipe_registry_new"
  by (simp add: pipe_inv_def pipe_registry_new_def PIPE_EMPTY_def ENDPOINT_EMPTY_def pipe_ring_def
      pipe_open_def names_pipe_def split: direction.splits)

text \<open>Replacing a pipe by one with the same frame keeps the invariant.\<close>

lemma pipe_inv_set:
  assumes "pipe_inv r" "pipe_frame (pr_pipes r ! i) p" "pipe_ring p"
  shows "pipe_inv (set_pipe i p r)"
proof (cases "i < MAXIMUM_PIPES")
  case True
  have o: "pipe_open d p = pipe_open d (pr_pipes r ! i)" for d
    using assms(2) by (simp add: pipe_frame_def pipe_open_def split: direction.splits)
  have "endpoint_ok ((pr_pipes r)[i := p]) e = endpoint_ok (pr_pipes r) e" for e
    using assms True o by (auto simp: endpoint_ok_def pipe_frame_def Let_def nth_list_update pipe_inv_def)
  then show ?thesis
    using assms True o by (simp add: pipe_inv_def nth_list_update pipe_frame_def)
next
  case False
  with assms(1) have "set_pipe i p r = r" by (cases r) (simp add: set_pipe_def pipe_inv_def list_update_beyond)
  with assms(1) show ?thesis by simp
qed

lemma resolved_pipe:
  assumes "pipe_inv r" "resolved_endpoint r owner h = Ok (i, e)"
  shows "i < MAXIMUM_PIPES \<and> pipe_ring (pr_pipes r ! i) \<and> pipe_open (ep_direction e) (pr_pipes r ! i)"
proof -
  from assms(2) obtain j where j: "decode_endpoint h = Some (j, ep_generation e)" "e = pr_endpoints r ! j"
    "ep_occupied e" "i = unat (ep_pipe_index e)" by (auto simp: resolved_endpoint_Ok)
  from pep.decode_range [OF j(1)] have "j < MAXIMUM_ENDPOINTS" by simp
  with j assms(1) have "endpoint_ok (pr_pipes r) e" by (simp add: pipe_inv_def)
  with j(4) assms(1) show ?thesis by (auto simp: endpoint_ok_def Let_def pipe_inv_def)
qed

lemma pipe_inv_read: "pipe_inv r \<Longrightarrow> pipe_read owner h n r = (res, r') \<Longrightarrow> pipe_inv r'"
  by (erule pipe_read_cases) (auto dest: resolved_pipe intro!: pipe_inv_set pipe_drain_frame pst.get_invar)

lemma pipe_inv_write: "pipe_inv r \<Longrightarrow> pipe_write owner h bs r = (res, r') \<Longrightarrow> pipe_inv r'"
  by (erule pipe_write_cases)
    (auto dest: resolved_pipe intro!: pipe_inv_set pipe_append_frame pst.put_invar)

lemma pipe_inv_named:
  "pipe_inv r \<Longrightarrow> i < MAXIMUM_PIPES \<Longrightarrow> pipe_open d (pr_pipes r ! i) \<Longrightarrow>
    \<exists>j < MAXIMUM_ENDPOINTS. names_pipe (pr_endpoints r ! j) i d"
  by (simp add: pipe_inv_def)

lemma pipe_inv_unique:
  "pipe_inv r \<Longrightarrow> j < MAXIMUM_ENDPOINTS \<Longrightarrow> k < MAXIMUM_ENDPOINTS \<Longrightarrow>
    names_pipe (pr_endpoints r ! j) i d \<Longrightarrow> names_pipe (pr_endpoints r ! k) i d \<Longrightarrow> j = k"
  unfolding pipe_inv_def by blast

lemma pipe_inv_lengths:
  "pipe_inv r \<Longrightarrow> length (pr_pipes r) = MAXIMUM_PIPES \<and> length (pr_endpoints r) = MAXIMUM_ENDPOINTS"
  by (simp add: pipe_inv_def)

lemma pipe_inv_endpoint:
  "pipe_inv r \<Longrightarrow> j < MAXIMUM_ENDPOINTS \<Longrightarrow> ep_occupied (pr_endpoints r ! j) \<Longrightarrow>
    endpoint_ok (pr_pipes r) (pr_endpoints r ! j)"
  by (simp add: pipe_inv_def)

lemma pipe_inv_slot:
  "pipe_inv r \<Longrightarrow> i < MAXIMUM_PIPES \<Longrightarrow> pipe_ring (pr_pipes r ! i) \<and>
    pp_occupied (pr_pipes r ! i) = (pp_read_open (pr_pipes r ! i) \<or> pp_write_open (pr_pipes r ! i))"
  by (simp add: pipe_inv_def)

lemma pipe_invI:
  assumes "length (pr_pipes r) = MAXIMUM_PIPES" "length (pr_endpoints r) = MAXIMUM_ENDPOINTS"
    "\<And>i. i < MAXIMUM_PIPES \<Longrightarrow> pipe_ring (pr_pipes r ! i) \<and>
      pp_occupied (pr_pipes r ! i) = (pp_read_open (pr_pipes r ! i) \<or> pp_write_open (pr_pipes r ! i))"
    "\<And>j. j < MAXIMUM_ENDPOINTS \<Longrightarrow> ep_occupied (pr_endpoints r ! j) \<Longrightarrow>
      endpoint_ok (pr_pipes r) (pr_endpoints r ! j)"
    "\<And>j k i d. j < MAXIMUM_ENDPOINTS \<Longrightarrow> k < MAXIMUM_ENDPOINTS \<Longrightarrow>
      names_pipe (pr_endpoints r ! j) i d \<Longrightarrow> names_pipe (pr_endpoints r ! k) i d \<Longrightarrow> j = k"
    "\<And>i d. i < MAXIMUM_PIPES \<Longrightarrow> pipe_open d (pr_pipes r ! i) \<Longrightarrow>
      \<exists>j < MAXIMUM_ENDPOINTS. names_pipe (pr_endpoints r ! j) i d"
  shows "pipe_inv r"
  using assms unfolding pipe_inv_def by blast

text \<open>No endpoint names a free pipe.\<close>

lemma free_pipe_unnamed:
  "pipe_inv r \<Longrightarrow> \<not> pp_occupied (pr_pipes r ! i) \<Longrightarrow> j < MAXIMUM_ENDPOINTS \<Longrightarrow>
    \<not> names_pipe (pr_endpoints r ! j) i d"
  using pipe_inv_endpoint [of r j] by (auto simp: names_pipe_def endpoint_ok_def Let_def)

text \<open>What closing does to the pipe's slot.\<close>

lemma pipe_shut_slot:
  "pipe_ring p \<Longrightarrow> pipe_ring (pipe_shut d p)"
  "pipe_open d' (pipe_shut d p) \<longleftrightarrow> d' \<noteq> d \<and> pipe_open d' p"
  "pp_occupied p = (pp_read_open p \<or> pp_write_open p) \<Longrightarrow>
    pp_occupied (pipe_shut d p) = (pp_read_open (pipe_shut d p) \<or> pp_write_open (pipe_shut d p))"
  "pp_generation (pipe_shut d p) = pp_generation p"
  "pp_occupied (pipe_shut d p) \<Longrightarrow> pp_owner (pipe_shut d p) = pp_owner p"
  by (cases d; cases d'; auto simp: pipe_ring_def pipe_shut_def pipe_touch_def pipe_open_def Let_def)+

lemma pipe_shut_endpoint:
  assumes "endpoint_ok ps f" "length ps = MAXIMUM_PIPES"
    "unat (ep_pipe_index f) = i \<Longrightarrow> ep_direction f \<noteq> d"
    "pp_occupied (ps ! i) = (pp_read_open (ps ! i) \<or> pp_write_open (ps ! i))"
  shows "endpoint_ok (ps[i := pipe_shut d (ps ! i)]) f"
proof (cases "unat (ep_pipe_index f) = i")
  case True
  let ?p = "pipe_shut d (ps ! i)"
  from True assms(1,3) have "pipe_open (ep_direction f) ?p"
    by (simp add: pipe_shut_slot endpoint_ok_def Let_def)
  moreover from this have "pp_occupied ?p"
    using pipe_shut_slot(3) [OF assms(4)] by (auto simp: pipe_open_def split: direction.splits)
  ultimately show ?thesis
    using True assms(1,2) by (simp add: endpoint_ok_def Let_def pipe_shut_slot)
next
  case False
  with assms(1) show ?thesis by (simp add: endpoint_ok_def)
qed

lemma pipe_inv_closed:
  assumes inv: "pipe_inv r" and e: "e = pr_endpoints r ! j" "j < MAXIMUM_ENDPOINTS" "ep_occupied e"
    and i: "i = unat (ep_pipe_index e)"
  shows "pipe_inv (r\<lparr>pr_endpoints := (pr_endpoints r)[j := e\<lparr>ep_occupied := False\<rparr>],
    pr_pipes := (pr_pipes r)[i := pipe_shut (ep_direction e) (pr_pipes r ! i)]\<rparr>)"
proof -
  let ?es = "(pr_endpoints r)[j := e\<lparr>ep_occupied := False\<rparr>]"
    and ?ps = "(pr_pipes r)[i := pipe_shut (ep_direction e) (pr_pipes r ! i)]"
  note len = pipe_inv_lengths [OF inv]
  have il: "i < MAXIMUM_PIPES" using pipe_inv_endpoint [OF inv e(2)] e i by (simp add: endpoint_ok_def)
  have me: "names_pipe (pr_endpoints r ! j) i (ep_direction e)" using e i by (simp add: names_pipe_def)
  have names: "names_pipe (?es ! k) i' d \<longleftrightarrow> k \<noteq> j \<and> names_pipe (pr_endpoints r ! k) i' d"
    if "k < MAXIMUM_ENDPOINTS" for k i' d
    using that len e(2) by (auto simp: nth_list_update names_pipe_def)
  have "endpoint_ok ?ps (?es ! k)" if k: "k < MAXIMUM_ENDPOINTS" "ep_occupied (?es ! k)" for k
  proof -
    have kj: "k \<noteq> j" "ep_occupied (pr_endpoints r ! k)" using k len e(2) by (auto simp: nth_list_update split: if_splits)
    then have "ep_direction (pr_endpoints r ! k) \<noteq> ep_direction e" if "unat (ep_pipe_index (pr_endpoints r ! k)) = i"
      using pipe_inv_unique [OF inv k(1) e(2) _ me] that by (auto simp: names_pipe_def)
    then show ?thesis
      using kj pipe_shut_endpoint pipe_inv_endpoint [OF inv k(1)] len pipe_inv_slot [OF inv il] by simp
  qed
  moreover have "\<exists>k < MAXIMUM_ENDPOINTS. names_pipe (?es ! k) i' d"
    if i': "i' < MAXIMUM_PIPES" "pipe_open d (?ps ! i')" for i' d
  proof -
    have o: "pipe_open d (pr_pipes r ! i')" and d: "i' = i \<Longrightarrow> d \<noteq> ep_direction e"
      using i' len il by (auto simp: nth_list_update pipe_shut_slot split: if_splits)
    obtain k where "k < MAXIMUM_ENDPOINTS" "names_pipe (pr_endpoints r ! k) i' d"
      using pipe_inv_named [OF inv i'(1) o] by blast
    moreover from this d e i have "k \<noteq> j" by (auto simp: names_pipe_def)
    ultimately show ?thesis using names by blast
  qed
  ultimately show ?thesis
    using len names pipe_inv_unique [OF inv] pipe_inv_slot [OF inv] il
    by (intro pipe_invI) (auto simp: nth_list_update pipe_shut_slot)
qed

lemma fresh_slots [simp]:
  "pipe_ring (fresh_pipe g owner)" "pipe_open d (fresh_pipe g owner)"
  "pp_occupied (fresh_pipe g owner)" "pp_read_open (fresh_pipe g owner)"
  "pipe_contents (fresh_pipe g owner) = []" "ep_occupied (fresh_endpoint g owner i pg d)"
  "ep_generation (fresh_endpoint g owner i pg d) = g"
  "i < MAXIMUM_PIPES \<Longrightarrow> names_pipe (fresh_endpoint g owner i pg d) i' d' \<longleftrightarrow> i' = i \<and> d' = d"
  by (auto simp: fresh_pipe_def fresh_endpoint_def pipe_ring_def pipe_open_def pipe_contents_def
      names_pipe_def unat_of_nat split: direction.splits)

lemma fresh_endpoint_ok:
  "i < MAXIMUM_PIPES \<Longrightarrow> valid_owner owner \<Longrightarrow> length ps = MAXIMUM_PIPES \<Longrightarrow>
    endpoint_ok (ps[i := fresh_pipe pg owner]) (fresh_endpoint g owner i pg d)"
  by (simp add: endpoint_ok_def fresh_endpoint_def unat_of_nat fresh_pipe_def pipe_open_def
      split: direction.splits)

lemma pipe_inv_created:
  assumes inv: "pipe_inv r" and i: "i < MAXIMUM_PIPES" "\<not> pp_occupied (pr_pipes r ! i)"
    and j: "j < MAXIMUM_ENDPOINTS" "\<not> ep_occupied (pr_endpoints r ! j)"
    and k: "k < MAXIMUM_ENDPOINTS" "\<not> ep_occupied (pr_endpoints r ! k)" "j \<noteq> k" and "valid_owner owner"
  shows "pipe_inv (r\<lparr>pr_pipes := (pr_pipes r)[i := fresh_pipe g owner],
    pr_endpoints := (pr_endpoints r)[j := fresh_endpoint gr owner i g DirRead,
      k := fresh_endpoint gw owner i g DirWrite]\<rparr>)"
proof -
  let ?ps = "(pr_pipes r)[i := fresh_pipe g owner]"
    and ?es = "(pr_endpoints r)[j := fresh_endpoint gr owner i g DirRead, k := fresh_endpoint gw owner i g DirWrite]"
  note len = pipe_inv_lengths [OF inv]
  have nth: "?es ! l = (if l = k then fresh_endpoint gw owner i g DirWrite
      else if l = j then fresh_endpoint gr owner i g DirRead else pr_endpoints r ! l)" for l
    using len j k by (simp add: nth_list_update)
  have names: "names_pipe (?es ! l) i' d \<longleftrightarrow>
      (if i' = i then l = (case d of DirRead \<Rightarrow> j | DirWrite \<Rightarrow> k)
       else l \<noteq> j \<and> l \<noteq> k \<and> names_pipe (pr_endpoints r ! l) i' d)"
    if "l < MAXIMUM_ENDPOINTS" for l i' d
    using that i j k free_pipe_unnamed [OF inv i(2) that]
    by (auto simp: nth split: direction.splits)
  have "endpoint_ok ?ps (?es ! l)" if l: "l < MAXIMUM_ENDPOINTS" "ep_occupied (?es ! l)" for l
  proof (cases "l = j \<or> l = k")
    case True
    then show ?thesis using nth fresh_endpoint_ok [OF i(1) assms(9)] len by auto
  next
    case False
    with l nth have o: "ep_occupied (pr_endpoints r ! l)" by simp
    with pipe_inv_endpoint [OF inv l(1)] i(2)
    have "endpoint_ok (pr_pipes r) (pr_endpoints r ! l)" "unat (ep_pipe_index (pr_endpoints r ! l)) \<noteq> i"
      by (auto simp: endpoint_ok_def Let_def)
    then show ?thesis using False nth by (simp add: endpoint_ok_def)
  qed
  moreover have "\<exists>l < MAXIMUM_ENDPOINTS. names_pipe (?es ! l) i' d"
    if i': "i' < MAXIMUM_PIPES" "pipe_open d (?ps ! i')" for i' d
  proof (cases "i' = i")
    case True
    then show ?thesis using names j k by (intro exI [of _ "case d of DirRead \<Rightarrow> j | DirWrite \<Rightarrow> k"])
      (simp split: direction.splits)
  next
    case False
    with i' pipe_inv_named [OF inv i'(1)] obtain l where "l < MAXIMUM_ENDPOINTS" "names_pipe (pr_endpoints r ! l) i' d"
      by auto
    moreover from this j k have "l \<noteq> j" "l \<noteq> k" by (auto simp: names_pipe_def)
    ultimately show ?thesis using names False by auto
  qed
  ultimately show ?thesis
    using len names pipe_inv_unique [OF inv] pipe_inv_slot [OF inv] i
    by (intro pipe_invI) (auto simp: nth_list_update split: if_splits)
qed

lemma pipe_inv_create:
  assumes "pipe_inv r" "pipe_create owner r = (res, r')"
  shows "pipe_inv r'"
  using assms(2)
proof (cases rule: pipe_create_cases)
  case same
  with assms(1) show ?thesis by simp
next
  case (created i j k g gr gw hr hw)
  note len = pipe_inv_lengths [OF assms(1)]
  from created(1) len have i: "i < MAXIMUM_PIPES" "\<not> pp_occupied (pr_pipes r ! i)"
    by (auto simp: position_Some_iff)
  from created(2) len have j: "j < MAXIMUM_ENDPOINTS" "\<not> ep_occupied (pr_endpoints r ! j)"
    by (auto simp: position_Some_iff)
  from position_from_Some [OF created(3)] len
  have k: "k < MAXIMUM_ENDPOINTS" "\<not> ep_occupied (pr_endpoints r ! k)" "j \<noteq> k" by auto
  show ?thesis using pipe_inv_created [OF assms(1) i j k created(4)] created(10) by simp
qed

lemma pipe_inv_close:
  assumes "pipe_inv r" "pipe_close owner h r = (res, r')"
  shows "pipe_inv r'"
  using assms(2)
proof (cases rule: pipe_close_cases)
  case same
  with assms(1) show ?thesis by simp
next
  case (closed i e j)
  then show ?thesis using pipe_inv_closed [OF assms(1) closed(2) _ closed(4,6)] pep.decode_range by auto
qed

lemma pipe_inv_step: "pipe_inv r \<Longrightarrow> pipe_step r r' \<Longrightarrow> pipe_inv r'"
  by (erule pipe_step.cases) (auto intro: pipe_inv_create pipe_inv_read pipe_inv_write pipe_inv_close)

interpretation pim: invariant_machine "\<lambda>r. r = pipe_registry_new" pipe_step pipe_inv
  by unfold_locales (auto intro: pipe_inv_new pipe_inv_step)

subsection \<open>Endpoint lifetimes\<close>

lemma pipe_step_endpoints:
  assumes "pipe_step r r'"
  shows "ep_generation (pr_endpoints r ! l) \<le> ep_generation (pr_endpoints r' ! l) \<and>
    (\<not> ep_occupied (pr_endpoints r ! l) \<longrightarrow> ep_occupied (pr_endpoints r' ! l) \<longrightarrow>
      ep_generation (pr_endpoints r ! l) < ep_generation (pr_endpoints r' ! l))"
  using assms
proof cases
  case (created owner res)
  from created show ?thesis
  proof (cases rule: pipe_create_cases)
    case (created i j k g gr gw hr hw)
    have "j < length (pr_endpoints r)" "k < length (pr_endpoints r)"
      using created(2) position_from_Some [OF created(3)] by (auto simp: position_Some_iff)
    with created show ?thesis by (auto simp: nth_list_update)
  qed simp
next
  case (closed owner h res)
  from closed show ?thesis
  proof (cases rule: pipe_close_cases)
    case (closed i e j)
    then show ?thesis by (cases "j < length (pr_endpoints r)") (auto simp: nth_list_update list_update_beyond)
  qed simp
qed (auto elim: pipe_read_cases pipe_write_cases)

interpretation plt: generation_lifetime pipe_step "\<lambda>r l. ep_occupied (pr_endpoints r ! l)"
  "\<lambda>r l. ep_generation (pr_endpoints r ! l)"
  using pipe_step_endpoints by unfold_locales blast+

subsection \<open>Runs of reads and writes\<close>

text \<open>Calls on any handles by any owners, with the bytes that the successful ones moved
  through pipe \<open>i\<close>.\<close>

datatype pipe_call = CallRead process_handle u32 nat | CallWrite process_handle u32 "u8 list"

definition on_pipe :: "nat \<Rightarrow> process_handle \<Rightarrow> u32 \<Rightarrow> pipe_registry \<Rightarrow> bool" where
  "on_pipe i owner h r = (case resolved_endpoint r owner h of Ok (k, _) \<Rightarrow> k = i | Err _ \<Rightarrow> False)"

fun pipe_run :: "nat \<Rightarrow> pipe_call list \<Rightarrow> pipe_registry \<Rightarrow> u8 list \<times> u8 list \<times> pipe_registry" where
  "pipe_run i [] r = ([], [], r)"
| "pipe_run i (CallRead owner h n # calls) r =
     (let (res, r') = pipe_read owner h n r;
          got = (case res of Ok bs \<Rightarrow> if on_pipe i owner h r then bs else [] | Err _ \<Rightarrow> []);
          (accepted, delivered, r'') = pipe_run i calls r'
      in (accepted, got @ delivered, r''))"
| "pipe_run i (CallWrite owner h bs # calls) r =
     (let (res, r') = pipe_write owner h bs r;
          put = (case res of Ok n \<Rightarrow> if on_pipe i owner h r then take n bs else [] | Err _ \<Rightarrow> []);
          (accepted, delivered, r'') = pipe_run i calls r'
      in (put @ accepted, delivered, r''))"

lemma pipe_read_stream:
  assumes "pipe_inv r" "pipe_read owner h n r = (res, r')" "i < MAXIMUM_PIPES"
  shows "(case res of Ok bs \<Rightarrow> if on_pipe i owner h r then bs else [] | Err _ \<Rightarrow> [])
    @ pipe_contents (pr_pipes r' ! i) = pipe_contents (pr_pipes r ! i)"
  using assms(2)
proof (cases rule: pipe_read_cases)
  case same
  then show ?thesis by (auto split: result.splits)
next
  case (moved k e)
  note p = resolved_pipe [OF assms(1) moved(1)]
  show ?thesis
    using moved p pipe_inv_lengths [OF assms(1)] assms(3)
    by (auto simp: on_pipe_def nth_list_update pst.get_bytes pst.get_contents)
qed

lemma pipe_write_stream:
  assumes "pipe_inv r" "pipe_write owner h bs r = (res, r')" "i < MAXIMUM_PIPES"
  shows "pipe_contents (pr_pipes r' ! i) = pipe_contents (pr_pipes r ! i)
    @ (case res of Ok n \<Rightarrow> if on_pipe i owner h r then take n bs else [] | Err _ \<Rightarrow> [])"
  using assms(2)
proof (cases rule: pipe_write_cases)
  case same
  then show ?thesis by (auto split: result.splits)
next
  case (moved k e)
  note p = resolved_pipe [OF assms(1) moved(1)]
  show ?thesis
    using moved p pipe_inv_lengths [OF assms(1)] assms(3)
    by (auto simp: on_pipe_def nth_list_update pst.put_contents)
qed

lemma pipe_run_stream:
  assumes "pipe_inv r" "i < MAXIMUM_PIPES" "pipe_run i calls r = (accepted, delivered, r')"
  shows "pipe_inv r' \<and> delivered @ pipe_contents (pr_pipes r' ! i) = pipe_contents (pr_pipes r ! i) @ accepted"
  using assms
proof (induction calls arbitrary: r accepted delivered)
  case (Cons c calls)
  show ?case
  proof (cases c)
    case (CallRead owner h n)
    obtain res t where t: "pipe_read owner h n r = (res, t)" by fastforce
    obtain a d where ad: "pipe_run i calls t = (a, d, r')"
      using Cons.prems(3) CallRead t by (auto split: prod.splits)
    from Cons.IH [OF pipe_inv_read [OF Cons.prems(1) t] Cons.prems(2) ad]
      pipe_read_stream [OF Cons.prems(1) t Cons.prems(2)]
    show ?thesis using Cons.prems(3) CallRead t ad by auto
  next
    case (CallWrite owner h bs)
    obtain res t where t: "pipe_write owner h bs r = (res, t)" by fastforce
    obtain a d where ad: "pipe_run i calls t = (a, d, r')"
      using Cons.prems(3) CallWrite t by (auto split: prod.splits)
    from Cons.IH [OF pipe_inv_write [OF Cons.prems(1) t] Cons.prems(2) ad]
      pipe_write_stream [OF Cons.prems(1) t Cons.prems(2)]
    show ?thesis using Cons.prems(3) CallWrite t ad by auto
  qed
qed simp

subsection \<open>Readiness\<close>

lemma pipe_ready_read_end:
  assumes "pipe_inv r" "resolved_endpoint r owner h = Ok (i, e)" "ep_direction e = DirRead" "0 < n"
  shows "\<exists>ready. pipe_readiness owner h r = Ok ready \<and>
    (ready AND READY_IN \<noteq> 0 \<longleftrightarrow> (\<exists>bs r'. pipe_read owner h n r = (Ok bs, r') \<and> bs \<noteq> [])) \<and>
    (ready = 0 \<longleftrightarrow> fst (pipe_read owner h n r) = Err PipeWouldBlock)"
proof -
  note p = resolved_pipe [OF assms(1,2)]
  have "fst (pipe_drain (min n (pp_length (pr_pipes r ! i))) (pr_pipes r ! i)) \<noteq> []"
    if "pp_length (pr_pipes r ! i) \<noteq> 0"
    using that p assms(4) pst.get_bytes by (auto simp flip: length_0_conv)
  then show ?thesis
    using assms p by (auto simp: pipe_readiness_def pipe_read_def Let_def ready_defs split: prod.splits)
qed

lemma pipe_ready_write_end:
  assumes "pipe_inv r" "resolved_endpoint r owner h = Ok (i, e)" "ep_direction e = DirWrite"
  shows "\<exists>ready. pipe_readiness owner h r = Ok ready \<and>
    (ready AND READY_OUT \<noteq> 0 \<longleftrightarrow> is_Ok (fst (pipe_write owner h [b] r))) \<and>
    (ready AND READY_ERR \<noteq> 0 \<longleftrightarrow> fst (pipe_write owner h [b] r) = Err PipeBrokenPipe)"
  using assms resolved_pipe [OF assms(1,2)]
  by (auto simp: pipe_readiness_def pipe_write_def Let_def ready_defs)

subsection \<open>Properties\<close>

text \<open>
  In every state that any sequence of pipe calls reaches from the empty registry, the
  registry is well formed: an open endpoint names a live pipe of its own generation and
  owner whose direction is open, no two endpoints share one end of a pipe, every open
  direction has its endpoint, and a pipe slot is occupied exactly while one of its two
  ends is open.
\<close>

theorem pipe_registry_well_formed:
  assumes "pipe_step\<^sup>*\<^sup>* pipe_registry_new r"
  shows "pipe_inv r"
  using pim.inv_reachable [OF refl assms] .

text \<open>A concrete registry for the witnesses: one pipe of process (7, 1).\<close>

definition demo_owner :: process_handle where
  "demo_owner = \<lparr>ph_pid = 7, ph_generation = 1\<rparr>"

definition demo_pipe :: pipe_registry where
  "demo_pipe = snd (pipe_create demo_owner pipe_registry_new)"

lemma demo_pipe_unfold:
  "pipe_create demo_owner pipe_registry_new = (Ok (0x101, 0x102), demo_pipe)"
  "demo_pipe = pipe_registry_new
     \<lparr>pr_pipes := (replicate MAXIMUM_PIPES PIPE_EMPTY)[0 := fresh_pipe 1 demo_owner],
      pr_endpoints := (replicate MAXIMUM_ENDPOINTS ENDPOINT_EMPTY)
        [0 := fresh_endpoint 1 demo_owner 0 1 DirRead, 1 := fresh_endpoint 1 demo_owner 0 1 DirWrite]\<rparr>"
proof -
  have "pipe_create_plan pipe_registry_new = Some (0, 0, 1, 1, 1, 1)"
    by (simp add: pipe_create_plan_def pipe_registry_new_def PIPE_EMPTY_def ENDPOINT_EMPTY_def
        position_replicate position_from_def checked_add_def pipe_next_generation_def
        MAXIMUM_ENDPOINT_GENERATION_def)
  moreover have "encode_endpoint 0 1 = Some 0x101" "encode_endpoint 1 1 = Some 0x102"
    by code_simp+
  ultimately have "pipe_create demo_owner pipe_registry_new = (Ok (0x101, 0x102), pipe_registry_new
     \<lparr>pr_pipes := (replicate MAXIMUM_PIPES PIPE_EMPTY)[0 := fresh_pipe 1 demo_owner],
      pr_endpoints := (replicate MAXIMUM_ENDPOINTS ENDPOINT_EMPTY)
        [0 := fresh_endpoint 1 demo_owner 0 1 DirRead, 1 := fresh_endpoint 1 demo_owner 0 1 DirWrite]\<rparr>)"
    by (simp add: pipe_create_def demo_owner_def pipe_registry_new_def)
  then show "pipe_create demo_owner pipe_registry_new = (Ok (0x101, 0x102), demo_pipe)"
    "demo_pipe = pipe_registry_new
     \<lparr>pr_pipes := (replicate MAXIMUM_PIPES PIPE_EMPTY)[0 := fresh_pipe 1 demo_owner],
      pr_endpoints := (replicate MAXIMUM_ENDPOINTS ENDPOINT_EMPTY)
        [0 := fresh_endpoint 1 demo_owner 0 1 DirRead, 1 := fresh_endpoint 1 demo_owner 0 1 DirWrite]\<rparr>"
    by (simp_all add: demo_pipe_def)
qed

lemma demo_pipe_reach: "pipe_step\<^sup>*\<^sup>* pipe_registry_new demo_pipe"
  using pipe_step.created [OF demo_pipe_unfold(1)] by blast

lemma demo_pipe_inv: "pipe_inv demo_pipe"
  using pipe_inv_create [OF pipe_inv_new demo_pipe_unfold(1)] .

lemma demo_pipe_ends:
  "resolved_endpoint demo_pipe demo_owner 0x101 = Ok (0, fresh_endpoint 1 demo_owner 0 1 DirRead)"
  "resolved_endpoint demo_pipe demo_owner 0x102 = Ok (0, fresh_endpoint 1 demo_owner 0 1 DirWrite)"
proof -
  have "decode_endpoint 0x101 = Some (0, 1)" "decode_endpoint 0x102 = Some (1, 1)" by code_simp+
  then show "resolved_endpoint demo_pipe demo_owner 0x101 = Ok (0, fresh_endpoint 1 demo_owner 0 1 DirRead)"
    "resolved_endpoint demo_pipe demo_owner 0x102 = Ok (0, fresh_endpoint 1 demo_owner 0 1 DirWrite)"
    by (simp_all add: resolved_endpoint_Ok demo_pipe_unfold(2)) (simp_all add: fresh_endpoint_def fresh_pipe_def)
qed

theorem pipe_registry_well_formed_witness:
  "pipe_step\<^sup>*\<^sup>* pipe_registry_new demo_pipe \<and> pipe_inv demo_pipe"
  using pipe_registry_well_formed [OF demo_pipe_reach] demo_pipe_reach by simp

text \<open>
  C4. Bytes leave a pipe exactly in the order they entered it: over any sequence of reads
  and writes, by any processes on any handles, what the successful reads of pipe \<open>i\<close>
  returned followed by what it still holds equals what it held first followed by what the
  successful writes put in; nothing is lost, duplicated, reordered or leaked into another
  pipe.
\<close>

theorem pipe_stream_integrity:
  assumes "pipe_inv r" "i < MAXIMUM_PIPES" "pipe_run i calls r = (accepted, delivered, r')"
  shows "delivered @ pipe_contents (pr_pipes r' ! i) = pipe_contents (pr_pipes r ! i) @ accepted"
  using pipe_run_stream [OF assms] by blast

theorem pipe_stream_integrity_witness:
  "\<exists>delivered r'. pipe_run 0 [CallWrite demo_owner 0x102 [1, 2, 3], CallRead demo_owner 0x101 2] demo_pipe
      = ([1, 2, 3], delivered, r') \<and> delivered @ pipe_contents (pr_pipes r' ! 0) = [1, 2, 3]"
proof -
  let ?calls = "[CallWrite demo_owner 0x102 [1, 2, 3], CallRead demo_owner 0x101 2]"
  obtain a d r' where run: "pipe_run 0 ?calls demo_pipe = (a, d, r')" by (metis prod_cases3)
  have p0: "pr_pipes demo_pipe ! 0 = fresh_pipe 1 demo_owner" by (simp add: demo_pipe_unfold(2))
  have "fst (pipe_write demo_owner 0x102 [1, 2, 3] demo_pipe) = Ok 3"
    using demo_pipe_ends p0 by (simp add: pipe_write_def fresh_endpoint_def fresh_pipe_def)
  then have "a = [1, 2, 3]"
    using run demo_pipe_ends by (auto simp: on_pipe_def split: prod.splits)
  with pipe_stream_integrity [OF demo_pipe_inv _ run] run p0 show ?thesis by auto
qed

text \<open>
  C28. A closed endpoint handle is dead for good: after a successful close, whatever
  sequence of pipe calls follows (including the reuse of the slot by other processes),
  the handle never resolves again for any process.
\<close>

theorem pipe_closed_handle_dead:
  assumes "pipe_inv r" "pipe_close owner h r = (Ok (), r')" "pipe_step\<^sup>*\<^sup>* r' r''"
  shows "resolved_endpoint r'' owner' h = Err PipeBadFileDescriptor"
  using assms(2)
proof (cases rule: pipe_close_cases)
  case (closed i e j)
  from pep.decode_range [OF closed(3)] have "j < MAXIMUM_ENDPOINTS" by simp
  with closed pipe_inv_lengths [OF assms(1)]
  have "\<not> ep_occupied (pr_endpoints r' ! j)" "ep_generation (pr_endpoints r' ! j) = ep_generation e"
    by simp_all
  with plt.dead_generation [OF assms(3), of j]
  have "\<not> (ep_occupied (pr_endpoints r'' ! j) \<and> ep_generation (pr_endpoints r'' ! j) = ep_generation e)"
    by simp
  with closed(3) show ?thesis by (auto simp: resolved_endpoint_def Let_def)
qed simp

theorem pipe_closed_handle_dead_witness:
  "let r' = snd (pipe_close demo_owner 0x101 demo_pipe);
       r'' = snd (pipe_create demo_owner r')
   in pipe_close demo_owner 0x101 demo_pipe = (Ok (), r') \<and> pipe_step r' r'' \<and>
      resolved_endpoint r'' demo_owner 0x101 = Err PipeBadFileDescriptor"
proof -
  let ?r' = "snd (pipe_close demo_owner 0x101 demo_pipe)"
  have "decode_endpoint 0x101 = Some (0, 1)" by code_simp
  then have c: "pipe_close demo_owner 0x101 demo_pipe = (Ok (), ?r')"
    using demo_pipe_ends(1) by (simp add: pipe_close_def)
  have s: "pipe_step ?r' (snd (pipe_create demo_owner ?r'))"
    by (rule pipe_step.created [where owner = demo_owner]) (rule prod.collapse [symmetric])
  then have "pipe_step\<^sup>*\<^sup>* ?r' (snd (pipe_create demo_owner ?r'))" by blast
  from pipe_closed_handle_dead [OF demo_pipe_inv c this, of demo_owner] c s show ?thesis by (simp add: Let_def)
qed

text \<open>
  Readiness of a pipe is exact at both ends: the read end reports input if and only if
  a read of any positive size would return at least one byte, and reports nothing if and
  only if a read would block; the write end reports output if and only if a one-byte
  write would be accepted, and an error if and only if the write would break.
\<close>

theorem pipe_readiness_exact:
  assumes "pipe_inv r" "resolved_endpoint r owner h = Ok (i, e)" "0 < n"
  shows "\<exists>ready. pipe_readiness owner h r = Ok ready \<and> (case ep_direction e of
     DirRead \<Rightarrow>
       (ready AND READY_IN \<noteq> 0) = (\<exists>bs r'. pipe_read owner h n r = (Ok bs, r') \<and> bs \<noteq> []) \<and>
       (ready = 0) = (fst (pipe_read owner h n r) = Err PipeWouldBlock)
   | DirWrite \<Rightarrow>
       (ready AND READY_OUT \<noteq> 0) = is_Ok (fst (pipe_write owner h [b] r)) \<and>
       (ready AND READY_ERR \<noteq> 0) = (fst (pipe_write owner h [b] r) = Err PipeBrokenPipe))"
  using pipe_ready_read_end [OF assms(1,2) _ assms(3)] pipe_ready_write_end [OF assms(1,2)]
  by (cases "ep_direction e") auto

theorem pipe_readiness_exact_witness:
  "pipe_inv demo_pipe \<and>
   resolved_endpoint demo_pipe demo_owner 0x102 = Ok (0, fresh_endpoint 1 demo_owner 0 1 DirWrite) \<and>
   (\<exists>ready. pipe_readiness demo_owner 0x102 demo_pipe = Ok ready \<and>
      (ready AND READY_OUT \<noteq> 0) = is_Ok (fst (pipe_write demo_owner 0x102 [9] demo_pipe)))"
  using pipe_readiness_exact [OF demo_pipe_inv demo_pipe_ends(2), of 1 9] demo_pipe_inv demo_pipe_ends(2)
  by (auto simp: fresh_endpoint_def)

text \<open>
  C32. End of file: once the write end of a pipe is closed, a read never blocks. It returns
  the oldest bytes still stored, as many as fit, the rest stays readable through the same
  handle, and an empty pipe reads as end of file.
\<close>

theorem pipe_read_after_writer_closed:
  assumes "pipe_inv r" "resolved_endpoint r owner h = Ok (i, e)" "ep_direction e = DirRead"
    "\<not> pp_write_open (pr_pipes r ! i)"
  shows "\<exists>r'. pipe_read owner h n r = (Ok (take n (pipe_contents (pr_pipes r ! i))), r') \<and>
    pipe_contents (pr_pipes r' ! i) = drop n (pipe_contents (pr_pipes r ! i)) \<and>
    resolved_endpoint r' owner h = Ok (i, e) \<and> \<not> pp_write_open (pr_pipes r' ! i)"
proof (cases "n = 0 \<or> pp_length (pr_pipes r ! i) = 0")
  case True
  then have "n = 0 \<or> pipe_contents (pr_pipes r ! i) = []" by (auto simp: pipe_contents_def)
  with True show ?thesis using assms by (auto simp: pipe_read_def Let_def)
next
  case False
  let ?p = "pr_pipes r ! i" and ?m = "min n (pp_length (pr_pipes r ! i))"
  note p = resolved_pipe [OF assms(1,2)]
  have rd: "pipe_read owner h n r =
      (Ok (fst (pipe_drain ?m ?p)), set_pipe i (pipe_touch (snd (pipe_drain ?m ?p))) r)"
    using False assms by (simp add: pipe_read_def Let_def split: prod.splits)
  have fr: "pipe_frame ?p (pipe_touch (snd (pipe_drain ?m ?p)))" using p by (simp add: pipe_drain_frame)
  have "resolved_endpoint (set_pipe i (pipe_touch (snd (pipe_drain ?m ?p))) r) owner h = Ok (i, e)"
    using assms(2) fr p pipe_inv_lengths [OF assms(1)] by (auto simp: resolved_endpoint_Ok pipe_frame_def)
  then show ?thesis
    using rd fr p pipe_inv_lengths [OF assms(1)] assms(4)
      pst.get_bytes [of ?p ?m] pst.get_contents [of ?p ?m]
    by (auto simp: pipe_frame_def min_def)
qed

theorem pipe_read_after_writer_closed_witness:
  "let r = snd (pipe_close demo_owner 0x102 demo_pipe) in
   \<not> pp_write_open (pr_pipes r ! 0) \<and> (\<exists>r'. pipe_read demo_owner 0x101 5 r = (Ok [], r'))"
proof -
  let ?r = "snd (pipe_close demo_owner 0x102 demo_pipe)"
  let ?e = "fresh_endpoint 1 demo_owner 0 1 DirRead"
  have d: "decode_endpoint 0x101 = Some (0, 1)" "decode_endpoint 0x102 = Some (1, 1)" by code_simp+
  have c: "pipe_close demo_owner 0x102 demo_pipe = (Ok (), ?r)"
    using demo_pipe_ends(2) d(2) by (simp add: pipe_close_def)
  have r: "pr_pipes ?r ! 0 = pipe_shut DirWrite (fresh_pipe 1 demo_owner)"
      "pr_endpoints ?r ! 0 = fresh_endpoint 1 demo_owner 0 1 DirRead"
    using demo_pipe_ends(2) d(2)
    by (simp_all add: pipe_close_def demo_pipe_unfold(2) fresh_endpoint_def)
  then have e: "resolved_endpoint ?r demo_owner 0x101 = Ok (0, ?e)"
    using d(1) by (auto simp: resolved_endpoint_Ok fresh_endpoint_def pipe_shut_def pipe_touch_def fresh_pipe_def)
  have w: "\<not> pp_write_open (pr_pipes ?r ! 0)" "pipe_contents (pr_pipes ?r ! 0) = []"
    unfolding r by (simp_all add: pipe_shut_def pipe_touch_def fresh_pipe_def pipe_contents_def)
  from pipe_read_after_writer_closed [OF pipe_inv_close [OF demo_pipe_inv c] e _ w(1), of 5] w show ?thesis
    by (simp add: Let_def fresh_endpoint_def) blast
qed

end
