(* ===== verification/TimerFd.thy ===== *)
theory TimerFd
  imports EventFd
begin

unbundle bit_operations_syntax

text \<open>
  \<^verbatim>\<open>src/src/linux_timerfd.rs\<close>: a table of 64 process-owned timers whose expirations are
  counted lazily. No interrupt touches a slot; \<open>timerfd_refresh\<close> brings a slot up to the
  time its caller supplies, and every query runs it first. The lemmas relate a slot to
  \<open>deadlines\<close>, the number of expiration times that have passed, and show that neither the
  instants at which a timer is polled nor their number changes what reads return in total.
\<close>

section \<open>State\<close>

definition CLOCK_MONOTONIC :: u32 where "CLOCK_MONOTONIC = 1"
definition TFD_TIMER_ABSTIME :: u32 where "TFD_TIMER_ABSTIME = 1"
definition TFD_NONBLOCK :: u32 where "TFD_NONBLOCK = 0x800"
definition TFD_CLOEXEC :: u32 where "TFD_CLOEXEC = 0x80000"
definition TIMERFD_CREATE_ALLOWED_FLAGS :: u32 where
  "TIMERFD_CREATE_ALLOWED_FLAGS = TFD_NONBLOCK OR TFD_CLOEXEC"
definition TIMERFD_SETTIME_ALLOWED_FLAGS :: u32 where
  "TIMERFD_SETTIME_ALLOWED_FLAGS = TFD_TIMER_ABSTIME"

abbreviation MAXIMUM_TIMERFDS :: nat where "MAXIMUM_TIMERFDS \<equiv> 64"
definition TIMERFD_BASE :: u32 where "TIMERFD_BASE = 0x2000"

record timer_spec =
  ts_value_ns :: u64
  ts_interval_ns :: u64

definition TIMER_DISARMED :: timer_spec where
  "TIMER_DISARMED = \<lparr>ts_value_ns = 0, ts_interval_ns = 0\<rparr>"

datatype timerfd_error = TfInvalidArgument | TfBadFileDescriptor | TfWouldBlock | TfCapacity

record timerfd_slot =
  tf_owner :: u32
  tf_flags :: u32
  tf_interval_ns :: u64
  tf_next_expiration_ns :: u64
  tf_expirations :: u64
  tf_readiness_generation :: u64

definition TIMERFD_EMPTY :: timerfd_slot where
  "TIMERFD_EMPTY = \<lparr>tf_owner = 0, tf_flags = 0, tf_interval_ns = 0, tf_next_expiration_ns = 0,
     tf_expirations = 0, tf_readiness_generation = 0\<rparr>"

definition timerfd_occupied :: "timerfd_slot \<Rightarrow> bool" where
  "timerfd_occupied slot \<longleftrightarrow> tf_owner slot \<noteq> 0"

type_synonym timerfd_table = "timerfd_slot list"

definition timerfd_table_new :: timerfd_table where
  "timerfd_table_new = replicate MAXIMUM_TIMERFDS TIMERFD_EMPTY"

definition timerfd_index_for_fd :: "u32 \<Rightarrow> nat option" where
  "timerfd_index_for_fd fd =
     (if fd < TIMERFD_BASE then None
      else let index = unat (fd - TIMERFD_BASE)
           in if index < MAXIMUM_TIMERFDS then Some index else None)"

definition timerfd_fd_for_index :: "nat \<Rightarrow> u32" where
  "timerfd_fd_for_index index = TIMERFD_BASE + of_nat index"

definition checked_deadline :: "u64 \<Rightarrow> u64 \<Rightarrow> u64 option" where
  "checked_deadline now_ns value_ns = checked_add now_ns value_ns"

section \<open>Operations\<close>

text \<open>The quotient of words is zero for a zero divisor, as \<open>checked_div(..).unwrap_or(0)\<close> is.\<close>

definition timerfd_refresh :: "timerfd_slot \<Rightarrow> u64 \<Rightarrow> timerfd_slot" where
  "timerfd_refresh slot now_ns =
     (if tf_next_expiration_ns slot = 0 \<or> now_ns < tf_next_expiration_ns slot then slot
      else
        let elapsed = now_ns - tf_next_expiration_ns slot;
            count = (if tf_interval_ns slot = 0 then 1
                     else saturating_add (elapsed div tf_interval_ns slot) 1)
        in slot\<lparr>tf_expirations := saturating_add (tf_expirations slot) count,
                tf_readiness_generation :=
                  (if tf_expirations slot = 0 then tf_readiness_generation slot + 1
                   else tf_readiness_generation slot),
                tf_next_expiration_ns :=
                  (if tf_interval_ns slot = 0 then 0
                   else saturating_add (tf_next_expiration_ns slot)
                          (saturating_mul (tf_interval_ns slot) count))\<rparr>)"

definition timerfd_remaining :: "timerfd_slot \<Rightarrow> u64 \<Rightarrow> timer_spec" where
  "timerfd_remaining slot now_ns =
     \<lparr>ts_value_ns = (case checked_sub (tf_next_expiration_ns slot) now_ns of None \<Rightarrow> 0 | Some v \<Rightarrow> v),
      ts_interval_ns = tf_interval_ns slot\<rparr>"

definition timerfd_create ::
    "u32 \<Rightarrow> u32 \<Rightarrow> u32 \<Rightarrow> timerfd_table \<Rightarrow> (u32, timerfd_error) result \<times> timerfd_table" where
  "timerfd_create owner clockid flags table =
     (if owner = 0 \<or> clockid \<noteq> CLOCK_MONOTONIC \<or> flags AND NOT TIMERFD_CREATE_ALLOWED_FLAGS \<noteq> 0
      then (Err TfInvalidArgument, table)
      else case position (\<lambda>slot. \<not> timerfd_occupied slot) table of
        None \<Rightarrow> (Err TfCapacity, table)
      | Some index \<Rightarrow>
          (Ok (timerfd_fd_for_index index),
           table[index := TIMERFD_EMPTY\<lparr>tf_owner := owner, tf_flags := flags\<rparr>]))"

text \<open>The guard every operation on a descriptor repeats.\<close>

definition timerfd_lookup :: "u32 \<Rightarrow> u32 \<Rightarrow> timerfd_table \<Rightarrow> (nat, timerfd_error) result" where
  "timerfd_lookup owner fd table =
     (case timerfd_index_for_fd fd of
        None \<Rightarrow> Err TfBadFileDescriptor
      | Some index \<Rightarrow>
          if \<not> timerfd_occupied (table ! index) \<or> tf_owner (table ! index) \<noteq> owner
          then Err TfBadFileDescriptor else Ok index)"

text \<open>The slot stays refreshed on the paths that fail after the refresh.\<close>

definition timerfd_settime ::
    "u32 \<Rightarrow> u32 \<Rightarrow> u32 \<Rightarrow> timer_spec \<Rightarrow> u64 \<Rightarrow> timerfd_table \<Rightarrow>
      (timer_spec, timerfd_error) result \<times> timerfd_table" where
  "timerfd_settime owner fd flags new_value now_ns table =
     (if flags AND NOT TIMERFD_SETTIME_ALLOWED_FLAGS \<noteq> 0 then (Err TfInvalidArgument, table)
      else case timerfd_lookup owner fd table of Err e \<Rightarrow> (Err e, table)
      | Ok index \<Rightarrow>
          let slot = timerfd_refresh (table ! index) now_ns;
              old = timerfd_remaining slot now_ns;
              table' = table[index := slot] in
          if ts_value_ns new_value = 0 then
            (Ok old, table'[index := slot\<lparr>tf_interval_ns := 0, tf_next_expiration_ns := 0, tf_expirations := 0\<rparr>])
          else
            case (if flags AND TFD_TIMER_ABSTIME \<noteq> 0 then Some (ts_value_ns new_value)
                  else checked_deadline now_ns (ts_value_ns new_value)) of
              None \<Rightarrow> (Err TfInvalidArgument, table')
            | Some deadline \<Rightarrow>
                if deadline = 0 then (Err TfInvalidArgument, table')
                else (Ok old, table'[index := slot\<lparr>tf_interval_ns := ts_interval_ns new_value,
                       tf_next_expiration_ns := deadline, tf_expirations := 0\<rparr>]))"

definition timerfd_gettime ::
    "u32 \<Rightarrow> u32 \<Rightarrow> u64 \<Rightarrow> timerfd_table \<Rightarrow> (timer_spec, timerfd_error) result \<times> timerfd_table" where
  "timerfd_gettime owner fd now_ns table =
     (case timerfd_lookup owner fd table of Err e \<Rightarrow> (Err e, table)
      | Ok index \<Rightarrow>
          let slot = timerfd_refresh (table ! index) now_ns
          in (Ok (timerfd_remaining slot now_ns), table[index := slot]))"

definition timerfd_read ::
    "u32 \<Rightarrow> u32 \<Rightarrow> u64 \<Rightarrow> timerfd_table \<Rightarrow> (u64, timerfd_error) result \<times> timerfd_table" where
  "timerfd_read owner fd now_ns table =
     (case timerfd_lookup owner fd table of Err e \<Rightarrow> (Err e, table)
      | Ok index \<Rightarrow>
          let slot = timerfd_refresh (table ! index) now_ns in
          if tf_expirations slot = 0 then (Err TfWouldBlock, table[index := slot])
          else (Ok (tf_expirations slot),
                table[index := slot\<lparr>tf_expirations := 0,
                  tf_readiness_generation := tf_readiness_generation slot + 1\<rparr>]))"

definition timerfd_readiness ::
    "u32 \<Rightarrow> u32 \<Rightarrow> u64 \<Rightarrow> timerfd_table \<Rightarrow> (u32, timerfd_error) result \<times> timerfd_table" where
  "timerfd_readiness owner fd now_ns table =
     (case timerfd_lookup owner fd table of Err e \<Rightarrow> (Err e, table)
      | Ok index \<Rightarrow>
          let slot = timerfd_refresh (table ! index) now_ns
          in (if tf_expirations slot \<noteq> 0 then Ok READY_IN else Ok 0, table[index := slot]))"

definition timerfd_readiness_generation ::
    "u32 \<Rightarrow> u32 \<Rightarrow> u64 \<Rightarrow> timerfd_table \<Rightarrow> (u64, timerfd_error) result \<times> timerfd_table" where
  "timerfd_readiness_generation owner fd now_ns table =
     (case timerfd_lookup owner fd table of Err e \<Rightarrow> (Err e, table)
      | Ok index \<Rightarrow>
          let slot = timerfd_refresh (table ! index) now_ns
          in (Ok (tf_readiness_generation slot), table[index := slot]))"

definition timerfd_close :: "u32 \<Rightarrow> u32 \<Rightarrow> timerfd_table \<Rightarrow> (unit, timerfd_error) result \<times> timerfd_table" where
  "timerfd_close owner fd table =
     (case timerfd_lookup owner fd table of Err e \<Rightarrow> (Err e, table)
      | Ok index \<Rightarrow> (Ok (), table[index := TIMERFD_EMPTY]))"

definition timerfd_close_all :: "u32 \<Rightarrow> timerfd_table \<Rightarrow> nat \<times> timerfd_table" where
  "timerfd_close_all owner table =
     (if owner = 0 then (0, table)
      else (length (filter (\<lambda>slot. tf_owner slot = owner) table),
            map (\<lambda>slot. if tf_owner slot = owner then TIMERFD_EMPTY else slot) table))"

definition timerfd_close_on_exec :: "u32 \<Rightarrow> timerfd_table \<Rightarrow> nat \<times> timerfd_table" where
  "timerfd_close_on_exec owner table =
     (if owner = 0 then (0, table)
      else let doomed = (\<lambda>slot. tf_owner slot = owner \<and> tf_flags slot AND TFD_CLOEXEC \<noteq> 0)
           in (length (filter doomed table), map (\<lambda>slot. if doomed slot then TIMERFD_EMPTY else slot) table))"

section \<open>Lemmas\<close>

interpretation tfd: offset_codec timerfd_index_for_fd timerfd_fd_for_index MAXIMUM_TIMERFDS
  by (rule offset_codec_of [where base = TIMERFD_BASE])
    (simp_all add: TIMERFD_BASE_def timerfd_index_for_fd_def offset_index_def timerfd_fd_for_index_def
      offset_handle_def)

lemma timerfd_lookup_Ok:
  "timerfd_lookup owner fd table = Ok index \<longleftrightarrow>
     timerfd_index_for_fd fd = Some index \<and> tf_owner (table ! index) \<noteq> 0 \<and> tf_owner (table ! index) = owner"
  by (auto simp: timerfd_lookup_def timerfd_occupied_def split: rust_splits)

lemma timerfd_lookup_index: "timerfd_lookup owner fd table = Ok index \<Longrightarrow> index < MAXIMUM_TIMERFDS"
  using tfd.handle_index by (auto simp: timerfd_lookup_Ok)

lemma timerfd_refresh_owner [simp]: "tf_owner (timerfd_refresh slot now) = tf_owner slot"
  by (simp add: timerfd_refresh_def Let_def)

lemma timerfd_lookup_update:
  assumes "timerfd_lookup owner fd table = Ok index" "length table = MAXIMUM_TIMERFDS"
    "tf_owner slot = tf_owner (table ! index)"
  shows "timerfd_lookup owner fd (table[index := slot]) = Ok index"
  using assms timerfd_lookup_index [OF assms(1)] by (auto simp: timerfd_lookup_Ok)

subsection \<open>Counting deadlines\<close>

text \<open>The number of expiration times \<open>d\<close>, \<open>d + i\<close>, \<open>d + 2 i\<close>, \<dots> up to \<open>now\<close>; a zero interval
  has the one deadline \<open>d\<close>.\<close>

definition deadlines :: "nat \<Rightarrow> nat \<Rightarrow> nat \<Rightarrow> nat" where
  "deadlines d i now = (if i = 0 then (if d \<le> now then 1 else 0) else card {k. d + k * i \<le> now})"

lemma deadlines_div:
  assumes "0 < i"
  shows "deadlines d i now = (if now < d then 0 else (now - d) div i + 1)"
proof (cases "now < d")
  case True
  then have "{k. d + k * i \<le> now} = {}" by auto
  with True assms show ?thesis by (simp add: deadlines_def)
next
  case False
  then have "(d + k * i \<le> now) = (k < (now - d) div i + 1)" for k
    using assms less_eq_div_iff_mult_less_eq [of i k "now - d"] by auto
  then have "{k. d + k * i \<le> now} = {..<(now - d) div i + 1}" by auto
  with False assms show ?thesis by (simp add: deadlines_def)
qed

lemma deadlines_bound:
  assumes "0 < d"
  shows "deadlines d i now \<le> now"
proof (cases "i = 0")
  case True
  then show ?thesis using assms by (simp add: deadlines_def)
next
  case False
  have "(now - d) div i \<le> now - d" by simp
  then have "(now - d) div i + 1 \<le> now" if "\<not> now < d" using that assms by linarith
  then show ?thesis using False by (simp add: deadlines_div)
qed

text \<open>Counting goes on from the first deadline not yet counted.\<close>

lemma deadlines_continue:
  assumes "0 < i" "past \<le> now"
  shows "deadlines d i now = deadlines d i past + deadlines (d + i * deadlines d i past) i now"
proof (cases "past < d")
  case True
  then show ?thesis using assms(1) by (simp add: deadlines_div [of i d past])
next
  case False
  let ?n = "(past - d) div i + 1"
  have n: "deadlines d i past = ?n" using False assms(1) by (simp add: deadlines_div)
  show ?thesis
  proof (cases "now < d + i * ?n")
    case True
    then have "(now - d) div i < ?n"
      using False assms less_mult_imp_div_less [of "now - d" ?n i] by (simp add: algebra_simps)
    moreover have "(past - d) div i \<le> (now - d) div i" using assms(2) by (intro div_le_mono) simp
    ultimately show ?thesis using True n False assms by (simp add: deadlines_div)
  next
    case ge: False
    then have "now - d = (now - (d + i * ?n)) + i * ?n" by simp
    then have "(now - d) div i = (now - (d + i * ?n)) div i + ?n"
      using assms(1) by (metis div_mult_self4 add.commute nat_neq_iff)
    then show ?thesis using ge n False assms by (simp add: deadlines_div)
  qed
qed

subsection \<open>A slot keeps the count\<close>

text \<open>A slot armed for \<open>d\<close> with interval \<open>i\<close>, of whose expirations \<open>taken\<close> have been read, when
  its expirations have been counted up to time \<open>t\<close>.\<close>

definition tracks :: "nat \<Rightarrow> nat \<Rightarrow> nat \<Rightarrow> nat \<Rightarrow> timerfd_slot \<Rightarrow> bool" where
  "tracks d i taken t slot \<longleftrightarrow>
     0 < d \<and> unat (tf_interval_ns slot) = i \<and> taken + unat (tf_expirations slot) = deadlines d i t \<and>
     unat (tf_next_expiration_ns slot) =
       (if i = 0 then (if deadlines d i t = 0 then d else 0) else d + i * deadlines d i t)"

lemma tracks_later:
  assumes "tracks d i taken t slot" "deadlines d i now = deadlines d i t"
  shows "tracks d i taken now slot"
  using assms(1) unfolding tracks_def assms(2) .

lemma refresh_due_bound:
  assumes "0 < i" "\<not> now < d" "now + i < 2 ^ 64"
  shows "d + i * deadlines d i now < 2 ^ 64"
proof -
  have "i * ((now - d) div i) \<le> now - d" by simp
  then have "d + (i * ((now - d) div i) + i) < 2 ^ 64" using assms by linarith
  moreover have "deadlines d i now = (now - d) div i + 1" using assms by (simp add: deadlines_div)
  ultimately show ?thesis by (simp only: distrib_left mult_1_right)
qed

lemma tracks_refresh_periodic:
  assumes tr: "tracks d i taken t slot" and t: "t \<le> unat now" and i: "0 < i"
    and b: "unat now + i < 2 ^ 64" and due: "\<not> now < tf_next_expiration_ns slot"
  shows "tracks d i taken (unat now) (timerfd_refresh slot now)"
proof -
  let ?e = "unat (tf_next_expiration_ns slot)"
  let ?m = "deadlines ?e i (unat now)"
  have e: "?e = d + i * deadlines d i t" and iv: "unat (tf_interval_ns slot) = i" and d: "0 < d"
    and x: "taken + unat (tf_expirations slot) = deadlines d i t"
    using tr i by (auto simp: tracks_def)
  have n: "deadlines d i (unat now) = deadlines d i t + ?m"
    using deadlines_continue [OF i t, of d] e by simp
  have ge: "\<not> unat now < ?e" using due by (simp add: word_less_nat_alt)
  have w: "unat (now - tf_next_expiration_ns slot) = unat now - ?e"
    using ge by (simp add: unat_sub_if_size word_size word_le_nat_alt)
  have m: "?m = (unat now - ?e) div i + 1" using ge i by (simp add: deadlines_div)
  have le: "deadlines d i (unat now) \<le> unat now" by (rule deadlines_bound [OF d])
  then have mb: "?m \<le> unat now" using n by simp
  have nz: "tf_next_expiration_ns slot \<noteq> 0" "tf_interval_ns slot \<noteq> 0"
    using e d iv i by (auto simp: unat_eq_zero [symmetric] simp del: unat_eq_zero)
  have now64: "unat now < 2 ^ 64" using unsigned_less [of now, where ?'a = nat] by simp
  define cnt where "cnt = saturating_add ((now - tf_next_expiration_ns slot) div tf_interval_ns slot) 1"
  have c: "unat cnt = ?m"
    unfolding cnt_def using mb m now64 by (simp add: unat_saturating_add unat_div_distrib w iv)
  have mul: "?e + i * ?m < 2 ^ 64" by (rule refresh_due_bound [OF i ge b])
  let ?s = "timerfd_refresh slot now"
  have r: "tf_interval_ns ?s = tf_interval_ns slot" "tf_expirations ?s = saturating_add (tf_expirations slot) cnt"
    "tf_next_expiration_ns ?s = saturating_add (tf_next_expiration_ns slot) (saturating_mul (tf_interval_ns slot) cnt)"
    using nz due by (simp_all add: timerfd_refresh_def Let_def cnt_def)
  have f: "unat (tf_expirations ?s) = unat (tf_expirations slot) + ?m"
    "unat (tf_next_expiration_ns ?s) = ?e + i * ?m"
    using x n le now64 mul by (simp_all add: r unat_saturating_add unat_saturating_mul c iv)
  have "?e + i * ?m = d + i * deadlines d i (unat now)"
    unfolding n distrib_left using e by linarith
  then show ?thesis unfolding tracks_def using f r(1) iv x n d i by simp
qed

lemma tracks_refresh:
  assumes tr: "tracks d i taken t slot" and t: "t \<le> unat now" and b: "unat now + i < 2 ^ 64"
  shows "tracks d i taken (unat now) (timerfd_refresh slot now)"
proof (cases "tf_next_expiration_ns slot = 0 \<or> now < tf_next_expiration_ns slot")
  case True
  then have s: "timerfd_refresh slot now = slot" by (simp add: timerfd_refresh_def)
  have "deadlines d i (unat now) = deadlines d i t"
  proof (cases "i = 0")
    case True': True
    show ?thesis
      using True True' tr t by (auto simp: tracks_def deadlines_def word_less_nat_alt split: if_splits)
  next
    case False
    then have "unat now < d + i * deadlines d i t"
      using True tr by (auto simp: tracks_def word_less_nat_alt)
    then show ?thesis using deadlines_continue [of i t "unat now" d] False t
      by (simp add: deadlines_div [of i "d + i * deadlines d i t"])
  qed
  with tracks_later [OF tr] s show ?thesis by simp
next
  case False
  show ?thesis
  proof (cases "i = 0")
    case True
    with False tr have "unat (tf_next_expiration_ns slot) = d" "deadlines d i t = 0" "tf_interval_ns slot = 0"
      "d \<le> unat now"
      by (auto simp: tracks_def word_less_nat_alt unat_eq_zero split: if_splits)
    then show ?thesis using False True tr
      by (auto simp: tracks_def timerfd_refresh_def Let_def unat_saturating_add deadlines_def)
  next
    case i: False
    then show ?thesis using tracks_refresh_periodic [OF tr t _ b] False by simp
  qed
qed

subsection \<open>Runs\<close>

text \<open>Calls on one timer at given times, and the sum of what the successful reads return.\<close>

datatype timerfd_call = TfdRead | TfdGettime | TfdReadiness | TfdGeneration

definition timerfd_step ::
    "u32 \<Rightarrow> u32 \<Rightarrow> timerfd_call \<times> u64 \<Rightarrow> timerfd_table \<Rightarrow> nat \<times> timerfd_table" where
  "timerfd_step owner fd call table =
     (case call of
        (TfdRead, now) \<Rightarrow>
          (case timerfd_read owner fd now table of (Ok v, table') \<Rightarrow> (unat v, table') | (Err _, table') \<Rightarrow> (0, table'))
      | (TfdGettime, now) \<Rightarrow> (0, snd (timerfd_gettime owner fd now table))
      | (TfdReadiness, now) \<Rightarrow> (0, snd (timerfd_readiness owner fd now table))
      | (TfdGeneration, now) \<Rightarrow> (0, snd (timerfd_readiness_generation owner fd now table)))"

fun timerfd_run :: "u32 \<Rightarrow> u32 \<Rightarrow> (timerfd_call \<times> u64) list \<Rightarrow> timerfd_table \<Rightarrow> nat \<times> timerfd_table" where
  "timerfd_run owner fd [] table = (0, table)"
| "timerfd_run owner fd (call # calls) table =
     (let (n, table') = timerfd_step owner fd call table;
          (m, table'') = timerfd_run owner fd calls table' in (n + m, table''))"

text \<open>The descriptor resolves to a slot that tracks the deadlines.\<close>

definition timerfd_at ::
    "u32 \<Rightarrow> u32 \<Rightarrow> nat \<Rightarrow> nat \<Rightarrow> nat \<Rightarrow> nat \<Rightarrow> timerfd_table \<Rightarrow> bool" where
  "timerfd_at owner fd d i taken t table \<longleftrightarrow> length table = MAXIMUM_TIMERFDS \<and>
     (\<exists>index. timerfd_lookup owner fd table = Ok index \<and> tracks d i taken t (table ! index))"

lemma timerfd_at_update:
  assumes "timerfd_lookup owner fd table = Ok index" "length table = MAXIMUM_TIMERFDS"
    "tf_owner slot = tf_owner (table ! index)" "tracks d i taken t slot"
  shows "timerfd_at owner fd d i taken t (table[index := slot])"
  using timerfd_lookup_update [OF assms(1-3)] timerfd_lookup_index [OF assms(1)] assms(2,4)
  by (auto simp: timerfd_at_def)

lemma timerfd_step_tracks:
  assumes "timerfd_at owner fd d i taken t table" "t \<le> unat now" "unat now + i < 2 ^ 64"
    "timerfd_step owner fd (call, now) table = (n, table')"
  shows "timerfd_at owner fd d i (taken + n) (unat now) table' \<and>
    (call = TfdRead \<longrightarrow> taken + n = deadlines d i (unat now))"
proof -
  from assms(1) obtain index where l: "timerfd_lookup owner fd table = Ok index"
    and len: "length table = MAXIMUM_TIMERFDS" and tr: "tracks d i taken t (table ! index)"
    by (auto simp: timerfd_at_def)
  let ?s = "timerfd_refresh (table ! index) now"
  note s = tracks_refresh [OF tr assms(2,3)]
  have k: "timerfd_at owner fd d i taken (unat now) (table[index := ?s])"
    by (rule timerfd_at_update [OF l len _ s]) simp
  have r: "timerfd_at owner fd d i (taken + unat (tf_expirations ?s)) (unat now)
      (table[index := ?s\<lparr>tf_expirations := 0, tf_readiness_generation := tf_readiness_generation ?s + 1\<rparr>])"
    using s by (intro timerfd_at_update [OF l len]) (simp_all add: tracks_def)
  have e: "taken + unat (tf_expirations ?s) = deadlines d i (unat now)" using s by (simp add: tracks_def)
  show ?thesis
  proof (cases call)
    case TfdRead
    then show ?thesis
      using assms(4) k r e by (cases "tf_expirations ?s = 0") (auto simp: timerfd_step_def timerfd_read_def l Let_def)
  qed (use assms(4) k in \<open>auto simp: timerfd_step_def timerfd_gettime_def timerfd_readiness_def
      timerfd_readiness_generation_def l Let_def\<close>)
qed

lemma timerfd_run_tracks:
  assumes "timerfd_at owner fd d i taken t table" "sorted (t # map (unat \<circ> snd) calls)"
    "\<forall>call \<in> set calls. unat (snd call) + i < 2 ^ 64" "timerfd_run owner fd calls table = (n, table')"
  shows "timerfd_at owner fd d i (taken + n) (last (t # map (unat \<circ> snd) calls)) table'"
  using assms
proof (induction calls arbitrary: taken t table n)
  case Nil
  then show ?case by simp
next
  case (Cons call calls)
  obtain c now where call: "call = (c, now)" by (cases call)
  obtain n1 table1 where s: "timerfd_step owner fd (c, now) table = (n1, table1)"
    by (cases "timerfd_step owner fd (c, now) table")
  obtain n2 where r: "timerfd_run owner fd calls table1 = (n2, table')" and n: "n = n1 + n2"
    using Cons.prems(4) by (auto simp: call s split: prod.splits)
  have "timerfd_at owner fd d i (taken + n1) (unat now) table1"
    using timerfd_step_tracks [OF Cons.prems(1) _ _ s] Cons.prems(2,3) by (simp add: call)
  from Cons.IH [OF this _ _ r] Cons.prems(2,3) show ?case by (simp add: call n add.assoc)
qed

lemma timerfd_run_append:
  "timerfd_run owner fd (calls @ calls') table =
     (let (n, table') = timerfd_run owner fd calls table;
          (m, table'') = timerfd_run owner fd calls' table' in (n + m, table''))"
  by (induction calls arbitrary: table) (auto simp: Let_def split: prod.splits)

text \<open>Arming a timer starts a new count.\<close>

definition timerfd_deadline :: "u32 \<Rightarrow> timer_spec \<Rightarrow> u64 \<Rightarrow> nat" where
  "timerfd_deadline flags spec now =
     (if flags AND TFD_TIMER_ABSTIME \<noteq> 0 then unat (ts_value_ns spec) else unat now + unat (ts_value_ns spec))"

lemma timerfd_settime_tracks:
  assumes "timerfd_settime owner fd flags spec now table = (Ok old, table')"
    "length table = MAXIMUM_TIMERFDS" "ts_value_ns spec \<noteq> 0"
  shows "timerfd_at owner fd (timerfd_deadline flags spec now) (unat (ts_interval_ns spec)) 0 0 table'"
proof -
  from assms(1,3) obtain index deadline where l: "timerfd_lookup owner fd table = Ok index"
    and d: "(if flags AND TFD_TIMER_ABSTIME \<noteq> 0 then Some (ts_value_ns spec)
        else checked_deadline now (ts_value_ns spec)) = Some deadline" "deadline \<noteq> 0"
    and t: "table' = table[index := (timerfd_refresh (table ! index) now)\<lparr>tf_interval_ns := ts_interval_ns spec,
        tf_next_expiration_ns := deadline, tf_expirations := 0\<rparr>]"
    by (auto simp: timerfd_settime_def Let_def split: rust_splits)
  have u: "unat deadline = timerfd_deadline flags spec now"
    using d(1) by (auto simp: timerfd_deadline_def checked_deadline_def checked_add_Some_iff split: if_splits)
  moreover have "0 < unat deadline" using d(2) by (simp add: unat_gt_0)
  moreover from this have "deadlines (unat deadline) i 0 = 0" for i
    using deadlines_bound [of "unat deadline" i 0] by simp
  ultimately show ?thesis
    unfolding t by (intro timerfd_at_update [OF l assms(2)]) (simp_all add: tracks_def)
qed

section \<open>Properties\<close>

text \<open>
  C23. Lazy expiry loses nothing and invents nothing. Arm a timer, then poll, query and read it
  at any nondecreasing times, and read it once more at the end: the values the reads returned
  add up to exactly the number of deadlines up to that last read, for one-shot and periodic
  timers alike, as long as the clock stays one interval below \<open>2\<^sup>6\<^sup>4\<close>.
\<close>

theorem timerfd_counts_every_deadline:
  assumes "timerfd_settime owner fd flags spec start table = (Ok old, table0)"
    "length table = MAXIMUM_TIMERFDS" "ts_value_ns spec \<noteq> 0"
    "sorted (map (unat \<circ> snd) (calls @ [(TfdRead, now)]))"
    "\<forall>call \<in> set (calls @ [(TfdRead, now)]). unat (snd call) + unat (ts_interval_ns spec) < 2 ^ 64"
  shows "fst (timerfd_run owner fd (calls @ [(TfdRead, now)]) table0) =
    deadlines (timerfd_deadline flags spec start) (unat (ts_interval_ns spec)) (unat now)"
proof -
  note at0 = timerfd_settime_tracks [OF assms(1-3)]
  obtain n table1 where r: "timerfd_run owner fd calls table0 = (n, table1)"
    by (cases "timerfd_run owner fd calls table0")
  obtain m table2 where s: "timerfd_step owner fd (TfdRead, now) table1 = (m, table2)"
    by (cases "timerfd_step owner fd (TfdRead, now) table1")
  let ?t = "last (0 # map (unat \<circ> snd) calls)"
  have at1: "timerfd_at owner fd (timerfd_deadline flags spec start) (unat (ts_interval_ns spec)) n ?t table1"
    using timerfd_run_tracks [OF at0 _ _ r] assms(4,5) by (simp add: sorted_append)
  have "?t \<le> unat now" using assms(4) by (cases calls rule: rev_cases) (auto simp: sorted_append)
  from timerfd_step_tracks [OF at1 this _ s] assms(5) show ?thesis
    by (simp add: timerfd_run_append r s)
qed

definition demo_timers :: timerfd_table where
  "demo_timers = snd (timerfd_create 7 CLOCK_MONOTONIC 0 timerfd_table_new)"

definition demo_armed :: timerfd_table where
  "demo_armed = snd (timerfd_settime 7 0x2000 0 \<lparr>ts_value_ns = 10, ts_interval_ns = 5\<rparr> 100 demo_timers)"

theorem timerfd_counts_every_deadline_witness:
  "fst (timerfd_run 7 0x2000 [(TfdReadiness, 112), (TfdRead, 117), (TfdRead, 131)] demo_armed) = 5"
proof -
  let ?spec = "\<lparr>ts_value_ns = 10, ts_interval_ns = 5\<rparr> :: timer_spec"
  have "fst (timerfd_settime 7 0x2000 0 ?spec 100 demo_timers) = Ok TIMER_DISARMED" by code_simp
  then have s: "timerfd_settime 7 0x2000 0 ?spec 100 demo_timers = (Ok TIMER_DISARMED, demo_armed)"
    by (metis demo_armed_def prod.collapse)
  have l: "length demo_timers = MAXIMUM_TIMERFDS" by code_simp
  have "timerfd_deadline 0 ?spec 100 = 110" by code_simp
  then show ?thesis
    using timerfd_counts_every_deadline [OF s l, of "[(TfdReadiness, 112), (TfdRead, 117)]" 131]
    by (simp add: deadlines_div)
qed

text \<open>
  Timer readiness is exact at every instant: a timer that the caller owns is reported
  readable at a time precisely when a read at that time returns a nonzero count, and a read
  that would block reports no readiness.
\<close>

theorem timerfd_readiness_exact:
  assumes "timerfd_lookup owner fd table = Ok index"
  shows "(fst (timerfd_readiness owner fd now table) = Ok READY_IN
      \<longleftrightarrow> (\<exists>v. fst (timerfd_read owner fd now table) = Ok v \<and> v \<noteq> 0)) \<and>
    (fst (timerfd_readiness owner fd now table) = Ok 0 \<longleftrightarrow> fst (timerfd_read owner fd now table) = Err TfWouldBlock)"
  using assms by (simp add: timerfd_readiness_def timerfd_read_def Let_def READY_IN_def)

theorem timerfd_readiness_exact_witness:
  "fst (timerfd_readiness 7 0x2000 112 demo_armed) = Ok READY_IN \<and> fst (timerfd_readiness 7 0x2000 109 demo_armed) = Ok 0"
proof -
  have l: "timerfd_lookup 7 0x2000 demo_armed = Ok 0" by code_simp
  have r: "fst (timerfd_read 7 0x2000 112 demo_armed) = Ok 1" "fst (timerfd_read 7 0x2000 109 demo_armed) = Err TfWouldBlock"
    by code_simp+
  then show ?thesis using timerfd_readiness_exact [OF l, of 112] timerfd_readiness_exact [OF l, of 109] by simp
qed

end
