(* ===== verification/UserContext.thy ===== *)
theory UserContext
  imports Prelude
begin

unbundle bit_operations_syntax

text \<open>
  \<^verbatim>\<open>src/src/process/context.rs\<close>: the register image saved at a user-to-kernel
  boundary, the dispatch context built around it and the validation that guards
  every return to user mode; and the execution personality of
  \<^verbatim>\<open>src/src/process/abi.rs\<close>.
\<close>

section \<open>State\<close>

definition USER_ADDRESS_MINIMUM :: u64 where "USER_ADDRESS_MINIMUM = 0x1000"
definition USER_ADDRESS_LIMIT :: u64 where "USER_ADDRESS_LIMIT = 0x0000800000000000"
definition KERNEL_ADDRESS_MINIMUM :: u64 where "KERNEL_ADDRESS_MINIMUM = 0xffff800000000000"
definition INITIAL_USER_FLAGS :: u64 where "INITIAL_USER_FLAGS = push_bit 1 1 OR push_bit 9 1"
definition CONTEXT_PAGE_MASK :: u64 where "CONTEXT_PAGE_MASK = 0xfff"
definition PHYSICAL_ADDRESS_MASK :: u64 where "PHYSICAL_ADDRESS_MASK = 0x000ffffffffff000"

definition USER_FLAGS_ALLOWED :: u64 where
  "USER_FLAGS_ALLOWED = push_bit 0 1 OR push_bit 1 1 OR push_bit 2 1 OR push_bit 4 1
     OR push_bit 6 1 OR push_bit 7 1 OR push_bit 8 1 OR push_bit 9 1 OR push_bit 10 1
     OR push_bit 11 1 OR push_bit 16 1 OR push_bit 18 1 OR push_bit 21 1"

record saved_user_context =
  uc_r15 :: u64
  uc_r14 :: u64
  uc_r13 :: u64
  uc_r12 :: u64
  uc_r11 :: u64
  uc_r10 :: u64
  uc_r9 :: u64
  uc_r8 :: u64
  uc_rbp :: u64
  uc_rdi :: u64
  uc_rsi :: u64
  uc_rdx :: u64
  uc_rcx :: u64
  uc_rbx :: u64
  uc_rax :: u64
  uc_instruction_pointer :: u64
  uc_flags :: u64
  uc_stack_pointer :: u64

definition SAVED_CONTEXT_EMPTY :: saved_user_context where
  "SAVED_CONTEXT_EMPTY = \<lparr>uc_r15 = 0, uc_r14 = 0, uc_r13 = 0, uc_r12 = 0, uc_r11 = 0, uc_r10 = 0,
     uc_r9 = 0, uc_r8 = 0, uc_rbp = 0, uc_rdi = 0, uc_rsi = 0, uc_rdx = 0, uc_rcx = 0, uc_rbx = 0,
     uc_rax = 0, uc_instruction_pointer = 0, uc_flags = 0, uc_stack_pointer = 0\<rparr>"

definition context_initial :: "u64 \<Rightarrow> u64 \<Rightarrow> saved_user_context" where
  "context_initial instruction_pointer stack_pointer =
     \<lparr>uc_r15 = 0, uc_r14 = 0, uc_r13 = 0, uc_r12 = 0, uc_r11 = INITIAL_USER_FLAGS, uc_r10 = 0,
      uc_r9 = 0, uc_r8 = 0, uc_rbp = 0, uc_rdi = 0, uc_rsi = 0, uc_rdx = 0,
      uc_rcx = instruction_pointer, uc_rbx = 0, uc_rax = 0,
      uc_instruction_pointer = instruction_pointer, uc_flags = INITIAL_USER_FLAGS,
      uc_stack_pointer = stack_pointer\<rparr>"

datatype context_error =
    InvalidInstructionPointer | InvalidStackPointer | InvalidFlags | InvalidAddressSpaceRoot
  | InvalidKernelStackPointer | InvalidFsBase | InvalidDispatchAuthority

record dispatch_context =
  dc_user :: saved_user_context
  dc_address_space_root :: u64
  dc_kernel_stack_pointer :: u64
  dc_fs_base :: u64

record authorized_user_return =
  au_dispatch :: dispatch_context
  au_pid :: u32
  au_generation :: u32
  au_scheduler_epoch :: u64

definition AUTHORIZED_RETURN_EMPTY :: authorized_user_return where
  "AUTHORIZED_RETURN_EMPTY =
     \<lparr>au_dispatch = \<lparr>dc_user = SAVED_CONTEXT_EMPTY, dc_address_space_root = 0,
        dc_kernel_stack_pointer = 0, dc_fs_base = 0\<rparr>,
      au_pid = 0, au_generation = 0, au_scheduler_epoch = 0\<rparr>"

datatype execution_abi = ArachNative | LinuxX86_64

definition is_linux :: "execution_abi \<Rightarrow> bool" where
  "is_linux abi = (case abi of LinuxX86_64 \<Rightarrow> True | _ \<Rightarrow> False)"

section \<open>Operations\<close>

definition valid_user_address :: "u64 \<Rightarrow> bool" where
  "valid_user_address address \<longleftrightarrow> USER_ADDRESS_MINIMUM \<le> address \<and> address < USER_ADDRESS_LIMIT"

definition valid_page_table_root :: "u64 \<Rightarrow> bool" where
  "valid_page_table_root root \<longleftrightarrow>
     root \<noteq> 0 \<and> root AND CONTEXT_PAGE_MASK = 0 \<and> root AND NOT PHYSICAL_ADDRESS_MASK = 0"

definition valid_kernel_stack_pointer :: "u64 \<Rightarrow> bool" where
  "valid_kernel_stack_pointer pointer \<longleftrightarrow> KERNEL_ADDRESS_MINIMUM \<le> pointer \<and> pointer AND 0xf = 0"

definition valid_user_tls_base :: "u64 \<Rightarrow> bool" where
  "valid_user_tls_base address \<longleftrightarrow> address < USER_ADDRESS_LIMIT"

definition context_validate :: "saved_user_context \<Rightarrow> (unit, context_error) result" where
  "context_validate c =
     (if \<not> valid_user_address (uc_instruction_pointer c) then Err InvalidInstructionPointer
      else if \<not> valid_user_address (uc_stack_pointer c) then Err InvalidStackPointer
      else if uc_flags c AND push_bit 1 1 = 0 \<or> uc_flags c AND NOT USER_FLAGS_ALLOWED \<noteq> 0
      then Err InvalidFlags
      else Ok ())"

text \<open>\<open>isize\<close> results are integers; storing one in a register keeps its low 64 bits.\<close>

definition set_syscall_result :: "int \<Rightarrow> saved_user_context \<Rightarrow> saved_user_context" where
  "set_syscall_result result c = c\<lparr>uc_rax := word_of_int result\<rparr>"

definition syscall_arguments :: "saved_user_context \<Rightarrow> u64 list" where
  "syscall_arguments c = [uc_rdi c, uc_rsi c, uc_rdx c, uc_r10 c, uc_r8 c, uc_r9 c]"

definition dispatch_validate :: "dispatch_context \<Rightarrow> (unit, context_error) result" where
  "dispatch_validate d =
     (case context_validate (dc_user d) of
        Err e \<Rightarrow> Err e
      | Ok _ \<Rightarrow>
          if \<not> valid_page_table_root (dc_address_space_root d) then Err InvalidAddressSpaceRoot
          else if \<not> valid_kernel_stack_pointer (dc_kernel_stack_pointer d) then Err InvalidKernelStackPointer
          else if \<not> valid_user_tls_base (dc_fs_base d) then Err InvalidFsBase
          else Ok ())"

definition return_validate :: "authorized_user_return \<Rightarrow> (unit, context_error) result" where
  "return_validate a =
     (if au_pid a = 0 \<or> au_generation a = 0 \<or> au_scheduler_epoch a = 0 then Err InvalidDispatchAuthority
      else dispatch_validate (au_dispatch a))"

section \<open>Lemmas\<close>

lemma context_validate_set_result [simp]:
  "context_validate (set_syscall_result r c) = context_validate c"
  by (simp add: context_validate_def set_syscall_result_def)

lemma context_validate_initial:
  "valid_user_address ip \<Longrightarrow> valid_user_address sp \<Longrightarrow> context_validate (context_initial ip sp) = Ok ()"
  by (simp add: context_validate_def context_initial_def INITIAL_USER_FLAGS_def USER_FLAGS_ALLOWED_def)

lemma context_validate_stack:
  "context_validate c = Ok () \<Longrightarrow> valid_user_address sp \<Longrightarrow>
    context_validate (c\<lparr>uc_stack_pointer := sp\<rparr>) = Ok ()"
  by (auto simp: context_validate_def split: if_splits)

lemma dispatch_validate_Ok:
  "dispatch_validate d = Ok () \<longleftrightarrow> context_validate (dc_user d) = Ok () \<and>
     valid_page_table_root (dc_address_space_root d) \<and>
     valid_kernel_stack_pointer (dc_kernel_stack_pointer d) \<and> valid_user_tls_base (dc_fs_base d)"
  by (auto simp: dispatch_validate_def split: result.splits)

lemma return_validate_Ok:
  "return_validate a = Ok () \<longleftrightarrow> au_pid a \<noteq> 0 \<and> au_generation a \<noteq> 0 \<and> au_scheduler_epoch a \<noteq> 0 \<and>
     dispatch_validate (au_dispatch a) = Ok ()"
  by (auto simp: return_validate_def)

text \<open>The flag bits that select privileged behaviour: the two I/O privilege bits, nested
  task, virtual-8086 mode and the two virtual-interrupt bits.\<close>

definition privileged_flag_bits :: "nat list" where
  "privileged_flag_bits = [12, 13, 14, 17, 19, 20]"

lemma allowed_flags_unprivileged:
  "list_all (\<lambda>n. \<not> bit USER_FLAGS_ALLOWED n) (privileged_flag_bits @ [22..<64])"
  by code_simp

lemma masked_flag_clear: "w AND NOT m = (0 :: u64) \<Longrightarrow> \<not> bit m n \<Longrightarrow> n < 64 \<Longrightarrow> \<not> bit w n"
  by (metis and_zero_eq bit_and_iff bit_not_iff bit_0_eq bot_fun_def bot_bool_def
      impossible_bit possible_bit_word len_num1 zero_and_eq bit_0 not_less)

section \<open>Properties\<close>

text \<open>
  C34. A return that passes validation enters user mode with nothing more than user rights:
  instruction and stack pointer lie in the lower canonical half above the first page, no
  privileged flag is set, the page-table root is a nonzero page-aligned physical address
  below \<open>2\<^sup>5\<^sup>2\<close>, and the kernel stack lies in the upper half.
\<close>

theorem validated_return_is_user_mode:
  assumes "return_validate a = Ok ()"
  shows "let d = au_dispatch a; u = dc_user d in
    0x1000 \<le> unat (uc_instruction_pointer u) \<and> unat (uc_instruction_pointer u) < 2 ^ 47 \<and>
    0x1000 \<le> unat (uc_stack_pointer u) \<and> unat (uc_stack_pointer u) < 2 ^ 47 \<and>
    list_all (\<lambda>n. \<not> bit (uc_flags u) n) privileged_flag_bits \<and>
    dc_address_space_root d \<noteq> 0 \<and> list_all (\<lambda>n. \<not> bit (dc_address_space_root d) n) ([0..<12] @ [52..<64]) \<and>
    2 ^ 64 - 2 ^ 47 \<le> unat (dc_kernel_stack_pointer d)"
proof -
  let ?d = "au_dispatch a"
  have v: "context_validate (dc_user ?d) = Ok ()" "valid_page_table_root (dc_address_space_root ?d)"
      "valid_kernel_stack_pointer (dc_kernel_stack_pointer ?d)"
    using assms by (auto simp: return_validate_Ok dispatch_validate_Ok)
  then have u: "valid_user_address (uc_instruction_pointer (dc_user ?d))"
      "valid_user_address (uc_stack_pointer (dc_user ?d))" "uc_flags (dc_user ?d) AND NOT USER_FLAGS_ALLOWED = 0"
    by (auto simp: context_validate_def split: if_splits)
  have f: "list_all (\<lambda>n. \<not> bit (uc_flags (dc_user ?d)) n) privileged_flag_bits"
    using masked_flag_clear [OF u(3)] allowed_flags_unprivileged
    by (auto simp: list_all_iff privileged_flag_bits_def)
  have "list_all (\<lambda>n. \<not> bit PHYSICAL_ADDRESS_MASK n) ([0..<12] @ [52..<64])" by code_simp
  then have r: "list_all (\<lambda>n. \<not> bit (dc_address_space_root ?d) n) ([0..<12] @ [52..<64])"
    using masked_flag_clear v(2) by (auto simp: list_all_iff valid_page_table_root_def)
  show ?thesis
    using u(1,2) v(2,3) f r
    by (simp add: Let_def valid_user_address_def USER_ADDRESS_MINIMUM_def USER_ADDRESS_LIMIT_def
        valid_page_table_root_def valid_kernel_stack_pointer_def KERNEL_ADDRESS_MINIMUM_def
        word_le_nat_alt word_less_nat_alt)
qed

theorem validated_return_is_user_mode_witness:
  "let a = \<lparr>au_dispatch = \<lparr>dc_user = context_initial 0x2000 0x8000, dc_address_space_root = 0x1000,
        dc_kernel_stack_pointer = 0xffff800000004000, dc_fs_base = 0\<rparr>,
      au_pid = 1, au_generation = 1, au_scheduler_epoch = 1\<rparr>
   in return_validate a = Ok () \<and> list_all (\<lambda>n. \<not> bit (uc_flags (dc_user (au_dispatch a))) n) privileged_flag_bits"
proof -
  let ?a = "\<lparr>au_dispatch = \<lparr>dc_user = context_initial 0x2000 0x8000, dc_address_space_root = 0x1000,
        dc_kernel_stack_pointer = 0xffff800000004000, dc_fs_base = 0\<rparr>,
      au_pid = 1, au_generation = 1, au_scheduler_epoch = 1\<rparr> :: authorized_user_return"
  have v: "return_validate ?a = Ok ()" by code_simp
  from validated_return_is_user_mode [OF v] v show ?thesis by (simp add: Let_def)
qed

end
