(* ===== verification/Owners.thy ===== *)
theory Owners
  imports Handles
begin

text \<open>
  Tables in which each process handle owns at most one slot: the lemmas on searching and
  updating them, and the interface \<open>owner_registry\<close> of a table from which an exiting thread
  takes what it registered.
\<close>

section \<open>Unique owners\<close>

definition unique_owners :: "('s \<Rightarrow> process_handle) \<Rightarrow> 's list \<Rightarrow> bool" where
  "unique_owners owner slots \<longleftrightarrow>
     (\<forall>i < length slots. \<forall>j < length slots.
        valid_owner (owner (slots ! i)) \<longrightarrow> owner (slots ! i) = owner (slots ! j) \<longrightarrow> i = j)"

lemma unique_owners_update:
  assumes "unique_owners owner slots"
    "\<And>j. i < length slots \<Longrightarrow> j < length slots \<Longrightarrow> j \<noteq> i \<Longrightarrow> valid_owner (owner slot) \<Longrightarrow> owner (slots ! j) \<noteq> owner slot"
  shows "unique_owners owner (slots[i := slot])"
proof (cases "i < length slots")
  case True
  show ?thesis unfolding unique_owners_def
  proof (intro allI impI)
    fix a b
    assume ab: "a < length (slots[i := slot])" "b < length (slots[i := slot])"
      and v: "valid_owner (owner (slots[i := slot] ! a))" and e: "owner (slots[i := slot] ! a) = owner (slots[i := slot] ! b)"
    show "a = b"
    proof (cases "a = i \<or> b = i")
      case ai: True
      then show ?thesis using assms(2) [OF True, of a] assms(2) [OF True, of b] ab v e True
        by (cases "a = i"; cases "b = i") auto
    next
      case False
      then show ?thesis using assms(1) ab v e by (simp add: unique_owners_def)
    qed
  qed
next
  case False
  then show ?thesis using assms(1) by (simp add: list_update_beyond)
qed

lemma unique_owners_keep:
  assumes "unique_owners owner slots" "owner slot = owner (slots ! i) \<or> \<not> valid_owner (owner slot)"
  shows "unique_owners owner (slots[i := slot])"
  using assms by (intro unique_owners_update) (auto simp: unique_owners_def)

lemma unique_owners_fresh:
  assumes "unique_owners owner slots" "\<forall>s \<in> set slots. \<not> (valid_owner (owner s) \<and> owner s = owner slot)"
  shows "unique_owners owner (slots[i := slot])"
  using assms by (intro unique_owners_update) (metis nth_mem)+

lemma unique_owners_map: "unique_owners owner slots \<Longrightarrow> map owner slots' = map owner slots \<Longrightarrow>
    unique_owners owner slots'"
proof -
  assume u: "unique_owners owner slots" and m: "map owner slots' = map owner slots"
  have l: "length slots' = length slots" using m by (rule map_eq_imp_length_eq)
  have "owner (slots' ! i) = owner (slots ! i)" if "i < length slots" for i
    using arg_cong [OF m, of "\<lambda>xs. xs ! i"] that l by simp
  with u l show ?thesis by (simp add: unique_owners_def)
qed

section \<open>The slot of an owner\<close>

definition owned_at :: "('s \<Rightarrow> process_handle) \<Rightarrow> process_handle \<Rightarrow> 's list \<Rightarrow> nat option" where
  "owned_at owner h slots = position (\<lambda>s. valid_owner (owner s) \<and> owner s = h) slots"

lemma owned_at_Some:
  assumes "owned_at owner h slots = Some i"
  shows "i < length slots" "owner (slots ! i) = h" "valid_owner h"
  using assms by (auto simp: owned_at_def position_Some_iff)

lemma owned_at_invalid: "\<not> valid_owner h \<Longrightarrow> owned_at owner h slots = None"
  by (auto simp: owned_at_def position_None_iff)

lemma owned_at_iff:
  assumes "unique_owners owner slots" "valid_owner h"
  shows "owned_at owner h slots = Some i \<longleftrightarrow> i < length slots \<and> owner (slots ! i) = h"
proof
  assume i: "i < length slots \<and> owner (slots ! i) = h"
  with assms show "owned_at owner h slots = Some i" unfolding owned_at_def
    by (intro position_unique) (auto simp: unique_owners_def)
qed (use assms(2) in \<open>auto dest: owned_at_Some\<close>)

text \<open>Writing over a slot that belongs to nobody or to the same owner changes only what its owner owns.\<close>

lemma owned_at_write:
  assumes "unique_owners owner slots" "unique_owners owner (slots[i := v])" "i < length slots"
    "h \<noteq> owner (slots ! i) \<or> owner v = h" "h \<noteq> owner v \<or> owner (slots ! i) = h"
  shows "owned_at owner h (slots[i := v]) = owned_at owner h slots"
proof (cases "valid_owner h")
  case True
  have "owner v = h \<longleftrightarrow> owner (slots ! i) = h" using assms(4,5) by metis
  then have "owner (slots[i := v] ! j) = h \<longleftrightarrow> owner (slots ! j) = h" for j by (simp add: nth_update)
  then have "owned_at owner h (slots[i := v]) = Some j \<longleftrightarrow> owned_at owner h slots = Some j" for j
    by (simp add: owned_at_iff [OF assms(1) True] owned_at_iff [OF assms(2) True])
  then show ?thesis by (metis not_None_eq)
qed (simp add: owned_at_invalid)

lemma owned_at_cleared:
  assumes "unique_owners owner slots" "owned_at owner h slots = Some i" "\<not> valid_owner (owner v)"
  shows "owned_at owner g (slots[i := v]) = (if g = h then None else owned_at owner g slots)"
proof -
  note s = owned_at_Some [OF assms(2)]
  have u: "unique_owners owner (slots[i := v])" using assms(1,3) by (simp add: unique_owners_keep)
  have vh: "owner v \<noteq> h" using s(3) assms(3) by metis
  show ?thesis
  proof (cases "g = h")
    case True
    have "owner (slots[i := v] ! j) \<noteq> h" if "j < length slots" for j
      using that vh s(1,2) assms(1) s(3) by (cases "j = i") (auto simp: unique_owners_def)
    then have "owned_at owner h (slots[i := v]) \<noteq> Some j" for j using owned_at_iff [OF u s(3), of j] by simp
    with True show ?thesis by (simp add: not_Some_eq [symmetric])
  next
    case False
    show ?thesis
    proof (cases "owner v = g")
      case True
      then have "\<not> valid_owner g" using assms(3) by simp
      then show ?thesis using False by (simp add: owned_at_invalid)
    qed (use False s owned_at_write [OF assms(1) u s(1), of g] in simp)
  qed
qed

lemma owned_at_filled:
  assumes "unique_owners owner slots" "owned_at owner (owner v) slots = None" "i < length slots"
    "\<not> valid_owner (owner (slots ! i))" "valid_owner (owner v)"
  shows "unique_owners owner (slots[i := v])"
    "owned_at owner g (slots[i := v]) = (if g = owner v then Some i else owned_at owner g slots)"
proof -
  show u: "unique_owners owner (slots[i := v])"
    using assms(1,2) by (auto intro!: unique_owners_fresh simp: owned_at_def position_None_iff)
  show "owned_at owner g (slots[i := v]) = (if g = owner v then Some i else owned_at owner g slots)"
  proof (cases "g = owner v")
    case True
    then show ?thesis using assms(3,5) owned_at_iff [OF u, of g i] by simp
  next
    case False
    show ?thesis
    proof (cases "valid_owner g")
      case True
      then have "g \<noteq> owner (slots ! i)" using assms(4) by metis
      then show ?thesis using False owned_at_write [OF assms(1) u assms(3), of g] by simp
    qed (use False in \<open>simp add: owned_at_invalid\<close>)
  qed
qed

text \<open>What the slot of an owner holds.\<close>

definition owned_value :: "('s \<Rightarrow> process_handle) \<Rightarrow> ('s \<Rightarrow> 'v) \<Rightarrow> process_handle \<Rightarrow> 's list \<Rightarrow> 'v option" where
  "owned_value owner held h slots = map_option (\<lambda>i. held (slots ! i)) (owned_at owner h slots)"

lemma owned_at_other: "owned_at owner h slots = Some i \<Longrightarrow> g \<noteq> h \<Longrightarrow> owned_at owner g slots \<noteq> Some i"
  by (auto dest: owned_at_Some)

lemma owned_value_cleared:
  assumes "unique_owners owner slots" "owned_at owner h slots = Some i" "\<not> valid_owner (owner v)"
  shows "owned_value owner held g (slots[i := v]) = (if g = h then None else owned_value owner held g slots)"
  using owned_at_other [OF assms(2), of g]
  by (cases "owned_at owner g slots") (auto simp: owned_value_def owned_at_cleared [OF assms] nth_update)

lemma owned_value_moved:
  assumes "unique_owners owner slots" "owned_at owner h slots = Some i" "owner v = h"
  shows "owned_value owner held g (slots[i := v]) = (if g = h then Some (held v) else owned_value owner held g slots)"
proof -
  note s = owned_at_Some [OF assms(2)]
  have "unique_owners owner (slots[i := v])" using assms(1,3) s by (simp add: unique_owners_keep)
  then have "owned_at owner g (slots[i := v]) = owned_at owner g slots"
    using owned_at_write [OF assms(1) _ s(1), of v g] s(2) assms(3) by simp
  then show ?thesis using owned_at_other [OF assms(2), of g] assms(2) s(1)
    by (cases "owned_at owner g slots") (auto simp: owned_value_def nth_update)
qed

lemma owned_value_filled:
  assumes "unique_owners owner slots" "owned_at owner (owner v) slots = None" "i < length slots"
    "\<not> valid_owner (owner (slots ! i))" "valid_owner (owner v)"
  shows "owned_value owner held g (slots[i := v]) = (if g = owner v then Some (held v) else owned_value owner held g slots)"
proof -
  have "owned_at owner g slots \<noteq> Some i" using assms(4) by (auto dest: owned_at_Some)
  then show ?thesis using assms(3)
    by (cases "owned_at owner g slots") (auto simp: owned_value_def owned_at_filled(2) [OF assms] nth_update)
qed

section \<open>Registrations that an exit consumes\<close>

locale owner_registry =
  fixes ok :: "'s \<Rightarrow> bool"
    and registered :: "process_handle \<Rightarrow> 's \<Rightarrow> 'v option"
    and taken :: "process_handle \<Rightarrow> 's \<Rightarrow> 'v option \<times> 's"
  assumes taken_value: "ok s \<Longrightarrow> fst (taken h s) = registered h s"
    and taken_ok: "ok s \<Longrightarrow> ok (snd (taken h s))"
    and taken_registered: "ok s \<Longrightarrow> registered g (snd (taken h s)) = (if g = h then None else registered g s)"
begin

lemma taken_twice: "ok s \<Longrightarrow> fst (taken h (snd (taken h s))) = None"
  by (simp add: taken_value taken_ok taken_registered)

lemma taken_each:
  assumes "ok s"
  shows "ok (fold (\<lambda>h s. snd (taken h s)) hs s) \<and>
    registered g (fold (\<lambda>h s. snd (taken h s)) hs s) = (if g \<in> set hs then None else registered g s)"
  using assms by (induction hs arbitrary: s) (auto simp: taken_ok taken_registered)

end

end
