(* ===== verification/Signal.thy ===== *)
theory Signal
  imports UserContext Handles Owners
begin

unbundle bit_operations_syntax

text \<open>
  \<^verbatim>\<open>src/src/linux_signal.rs\<close>: dispositions per thread-group leader, and mask, pending bits
  and active return frame per thread. Owners are exact process generations; a signal number
  is a 32-bit word from 1 to 64 and its pending bit is the bit below it. The loop of
  \<open>begin_delivery\<close> consumes one pending bit per turn, which is its termination measure.
\<close>

section \<open>State\<close>

definition MAXIMUM_SIGNAL :: u32 where "MAXIMUM_SIGNAL = 64"
definition SIGKILL :: u32 where "SIGKILL = 9"
definition SIGSTOP :: u32 where "SIGSTOP = 19"
definition SA_SIGINFO :: u64 where "SA_SIGINFO = 0x00000004"
definition SA_RESTORER :: u64 where "SA_RESTORER = 0x04000000"
definition SA_RESTART :: u64 where "SA_RESTART = 0x10000000"
definition SA_NODEFER :: u64 where "SA_NODEFER = 0x40000000"
definition SA_RESETHAND :: u64 where "SA_RESETHAND = 0x80000000"
definition SUPPORTED_ACTION_FLAGS :: u64 where
  "SUPPORTED_ACTION_FLAGS = SA_SIGINFO OR SA_RESTORER OR SA_RESTART OR SA_NODEFER OR SA_RESETHAND"

abbreviation SIGNAL_ENTRIES :: nat where "SIGNAL_ENTRIES \<equiv> 64"
abbreviation SIGNAL_COUNT :: nat where "SIGNAL_COUNT \<equiv> 64"

record signal_action =
  sa_handler :: u64
  sa_flags :: u64
  sa_restorer :: u64
  sa_mask :: u64

definition SIGNAL_ACTION_DEFAULT :: signal_action where
  "SIGNAL_ACTION_DEFAULT = \<lparr>sa_handler = 0, sa_flags = 0, sa_restorer = 0, sa_mask = 0\<rparr>"

datatype signal_error =
    SgInvalidOwner | SgInvalidSignal | SgInvalidAction | SgInvalidMaskOperation | SgInvalidFrame
  | SgUnsupported | SgCapacity

datatype delivery =
    DeliverNone
  | DeliverTerminate u32
  | DeliverHandler (dv_signal: u32) (dv_action: signal_action) (dv_previous_mask: u64)

record group_slot =
  gs_owner :: process_handle
  gs_actions :: "signal_action list"

definition GROUP_EMPTY :: group_slot where
  "GROUP_EMPTY = \<lparr>gs_owner = no_handle, gs_actions = replicate SIGNAL_COUNT SIGNAL_ACTION_DEFAULT\<rparr>"

definition group_occupied :: "group_slot \<Rightarrow> bool" where
  "group_occupied slot \<longleftrightarrow> ph_pid (gs_owner slot) \<noteq> 0 \<and> ph_generation (gs_owner slot) \<noteq> 0"

record thread_slot =
  th_owner :: process_handle
  th_blocked :: u64
  th_pending :: u64
  th_active_frame :: u64

definition THREAD_EMPTY :: thread_slot where
  "THREAD_EMPTY = \<lparr>th_owner = no_handle, th_blocked = 0, th_pending = 0, th_active_frame = 0\<rparr>"

definition thread_occupied :: "thread_slot \<Rightarrow> bool" where
  "thread_occupied slot \<longleftrightarrow> ph_pid (th_owner slot) \<noteq> 0 \<and> ph_generation (th_owner slot) \<noteq> 0"

record signal_table =
  sg_groups :: "group_slot list"
  sg_threads :: "thread_slot list"

definition signal_table_new :: signal_table where
  "signal_table_new = \<lparr>sg_groups = replicate SIGNAL_ENTRIES GROUP_EMPTY,
     sg_threads = replicate SIGNAL_ENTRIES THREAD_EMPTY\<rparr>"

section \<open>Table access\<close>

definition thread_find :: "process_handle \<Rightarrow> thread_slot list \<Rightarrow> nat option" where
  "thread_find owner threads = position (\<lambda>slot. thread_occupied slot \<and> th_owner slot = owner) threads"

definition group_find :: "process_handle \<Rightarrow> group_slot list \<Rightarrow> nat option" where
  "group_find owner groups = position (\<lambda>slot. group_occupied slot \<and> gs_owner slot = owner) groups"

definition set_thread :: "nat \<Rightarrow> thread_slot \<Rightarrow> signal_table \<Rightarrow> signal_table" where
  "set_thread index slot table = table\<lparr>sg_threads := (sg_threads table)[index := slot]\<rparr>"

definition set_group :: "nat \<Rightarrow> group_slot \<Rightarrow> signal_table \<Rightarrow> signal_table" where
  "set_group index slot table = table\<lparr>sg_groups := (sg_groups table)[index := slot]\<rparr>"

text \<open>\<open>thread_mut\<close> returns the index of the slot it hands out.\<close>

definition thread_mut :: "process_handle \<Rightarrow> signal_table \<Rightarrow> (nat, signal_error) result \<times> signal_table" where
  "thread_mut owner table =
     (case thread_find owner (sg_threads table) of
        Some index \<Rightarrow> (Ok index, table)
      | None \<Rightarrow>
          (case position (\<lambda>slot. \<not> thread_occupied slot) (sg_threads table) of
             None \<Rightarrow> (Err SgCapacity, table)
           | Some index \<Rightarrow> (Ok index, set_thread index (THREAD_EMPTY\<lparr>th_owner := owner\<rparr>) table)))"

definition group_action :: "process_handle \<Rightarrow> u32 \<Rightarrow> group_slot list \<Rightarrow> signal_action" where
  "group_action grp signal groups =
     (case group_find grp groups of
        None \<Rightarrow> SIGNAL_ACTION_DEFAULT
      | Some index \<Rightarrow> gs_actions (groups ! index) ! unat (signal - 1))"

definition signal_bit :: "u32 \<Rightarrow> (u64, signal_error) result" where
  "signal_bit signal =
     (if \<not> (1 \<le> signal \<and> signal \<le> MAXIMUM_SIGNAL) then Err SgInvalidSignal
      else Ok (push_bit (unat (signal - 1)) 1))"

definition unmaskable_bits :: u64 where
  "unmaskable_bits = push_bit (unat (SIGKILL - 1)) 1 OR push_bit (unat (SIGSTOP - 1)) 1"

definition sanitize_mask :: "u64 \<Rightarrow> u64" where
  "sanitize_mask bits = bits AND NOT unmaskable_bits"

definition valid_user_code :: "u64 \<Rightarrow> bool" where
  "valid_user_code address \<longleftrightarrow> USER_ADDRESS_MINIMUM \<le> address \<and> address < USER_ADDRESS_LIMIT"

definition validate_action :: "u32 \<Rightarrow> signal_action \<Rightarrow> (unit, signal_error) result" where
  "validate_action signal action =
     (case signal_bit signal of Err e \<Rightarrow> Err e
      | Ok _ \<Rightarrow>
          if sa_flags action AND NOT SUPPORTED_ACTION_FLAGS \<noteq> 0 then Err SgInvalidAction
          else if 1 < sa_handler action \<and>
              (\<not> valid_user_code (sa_handler action) \<or> sa_flags action AND SA_RESTORER = 0
               \<or> \<not> valid_user_code (sa_restorer action))
          then Err SgInvalidAction
          else Ok ())"

section \<open>Operations\<close>

text \<open>The body of \<open>set_action\<close> once the group's slot is known.\<close>

definition install_action ::
    "nat \<Rightarrow> u32 \<Rightarrow> signal_action option \<Rightarrow> signal_table \<Rightarrow> signal_action \<times> signal_table" where
  "install_action index signal replacement table =
     (let slot = sg_groups table ! index; previous = gs_actions slot ! unat (signal - 1)
      in case replacement of
           None \<Rightarrow> (previous, table)
         | Some action \<Rightarrow>
             (previous, set_group index (slot\<lparr>gs_actions :=
                (gs_actions slot)[unat (signal - 1) := action\<lparr>sa_mask := sanitize_mask (sa_mask action)\<rparr>]\<rparr>) table))"

definition set_action ::
    "process_handle \<Rightarrow> u32 \<Rightarrow> signal_action option \<Rightarrow> signal_table \<Rightarrow>
      (signal_action, signal_error) result \<times> signal_table" where
  "set_action grp signal replacement table =
     (if \<not> valid_owner grp then (Err SgInvalidOwner, table)
      else case signal_bit signal of Err e \<Rightarrow> (Err e, table)
      | Ok _ \<Rightarrow>
     case (case replacement of None \<Rightarrow> Ok ()
           | Some action \<Rightarrow> if signal = SIGKILL \<or> signal = SIGSTOP then Err SgInvalidAction
               else validate_action signal action) of Err e \<Rightarrow> (Err e, table)
      | Ok _ \<Rightarrow>
     case group_find grp (sg_groups table) of
        Some index \<Rightarrow> let (previous, table') = install_action index signal replacement table in (Ok previous, table')
      | None \<Rightarrow>
          if replacement = None then (Ok SIGNAL_ACTION_DEFAULT, table)
          else case position (\<lambda>slot. \<not> group_occupied slot) (sg_groups table) of
            None \<Rightarrow> (Err SgCapacity, table)
          | Some index \<Rightarrow>
              let (previous, table') = install_action index signal replacement
                    (set_group index (GROUP_EMPTY\<lparr>gs_owner := grp\<rparr>) table)
              in (Ok previous, table'))"

definition update_mask ::
    "process_handle \<Rightarrow> u32 \<Rightarrow> u64 option \<Rightarrow> signal_table \<Rightarrow> (u64, signal_error) result \<times> signal_table" where
  "update_mask owner operation replacement table =
     (if \<not> valid_owner owner then (Err SgInvalidOwner, table)
      else if replacement \<noteq> None \<and> 2 < operation then (Err SgInvalidMaskOperation, table)
      else case thread_mut owner table of (Err e, table') \<Rightarrow> (Err e, table')
      | (Ok index, table') \<Rightarrow>
          let thread = sg_threads table' ! index; previous = th_blocked thread in
          case replacement of None \<Rightarrow> (Ok previous, table')
          | Some bits \<Rightarrow>
              let bits = sanitize_mask bits in
              if operation = 0 then (Ok previous, set_thread index (thread\<lparr>th_blocked := previous OR bits\<rparr>) table')
              else if operation = 1
              then (Ok previous, set_thread index (thread\<lparr>th_blocked := previous AND NOT bits\<rparr>) table')
              else if operation = 2 then (Ok previous, set_thread index (thread\<lparr>th_blocked := bits\<rparr>) table')
              else (Err SgInvalidMaskOperation, table'))"

definition inherit_mask ::
    "process_handle \<Rightarrow> process_handle \<Rightarrow> signal_table \<Rightarrow> (unit, signal_error) result \<times> signal_table" where
  "inherit_mask parent child table =
     (if \<not> valid_owner parent \<or> \<not> valid_owner child then (Err SgInvalidOwner, table)
      else
        let parent_mask = (case thread_find parent (sg_threads table) of None \<Rightarrow> 0
                           | Some index \<Rightarrow> th_blocked (sg_threads table ! index)) in
        case thread_mut child table of (Err e, table') \<Rightarrow> (Err e, table')
        | (Ok index, table') \<Rightarrow>
            (Ok (), set_thread index ((sg_threads table' ! index)\<lparr>th_blocked := parent_mask\<rparr>) table'))"

definition queue_signal :: "process_handle \<Rightarrow> u32 \<Rightarrow> signal_table \<Rightarrow> (unit, signal_error) result \<times> signal_table" where
  "queue_signal owner signal table =
     (if \<not> valid_owner owner then (Err SgInvalidOwner, table)
      else case signal_bit signal of Err e \<Rightarrow> (Err e, table)
      | Ok bt \<Rightarrow>
          if signal = SIGSTOP then (Err SgUnsupported, table)
          else case thread_mut owner table of (Err e, table') \<Rightarrow> (Err e, table')
          | (Ok index, table') \<Rightarrow>
              let thread = sg_threads table' ! index in
              (Ok (), set_thread index (thread\<lparr>th_pending := th_pending thread OR bt\<rparr>) table'))"

definition pending_mask :: "process_handle \<Rightarrow> signal_table \<Rightarrow> u64" where
  "pending_mask owner table =
     (case thread_find owner (sg_threads table) of None \<Rightarrow> 0
      | Some index \<Rightarrow> th_pending (sg_threads table ! index))"

definition pending_for_signalfd :: "process_handle \<Rightarrow> u64 \<Rightarrow> signal_table \<Rightarrow> bool" where
  "pending_for_signalfd owner bits table \<longleftrightarrow> pending_mask owner table AND bits \<noteq> 0"

definition dequeue_for_signalfd :: "process_handle \<Rightarrow> u64 \<Rightarrow> signal_table \<Rightarrow> u32 option \<times> signal_table" where
  "dequeue_for_signalfd owner bits table =
     (case thread_find owner (sg_threads table) of None \<Rightarrow> (None, table)
      | Some index \<Rightarrow>
          let thread = sg_threads table ! index; selected = th_pending thread AND bits in
          if selected = 0 then (None, table)
          else
            let signal = of_nat (trailing_zeros selected) + 1 in
            (Some signal, set_thread index
               (thread\<lparr>th_pending := th_pending thread AND NOT (push_bit (unat (signal - 1)) 1)\<rparr>) table))"

definition delivery_pending :: "process_handle \<Rightarrow> signal_table \<Rightarrow> bool" where
  "delivery_pending owner table =
     (case thread_find owner (sg_threads table) of None \<Rightarrow> False
      | Some index \<Rightarrow>
          let thread = sg_threads table ! index in
          th_active_frame thread = 0 \<and> th_pending thread AND (NOT (th_blocked thread) OR unmaskable_bits) \<noteq> 0)"

definition default_ignored :: "u32 \<Rightarrow> bool" where
  "default_ignored signal \<longleftrightarrow> signal = 17 \<or> signal = 18 \<or> signal = 23 \<or> signal = 28"

text \<open>The bits that \<open>begin_delivery\<close> may deliver, and the signal number of a bit.\<close>

definition delivery_candidates :: "thread_slot \<Rightarrow> u64" where
  "delivery_candidates thread =
     (let deliverable = th_pending thread AND NOT (th_blocked thread) AND NOT unmaskable_bits;
          forced = th_pending thread AND unmaskable_bits
      in deliverable OR forced)"

lemma candidates_bit:
  "bit (delivery_candidates thread) n \<longleftrightarrow>
     bit (th_pending thread) n \<and> (\<not> bit (th_blocked thread) n \<or> bit unmaskable_bits n)"
  using bit_imp_le_length [of "th_pending thread" n]
  by (auto simp: delivery_candidates_def bit_simps)

lemma signal_number:
  assumes "n < 64"
  shows "unat (of_nat n + 1 - 1 :: u32) = n" "signal_bit (of_nat n + 1) = Ok (push_bit n 1)"
    "unat (of_nat n + 1 :: u32) = n + 1"
proof -
  have u: "unat (of_nat n + 1 :: u32) = n + 1" using assms by (simp add: unat_word_ariths unat_of_nat)
  then show "unat (of_nat n + 1 - 1 :: u32) = n" "unat (of_nat n + 1 :: u32) = n + 1"
    using assms by (simp_all add: unat_of_nat)
  have "1 \<le> (of_nat n + 1 :: u32)" "(of_nat n + 1 :: u32) \<le> MAXIMUM_SIGNAL"
    using u assms by (simp_all add: word_le_nat_alt MAXIMUM_SIGNAL_def)
  then show "signal_bit (of_nat n + 1) = Ok (push_bit n 1)"
    using assms by (simp add: signal_bit_def unat_of_nat)
qed

text \<open>The loop of \<open>begin_delivery\<close> on the thread's slot and the group slots. One turn takes
  the lowest candidate out of the pending set; an ignored signal starts the next turn.\<close>

function delivery_loop ::
    "process_handle \<Rightarrow> u64 \<Rightarrow> thread_slot \<Rightarrow> group_slot list \<Rightarrow>
      (delivery, signal_error) result \<times> thread_slot \<times> group_slot list" where
  "delivery_loop grp frame thread groups =
     (let candidates = delivery_candidates thread in
      if candidates = 0 then (Ok DeliverNone, thread, groups)
      else
        let signal = of_nat (trailing_zeros candidates) + 1 in
        case signal_bit signal of Err e \<Rightarrow> (Err e, thread, groups)
        | Ok bt \<Rightarrow>
            let action = group_action grp signal groups;
                thread' = thread\<lparr>th_pending := th_pending thread AND NOT bt\<rparr> in
            if sa_handler action = 1 \<or> sa_handler action = 0 \<and> default_ignored signal
            then delivery_loop grp frame thread' groups
            else if sa_handler action = 0 \<or> signal = SIGKILL \<or> signal = SIGSTOP
            then (Ok (DeliverTerminate signal), thread', groups)
            else
              let previous_mask = th_blocked thread;
                  self_mask = (if sa_flags action AND SA_NODEFER = 0 then bt else 0);
                  thread'' = thread'\<lparr>th_blocked := sanitize_mask (previous_mask OR sa_mask action OR self_mask),
                    th_active_frame := frame\<rparr>;
                  groups' = (if sa_flags action AND SA_RESETHAND \<noteq> 0 then
                      case group_find grp groups of None \<Rightarrow> groups
                      | Some index \<Rightarrow> groups[index := (groups ! index)\<lparr>gs_actions :=
                          (gs_actions (groups ! index))[unat (signal - 1) := SIGNAL_ACTION_DEFAULT]\<rparr>]
                    else groups)
              in (Ok (DeliverHandler signal action previous_mask), thread'', groups'))"
  by pat_completeness auto

termination
proof (relation "measure (\<lambda>(grp, frame, thread, groups). unat (th_pending thread))")
  fix thread candidates signal bt and thread' :: thread_slot and grp frame groups action
  assume c: "candidates = delivery_candidates thread" "candidates \<noteq> 0"
    and s: "signal = of_nat (trailing_zeros candidates) + 1" "signal_bit signal = Ok bt"
    and t: "thread' = thread\<lparr>th_pending := th_pending thread AND NOT bt\<rparr>"
  have b: "bit (th_pending thread) (trailing_zeros candidates)"
    using trailing_zeros_bit(1) [OF c(2)] by (simp add: c(1) candidates_bit)
  have "bt = push_bit (trailing_zeros candidates) 1"
    using signal_number(2) [of "trailing_zeros candidates"] trailing_zeros_bit(2) [OF c(2)] s by simp
  with clear_bit_less [OF b] t
  show "((grp, frame, thread', groups), grp, frame, thread, groups)
      \<in> measure (\<lambda>(grp, frame, thread, groups). unat (th_pending thread))" by simp
qed simp

declare delivery_loop.simps [simp del]

definition begin_delivery ::
    "process_handle \<Rightarrow> process_handle \<Rightarrow> u64 \<Rightarrow> signal_table \<Rightarrow> (delivery, signal_error) result \<times> signal_table" where
  "begin_delivery owner grp frame table =
     (if \<not> valid_owner owner \<or> \<not> valid_owner grp \<or> \<not> valid_user_code frame then (Err SgInvalidOwner, table)
      else case thread_find owner (sg_threads table) of None \<Rightarrow> (Err SgInvalidOwner, table)
      | Some thread_index \<Rightarrow>
          if th_active_frame (sg_threads table ! thread_index) \<noteq> 0 then (Ok DeliverNone, table)
          else
            let (result, thread, groups) = delivery_loop grp frame (sg_threads table ! thread_index) (sg_groups table)
            in (result, (set_thread thread_index thread table)\<lparr>sg_groups := groups\<rparr>))"

definition active_frame :: "process_handle \<Rightarrow> signal_table \<Rightarrow> u64 option" where
  "active_frame owner table =
     map_option (\<lambda>index. th_active_frame (sg_threads table ! index))
       (position (\<lambda>slot. thread_occupied slot \<and> th_owner slot = owner \<and> th_active_frame slot \<noteq> 0) (sg_threads table))"

definition finish_sigreturn ::
    "process_handle \<Rightarrow> u64 \<Rightarrow> u64 \<Rightarrow> signal_table \<Rightarrow> (unit, signal_error) result \<times> signal_table" where
  "finish_sigreturn owner frame restored_mask table =
     (case thread_find owner (sg_threads table) of None \<Rightarrow> (Err SgInvalidOwner, table)
      | Some index \<Rightarrow>
          let thread = sg_threads table ! index in
          if frame = 0 \<or> th_active_frame thread \<noteq> frame then (Err SgInvalidFrame, table)
          else (Ok (), set_thread index
                 (thread\<lparr>th_blocked := sanitize_mask restored_mask, th_active_frame := 0\<rparr>) table))"

definition clear_thread :: "process_handle \<Rightarrow> process_handle option \<Rightarrow> signal_table \<Rightarrow> signal_table" where
  "clear_thread owner clear_group table =
     (let table' = (case thread_find owner (sg_threads table) of None \<Rightarrow> table
                    | Some index \<Rightarrow> set_thread index THREAD_EMPTY table)
      in case clear_group of None \<Rightarrow> table'
         | Some grp \<Rightarrow>
             (case group_find grp (sg_groups table') of None \<Rightarrow> table'
              | Some index \<Rightarrow> set_group index GROUP_EMPTY table'))"

definition reset_for_exec :: "process_handle \<Rightarrow> signal_table \<Rightarrow> signal_table" where
  "reset_for_exec owner table =
     (let table' = (case group_find owner (sg_groups table) of None \<Rightarrow> table
            | Some index \<Rightarrow>
                let slot = sg_groups table ! index in
                set_group index (slot\<lparr>gs_actions :=
                  map (\<lambda>action. if sa_handler action \<noteq> 1 then SIGNAL_ACTION_DEFAULT else action) (gs_actions slot)\<rparr>) table)
      in case thread_find owner (sg_threads table') of None \<Rightarrow> table'
         | Some index \<Rightarrow> set_thread index ((sg_threads table' ! index)\<lparr>th_pending := 0, th_active_frame := 0\<rparr>) table')"

section \<open>What the delivery loop computes\<close>

text \<open>A candidate bit whose signal the loop drops.\<close>

definition signal_dropped :: "process_handle \<Rightarrow> group_slot list \<Rightarrow> nat \<Rightarrow> bool" where
  "signal_dropped grp groups n \<longleftrightarrow>
     (let action = group_action grp (of_nat n + 1) groups
      in sa_handler action = 1 \<or> sa_handler action = 0 \<and> default_ignored (of_nat n + 1))"

text \<open>The lowest candidate that is not dropped.\<close>

definition effective_signal :: "process_handle \<Rightarrow> group_slot list \<Rightarrow> thread_slot \<Rightarrow> nat option" where
  "effective_signal grp groups thread =
     List.find (\<lambda>n. bit (delivery_candidates thread) n \<and> \<not> signal_dropped grp groups n) [0..<SIGNAL_COUNT]"

text \<open>The outcome for the signal of bit \<open>n\<close>: termination, or a handler frame.\<close>

definition deliver_at ::
    "process_handle \<Rightarrow> u64 \<Rightarrow> nat \<Rightarrow> thread_slot \<Rightarrow> group_slot list \<Rightarrow>
      (delivery, signal_error) result \<times> thread_slot \<times> group_slot list" where
  "deliver_at grp frame n thread groups =
     (let signal = of_nat n + 1; action = group_action grp signal groups in
      if sa_handler action = 0 \<or> signal = SIGKILL \<or> signal = SIGSTOP
      then (Ok (DeliverTerminate signal), thread, groups)
      else (Ok (DeliverHandler signal action (th_blocked thread)),
        thread\<lparr>th_blocked := sanitize_mask (th_blocked thread OR sa_mask action OR
            (if sa_flags action AND SA_NODEFER = 0 then push_bit n 1 else 0)), th_active_frame := frame\<rparr>,
        (if sa_flags action AND SA_RESETHAND \<noteq> 0 then
           case group_find grp groups of None \<Rightarrow> groups
           | Some index \<Rightarrow> groups[index := (groups ! index)\<lparr>gs_actions :=
               (gs_actions (groups ! index))[n := SIGNAL_ACTION_DEFAULT]\<rparr>]
         else groups)))"

abbreviation without_pending :: "u64 \<Rightarrow> thread_slot \<Rightarrow> thread_slot" where
  "without_pending bits thread \<equiv> thread\<lparr>th_pending := th_pending thread AND NOT bits\<rparr>"

lemma candidates_without:
  "bit (delivery_candidates (without_pending (push_bit t 1) thread)) n \<longleftrightarrow>
     bit (delivery_candidates thread) n \<and> n \<noteq> t"
  using bit_imp_le_length [of "th_pending thread" n] by (auto simp: candidates_bit bit_simps)

lemma peel_bit:
  fixes c c' p x :: u64
  assumes "\<And>n. bit c' n \<longleftrightarrow> bit c n \<and> n \<noteq> t" "bit c t" "bit x t"
  shows "(p AND NOT (push_bit t 1)) AND NOT (c' AND x) = p AND NOT (c AND x)"
proof (rule bit_word_eqI)
  fix n
  assume "n < LENGTH(64)"
  then show "bit ((p AND NOT (push_bit t 1)) AND NOT (c' AND x)) n = bit (p AND NOT (c AND x)) n"
    using assms(2,3) by (cases "n = t") (simp_all add: bit_simps assms(1))
qed

lemma pending_decreases:
  assumes "bit (delivery_candidates thread) t"
  shows "unat (th_pending (without_pending (push_bit t 1) thread)) < unat (th_pending thread)"
proof -
  have "bit (th_pending thread) t" using assms by (simp add: candidates_bit)
  from clear_bit_less [OF this] show ?thesis by simp
qed

lemma delivery_loop_step:
  assumes "delivery_candidates thread \<noteq> 0" "t = trailing_zeros (delivery_candidates thread)"
  shows "delivery_loop grp frame thread groups =
    (if signal_dropped grp groups t then delivery_loop grp frame (without_pending (push_bit t 1) thread) groups
     else deliver_at grp frame t (without_pending (push_bit t 1) thread) groups)"
proof -
  have t: "t < 64" using trailing_zeros_bit(2) [OF assms(1)] assms(2) by simp
  show ?thesis
    using signal_number [OF t] assms
    by (subst delivery_loop.simps) (cases "group_find grp groups"; simp add: Let_def signal_dropped_def deliver_at_def)
qed

lemma delivery_loop_none:
  assumes "\<And>n. bit (delivery_candidates thread) n \<Longrightarrow> signal_dropped grp groups n"
  shows "delivery_loop grp frame thread groups =
    (Ok DeliverNone, without_pending (delivery_candidates thread) thread, groups)"
  using assms
proof (induction "unat (th_pending thread)" arbitrary: thread rule: less_induct)
  case less
  show ?case
  proof (cases "delivery_candidates thread = 0")
    case True
    then show ?thesis by (subst delivery_loop.simps) simp
  next
    case False
    let ?t = "trailing_zeros (delivery_candidates thread)"
    let ?th = "without_pending (push_bit ?t 1) thread"
    note b = trailing_zeros_bit(1) [OF False]
    have "delivery_loop grp frame ?th groups = (Ok DeliverNone, without_pending (delivery_candidates ?th) ?th, groups)"
      by (rule less.hyps [OF pending_decreases [OF b]]) (use less.prems candidates_without in blast)
    moreover have "th_pending ?th AND NOT (delivery_candidates ?th) = th_pending thread AND NOT (delivery_candidates thread)"
      using peel_bit [OF candidates_without b, of "- 1"] bit_imp_le_length [OF b] by simp
    ultimately show ?thesis
      using delivery_loop_step [OF False refl, of grp frame groups] less.prems [OF b] by simp
  qed
qed

lemma delivery_loop_some:
  assumes "bit (delivery_candidates thread) n" "\<not> signal_dropped grp groups n"
    "\<And>k. k < n \<Longrightarrow> bit (delivery_candidates thread) k \<Longrightarrow> signal_dropped grp groups k"
  shows "delivery_loop grp frame thread groups =
    deliver_at grp frame n (without_pending (delivery_candidates thread AND mask (Suc n)) thread) groups"
  using assms
proof (induction "unat (th_pending thread)" arbitrary: thread rule: less_induct)
  case less
  let ?t = "trailing_zeros (delivery_candidates thread)"
  let ?th = "without_pending (push_bit ?t 1) thread"
  have nz: "delivery_candidates thread \<noteq> 0" using less.prems(1) by auto
  note b = trailing_zeros_bit(1) [OF nz]
  have le: "?t \<le> n" using trailing_zeros_least [OF less.prems(1)] by simp
  show ?case
  proof (cases "?t = n")
    case True
    have "th_pending thread AND NOT (push_bit ?t 1) = th_pending thread AND NOT (delivery_candidates thread AND mask (Suc n))"
      using trailing_zeros_bit(3) [OF nz] b
      by (intro bit_word_eqI) (auto simp: bit_simps True less_Suc_eq)
    then show ?thesis
      using delivery_loop_step [OF nz refl, of grp frame groups] less.prems(2) True by simp
  next
    case False
    with le have lt: "?t < n" by simp
    have d: "signal_dropped grp groups ?t" by (rule less.prems(3) [OF lt b])
    have "delivery_loop grp frame ?th groups =
        deliver_at grp frame n (without_pending (delivery_candidates ?th AND mask (Suc n)) ?th) groups"
      by (rule less.hyps [OF pending_decreases [OF b]]) (use less.prems lt candidates_without [of thread ?t] in blast)+
    moreover have "th_pending ?th AND NOT (delivery_candidates ?th AND mask (Suc n)) =
        th_pending thread AND NOT (delivery_candidates thread AND mask (Suc n))"
      using peel_bit [OF candidates_without b, of "mask (Suc n)"] bit_imp_le_length [OF b] lt
      by (simp add: bit_mask_iff)
    ultimately show ?thesis
      using delivery_loop_step [OF nz refl, of grp frame groups] d by simp
  qed
qed

lemma effective_signal_Some:
  "effective_signal grp groups thread = Some n \<Longrightarrow>
     n < 64 \<and> bit (delivery_candidates thread) n \<and> \<not> signal_dropped grp groups n \<and>
     (\<forall>k < n. bit (delivery_candidates thread) k \<longrightarrow> signal_dropped grp groups k)"
  by (auto simp: effective_signal_def find_Some_iff)

lemma effective_signal_None:
  "effective_signal grp groups thread = None \<Longrightarrow> bit (delivery_candidates thread) n \<Longrightarrow> signal_dropped grp groups n"
  using bit_imp_le_length [of "delivery_candidates thread" n]
  by (auto simp: effective_signal_def find_None_iff)

text \<open>The loop in one step.\<close>

lemma delivery_loop_effective:
  "delivery_loop grp frame thread groups =
    (case effective_signal grp groups thread of
       None \<Rightarrow> (Ok DeliverNone, without_pending (delivery_candidates thread) thread, groups)
     | Some n \<Rightarrow> deliver_at grp frame n (without_pending (delivery_candidates thread AND mask (Suc n)) thread) groups)"
proof (cases "effective_signal grp groups thread")
  case None
  then show ?thesis using delivery_loop_none [OF effective_signal_None [OF None]] by simp
next
  case (Some n)
  then show ?thesis using delivery_loop_some effective_signal_Some [OF Some] by simp
qed

section \<open>The invariant\<close>

definition action_ok :: "signal_action \<Rightarrow> bool" where
  "action_ok action \<longleftrightarrow> sa_mask action AND unmaskable_bits = 0 \<and>
     (sa_handler action \<le> 1 \<or> valid_user_code (sa_handler action) \<and> valid_user_code (sa_restorer action))"

text \<open>The kill and stop signals keep the default disposition.\<close>

definition group_ok :: "group_slot \<Rightarrow> bool" where
  "group_ok slot \<longleftrightarrow> length (gs_actions slot) = SIGNAL_COUNT \<and> list_all action_ok (gs_actions slot) \<and>
     gs_actions slot ! unat (SIGKILL - 1) = SIGNAL_ACTION_DEFAULT \<and>
     gs_actions slot ! unat (SIGSTOP - 1) = SIGNAL_ACTION_DEFAULT"

text \<open>Neither is ever masked, and a stop is never pending.\<close>

definition thread_ok :: "thread_slot \<Rightarrow> bool" where
  "thread_ok slot \<longleftrightarrow> th_blocked slot AND unmaskable_bits = 0 \<and>
     \<not> bit (th_pending slot) (unat (SIGSTOP - 1)) \<and>
     (th_active_frame slot = 0 \<or> valid_user_code (th_active_frame slot))"

definition signal_inv :: "signal_table \<Rightarrow> bool" where
  "signal_inv table \<longleftrightarrow>
     length (sg_groups table) = SIGNAL_ENTRIES \<and> length (sg_threads table) = SIGNAL_ENTRIES \<and>
     list_all group_ok (sg_groups table) \<and> list_all thread_ok (sg_threads table) \<and>
     unique_owners gs_owner (sg_groups table) \<and> unique_owners th_owner (sg_threads table)"

inductive signal_step :: "signal_table \<Rightarrow> signal_table \<Rightarrow> bool" where
  acted: "set_action grp signal replacement table = (r, table') \<Longrightarrow> signal_step table table'"
| masked: "update_mask owner operation bits table = (r', table') \<Longrightarrow> signal_step table table'"
| inherited: "inherit_mask parent child table = (r'', table') \<Longrightarrow> signal_step table table'"
| queued: "queue_signal owner signal table = (r'', table') \<Longrightarrow> signal_step table table'"
| dequeued: "dequeue_for_signalfd owner selection table = (s, table') \<Longrightarrow> signal_step table table'"
| began: "begin_delivery owner grp frame table = (d, table') \<Longrightarrow> signal_step table table'"
| finished: "finish_sigreturn owner frame restored table = (r'', table') \<Longrightarrow> signal_step table table'"
| cleared: "signal_step table (clear_thread owner clear_group table)"
| executed: "signal_step table (reset_for_exec owner table)"

subsection \<open>Masks\<close>

lemma occupied_valid [simp]:
  "thread_occupied slot = valid_owner (th_owner slot)" "group_occupied slot' = valid_owner (gs_owner slot')"
  by (simp_all add: thread_occupied_def group_occupied_def valid_owner_def)

lemma unmaskable_bit: "bit unmaskable_bits n \<longleftrightarrow> n = 8 \<or> n = 18"
proof -
  have u: "unmaskable_bits = push_bit 8 1 OR push_bit 18 1"
    by (simp add: unmaskable_bits_def SIGKILL_def SIGSTOP_def)
  show ?thesis unfolding u by (simp only: bit_or_iff bit_push_bit_iff bit_1_iff) auto
qed

lemma unmasked_iff: "w AND unmaskable_bits = 0 \<longleftrightarrow> \<not> bit w 8 \<and> \<not> bit w 18"
proof -
  have "w AND unmaskable_bits = 0 \<longleftrightarrow> (\<forall>n < 64. \<not> (bit w n \<and> bit unmaskable_bits n))"
    by (auto simp: bit_eq_iff bit_simps)
  then show ?thesis unfolding unmaskable_bit by (auto dest: spec [of _ 8] spec [of _ 18])
qed

lemma sanitized_bit: "bit (sanitize_mask w) n \<longleftrightarrow> bit w n \<and> n \<noteq> 8 \<and> n \<noteq> 18"
  using bit_imp_le_length [of w n] by (auto simp: sanitize_mask_def bit_simps unmaskable_bit)

lemma sanitized [simp]: "sanitize_mask w AND unmaskable_bits = 0"
  by (simp add: unmasked_iff sanitized_bit)

lemma sanitize_id: "w AND unmaskable_bits = 0 \<Longrightarrow> sanitize_mask w = w"
  by (rule bit_word_eqI) (auto simp: sanitized_bit unmasked_iff)

lemma kill_stop_indices: "unat (SIGKILL - 1) = 8" "unat (SIGSTOP - 1) = 18"
  by (simp_all add: SIGKILL_def SIGSTOP_def)

lemma default_action_ok [simp]: "action_ok SIGNAL_ACTION_DEFAULT"
  by (simp add: action_ok_def SIGNAL_ACTION_DEFAULT_def)

lemma empty_ok [simp]: "group_ok (GROUP_EMPTY\<lparr>gs_owner := h\<rparr>)" "group_ok GROUP_EMPTY"
    "thread_ok (THREAD_EMPTY\<lparr>th_owner := h\<rparr>)" "thread_ok THREAD_EMPTY"
  by (simp_all add: group_ok_def GROUP_EMPTY_def thread_ok_def THREAD_EMPTY_def list_all_iff kill_stop_indices)

subsection \<open>Slot updates\<close>

lemma find_thread:
  "thread_find owner threads = Some i \<Longrightarrow>
     i < length threads \<and> valid_owner (th_owner (threads ! i)) \<and> th_owner (threads ! i) = owner"
  by (auto simp: thread_find_def position_Some_iff)

lemma find_group:
  "group_find owner groups = Some i \<Longrightarrow>
     i < length groups \<and> valid_owner (gs_owner (groups ! i)) \<and> gs_owner (groups ! i) = owner"
  by (auto simp: group_find_def position_Some_iff)

lemma signal_inv_thread:
  assumes "signal_inv table" "thread_ok slot"
    "th_owner slot = th_owner (sg_threads table ! i) \<or> \<not> valid_owner (th_owner slot) \<or>
     thread_find (th_owner slot) (sg_threads table) = None"
  shows "signal_inv (set_thread i slot table)"
proof -
  have "unique_owners th_owner ((sg_threads table)[i := slot])"
    using assms unique_owners_keep [of th_owner "sg_threads table" slot i]
      unique_owners_fresh [of th_owner "sg_threads table" slot i]
    by (auto simp: signal_inv_def thread_find_def position_None_iff)
  then show ?thesis
    using assms(1,2) by (simp add: signal_inv_def set_thread_def list_all_update)
qed

lemma signal_inv_group:
  assumes "signal_inv table" "group_ok slot"
    "gs_owner slot = gs_owner (sg_groups table ! i) \<or> \<not> valid_owner (gs_owner slot) \<or>
     group_find (gs_owner slot) (sg_groups table) = None"
  shows "signal_inv (set_group i slot table)"
proof -
  have "unique_owners gs_owner ((sg_groups table)[i := slot])"
    using assms unique_owners_keep [of gs_owner "sg_groups table" slot i]
      unique_owners_fresh [of gs_owner "sg_groups table" slot i]
    by (auto simp: signal_inv_def group_find_def position_None_iff)
  then show ?thesis
    using assms(1,2) by (simp add: signal_inv_def set_group_def list_all_update)
qed

lemma signal_inv_thread_at: "signal_inv table \<Longrightarrow> i < length (sg_threads table) \<Longrightarrow> thread_ok (sg_threads table ! i)"
  by (simp add: signal_inv_def list_all_length)

lemma signal_inv_group_at: "signal_inv table \<Longrightarrow> i < length (sg_groups table) \<Longrightarrow> group_ok (sg_groups table ! i)"
  by (simp add: signal_inv_def list_all_length)

lemma signal_inv_new: "signal_inv signal_table_new"
proof -
  have "\<not> valid_owner (gs_owner GROUP_EMPTY)" "\<not> valid_owner (th_owner THREAD_EMPTY)"
    by (simp_all add: GROUP_EMPTY_def THREAD_EMPTY_def)
  then show ?thesis by (simp add: signal_inv_def signal_table_new_def list_all_iff unique_owners_def)
qed

subsection \<open>Every operation preserves it\<close>

lemma thread_mut_cases:
  assumes "thread_mut owner table = (r, table')"
  obtains (full) "r = Err SgCapacity" "table' = table"
  | (found) i where "r = Ok i" "table' = table" "thread_find owner (sg_threads table) = Some i"
  | (fresh) i where "r = Ok i" "table' = set_thread i (THREAD_EMPTY\<lparr>th_owner := owner\<rparr>) table"
      "thread_find owner (sg_threads table) = None" "i < length (sg_threads table)"
  using assms by (auto simp: thread_mut_def split: option.splits dest: position_length)

lemma thread_mut_inv:
  assumes "signal_inv table" "thread_mut owner table = (Ok i, table')"
  shows "signal_inv table' \<and> i < length (sg_threads table') \<and> th_owner (sg_threads table' ! i) = owner"
  using assms(2)
proof (cases rule: thread_mut_cases)
  case (found i')
  then show ?thesis using assms(1) find_thread by auto
next
  case (fresh i')
  have "signal_inv (set_thread i' (THREAD_EMPTY\<lparr>th_owner := owner\<rparr>) table)"
    by (rule signal_inv_thread [OF assms(1)]) (simp_all add: fresh)
  then show ?thesis using fresh by (auto simp: set_thread_def)
qed simp

lemma thread_mut_error: "thread_mut owner table = (Err e, table') \<Longrightarrow> table' = table"
  by (auto elim: thread_mut_cases)

text \<open>A change to the slot that \<open>thread_mut\<close> hands out.\<close>

lemma thread_mut_update:
  assumes "signal_inv table" "thread_mut owner table = (Ok i, table')"
    "\<And>slot. thread_ok slot \<Longrightarrow> thread_ok (f slot)" "\<And>slot. th_owner (f slot) = th_owner slot"
  shows "signal_inv (set_thread i (f (sg_threads table' ! i)) table')"
proof -
  note t = thread_mut_inv [OF assms(1,2)]
  show ?thesis
    using t signal_inv_thread_at [of table' i] by (intro signal_inv_thread) (auto intro: assms(3) simp: assms(4))
qed

lemma found_update:
  assumes "signal_inv table" "thread_find owner (sg_threads table) = Some i"
    "thread_ok (sg_threads table ! i) \<Longrightarrow> thread_ok slot" "th_owner slot = th_owner (sg_threads table ! i)"
  shows "signal_inv (set_thread i slot table)"
  using find_thread [OF assms(2)] signal_inv_thread_at [OF assms(1)] assms by (intro signal_inv_thread) auto

lemma group_ok_update:
  assumes "group_ok slot" "action_ok action" "n \<noteq> 8" "n \<noteq> 18"
  shows "group_ok (slot\<lparr>gs_actions := (gs_actions slot)[n := action]\<rparr>)"
  using assms by (simp add: group_ok_def kill_stop_indices list_all_update)

lemma group_ok_reset:
  assumes "group_ok slot"
  shows "group_ok (slot\<lparr>gs_actions := (gs_actions slot)[n := SIGNAL_ACTION_DEFAULT]\<rparr>)"
  using assms
  by (simp add: group_ok_def kill_stop_indices list_all_update nth_update)

lemma validated_action_ok:
  assumes "validate_action signal action = Ok ()"
  shows "action_ok (action\<lparr>sa_mask := sanitize_mask (sa_mask action)\<rparr>)"
  using assms by (auto simp: validate_action_def action_ok_def linorder_not_less split: rust_splits)

lemma signal_index:
  assumes "signal_bit signal = Ok bt"
  shows "unat (signal - 1) < 64" "bt = push_bit (unat (signal - 1)) 1" "signal = of_nat (unat (signal - 1)) + 1"
proof -
  from assms have s: "1 \<le> unat signal" "unat signal \<le> 64" and b: "bt = push_bit (unat (signal - 1)) 1"
    by (auto simp: signal_bit_def MAXIMUM_SIGNAL_def word_le_nat_alt split: if_splits)
  then show "unat (signal - 1) < 64" by (simp add: unat_sub_if_size word_size)
  show "signal = of_nat (unat (signal - 1)) + 1" by simp
  show "bt = push_bit (unat (signal - 1)) 1" by (rule b)
qed

lemma kill_stop_number:
  assumes "signal_bit signal = Ok bt" "signal \<noteq> SIGKILL" "signal \<noteq> SIGSTOP"
  shows "unat (signal - 1) \<noteq> 8 \<and> unat (signal - 1) \<noteq> 18"
proof -
  have "signal = of_nat n + 1" if "unat (signal - 1) = n" for n
    using signal_index(3) [OF assms(1)] that by (simp only:)
  from this [of 8] this [of 18] assms(2,3) show ?thesis by (auto simp: SIGKILL_def SIGSTOP_def)
qed

lemma install_action_inv:
  assumes "signal_inv table" "i < length (sg_groups table)" "install_action i signal replacement table = (previous, table')"
    "\<And>action. replacement = Some action \<Longrightarrow> signal \<noteq> SIGKILL \<and> signal \<noteq> SIGSTOP \<and> validate_action signal action = Ok ()"
  shows "signal_inv table'"
proof (cases replacement)
  case None
  then show ?thesis using assms(1,3) by (simp add: install_action_def Let_def)
next
  case (Some action)
  note a = assms(4) [OF Some]
  obtain bt where b: "signal_bit signal = Ok bt" using a by (auto simp: validate_action_def split: rust_splits)
  from kill_stop_number [OF b] a have "group_ok ((sg_groups table ! i)\<lparr>gs_actions := (gs_actions (sg_groups table ! i))
      [unat (signal - 1) := action\<lparr>sa_mask := sanitize_mask (sa_mask action)\<rparr>]\<rparr>)"
    using signal_inv_group_at [OF assms(1,2)] validated_action_ok by (intro group_ok_update) auto
  then show ?thesis
    using assms(3) Some signal_inv_group [OF assms(1)] by (auto simp: install_action_def Let_def)
qed

lemma inv_set_action:
  assumes "signal_inv table" "set_action grp signal replacement table = (r, table')"
  shows "signal_inv table'"
proof (cases "table' = table")
  case True
  then show ?thesis using assms(1) by simp
next
  case changed: False
  have v: "signal \<noteq> SIGKILL \<and> signal \<noteq> SIGSTOP \<and> validate_action signal action = Ok ()" if "replacement = Some action" for action
    using assms(2) that changed by (auto simp: set_action_def split: rust_splits)
  show ?thesis
  proof (cases "group_find grp (sg_groups table)")
    case (Some i)
    then have "table' = snd (install_action i signal replacement table)"
      using assms(2) changed by (auto simp: set_action_def split: rust_splits)
    then show ?thesis using install_action_inv [OF assms(1) _ _ v] find_group [OF Some] by (metis prod.collapse)
  next
    case None
    let ?slot = "GROUP_EMPTY\<lparr>gs_owner := grp\<rparr>"
    from assms(2) changed None obtain i where i: "position (\<lambda>slot. \<not> group_occupied slot) (sg_groups table) = Some i"
      and t: "table' = snd (install_action i signal replacement (set_group i ?slot table))"
      by (auto simp: set_action_def split: rust_splits)
    have "signal_inv (set_group i ?slot table)"
      using None by (intro signal_inv_group [OF assms(1)]) simp_all
    then show ?thesis
      using t install_action_inv [OF _ _ _ v] position_length [OF i] by (metis prod.collapse set_group_def
          length_list_update signal_table.select_convs(1) signal_table.surjective signal_table.update_convs(1))
  qed
qed

lemma thread_ok_simps [simp]:
  "thread_ok (slot\<lparr>th_blocked := b\<rparr>) \<longleftrightarrow> b AND unmaskable_bits = 0 \<and>
     \<not> bit (th_pending slot) 18 \<and> (th_active_frame slot = 0 \<or> valid_user_code (th_active_frame slot))"
  "thread_ok (slot\<lparr>th_pending := p\<rparr>) \<longleftrightarrow> th_blocked slot AND unmaskable_bits = 0 \<and>
     \<not> bit p 18 \<and> (th_active_frame slot = 0 \<or> valid_user_code (th_active_frame slot))"
  by (simp_all add: thread_ok_def kill_stop_indices)

lemma thread_okD:
  "thread_ok slot \<Longrightarrow> th_blocked slot AND unmaskable_bits = 0 \<and> \<not> bit (th_pending slot) 18 \<and>
     (th_active_frame slot = 0 \<or> valid_user_code (th_active_frame slot))"
  by (simp add: thread_ok_def kill_stop_indices)

lemma inv_update_mask:
  assumes "signal_inv table" "update_mask owner operation replacement table = (r, table')"
  shows "signal_inv table'"
proof -
  obtain r1 t1 where m: "thread_mut owner table = (r1, t1)" by (cases "thread_mut owner table")
  have t1: "signal_inv t1"
    using m thread_mut_inv [OF assms(1)] thread_mut_error [of owner table] assms(1) by (cases r1) auto
  show ?thesis
  proof (cases "table' = table \<or> table' = t1")
    case True
    then show ?thesis using assms(1) t1 by auto
  next
    case False
    then obtain i bits where i: "r1 = Ok i" and t: "table' = set_thread i ((sg_threads t1 ! i)\<lparr>th_blocked := bits\<rparr>) t1"
      and b: "\<exists>w. bits = th_blocked (sg_threads t1 ! i) OR sanitize_mask w
        \<or> bits = th_blocked (sg_threads t1 ! i) AND NOT (sanitize_mask w) \<or> bits = sanitize_mask w"
      using assms(2) m by (auto simp: update_mask_def Let_def split: rust_splits)
    note k = thread_mut_inv [OF assms(1) m [unfolded i]]
    have "thread_ok (sg_threads t1 ! i)" using k signal_inv_thread_at by blast
    with b have "thread_ok ((sg_threads t1 ! i)\<lparr>th_blocked := bits\<rparr>)"
      by (auto dest!: thread_okD simp: unmasked_iff sanitized_bit bit_simps)
    then show ?thesis unfolding t using k by (intro signal_inv_thread) auto
  qed
qed

lemma inv_inherit_mask:
  assumes "signal_inv table" "inherit_mask parent child table = (r, table')"
  shows "signal_inv table'"
proof (cases "thread_mut child table")
  case m: (Pair r1 t1)
  let ?m = "case thread_find parent (sg_threads table) of None \<Rightarrow> 0 | Some index \<Rightarrow> th_blocked (sg_threads table ! index)"
  have "?m AND unmaskable_bits = 0"
    using signal_inv_thread_at [OF assms(1)] find_thread thread_okD by (auto split: option.splits)
  then have "signal_inv (set_thread i ((sg_threads t1 ! i)\<lparr>th_blocked := ?m\<rparr>) t1)" if "r1 = Ok i" for i
    using m that by (intro thread_mut_update [OF assms(1), where f = "\<lambda>s. s\<lparr>th_blocked := ?m\<rparr>"]) (auto dest: thread_okD)
  then show ?thesis
    using assms m thread_mut_error [of child table] by (auto simp: inherit_mask_def Let_def split: rust_splits)
qed

lemma inv_queue:
  assumes "signal_inv table" "queue_signal owner signal table = (r, table')"
  shows "signal_inv table'"
proof (cases "\<exists>bt i t1. signal_bit signal = Ok bt \<and> signal \<noteq> SIGSTOP \<and> thread_mut owner table = (Ok i, t1)")
  case True
  then obtain bt i t1 where b: "signal_bit signal = Ok bt" "signal \<noteq> SIGSTOP" and m: "thread_mut owner table = (Ok i, t1)"
    by blast
  have "unat (signal - 1) \<noteq> 18"
    using kill_stop_number [OF b(1)] b(2) kill_stop_indices by fastforce
  then have "\<not> bit bt 18" using signal_index(2) [OF b(1)] by (auto simp: bit_simps)
  then have "signal_inv (set_thread i ((\<lambda>s. s\<lparr>th_pending := th_pending s OR bt\<rparr>) (sg_threads t1 ! i)) t1)"
    using m by (intro thread_mut_update [OF assms(1)]) (auto dest: thread_okD simp: bit_simps)
  then show ?thesis using assms b m by (auto simp: queue_signal_def Let_def split: if_splits)
next
  case False
  then show ?thesis
    using assms thread_mut_error [of owner table] by (auto simp: queue_signal_def Let_def split: rust_splits)
qed

lemma inv_dequeue:
  assumes "signal_inv table" "dequeue_for_signalfd owner selection table = (s, table')"
  shows "signal_inv table'"
proof -
  have "signal_inv (set_thread i (without_pending bt (sg_threads table ! i)) table)"
    if "thread_find owner (sg_threads table) = Some i" for i bt
    using that by (intro found_update [OF assms(1)]) (auto dest: thread_okD simp: bit_simps)
  then show ?thesis
    using assms by (auto simp: dequeue_for_signalfd_def Let_def split: rust_splits)
qed

lemma inv_finish:
  assumes "signal_inv table" "finish_sigreturn owner frame restored table = (r, table')"
  shows "signal_inv table'"
proof -
  have "signal_inv (set_thread i ((sg_threads table ! i)\<lparr>th_blocked := sanitize_mask w, th_active_frame := 0\<rparr>) table)"
    if "thread_find owner (sg_threads table) = Some i" for i w
    using that by (intro found_update [OF assms(1)]) (auto simp: thread_ok_def)
  then show ?thesis using assms by (auto simp: finish_sigreturn_def Let_def split: rust_splits)
qed

lemma signal_inv_clear_thread: "signal_inv table \<Longrightarrow> signal_inv (set_thread i THREAD_EMPTY table)"
  by (rule signal_inv_thread) (simp_all add: THREAD_EMPTY_def [THEN arg_cong [where f = th_owner]])

lemma signal_inv_clear_group: "signal_inv table \<Longrightarrow> signal_inv (set_group i GROUP_EMPTY table)"
  by (rule signal_inv_group) (simp_all add: GROUP_EMPTY_def [THEN arg_cong [where f = gs_owner]])

lemma inv_clear: "signal_inv table \<Longrightarrow> signal_inv (clear_thread owner clear_group table)"
  by (auto simp: clear_thread_def Let_def signal_inv_clear_thread signal_inv_clear_group split: option.splits)

lemma inv_reset:
  assumes "signal_inv table"
  shows "signal_inv (reset_for_exec owner table)"
proof -
  let ?reset = "map (\<lambda>action. if sa_handler action \<noteq> 1 then SIGNAL_ACTION_DEFAULT else action)"
  have g: "signal_inv (set_group i (slot\<lparr>gs_actions := ?reset (gs_actions slot)\<rparr>) table)"
    if "group_find owner (sg_groups table) = Some i" "slot = sg_groups table ! i" for i slot
  proof (rule signal_inv_group [OF assms])
    have "group_ok slot" using that find_group signal_inv_group_at [OF assms] by auto
    then show "group_ok (slot\<lparr>gs_actions := ?reset (gs_actions slot)\<rparr>)"
      by (auto simp: group_ok_def list_all_iff kill_stop_indices)
  qed (simp add: that)
  have t: "signal_inv (set_thread i ((sg_threads t ! i)\<lparr>th_pending := 0, th_active_frame := 0\<rparr>) t)"
    if "signal_inv t" "thread_find owner (sg_threads t) = Some i" for t i
    using that by (intro found_update) (auto simp: thread_ok_def)
  show ?thesis
    using assms g t by (auto simp: reset_for_exec_def Let_def split: option.splits)
qed

lemma deliver_at_ok:
  assumes "thread_ok thread" "list_all group_ok groups" "valid_user_code frame"
    "deliver_at grp frame n thread groups = (r, thread', groups')"
  shows "thread_ok thread' \<and> th_owner thread' = th_owner thread \<and> list_all group_ok groups' \<and>
    map gs_owner groups' = map gs_owner groups"
proof -
  have g: "groups' = groups \<or> (\<exists>i. i < length groups \<and> groups' = groups[i := (groups ! i)\<lparr>gs_actions :=
      (gs_actions (groups ! i))[n := SIGNAL_ACTION_DEFAULT]\<rparr>])"
    using assms(4) find_group [of grp groups] by (auto simp: deliver_at_def Let_def split: rust_splits)
  have "list_all group_ok groups'"
    using g assms(2) by (auto simp: list_all_length nth_update group_ok_reset)
  moreover have "map gs_owner groups' = map gs_owner groups"
    using g by (auto intro!: nth_equalityI simp: nth_update)
  moreover have "thread_ok thread' \<and> th_owner thread' = th_owner thread"
    using assms(1,3,4) by (auto simp: deliver_at_def Let_def thread_ok_def split: if_splits)
  ultimately show ?thesis by blast
qed

lemma delivery_loop_ok:
  assumes "thread_ok thread" "list_all group_ok groups" "valid_user_code frame"
    "delivery_loop grp frame thread groups = (r, thread', groups')"
  shows "thread_ok thread' \<and> th_owner thread' = th_owner thread \<and> list_all group_ok groups' \<and>
    map gs_owner groups' = map gs_owner groups"
proof -
  have th: "thread_ok (without_pending bits thread)" for bits
    using assms(1) by (auto dest: thread_okD simp: bit_simps)
  show ?thesis
  proof (cases "effective_signal grp groups thread")
    case None
    then show ?thesis using assms(4) th assms(2) by (auto simp: delivery_loop_effective)
  next
    case (Some n)
    then have "deliver_at grp frame n (without_pending (delivery_candidates thread AND mask (Suc n)) thread) groups
        = (r, thread', groups')"
      using assms(4) by (simp add: delivery_loop_effective)
    from deliver_at_ok [OF th assms(2,3) this] show ?thesis by simp
  qed
qed

lemma begin_cases:
  assumes "begin_delivery owner grp frame table = (r, table')"
  obtains (idle) "table' = table" "r = Err SgInvalidOwner \<or> r = Ok DeliverNone"
  | (ran) i thread groups where "thread_find owner (sg_threads table) = Some i"
      "valid_owner owner" "valid_owner grp" "valid_user_code frame"
      "th_active_frame (sg_threads table ! i) = 0"
      "delivery_loop grp frame (sg_threads table ! i) (sg_groups table) = (r, thread, groups)"
      "table' = (set_thread i thread table)\<lparr>sg_groups := groups\<rparr>"
proof (cases "\<not> valid_owner owner \<or> \<not> valid_owner grp \<or> \<not> valid_user_code frame")
  case True
  then show thesis using assms by (intro idle) (auto simp: begin_delivery_def)
next
  case v: False
  show thesis
  proof (cases "thread_find owner (sg_threads table)")
    case None
    then show thesis using assms v by (intro idle) (auto simp: begin_delivery_def)
  next
    case (Some i)
    show thesis
    proof (cases "th_active_frame (sg_threads table ! i) = 0")
      case True
      obtain r' thread groups where d: "delivery_loop grp frame (sg_threads table ! i) (sg_groups table) = (r', thread, groups)"
        by (rule prod_cases3)
      then have e: "r' = r" "table' = (set_thread i thread table)\<lparr>sg_groups := groups\<rparr>"
        using assms v Some True by (simp_all add: begin_delivery_def)
      show thesis by (rule ran [OF Some _ _ _ True d [unfolded e(1)] e(2)]) (use v in simp_all)
    next
      case False
      then show thesis using assms v Some by (intro idle) (auto simp: begin_delivery_def)
    qed
  qed
qed

lemma inv_begin:
  assumes "signal_inv table" "begin_delivery owner grp frame table = (r, table')"
  shows "signal_inv table'"
  using assms(2)
proof (cases rule: begin_cases)
  case idle
  then show ?thesis using assms(1) by simp
next
  case (ran i thread groups)
  let ?th = "sg_threads table ! i"
  have g: "list_all group_ok (sg_groups table)" "unique_owners gs_owner (sg_groups table)"
    "length (sg_groups table) = SIGNAL_ENTRIES"
    using assms(1) by (simp_all add: signal_inv_def)
  have "thread_ok ?th" using signal_inv_thread_at [OF assms(1)] find_thread [OF ran(1)] by simp
  note k = delivery_loop_ok [OF this g(1) ran(4,6)]
  then have "signal_inv (set_thread i thread table)" by (intro signal_inv_thread [OF assms(1)]) auto
  moreover have "unique_owners gs_owner groups" using unique_owners_map [OF g(2)] k by blast
  moreover have "length groups = SIGNAL_ENTRIES"
    using map_eq_imp_length_eq [of gs_owner groups gs_owner "sg_groups table"] k g(3) by simp
  ultimately show ?thesis unfolding ran(7) using k by (simp add: signal_inv_def)
qed

lemma signal_inv_step: "signal_inv table \<Longrightarrow> signal_step table table' \<Longrightarrow> signal_inv table'"
  by (erule signal_step.cases)
    (auto intro: inv_set_action inv_update_mask inv_inherit_mask inv_queue inv_dequeue inv_begin inv_finish
      inv_clear inv_reset)

interpretation sgm: invariant_machine "\<lambda>table. table = signal_table_new" signal_step signal_inv
  by unfold_locales (auto intro: signal_inv_new signal_inv_step)

subsection \<open>Killing\<close>

lemma group_action_kill:
  assumes "signal_inv table"
  shows "group_action grp SIGKILL (sg_groups table) = SIGNAL_ACTION_DEFAULT"
  using find_group [of grp "sg_groups table"] signal_inv_group_at [OF assms]
  by (auto simp: group_action_def group_ok_def split: option.splits)

lemma signal_nine: "of_nat 8 + 1 = SIGKILL"
  by (simp add: SIGKILL_def)

lemma kill_effective:
  assumes "signal_inv table" "bit (th_pending thread) 8"
  obtains n where "effective_signal grp (sg_groups table) thread = Some n" "n \<le> 8"
proof -
  have c: "bit (delivery_candidates thread) 8" using assms(2) by (simp add: candidates_bit unmaskable_bit)
  have d: "\<not> signal_dropped grp (sg_groups table) 8"
    using group_action_kill [OF assms(1), of grp] signal_nine
    by (simp add: signal_dropped_def Let_def SIGNAL_ACTION_DEFAULT_def default_ignored_def SIGKILL_def)
  then obtain n where n: "effective_signal grp (sg_groups table) thread = Some n"
    using effective_signal_None [of grp "sg_groups table" thread 8] c by blast
  moreover have "n \<le> 8" using effective_signal_Some [OF n] c d by (meson not_le)
  ultimately show thesis by (rule that)
qed

lemma thread_find_set:
  assumes "thread_find owner threads = Some i" "th_owner slot = th_owner (threads ! i)"
  shows "thread_find owner (threads[i := slot]) = Some i"
  using assms by (auto simp: thread_find_def position_Some_iff nth_update)

lemma user_code_nonzero: "valid_user_code a \<Longrightarrow> a \<noteq> 0"
  by (auto simp: valid_user_code_def USER_ADDRESS_MINIMUM_def)

text \<open>What a delivery to a handler leaves in the thread's slot.\<close>

lemma begin_handler:
  assumes "begin_delivery owner grp frame table = (Ok (DeliverHandler s a m), table')"
  obtains i n where "thread_find owner (sg_threads table) = Some i" "i < length (sg_threads table)"
    "valid_user_code frame" "th_active_frame (sg_threads table ! i) = 0"
    "effective_signal grp (sg_groups table) (sg_threads table ! i) = Some n"
    "s = of_nat n + 1" "s \<noteq> SIGKILL" "m = th_blocked (sg_threads table ! i)"
    "sg_threads table' = (sg_threads table)[i := (sg_threads table ! i)\<lparr>
       th_pending := th_pending (sg_threads table ! i) AND NOT (delivery_candidates (sg_threads table ! i) AND mask (Suc n)),
       th_blocked := sanitize_mask (m OR sa_mask a OR (if sa_flags a AND SA_NODEFER = 0 then push_bit n 1 else 0)),
       th_active_frame := frame\<rparr>]"
  using assms
proof (cases rule: begin_cases)
  case (ran i thread groups)
  from ran(6) obtain n where n: "effective_signal grp (sg_groups table) (sg_threads table ! i) = Some n"
    by (auto simp: delivery_loop_effective split: option.splits)
  with ran(6) have "deliver_at grp frame n (without_pending (delivery_candidates (sg_threads table ! i) AND mask (Suc n))
      (sg_threads table ! i)) (sg_groups table) = (Ok (DeliverHandler s a m), thread, groups)"
    by (simp add: delivery_loop_effective)
  then have "s = of_nat n + 1" "s \<noteq> SIGKILL" "m = th_blocked (sg_threads table ! i)"
    "thread = (sg_threads table ! i)\<lparr>
       th_pending := th_pending (sg_threads table ! i) AND NOT (delivery_candidates (sg_threads table ! i) AND mask (Suc n)),
       th_blocked := sanitize_mask (m OR sa_mask a OR (if sa_flags a AND SA_NODEFER = 0 then push_bit n 1 else 0)),
       th_active_frame := frame\<rparr>"
    by (auto simp: deliver_at_def Let_def split: if_splits)
  then show thesis
    using that [of i n] ran find_thread [OF ran(1)] n by (simp add: set_thread_def)
qed simp

text \<open>Returning from the handler with the saved mask.\<close>

lemma finish_handler:
  assumes "signal_inv table" "begin_delivery owner grp frame table = (Ok (DeliverHandler s a m), table')"
  obtains i n table'' where "finish_sigreturn owner frame m table' = (Ok (), table'')"
    "thread_find owner (sg_threads table) = Some i" "i < length (sg_threads table)"
    "effective_signal grp (sg_groups table) (sg_threads table ! i) = Some n" "s = of_nat n + 1" "s \<noteq> SIGKILL"
    "m = th_blocked (sg_threads table ! i)"
    "sg_threads table'' = (sg_threads table)[i := without_pending
       (delivery_candidates (sg_threads table ! i) AND mask (Suc n)) (sg_threads table ! i)]"
  using assms(2)
proof (cases rule: begin_handler)
  case (1 i n)
  let ?th = "sg_threads table ! i"
  have f: "thread_find owner (sg_threads table') = Some i" unfolding 1(9) by (rule thread_find_set [OF 1(1)]) simp
  have m: "sanitize_mask m = m"
    using signal_inv_thread_at [OF assms(1) 1(2)] 1(8) by (auto dest: thread_okD intro: sanitize_id)
  define slot where "slot = sg_threads table' ! i"
  have sl: "slot = ?th\<lparr>
       th_pending := th_pending ?th AND NOT (delivery_candidates ?th AND mask (Suc n)),
       th_blocked := sanitize_mask (m OR sa_mask a OR (if sa_flags a AND SA_NODEFER = 0 then push_bit n 1 else 0)),
       th_active_frame := frame\<rparr>"
    using 1(2) by (simp add: slot_def 1(9))
  have "finish_sigreturn owner frame m table' =
      (Ok (), set_thread i (slot\<lparr>th_blocked := m, th_active_frame := 0\<rparr>) table')"
    using f user_code_nonzero [OF 1(3)] sl m
    by (simp add: finish_sigreturn_def Let_def slot_def [symmetric])
  moreover have "slot\<lparr>th_blocked := m, th_active_frame := 0\<rparr> =
      without_pending (delivery_candidates ?th AND mask (Suc n)) ?th"
    using 1(4,8) unfolding sl by (cases ?th) simp
  ultimately show thesis
    using that [of "set_thread i (slot\<lparr>th_blocked := m, th_active_frame := 0\<rparr>) table'" i n] 1
    by (simp add: set_thread_def)
qed

text \<open>Deliveries with the handlers returning at once, until one terminates the thread.\<close>

fun kill_rounds :: "nat \<Rightarrow> process_handle \<Rightarrow> process_handle \<Rightarrow> u64 \<Rightarrow> signal_table \<Rightarrow> bool" where
  "kill_rounds 0 owner grp frame table = False"
| "kill_rounds (Suc k) owner grp frame table =
     (case begin_delivery owner grp frame table of
        (Ok (DeliverTerminate _), _) \<Rightarrow> True
      | (Ok (DeliverHandler _ _ m), table') \<Rightarrow>
          kill_rounds k owner grp frame (snd (finish_sigreturn owner frame m table'))
      | _ \<Rightarrow> False)"

definition kill_rank :: "thread_slot \<Rightarrow> nat" where
  "kill_rank thread = card {n. n < 8 \<and> bit (th_pending thread) n}"

text \<open>One round that a handler took: the kill is still pending and fewer signals precede it.\<close>

lemma kill_round:
  assumes inv: "signal_inv table" and i: "thread_find owner (sg_threads table) = Some i"
    and th: "th_active_frame (sg_threads table ! i) = 0" "bit (th_pending (sg_threads table ! i)) 8"
    and b: "begin_delivery owner grp frame table = (Ok (DeliverHandler s a m), table')"
    and n: "effective_signal grp (sg_groups table) (sg_threads table ! i) = Some n" "n \<le> 8"
  shows "thread_find owner (sg_threads (snd (finish_sigreturn owner frame m table'))) = Some i \<and>
    th_active_frame (sg_threads (snd (finish_sigreturn owner frame m table')) ! i) = 0 \<and>
    bit (th_pending (sg_threads (snd (finish_sigreturn owner frame m table')) ! i)) 8 \<and>
    kill_rank (sg_threads (snd (finish_sigreturn owner frame m table')) ! i) < kill_rank (sg_threads table ! i)"
proof -
  let ?th = "sg_threads table ! i"
  from finish_handler [OF inv b] obtain i' n' table'' where f: "finish_sigreturn owner frame m table' = (Ok (), table'')"
    and i': "thread_find owner (sg_threads table) = Some i'" "i' < length (sg_threads table)"
    and n': "effective_signal grp (sg_groups table) (sg_threads table ! i') = Some n'" "s = of_nat n' + 1" "s \<noteq> SIGKILL"
    and t: "sg_threads table'' = (sg_threads table)[i' := without_pending
       (delivery_candidates (sg_threads table ! i') AND mask (Suc n')) (sg_threads table ! i')]"
    by blast
  have e: "i' = i" "n' = n" using i' n' i n by simp_all
  have "n \<noteq> 8" using n' e signal_nine by auto
  with n(2) have lt: "n < 8" by simp
  note ef = effective_signal_Some [OF n(1)]
  have th'': "sg_threads table'' ! i = without_pending (delivery_candidates ?th AND mask (Suc n)) ?th"
    using t e i' by simp
  have "{q. q < 8 \<and> bit (th_pending (sg_threads table'' ! i)) q} \<subset> {q. q < 8 \<and> bit (th_pending ?th) q}"
    using ef lt by (auto simp: th'' bit_simps candidates_bit)
  then have "kill_rank (sg_threads table'' ! i) < kill_rank ?th"
    unfolding kill_rank_def by (intro psubset_card_mono) auto
  moreover have "thread_find owner (sg_threads table'') = Some i"
    unfolding t e by (rule thread_find_set [OF i]) simp
  ultimately show ?thesis using th lt by (simp add: f th'' bit_simps)
qed

lemma kill_rounds_succeed:
  assumes "signal_inv table" "thread_find owner (sg_threads table) = Some i"
    "th_active_frame (sg_threads table ! i) = 0" "bit (th_pending (sg_threads table ! i)) 8"
    "valid_owner grp" "valid_user_code frame" "kill_rank (sg_threads table ! i) < k"
  shows "kill_rounds k owner grp frame table"
  using assms
proof (induction k arbitrary: table)
  case 0
  then show ?case by simp
next
  case (Suc k)
  let ?th = "sg_threads table ! i"
  note v = find_thread [OF Suc.prems(2)]
  obtain n where n: "effective_signal grp (sg_groups table) ?th = Some n" "n \<le> 8"
    by (rule kill_effective [OF Suc.prems(1,4)])
  obtain r table' where b: "begin_delivery owner grp frame table = (r, table')" by (cases "begin_delivery owner grp frame table")
  have r: "(\<exists>s. r = Ok (DeliverTerminate s)) \<or> (\<exists>s a m. r = Ok (DeliverHandler s a m))"
    using b v Suc.prems n
    by (auto simp: begin_delivery_def delivery_loop_effective deliver_at_def Let_def split: if_splits)
  show ?case
  proof (cases "\<exists>s. r = Ok (DeliverTerminate s)")
    case True
    then show ?thesis using b by auto
  next
    case False
    with r obtain s a m where h: "r = Ok (DeliverHandler s a m)" by blast
    let ?t = "snd (finish_sigreturn owner frame m table')"
    note k = kill_round [OF Suc.prems(1-4) b [unfolded h] n]
    have "signal_inv ?t"
      using inv_finish [OF inv_begin [OF Suc.prems(1) b]] by (metis prod.collapse)
    then have "kill_rounds k owner grp frame ?t"
      using k Suc.prems(7) by (intro Suc.IH [OF _ _ _ _ Suc.prems(5,6)]) auto
    then show ?thesis using b h by simp
  qed
qed

section \<open>Properties\<close>

text \<open>
  C9. In every table that signal operations can reach, no thread masks the kill or the stop
  signal, a stop is never pending, both keep their default disposition in every group, every
  caught disposition points to user code with a user restorer, and no owner has two entries.
\<close>

theorem signals_well_formed:
  assumes "signal_step\<^sup>*\<^sup>* signal_table_new table"
  shows "signal_inv table"
  using sgm.inv_reachable [OF refl assms] .

definition demo_thread :: process_handle where
  "demo_thread = \<lparr>ph_pid = 5, ph_generation = 2\<rparr>"

definition demo_action :: signal_action where
  "demo_action = \<lparr>sa_handler = 0x4000, sa_flags = SA_RESTORER, sa_restorer = 0x5000, sa_mask = - 1\<rparr>"

text \<open>A thread that handles signal 2, with signal 2 and the kill signal pending.\<close>

definition demo_signals :: signal_table where
  "demo_signals = snd (queue_signal demo_thread SIGKILL (snd (queue_signal demo_thread 2
     (snd (set_action demo_thread 2 (Some demo_action) signal_table_new)))))"

lemma demo_signals_reach: "signal_step\<^sup>*\<^sup>* signal_table_new demo_signals"
proof -
  let ?a = "snd (set_action demo_thread 2 (Some demo_action) signal_table_new)"
  let ?b = "snd (queue_signal demo_thread 2 ?a)"
  have "signal_step signal_table_new ?a" by (rule signal_step.acted) (rule prod.collapse [symmetric])
  moreover have "signal_step ?a ?b" by (rule signal_step.queued) (rule prod.collapse [symmetric])
  moreover have "signal_step ?b demo_signals"
    unfolding demo_signals_def by (rule signal_step.queued) (rule prod.collapse [symmetric])
  ultimately show ?thesis by (meson r_into_rtranclp rtranclp.rtrancl_into_rtrancl)
qed

lemma demo_signals_inv: "signal_inv demo_signals"
  using sgm.inv_reachable [OF refl demo_signals_reach] .

theorem signals_well_formed_witness:
  "signal_step\<^sup>*\<^sup>* signal_table_new demo_signals \<and> signal_inv demo_signals"
  using signals_well_formed [OF demo_signals_reach] demo_signals_reach by simp


lemma demo_signal_facts:
  "thread_find demo_thread (sg_threads demo_signals) = Some 0" "th_active_frame (sg_threads demo_signals ! 0) = 0"
  "bit (th_pending (sg_threads demo_signals ! 0)) 8" "valid_owner demo_thread" "valid_user_code 0x7000"
  by code_simp+




text \<open>
  C33. Signal return is the inverse of signal delivery: the frame a handler was entered with,
  and no other, ends it; returning with the mask the frame saved restores the thread's mask and
  leaves the thread as it was but for the consumed pending bits.
\<close>

theorem sigreturn_undoes_delivery:
  assumes "signal_inv table" "begin_delivery owner grp frame table = (Ok (DeliverHandler s a m), table')"
    "thread_find owner (sg_threads table) = Some i"
  shows "(\<exists>table''. finish_sigreturn owner frame m table' = (Ok (), table'') \<and>
      sg_threads table'' = (sg_threads table)[i := (sg_threads table ! i)\<lparr>th_pending := th_pending (sg_threads table' ! i)\<rparr>]) \<and>
    (\<forall>frame' w. frame' \<noteq> frame \<longrightarrow> finish_sigreturn owner frame' w table' = (Err SgInvalidFrame, table'))"
proof -
  from begin_handler [OF assms(2)] obtain n where l: "i < length (sg_threads table)"
    and t: "sg_threads table' = (sg_threads table)[i := (sg_threads table ! i)\<lparr>
       th_pending := th_pending (sg_threads table ! i) AND NOT (delivery_candidates (sg_threads table ! i) AND mask (Suc n)),
       th_blocked := sanitize_mask (m OR sa_mask a OR (if sa_flags a AND SA_NODEFER = 0 then push_bit n 1 else 0)),
       th_active_frame := frame\<rparr>]" and n: "effective_signal grp (sg_groups table) (sg_threads table ! i) = Some n"
    using assms(3) by (metis option.inject)
  have f: "thread_find owner (sg_threads table') = Some i" unfolding t by (rule thread_find_set [OF assms(3)]) simp
  have p: "th_pending (sg_threads table' ! i) =
      th_pending (sg_threads table ! i) AND NOT (delivery_candidates (sg_threads table ! i) AND mask (Suc n))"
    "th_active_frame (sg_threads table' ! i) = frame"
    using l by (simp_all add: t)
  have "finish_sigreturn owner frame' w table' = (Err SgInvalidFrame, table')" if "frame' \<noteq> frame" for frame' w
    using that f p(2) by (simp add: finish_sigreturn_def Let_def)
  moreover from finish_handler [OF assms(1,2)] assms(3) n p(1) have "\<exists>table''.
      finish_sigreturn owner frame m table' = (Ok (), table'') \<and>
      sg_threads table'' = (sg_threads table)[i := (sg_threads table ! i)\<lparr>th_pending := th_pending (sg_threads table' ! i)\<rparr>]"
    by (metis option.inject)
  ultimately show ?thesis by blast
qed

theorem sigreturn_undoes_delivery_witness:
  "\<exists>table' table''. begin_delivery demo_thread demo_thread 0x7000 demo_signals =
      (Ok (DeliverHandler 2 (group_action demo_thread 2 (sg_groups demo_signals)) 0), table') \<and>
    finish_sigreturn demo_thread 0x7000 0 table' = (Ok (), table'')"
proof -
  have "fst (begin_delivery demo_thread demo_thread 0x7000 demo_signals) =
      Ok (DeliverHandler 2 (group_action demo_thread 2 (sg_groups demo_signals)) 0)" by code_simp
  then have b: "begin_delivery demo_thread demo_thread 0x7000 demo_signals =
      (Ok (DeliverHandler 2 (group_action demo_thread 2 (sg_groups demo_signals)) 0),
       snd (begin_delivery demo_thread demo_thread 0x7000 demo_signals))" by (metis prod.collapse)
  from sigreturn_undoes_delivery [OF demo_signals_inv b demo_signal_facts(1)] b show ?thesis by blast
qed

text \<open>
  C37. A successful exec keeps ignored dispositions and the signal mask, returns every caught
  disposition to the default, and discards pending signals and the handler frame of the
  former image.
\<close>

theorem exec_resets_signals:
  assumes "signal_inv table" "thread_find owner (sg_threads table) = Some i"
    "group_find owner (sg_groups table) = Some g" "signal_bit signal = Ok bt"
  shows "let table' = reset_for_exec owner table in
    group_action owner signal (sg_groups table') =
      (if sa_handler (group_action owner signal (sg_groups table)) = 1
       then group_action owner signal (sg_groups table) else SIGNAL_ACTION_DEFAULT) \<and>
    pending_mask owner table' = 0 \<and> active_frame owner table' = None \<and>
    th_blocked (sg_threads table' ! i) = th_blocked (sg_threads table ! i)"
proof -
  let ?reset = "map (\<lambda>action. if sa_handler action \<noteq> 1 then SIGNAL_ACTION_DEFAULT else action)"
  let ?g = "(sg_groups table ! g)\<lparr>gs_actions := ?reset (gs_actions (sg_groups table ! g))\<rparr>"
  let ?th = "(sg_threads table ! i)\<lparr>th_pending := 0, th_active_frame := 0\<rparr>"
  note ti = find_thread [OF assms(2)] and gi = find_group [OF assms(3)]
  have r: "sg_threads (reset_for_exec owner table) = (sg_threads table)[i := ?th]"
    "sg_groups (reset_for_exec owner table) = (sg_groups table)[g := ?g]"
    using assms(2,3) by (simp_all add: reset_for_exec_def Let_def set_group_def set_thread_def)
  have len: "length (gs_actions (sg_groups table ! g)) = SIGNAL_COUNT"
    using signal_inv_group_at [OF assms(1)] gi by (simp add: group_ok_def)
  have gf: "group_find owner ((sg_groups table)[g := ?g]) = Some g"
    using assms(3) gi by (auto simp: group_find_def position_Some_iff nth_update)
  have tf: "thread_find owner ((sg_threads table)[i := ?th]) = Some i"
    by (rule thread_find_set [OF assms(2)]) simp
  have "\<not> (valid_owner (th_owner slot) \<and> th_owner slot = owner \<and> th_active_frame slot \<noteq> 0)"
    if "slot \<in> set ((sg_threads table)[i := ?th])" for slot
  proof -
    from that obtain j where j: "j < length (sg_threads table)" "slot = (sg_threads table)[i := ?th] ! j"
      by (auto simp: in_set_conv_nth)
    have "j = i" if "valid_owner (th_owner (sg_threads table ! j))" "th_owner (sg_threads table ! j) = owner"
      using assms(1) ti j(1) that by (auto simp: signal_inv_def unique_owners_def)
    then show ?thesis using j ti by (auto simp: nth_update)
  qed
  then have "active_frame owner (reset_for_exec owner table) = None"
    by (simp add: active_frame_def r position_None_iff)
  then show ?thesis
    using signal_index(1) [OF assms(4)] len gi ti
    by (simp add: Let_def r group_action_def gf assms(3) pending_mask_def tf)
qed

theorem exec_resets_signals_witness:
  "let table' = reset_for_exec demo_thread demo_signals in
    group_action demo_thread 2 (sg_groups table') = SIGNAL_ACTION_DEFAULT \<and> pending_mask demo_thread table' = 0"
proof -
  have g: "group_find demo_thread (sg_groups demo_signals) = Some 0" "signal_bit 2 = Ok 2"
    "sa_handler (group_action demo_thread 2 (sg_groups demo_signals)) = 0x4000"
    by code_simp+
  from exec_resets_signals [OF demo_signals_inv demo_signal_facts(1) g(1,2)] g(3) show ?thesis
    by (simp add: Let_def)
qed

end
