(* ===== verification/SignalFd.thy ===== *)
theory SignalFd
  imports Signal EventFd
begin

unbundle bit_operations_syntax

text \<open>
  \<^verbatim>\<open>src/src/linux_signalfd.rs\<close>: 32 descriptors that select pending signals by a mask. A
  read takes its signal out of the signal table, so the operations that consume pending bits
  take and return both tables. The record that a read stores has \<open>ssi_signo\<close> in its first
  four bytes, least significant first, and zeros after them.
\<close>

section \<open>State\<close>

definition SFD_NONBLOCK :: u32 where "SFD_NONBLOCK = 0x800"
definition SFD_CLOEXEC :: u32 where "SFD_CLOEXEC = 0x80000"
definition SIGNALFD_ALLOWED_FLAGS :: u32 where "SIGNALFD_ALLOWED_FLAGS = SFD_NONBLOCK OR SFD_CLOEXEC"
abbreviation SIGNALFD_INFO_BYTES :: nat where "SIGNALFD_INFO_BYTES \<equiv> 128"
abbreviation MAXIMUM_SIGNALFDS :: nat where "MAXIMUM_SIGNALFDS \<equiv> 32"
definition SIGNALFD_BASE :: u32 where "SIGNALFD_BASE = 0x4000"

datatype signalfd_error = SfInvalidArgument | SfBadFileDescriptor | SfWouldBlock | SfCapacity

record signalfd_slot =
  sf_owner :: process_handle
  sf_mask :: u64
  sf_flags :: u32

definition SIGNALFD_EMPTY :: signalfd_slot where
  "SIGNALFD_EMPTY = \<lparr>sf_owner = no_handle, sf_mask = 0, sf_flags = 0\<rparr>"

definition signalfd_occupied :: "signalfd_slot \<Rightarrow> bool" where
  "signalfd_occupied slot \<longleftrightarrow> ph_pid (sf_owner slot) \<noteq> 0 \<and> ph_generation (sf_owner slot) \<noteq> 0"

type_synonym signalfd_table = "signalfd_slot list"

definition signalfd_table_new :: signalfd_table where
  "signalfd_table_new = replicate MAXIMUM_SIGNALFDS SIGNALFD_EMPTY"

definition signalfd_index_for_fd :: "u32 \<Rightarrow> nat option" where
  "signalfd_index_for_fd fd =
     (if fd < SIGNALFD_BASE then None
      else let index = unat (fd - SIGNALFD_BASE)
           in if index < MAXIMUM_SIGNALFDS then Some index else None)"

definition signalfd_fd_for_index :: "nat \<Rightarrow> u32" where
  "signalfd_fd_for_index index = SIGNALFD_BASE + of_nat index"

section \<open>Operations\<close>

definition signalfd_create ::
    "process_handle \<Rightarrow> u64 \<Rightarrow> u32 \<Rightarrow> signalfd_table \<Rightarrow> (u32, signalfd_error) result \<times> signalfd_table" where
  "signalfd_create owner bits flags table =
     (if ph_pid owner = 0 \<or> ph_generation owner = 0 \<or> flags AND NOT SIGNALFD_ALLOWED_FLAGS \<noteq> 0
      then (Err SfInvalidArgument, table)
      else case position (\<lambda>slot. \<not> signalfd_occupied slot) table of
        None \<Rightarrow> (Err SfCapacity, table)
      | Some index \<Rightarrow>
          (Ok (signalfd_fd_for_index index), table[index := \<lparr>sf_owner = owner, sf_mask = bits, sf_flags = flags\<rparr>]))"

definition signalfd_lookup :: "process_handle \<Rightarrow> u32 \<Rightarrow> signalfd_table \<Rightarrow> (nat, signalfd_error) result" where
  "signalfd_lookup owner fd table =
     (case signalfd_index_for_fd fd of
        None \<Rightarrow> Err SfBadFileDescriptor
      | Some index \<Rightarrow>
          if \<not> signalfd_occupied (table ! index) \<or> sf_owner (table ! index) \<noteq> owner
          then Err SfBadFileDescriptor else Ok index)"

definition signalfd_update ::
    "process_handle \<Rightarrow> u32 \<Rightarrow> u64 \<Rightarrow> signalfd_table \<Rightarrow> (unit, signalfd_error) result \<times> signalfd_table" where
  "signalfd_update owner fd bits table =
     (case signalfd_lookup owner fd table of Err e \<Rightarrow> (Err e, table)
      | Ok index \<Rightarrow> (Ok (), table[index := (table ! index)\<lparr>sf_mask := bits\<rparr>]))"

definition signalfd_info :: "u32 \<Rightarrow> u8 list" where
  "signalfd_info signal = le_bytes signal @ replicate (SIGNALFD_INFO_BYTES - 4) 0"

text \<open>The result is the byte count, with the caller's buffer and the signal table.\<close>

definition signalfd_read ::
    "process_handle \<Rightarrow> u32 \<Rightarrow> u8 list \<Rightarrow> signalfd_table \<Rightarrow> signal_table \<Rightarrow>
      (nat, signalfd_error) result \<times> u8 list \<times> signal_table" where
  "signalfd_read owner fd output_buffer table signals =
     (if length output_buffer < SIGNALFD_INFO_BYTES \<or> length output_buffer mod SIGNALFD_INFO_BYTES \<noteq> 0
      then (Err SfInvalidArgument, output_buffer, signals)
      else case signalfd_lookup owner fd table of Err e \<Rightarrow> (Err e, output_buffer, signals)
      | Ok index \<Rightarrow>
          case dequeue_for_signalfd (sf_owner (table ! index)) (sf_mask (table ! index)) signals of
            (None, signals') \<Rightarrow> (Err SfWouldBlock, output_buffer, signals')
          | (Some signal, signals') \<Rightarrow>
              (Ok SIGNALFD_INFO_BYTES, signalfd_info signal @ drop SIGNALFD_INFO_BYTES output_buffer, signals'))"

definition signalfd_readiness ::
    "process_handle \<Rightarrow> u32 \<Rightarrow> signalfd_table \<Rightarrow> signal_table \<Rightarrow> (u32, signalfd_error) result" where
  "signalfd_readiness owner fd table signals =
     (case signalfd_lookup owner fd table of Err e \<Rightarrow> Err e
      | Ok index \<Rightarrow> Ok (if pending_for_signalfd owner (sf_mask (table ! index)) signals then READY_IN else 0))"

definition signalfd_readiness_generation ::
    "process_handle \<Rightarrow> u32 \<Rightarrow> signalfd_table \<Rightarrow> signal_table \<Rightarrow> (u64, signalfd_error) result" where
  "signalfd_readiness_generation owner fd table signals =
     (case signalfd_lookup owner fd table of Err e \<Rightarrow> Err e
      | Ok index \<Rightarrow> Ok (pending_mask owner signals AND sf_mask (table ! index)))"

definition signalfd_close ::
    "process_handle \<Rightarrow> u32 \<Rightarrow> signalfd_table \<Rightarrow> (unit, signalfd_error) result \<times> signalfd_table" where
  "signalfd_close owner fd table =
     (case signalfd_lookup owner fd table of Err e \<Rightarrow> (Err e, table)
      | Ok index \<Rightarrow> (Ok (), table[index := SIGNALFD_EMPTY]))"

definition signalfd_close_all :: "process_handle \<Rightarrow> signalfd_table \<Rightarrow> nat \<times> signalfd_table" where
  "signalfd_close_all owner table =
     (if ph_pid owner = 0 \<or> ph_generation owner = 0 then (0, table)
      else (length (filter (\<lambda>slot. sf_owner slot = owner) table),
            map (\<lambda>slot. if sf_owner slot = owner then SIGNALFD_EMPTY else slot) table))"

section \<open>Lemmas\<close>

interpretation sfd: offset_codec signalfd_index_for_fd signalfd_fd_for_index MAXIMUM_SIGNALFDS
  by (rule offset_codec_of [where base = SIGNALFD_BASE])
    (simp_all add: SIGNALFD_BASE_def signalfd_index_for_fd_def offset_index_def signalfd_fd_for_index_def
      offset_handle_def)

text \<open>A dequeue takes the lowest selected pending signal and clears only its bit.\<close>

lemma dequeue_lowest:
  assumes "thread_find owner (sg_threads signals) = Some i"
    "th_pending (sg_threads signals ! i) AND bits \<noteq> 0"
  obtains n where "n < 64" "bit (th_pending (sg_threads signals ! i)) n" "bit bits n"
    "\<And>k. k < n \<Longrightarrow> \<not> (bit (th_pending (sg_threads signals ! i)) k \<and> bit bits k)"
    "dequeue_for_signalfd owner bits signals = (Some (of_nat n + 1),
       set_thread i (without_pending (push_bit n 1) (sg_threads signals ! i)) signals)"
proof -
  let ?sel = "th_pending (sg_threads signals ! i) AND bits"
  note t = trailing_zeros_bit [OF assms(2)]
  show thesis
  proof (rule that [of "trailing_zeros ?sel"])
    show "trailing_zeros ?sel < 64" using t(2) by simp
    show "bit (th_pending (sg_threads signals ! i)) (trailing_zeros ?sel)" "bit bits (trailing_zeros ?sel)"
      using t(1) by (simp_all add: bit_and_iff)
    show "\<not> (bit (th_pending (sg_threads signals ! i)) k \<and> bit bits k)" if "k < trailing_zeros ?sel" for k
      using t(3) [OF that] by (simp add: bit_and_iff)
    show "dequeue_for_signalfd owner bits signals = (Some (of_nat (trailing_zeros ?sel) + 1),
       set_thread i (without_pending (push_bit (trailing_zeros ?sel) 1) (sg_threads signals ! i)) signals)"
      using assms signal_number(1) [of "trailing_zeros ?sel"] t(2)
      by (simp add: dequeue_for_signalfd_def Let_def)
  qed
qed

lemma signalfd_lookup_owner: "signalfd_lookup owner fd table = Ok index \<Longrightarrow> sf_owner (table ! index) = owner"
  by (auto simp: signalfd_lookup_def split: rust_splits)

section \<open>Properties\<close>

text \<open>
  C35. A signalfd read returns the lowest pending signal its mask selects and takes only that
  signal out of the pending set; when the mask selects none it would block and changes nothing;
  and the descriptor is reported readable exactly when a read would succeed.
\<close>

theorem signalfd_read_exact:
  assumes "signalfd_lookup owner fd table = Ok index" "thread_find owner (sg_threads signals) = Some i"
    "length buffer = k * 128" "0 < k"
  shows "let thread = sg_threads signals ! i; selected = th_pending thread AND sf_mask (table ! index) in
    (if selected = 0 then signalfd_read owner fd buffer table signals = (Err SfWouldBlock, buffer, signals)
     else \<exists>n < 64. bit selected n \<and> (\<forall>k < n. \<not> bit selected k) \<and>
       signalfd_read owner fd buffer table signals =
         (Ok 128, signalfd_info (of_nat n + 1) @ drop 128 buffer,
          set_thread i (thread\<lparr>th_pending := th_pending thread AND NOT (push_bit n 1)\<rparr>) signals)) \<and>
    (signalfd_readiness owner fd table signals = Ok READY_IN \<longleftrightarrow> selected \<noteq> 0)"
proof -
  let ?th = "sg_threads signals ! i" and ?m = "sf_mask (table ! index)"
  have o: "sf_owner (table ! index) = owner" by (rule signalfd_lookup_owner [OF assms(1)])
  have b: "\<not> (length buffer < 128 \<or> length buffer mod 128 \<noteq> 0)" using assms(3,4) by simp
  have r: "signalfd_readiness owner fd table signals = Ok READY_IN \<longleftrightarrow> th_pending ?th AND ?m \<noteq> 0"
    using assms(1,2) by (simp add: signalfd_readiness_def pending_for_signalfd_def pending_mask_def READY_IN_def)
  show ?thesis
  proof (cases "th_pending ?th AND ?m = 0")
    case True
    then have "dequeue_for_signalfd owner ?m signals = (None, signals)"
      using assms(2) by (simp add: dequeue_for_signalfd_def)
    then show ?thesis using True r assms(1) b o by (simp add: signalfd_read_def Let_def)
  next
    case False
    obtain n where n: "n < 64" "bit (th_pending ?th) n" "bit ?m n"
        "\<And>k. k < n \<Longrightarrow> \<not> (bit (th_pending ?th) k \<and> bit ?m k)"
        "dequeue_for_signalfd owner ?m signals = (Some (of_nat n + 1), set_thread i (without_pending (push_bit n 1) ?th) signals)"
      by (rule dequeue_lowest [OF assms(2) False]) blast
    then have "signalfd_read owner fd buffer table signals = (Ok 128, signalfd_info (of_nat n + 1) @ drop 128 buffer,
        set_thread i (without_pending (push_bit n 1) ?th) signals)"
      using assms(1) b o by (simp add: signalfd_read_def)
    with n r False show ?thesis unfolding Let_def by (auto simp: bit_and_iff)
  qed
qed

definition demo_signalfds :: signalfd_table where
  "demo_signalfds = snd (signalfd_create demo_thread 0x100 0 signalfd_table_new)"

lemma demo_signalfd_facts:
  "signalfd_lookup demo_thread 0x4000 demo_signalfds = Ok 0" "sf_mask (demo_signalfds ! 0) = 0x100"
  by code_simp+

theorem signalfd_read_exact_witness:
  "signalfd_readiness demo_thread 0x4000 demo_signalfds demo_signals = Ok READY_IN"
proof -
  have "th_pending (sg_threads demo_signals ! 0) AND 0x100 \<noteq> 0" by code_simp
  then show ?thesis
    using signalfd_read_exact [OF demo_signalfd_facts(1) demo_signal_facts(1), of "replicate 128 0" 1] demo_signalfd_facts(2)
    by (simp add: Let_def)
qed

text \<open>
  C39. A signalfd whose mask names the kill signal consumes it: the mask is not sanitized as
  signal masks are, so a pending kill can be read as data, and then it is no longer pending.
\<close>

theorem signalfd_consumes_kill:
  assumes "signalfd_lookup owner fd table = Ok index" "sf_mask (table ! index) = push_bit (unat (SIGKILL - 1)) 1"
    "thread_find owner (sg_threads signals) = Some i" "bit (th_pending (sg_threads signals ! i)) (unat (SIGKILL - 1))"
    "length buffer = SIGNALFD_INFO_BYTES"
  shows "\<exists>signals'. signalfd_read owner fd buffer table signals = (Ok SIGNALFD_INFO_BYTES, signalfd_info SIGKILL, signals') \<and>
    \<not> bit (th_pending (sg_threads signals' ! i)) (unat (SIGKILL - 1))"
proof -
  let ?th = "sg_threads signals ! i"
  have m: "bit (sf_mask (table ! index)) k \<longleftrightarrow> k = 8" for k
    unfolding assms(2) kill_stop_indices by (auto simp only: bit_push_bit_iff bit_1_iff) auto
  have p: "bit (th_pending ?th) 8" using assms(4) by (simp add: kill_stop_indices)
  have "bit (th_pending ?th AND sf_mask (table ! index)) 8" using p m by (simp add: bit_and_iff)
  then have nz: "th_pending ?th AND sf_mask (table ! index) \<noteq> 0" by (metis bit_0_eq bot_apply bot_bool_def)
  obtain n where n: "bit (sf_mask (table ! index)) n" "dequeue_for_signalfd owner (sf_mask (table ! index)) signals =
      (Some (of_nat n + 1), set_thread i (without_pending (push_bit n 1) ?th) signals)"
    by (rule dequeue_lowest [OF assms(3) nz]) blast
  then have "n = 8" using m by simp
  have "\<not> bit (th_pending (without_pending (push_bit 8 1) ?th)) 8" by (simp add: bit_simps)
  then show ?thesis
    using n(2) \<open>n = 8\<close> assms(1,5) signalfd_lookup_owner [OF assms(1)] find_thread [OF assms(3)] signal_nine
    by (auto simp: signalfd_read_def set_thread_def kill_stop_indices)
qed

theorem signalfd_consumes_kill_witness:
  "\<exists>signals'. signalfd_read demo_thread 0x4000 (replicate 128 0) demo_signalfds demo_signals =
      (Ok 128, signalfd_info 9, signals')"
proof -
  have m: "sf_mask (demo_signalfds ! 0) = push_bit (unat (SIGKILL - 1)) 1" by code_simp
  have "bit (th_pending (sg_threads demo_signals ! 0)) (unat (SIGKILL - 1))"
    using demo_signal_facts(3) by (simp add: kill_stop_indices)
  from signalfd_consumes_kill [OF demo_signalfd_facts(1) m demo_signal_facts(1) this, of "replicate 128 0"]
  show ?thesis by (auto simp: SIGKILL_def)
qed

end
