(* ===== verification/Lifecycle.thy ===== *)
theory Lifecycle
  imports Handles UserContext
begin

unbundle bit_operations_syntax

text \<open>
  \<^verbatim>\<open>src/src/process/lifecycle.rs\<close>: the process table, the scheduler's decisions and
  the authority that a return to user mode must present. The state \<open>lifecycle\<close> joins the
  table behind the module's lock with the two atomics \<open>CURRENT_EXECUTION\<close> and
  \<open>CURRENT_SCHEDULER_EPOCH\<close>; every public function that changes state is one definition and
  one atomic step. \<open>isize\<close> exit codes are integers.
\<close>

section \<open>State\<close>

abbreviation MAXIMUM_PROCESSES :: nat where "MAXIMUM_PROCESSES \<equiv> 64"
definition NO_PID :: u32 where "NO_PID = 0"
definition INIT_PID :: u32 where "INIT_PID = 1"
definition PID0_GENERATION :: u32 where "PID0_GENERATION = 1"
definition PID0_IDENTITY :: u64 where "PID0_IDENTITY = push_bit 32 (ucast PID0_GENERATION)"

datatype process_phase = Free | Installing | Runnable | Running | Blocked | Zombie

record process_launch =
  pl_address_space_root :: u64
  pl_entry_point :: u64
  pl_user_stack_pointer :: u64
  pl_kernel_stack_pointer :: u64
  pl_image_measurement_root :: u64
  pl_capability_root :: u64
  pl_service_class :: u16
  pl_priority :: u8
  pl_abi :: execution_abi

definition launch_validate :: "process_launch \<Rightarrow> bool" where
  "launch_validate l \<longleftrightarrow> valid_page_table_root (pl_address_space_root l) \<and>
     valid_user_address (pl_entry_point l) \<and> valid_user_address (pl_user_stack_pointer l) \<and>
     valid_kernel_stack_pointer (pl_kernel_stack_pointer l) \<and>
     pl_image_measurement_root l \<noteq> 0 \<and> pl_capability_root l \<noteq> 0"

definition handle_encode :: "process_handle \<Rightarrow> u64" where
  "handle_encode h = push_bit 32 (ucast (ph_generation h)) OR ucast (ph_pid h)"

definition handle_decode :: "u64 \<Rightarrow> process_handle option" where
  "handle_decode encoded =
     (if encoded = 0 then None
      else let handle = \<lparr>ph_pid = ucast encoded, ph_generation = ucast (drop_bit 32 encoded)\<rparr>
           in if ph_pid handle = NO_PID \<or> ph_generation handle = 0 then None else Some handle)"

record execution_authority =
  ea_handle :: process_handle
  ea_scheduler_epoch :: u64

definition authority_decode :: "u64 \<Rightarrow> u64 \<Rightarrow> execution_authority option" where
  "authority_decode identity epoch =
     (if epoch = 0 then None
      else case handle_decode identity of
        None \<Rightarrow> None
      | Some handle \<Rightarrow> Some \<lparr>ea_handle = handle, ea_scheduler_epoch = epoch\<rparr>)"

record process_snapshot =
  sn_handle :: process_handle
  sn_thread_group :: u32
  sn_parent :: u32
  sn_phase :: process_phase
  sn_launch :: process_launch
  sn_exit_code :: int
  sn_wait_sequence :: u64

record scheduled_process =
  sp_handle :: process_handle
  sp_context :: dispatch_context
  sp_scheduler_epoch :: u64

definition authorized_return :: "scheduled_process \<Rightarrow> authorized_user_return" where
  "authorized_return s = \<lparr>au_dispatch = sp_context s, au_pid = ph_pid (sp_handle s),
     au_generation = ph_generation (sp_handle s), au_scheduler_epoch = sp_scheduler_epoch s\<rparr>"

record pid0_authority_t =
  pz_generation :: u32
  pz_scheduler_epoch :: u64

datatype schedule_decision = DecisionUser scheduled_process | DecisionPid0 pid0_authority_t

record process_slot =
  ps_occupied :: bool
  ps_generation :: u32
  ps_pid :: u32
  ps_thread_group :: u32
  ps_parent :: u32
  ps_phase :: process_phase
  ps_launch :: process_launch
  ps_context :: saved_user_context
  ps_fs_base :: u64
  ps_exit_code :: int
  ps_wait_sequence :: u64

definition PROCESS_EMPTY :: process_slot where
  "PROCESS_EMPTY = \<lparr>ps_occupied = False, ps_generation = 1, ps_pid = 0, ps_thread_group = 0,
     ps_parent = 0, ps_phase = Free,
     ps_launch = \<lparr>pl_address_space_root = 0, pl_entry_point = 0, pl_user_stack_pointer = 0,
       pl_kernel_stack_pointer = 0, pl_image_measurement_root = 0, pl_capability_root = 0,
       pl_service_class = 0, pl_priority = 0, pl_abi = ArachNative\<rparr>,
     ps_context = SAVED_CONTEXT_EMPTY, ps_fs_base = 0, ps_exit_code = 0, ps_wait_sequence = 0\<rparr>"

definition slot_handle :: "process_slot \<Rightarrow> process_handle" where
  "slot_handle slot = \<lparr>ph_pid = ps_pid slot, ph_generation = ps_generation slot\<rparr>"

definition slot_snapshot :: "process_slot \<Rightarrow> process_snapshot" where
  "slot_snapshot slot = \<lparr>sn_handle = slot_handle slot, sn_thread_group = ps_thread_group slot,
     sn_parent = ps_parent slot, sn_phase = ps_phase slot, sn_launch = ps_launch slot,
     sn_exit_code = ps_exit_code slot, sn_wait_sequence = ps_wait_sequence slot\<rparr>"

text \<open>The table and the two atomics.\<close>

record lifecycle =
  lc_slots :: "process_slot list"
  lc_next_pid :: u32
  lc_epoch :: u64
  lc_current :: u64
  lc_published_epoch :: u64

definition lifecycle_new :: lifecycle where
  "lifecycle_new = \<lparr>lc_slots = replicate MAXIMUM_PROCESSES PROCESS_EMPTY, lc_next_pid = 2,
     lc_epoch = 0, lc_current = PID0_IDENTITY, lc_published_epoch = 0\<rparr>"

datatype lifecycle_error =
    InvalidLaunch | InvalidContext | Capacity | InvalidHandle | InvalidTransition | NotChild
  | StillRunning | NoChild | EpochExhausted | StaleDispatchAuthority | StalePreemptionAuthority
  | StalePid0Authority | Pid0Immutable

section \<open>Table searches\<close>

text \<open>\<open>allocate_pid\<close>: \<open>tries\<close> is the number of iterations left of \<open>0..=MAXIMUM_PROCESSES\<close>;
  the result carries the new \<open>next_pid\<close>.\<close>

fun allocate_pid_loop :: "nat \<Rightarrow> process_slot list \<Rightarrow> u32 \<Rightarrow> u32 option \<times> u32" where
  "allocate_pid_loop 0 slots next_pid = (None, next_pid)"
| "allocate_pid_loop (Suc tries) slots next_pid =
     (let candidate = max next_pid 2;
          next_pid' = max (candidate + 1) 2
      in if \<not> list_ex (\<lambda>slot. ps_occupied slot \<and> ps_pid slot = candidate) slots
         then (Some candidate, next_pid')
         else allocate_pid_loop tries slots next_pid')"

definition allocate_pid :: "lifecycle \<Rightarrow> u32 option \<times> lifecycle" where
  "allocate_pid lc =
     (let (pid, next_pid) = allocate_pid_loop (MAXIMUM_PROCESSES + 1) (lc_slots lc) (lc_next_pid lc)
      in (pid, lc\<lparr>lc_next_pid := next_pid\<rparr>))"

definition slot_matches :: "process_handle \<Rightarrow> process_slot \<Rightarrow> bool" where
  "slot_matches h slot \<longleftrightarrow>
     ps_occupied slot \<and> ps_pid slot = ph_pid h \<and> ps_generation slot = ph_generation h"

definition slot_by_handle :: "process_handle \<Rightarrow> lifecycle \<Rightarrow> nat option" where
  "slot_by_handle h lc = position (slot_matches h) (lc_slots lc)"

definition slot_by_pid :: "u32 \<Rightarrow> lifecycle \<Rightarrow> nat option" where
  "slot_by_pid pid lc = position (\<lambda>slot. ps_occupied slot \<and> ps_pid slot = pid) (lc_slots lc)"

text \<open>The search of \<open>next_runnable_index\<close>, for any predicate on slots: the indices after
  \<open>after\<close> in cyclic order, \<open>after\<close> itself last.\<close>

definition cyclic_find :: "(process_slot \<Rightarrow> bool) \<Rightarrow> nat \<Rightarrow> process_slot list \<Rightarrow> nat option" where
  "cyclic_find P after slots =
     List.find (\<lambda>index. P (slots ! index))
       (map (\<lambda>offset. (after + offset) mod length slots) [1..<length slots + 1])"

definition next_runnable_index :: "nat \<Rightarrow> lifecycle \<Rightarrow> nat option" where
  "next_runnable_index after lc =
     cyclic_find (\<lambda>slot. ps_occupied slot \<and> ps_phase slot = Runnable) after (lc_slots lc)"

definition lc_scheduled :: "nat \<Rightarrow> saved_user_context \<Rightarrow> u64 \<Rightarrow> lifecycle \<Rightarrow> scheduled_process" where
  "lc_scheduled index user epoch lc =
     (let slot = lc_slots lc ! index
      in \<lparr>sp_handle = slot_handle slot,
          sp_context = \<lparr>dc_user = user, dc_address_space_root = pl_address_space_root (ps_launch slot),
            dc_kernel_stack_pointer = pl_kernel_stack_pointer (ps_launch slot),
            dc_fs_base = ps_fs_base slot\<rparr>,
          sp_scheduler_epoch = epoch\<rparr>)"

definition next_scheduler_epoch :: "u64 \<Rightarrow> (u64, lifecycle_error) result" where
  "next_scheduler_epoch epoch = ok_or EpochExhausted (checked_add epoch 1)"

definition set_slot :: "nat \<Rightarrow> process_slot \<Rightarrow> lifecycle \<Rightarrow> lifecycle" where
  "set_slot index slot lc = lc\<lparr>lc_slots := (lc_slots lc)[index := slot]\<rparr>"

text \<open>A table epoch and its published mirror, which every scheduling operation sets together.\<close>

definition publish_epoch :: "u64 \<Rightarrow> lifecycle \<Rightarrow> lifecycle" where
  "publish_epoch epoch lc = lc\<lparr>lc_epoch := epoch, lc_published_epoch := epoch\<rparr>"

text \<open>A slot given back to the table: empty, under the next generation, which saturates.\<close>

definition retired_slot :: "process_slot \<Rightarrow> process_slot" where
  "retired_slot slot = PROCESS_EMPTY\<lparr>ps_generation :=
     (case checked_add (ps_generation slot) 1 of Some g \<Rightarrow> g | None \<Rightarrow> - 1)\<rparr>"

section \<open>Queries\<close>

definition current_handle :: "lifecycle \<Rightarrow> process_handle option" where
  "current_handle lc = handle_decode (lc_current lc)"

definition snapshot :: "u32 \<Rightarrow> lifecycle \<Rightarrow> process_snapshot option" where
  "snapshot pid lc = map_option (\<lambda>i. slot_snapshot (lc_slots lc ! i)) (slot_by_pid pid lc)"

definition snapshot_exact :: "process_handle \<Rightarrow> lifecycle \<Rightarrow> process_snapshot option" where
  "snapshot_exact h lc = map_option (\<lambda>i. slot_snapshot (lc_slots lc ! i)) (slot_by_handle h lc)"

definition current_pid :: "lifecycle \<Rightarrow> u32" where
  "current_pid lc = (case current_handle lc of None \<Rightarrow> NO_PID | Some h \<Rightarrow> ph_pid h)"

definition current_thread_group :: "lifecycle \<Rightarrow> u32" where
  "current_thread_group lc =
     (case Option.bind (current_handle lc) (\<lambda>h. snapshot_exact h lc) of
        None \<Rightarrow> NO_PID | Some s \<Rightarrow> sn_thread_group s)"

definition current_thread_group_member_count :: "lifecycle \<Rightarrow> nat" where
  "current_thread_group_member_count lc =
     (case current_handle lc of None \<Rightarrow> 0
      | Some h \<Rightarrow>
     case slot_by_handle h lc of None \<Rightarrow> 0
      | Some i \<Rightarrow>
          let grp = ps_thread_group (lc_slots lc ! i)
          in length (filter (\<lambda>slot. ps_occupied slot \<and> ps_thread_group slot = grp) (lc_slots lc)))"

definition group_leader :: "u32 \<Rightarrow> lifecycle \<Rightarrow> nat option" where
  "group_leader grp lc =
     position (\<lambda>slot. ps_occupied slot \<and> ps_pid slot = grp \<and> ps_thread_group slot = grp) (lc_slots lc)"

definition current_user_handle :: "lifecycle \<Rightarrow> (process_handle, lifecycle_error) result" where
  "current_user_handle lc =
     (if lc_current lc = PID0_IDENTITY then Err Pid0Immutable
      else ok_or InvalidHandle (handle_decode (lc_current lc)))"

text \<open>The fixed array of handles is its occupied prefix.\<close>

definition current_thread_group_handles ::
    "lifecycle \<Rightarrow> (process_handle \<times> process_handle list, lifecycle_error) result" where
  "current_thread_group_handles lc =
     (case current_user_handle lc of Err e \<Rightarrow> Err e
      | Ok current \<Rightarrow>
     case slot_by_handle current lc of None \<Rightarrow> Err InvalidHandle
      | Some i \<Rightarrow>
          let grp = ps_thread_group (lc_slots lc ! i) in
          case group_leader grp lc of None \<Rightarrow> Err InvalidHandle
          | Some l \<Rightarrow>
              Ok (slot_handle (lc_slots lc ! l),
                  map slot_handle
                    (filter (\<lambda>slot. ps_occupied slot \<and> ps_thread_group slot = grp) (lc_slots lc))))"

definition current_thread_group_handle :: "lifecycle \<Rightarrow> process_handle option" where
  "current_thread_group_handle lc =
     (case current_handle lc of None \<Rightarrow> None
      | Some current \<Rightarrow>
     case slot_by_handle current lc of None \<Rightarrow> None
      | Some i \<Rightarrow>
          map_option (\<lambda>l. slot_handle (lc_slots lc ! l))
            (group_leader (ps_thread_group (lc_slots lc ! i)) lc))"

definition current_is_thread_group_leader :: "lifecycle \<Rightarrow> bool" where
  "current_is_thread_group_leader lc =
     (case current_handle lc of None \<Rightarrow> False
      | Some h \<Rightarrow>
     case snapshot_exact h lc of None \<Rightarrow> False
      | Some s \<Rightarrow> ph_pid h = sn_thread_group s)"

definition current_execution_abi :: "lifecycle \<Rightarrow> execution_abi" where
  "current_execution_abi lc =
     (case Option.bind (current_handle lc) (\<lambda>h. snapshot_exact h lc) of
        None \<Rightarrow> ArachNative | Some s \<Rightarrow> pl_abi (sn_launch s))"

text \<open>The two epoch reads around the handle read; both see the same state here.\<close>

definition current_execution_authority_from_irq :: "lifecycle \<Rightarrow> execution_authority option" where
  "current_execution_authority_from_irq lc =
     (case handle_decode (lc_current lc) of None \<Rightarrow> None
      | Some handle \<Rightarrow>
          if lc_published_epoch lc = 0 then None
          else Some \<lparr>ea_handle = handle, ea_scheduler_epoch = lc_published_epoch lc\<rparr>)"

section \<open>PID0\<close>

definition pid0_authority :: "u64 \<Rightarrow> pid0_authority_t" where
  "pid0_authority epoch = \<lparr>pz_generation = PID0_GENERATION, pz_scheduler_epoch = epoch\<rparr>"

definition validate_pid0_authority :: "pid0_authority_t \<Rightarrow> lifecycle \<Rightarrow> (unit, lifecycle_error) result" where
  "validate_pid0_authority authority lc =
     (if lc_current lc \<noteq> PID0_IDENTITY \<or> pz_generation authority \<noteq> PID0_GENERATION
         \<or> pz_scheduler_epoch authority \<noteq> lc_epoch lc
      then Err StalePid0Authority else Ok ())"

definition current_pid0_authority :: "lifecycle \<Rightarrow> (pid0_authority_t, lifecycle_error) result" where
  "current_pid0_authority lc =
     (let authority = pid0_authority (lc_epoch lc) in
      case validate_pid0_authority authority lc of Err e \<Rightarrow> Err e | Ok _ \<Rightarrow> Ok authority)"

definition authorize_pid0 :: "pid0_authority_t \<Rightarrow> lifecycle \<Rightarrow> (unit, lifecycle_error) result" where
  "authorize_pid0 authority lc = validate_pid0_authority authority lc"

section \<open>Admission\<close>

definition publish_current :: "process_handle \<Rightarrow> lifecycle \<Rightarrow> (unit, lifecycle_error) result \<times> lifecycle" where
  "publish_current handle lc =
     (if ph_pid handle = NO_PID then (Err Pid0Immutable, lc)
      else case slot_by_handle handle lc of None \<Rightarrow> (Err InvalidHandle, lc)
      | Some i \<Rightarrow>
          if ps_phase (lc_slots lc ! i) \<noteq> Running then (Err InvalidTransition, lc)
          else (Ok (), lc\<lparr>lc_current := handle_encode handle\<rparr>))"

text \<open>The free slot that admission takes: exhausted generations are passed over.\<close>

definition free_slot :: "process_slot \<Rightarrow> bool" where
  "free_slot slot \<longleftrightarrow> \<not> ps_occupied slot \<and> ps_generation slot \<noteq> - 1"

text \<open>The slot of a newly admitted process, leader of its own group.\<close>

definition admitted_slot :: "u32 \<Rightarrow> u32 \<Rightarrow> u32 \<Rightarrow> process_launch \<Rightarrow> u64 \<Rightarrow> process_slot" where
  "admitted_slot generation pid parent launch wait_sequence =
     \<lparr>ps_occupied = True, ps_generation = generation, ps_pid = pid, ps_thread_group = pid,
      ps_parent = parent, ps_phase = Runnable, ps_launch = launch,
      ps_context = context_initial (pl_entry_point launch) (pl_user_stack_pointer launch),
      ps_fs_base = 0, ps_exit_code = 0, ps_wait_sequence = wait_sequence\<rparr>"

definition register_init ::
    "process_launch \<Rightarrow> lifecycle \<Rightarrow> (process_handle, lifecycle_error) result \<times> lifecycle" where
  "register_init launch lc =
     (if \<not> launch_validate launch then (Err InvalidLaunch, lc)
      else if slot_by_pid INIT_PID lc \<noteq> None then (Err InvalidTransition, lc)
      else case position free_slot (lc_slots lc) of None \<Rightarrow> (Err Capacity, lc)
      | Some i \<Rightarrow>
          let generation = ps_generation (lc_slots lc ! i) in
          (Ok \<lparr>ph_pid = INIT_PID, ph_generation = generation\<rparr>,
           set_slot i (admitted_slot generation INIT_PID NO_PID launch 0) lc))"

text \<open>The PID counter has moved even when no slot is free.\<close>

definition commit_child ::
    "u32 \<Rightarrow> process_launch \<Rightarrow> lifecycle \<Rightarrow> (process_handle, lifecycle_error) result \<times> lifecycle" where
  "commit_child parent launch lc =
     (if parent = NO_PID \<or> \<not> launch_validate launch then (Err InvalidLaunch, lc)
      else case slot_by_pid parent lc of None \<Rightarrow> (Err InvalidHandle, lc)
      | Some p \<Rightarrow>
          if ps_phase (lc_slots lc ! p) = Free \<or> ps_phase (lc_slots lc ! p) = Zombie
          then (Err InvalidTransition, lc)
          else case allocate_pid lc of (None, lc') \<Rightarrow> (Err Capacity, lc')
          | (Some pid, lc') \<Rightarrow>
     case position free_slot (lc_slots lc') of None \<Rightarrow> (Err Capacity, lc')
      | Some i \<Rightarrow>
     case checked_add (ps_generation (lc_slots lc' ! i)) 1 of
        None \<Rightarrow> (Err Capacity, set_slot i ((lc_slots lc' ! i)\<lparr>ps_occupied := True\<rparr>) lc')
      | Some generation \<Rightarrow>
          (Ok \<lparr>ph_pid = pid, ph_generation = generation\<rparr>,
           set_slot i (admitted_slot generation pid parent launch (lc_epoch lc')) lc'))"

text \<open>The running slot of the caller, as most operations find it.\<close>

definition caller_index :: "lifecycle \<Rightarrow> (nat, lifecycle_error) result" where
  "caller_index lc =
     (case current_user_handle lc of Err e \<Rightarrow> Err e
      | Ok current \<Rightarrow> ok_or InvalidHandle (slot_by_handle current lc))"

text \<open>The slot of a new thread: a fresh identity and context, everything else its creator's.\<close>

definition cloned_slot ::
    "u32 \<Rightarrow> u32 \<Rightarrow> process_slot \<Rightarrow> saved_user_context \<Rightarrow> u64 \<Rightarrow> u64 \<Rightarrow> process_slot" where
  "cloned_slot generation pid parent_slot child_context child_fs_base next_epoch =
     \<lparr>ps_occupied = True, ps_generation = generation, ps_pid = pid,
      ps_thread_group = ps_thread_group parent_slot, ps_parent = ps_parent parent_slot,
      ps_phase = Runnable, ps_launch = ps_launch parent_slot, ps_context = child_context,
      ps_fs_base = child_fs_base, ps_exit_code = 0, ps_wait_sequence = next_epoch\<rparr>"

definition clone_current_thread ::
    "saved_user_context \<Rightarrow> u64 \<Rightarrow> u64 \<Rightarrow> lifecycle \<Rightarrow>
      (process_handle \<times> scheduled_process, lifecycle_error) result \<times> lifecycle" where
  "clone_current_thread parent_context child_stack_pointer child_fs_base lc =
     (if \<not> valid_user_address child_stack_pointer \<or> \<not> valid_user_tls_base child_fs_base
      then (Err InvalidContext, lc)
      else if \<not> is_Ok (context_validate parent_context) then (Err InvalidContext, lc)
      else case caller_index lc of Err e \<Rightarrow> (Err e, lc)
      | Ok current_index \<Rightarrow>
          let parent_slot = lc_slots lc ! current_index in
          if ps_phase parent_slot \<noteq> Running \<or> \<not> is_linux (pl_abi (ps_launch parent_slot))
          then (Err InvalidTransition, lc)
          else case allocate_pid lc of (None, lc') \<Rightarrow> (Err Capacity, lc')
          | (Some pid, lc') \<Rightarrow>
     case position free_slot (lc_slots lc') of None \<Rightarrow> (Err Capacity, lc')
      | Some child_index \<Rightarrow>
     case checked_add (ps_generation (lc_slots lc' ! child_index)) 1 of None \<Rightarrow> (Err Capacity, lc')
      | Some child_generation \<Rightarrow>
     case next_scheduler_epoch (lc_epoch lc') of Err e \<Rightarrow> (Err e, lc')
      | Ok next_epoch \<Rightarrow>
          let child_context = (set_syscall_result 0 parent_context)\<lparr>uc_stack_pointer := child_stack_pointer\<rparr>;
              parent_context' = set_syscall_result (uint pid) parent_context;
              parent_return = lc_scheduled current_index parent_context' next_epoch lc' in
          if \<not> is_Ok (context_validate child_context) then (Err InvalidContext, lc')
          else if \<not> is_Ok (dispatch_validate (sp_context parent_return)) then (Err InvalidContext, lc')
          else
            let child = cloned_slot child_generation pid parent_slot child_context child_fs_base next_epoch;
                lc1 = set_slot child_index child lc';
                lc2 = set_slot current_index ((lc_slots lc1 ! current_index)\<lparr>ps_context := parent_context'\<rparr>) lc1
            in (Ok (\<lparr>ph_pid = pid, ph_generation = child_generation\<rparr>, parent_return),
                publish_epoch next_epoch lc2))"

definition discard_runnable_thread ::
    "process_handle \<Rightarrow> lifecycle \<Rightarrow> (unit, lifecycle_error) result \<times> lifecycle" where
  "discard_runnable_thread handle lc =
     (case caller_index lc of Err e \<Rightarrow> (Err e, lc)
      | Ok c \<Rightarrow>
     case slot_by_handle handle lc of None \<Rightarrow> (Err InvalidHandle, lc)
      | Some i \<Rightarrow>
          let slot = lc_slots lc ! i in
          if ps_phase slot \<noteq> Runnable \<or> ps_thread_group slot \<noteq> ps_thread_group (lc_slots lc ! c)
              \<or> ps_pid slot = ps_thread_group slot
          then (Err InvalidTransition, lc)
          else (Ok (), set_slot i (retired_slot slot) lc))"

section \<open>Running, resuming and replacing\<close>

definition mark_running ::
    "process_handle \<Rightarrow> lifecycle \<Rightarrow> (process_snapshot, lifecycle_error) result \<times> lifecycle" where
  "mark_running handle lc =
     (if ph_pid handle = NO_PID then (Err Pid0Immutable, lc)
      else if lc_current lc \<noteq> PID0_IDENTITY
        \<or> list_ex (\<lambda>slot. ps_occupied slot \<and> ps_phase slot = Running) (lc_slots lc)
      then (Err InvalidTransition, lc)
      else case slot_by_handle handle lc of None \<Rightarrow> (Err InvalidHandle, lc)
      | Some i \<Rightarrow>
          if ps_phase (lc_slots lc ! i) \<noteq> Runnable then (Err InvalidTransition, lc)
          else case next_scheduler_epoch (lc_epoch lc) of Err e \<Rightarrow> (Err e, lc)
          | Ok epoch \<Rightarrow>
              let slot = (lc_slots lc ! i)\<lparr>ps_phase := Running\<rparr> in
              (Ok (slot_snapshot slot),
               publish_epoch epoch (set_slot i slot lc)\<lparr>lc_current := handle_encode (slot_handle slot)\<rparr>))"

definition resume_current ::
    "saved_user_context \<Rightarrow> lifecycle \<Rightarrow> (scheduled_process, lifecycle_error) result \<times> lifecycle" where
  "resume_current saved lc =
     (if \<not> is_Ok (context_validate saved) then (Err InvalidContext, lc)
      else case caller_index lc of Err e \<Rightarrow> (Err e, lc)
      | Ok current_index \<Rightarrow>
          if ps_phase (lc_slots lc ! current_index) \<noteq> Running then (Err InvalidTransition, lc)
          else case next_scheduler_epoch (lc_epoch lc) of Err e \<Rightarrow> (Err e, lc)
          | Ok next_epoch \<Rightarrow>
              let scheduled = lc_scheduled current_index saved next_epoch lc in
              if \<not> is_Ok (dispatch_validate (sp_context scheduled)) then (Err InvalidContext, lc)
              else (Ok scheduled,
                publish_epoch next_epoch
                  (set_slot current_index ((lc_slots lc ! current_index)\<lparr>ps_context := saved\<rparr>) lc)))"

definition current_replacement_index :: "process_handle \<Rightarrow> lifecycle \<Rightarrow> (nat, lifecycle_error) result" where
  "current_replacement_index current lc =
     (case slot_by_handle current lc of None \<Rightarrow> Err InvalidHandle
      | Some index \<Rightarrow>
          let slot = lc_slots lc ! index in
          if ps_phase slot \<noteq> Running \<or> \<not> is_linux (pl_abi (ps_launch slot))
              \<or> ps_pid slot \<noteq> ps_thread_group slot
              \<or> length (filter (\<lambda>member. ps_occupied member
                   \<and> ps_thread_group member = ps_thread_group slot) (lc_slots lc)) \<noteq> 1
          then Err InvalidTransition else Ok index)"

definition preflight_current_image_replacement :: "lifecycle \<Rightarrow> (process_handle, lifecycle_error) result" where
  "preflight_current_image_replacement lc =
     (case current_user_handle lc of Err e \<Rightarrow> Err e
      | Ok current \<Rightarrow>
     case current_replacement_index current lc of Err e \<Rightarrow> Err e
      | Ok _ \<Rightarrow>
     case next_scheduler_epoch (lc_epoch lc) of Err e \<Rightarrow> Err e
      | Ok _ \<Rightarrow> Ok current)"

definition replace_current_image ::
    "u64 \<Rightarrow> u64 \<Rightarrow> u64 \<Rightarrow> u64 \<Rightarrow> lifecycle \<Rightarrow> (scheduled_process, lifecycle_error) result \<times> lifecycle" where
  "replace_current_image address_space_root entry_point user_stack_pointer image_measurement_root lc =
     (case current_user_handle lc of Err e \<Rightarrow> (Err e, lc)
      | Ok current \<Rightarrow>
     case current_replacement_index current lc of Err e \<Rightarrow> (Err e, lc)
      | Ok current_index \<Rightarrow>
          let current_slot = lc_slots lc ! current_index;
              replacement = (ps_launch current_slot)\<lparr>pl_address_space_root := address_space_root,
                pl_entry_point := entry_point, pl_user_stack_pointer := user_stack_pointer,
                pl_image_measurement_root := image_measurement_root\<rparr> in
          if \<not> launch_validate replacement then (Err InvalidLaunch, lc)
          else
            let user = context_initial entry_point user_stack_pointer in
            case next_scheduler_epoch (lc_epoch lc) of Err e \<Rightarrow> (Err e, lc)
            | Ok next_epoch \<Rightarrow>
                let scheduled = \<lparr>sp_handle = current,
                      sp_context = \<lparr>dc_user = user, dc_address_space_root = address_space_root,
                        dc_kernel_stack_pointer = pl_kernel_stack_pointer replacement, dc_fs_base = 0\<rparr>,
                      sp_scheduler_epoch = next_epoch\<rparr> in
                if \<not> is_Ok (dispatch_validate (sp_context scheduled)) then (Err InvalidContext, lc)
                else (Ok scheduled,
                  publish_epoch next_epoch
                    (set_slot current_index (current_slot\<lparr>ps_launch := replacement,
                       ps_context := user, ps_fs_base := 0\<rparr>) lc)))"

definition current_fs_base :: "lifecycle \<Rightarrow> (u64, lifecycle_error) result" where
  "current_fs_base lc =
     (case caller_index lc of Err e \<Rightarrow> Err e | Ok i \<Rightarrow> Ok (ps_fs_base (lc_slots lc ! i)))"

definition set_current_fs_base :: "u64 \<Rightarrow> lifecycle \<Rightarrow> (unit, lifecycle_error) result \<times> lifecycle" where
  "set_current_fs_base fs_base lc =
     (if \<not> valid_user_tls_base fs_base then (Err InvalidContext, lc)
      else case caller_index lc of Err e \<Rightarrow> (Err e, lc)
      | Ok i \<Rightarrow>
          if ps_phase (lc_slots lc ! i) \<noteq> Running then (Err InvalidTransition, lc)
          else (Ok (), set_slot i ((lc_slots lc ! i)\<lparr>ps_fs_base := fs_base\<rparr>) lc))"

definition authorize_user_return ::
    "authorized_user_return \<Rightarrow> lifecycle \<Rightarrow> (scheduled_process, lifecycle_error) result" where
  "authorize_user_return authority lc =
     (if \<not> is_Ok (return_validate authority) then Err InvalidContext
      else
        let handle = \<lparr>ph_pid = au_pid authority, ph_generation = au_generation authority\<rparr> in
        if current_handle lc \<noteq> Some handle \<or> lc_epoch lc \<noteq> au_scheduler_epoch authority
        then Err StaleDispatchAuthority
        else case slot_by_handle handle lc of None \<Rightarrow> Err StaleDispatchAuthority
        | Some index \<Rightarrow>
            if ps_phase (lc_slots lc ! index) \<noteq> Running then Err StaleDispatchAuthority
            else
              let expected = lc_scheduled index (ps_context (lc_slots lc ! index)) (lc_epoch lc) lc in
              if authorized_return expected \<noteq> authority then Err StaleDispatchAuthority
              else Ok expected)"

section \<open>Scheduling\<close>

text \<open>The switch that \<open>schedule_yield\<close> and \<open>schedule_preempt\<close> share once the caller's slot is
  known: the caller goes back to the run queue and the next runnable process, or the caller
  itself, is dispatched.\<close>

definition switch_from ::
    "nat \<Rightarrow> saved_user_context \<Rightarrow> lifecycle \<Rightarrow> (scheduled_process, lifecycle_error) result \<times> lifecycle" where
  "switch_from current_index saved lc =
     (let target_index = (case next_runnable_index current_index lc of None \<Rightarrow> current_index
                          | Some target_index \<Rightarrow> target_index) in
      case next_scheduler_epoch (lc_epoch lc) of Err e \<Rightarrow> (Err e, lc)
      | Ok next_epoch \<Rightarrow>
          let target_user = (if target_index = current_index then saved
                else ps_context (lc_slots lc ! target_index));
              scheduled = lc_scheduled target_index target_user next_epoch lc in
          if \<not> is_Ok (dispatch_validate (sp_context scheduled)) then (Err InvalidContext, lc)
          else
            let lc1 = set_slot current_index
                  ((lc_slots lc ! current_index)\<lparr>ps_context := saved, ps_phase := Runnable\<rparr>) lc;
                lc2 = publish_epoch next_epoch lc1;
                lc3 = set_slot target_index ((lc_slots lc2 ! target_index)\<lparr>ps_phase := Running\<rparr>) lc2
            in (Ok scheduled, lc3\<lparr>lc_current := handle_encode (sp_handle scheduled)\<rparr>))"

definition schedule_yield ::
    "saved_user_context \<Rightarrow> lifecycle \<Rightarrow> (scheduled_process, lifecycle_error) result \<times> lifecycle" where
  "schedule_yield saved lc =
     (if \<not> is_Ok (context_validate saved) then (Err InvalidContext, lc)
      else
        let saved = set_syscall_result 0 saved in
        case caller_index lc of Err e \<Rightarrow> (Err e, lc)
        | Ok current_index \<Rightarrow>
            if ps_phase (lc_slots lc ! current_index) \<noteq> Running then (Err InvalidTransition, lc)
            else switch_from current_index saved lc)"

definition schedule_preempt ::
    "saved_user_context \<Rightarrow> execution_authority \<Rightarrow> lifecycle \<Rightarrow>
      (scheduled_process, lifecycle_error) result \<times> lifecycle" where
  "schedule_preempt saved authority lc =
     (if \<not> is_Ok (context_validate saved) then (Err InvalidContext, lc)
      else if lc_current lc \<noteq> handle_encode (ea_handle authority)
        \<or> lc_epoch lc \<noteq> ea_scheduler_epoch authority
      then (Err StalePreemptionAuthority, lc)
      else case slot_by_handle (ea_handle authority) lc of None \<Rightarrow> (Err StalePreemptionAuthority, lc)
      | Some current_index \<Rightarrow>
          if ps_phase (lc_slots lc ! current_index) \<noteq> Running then (Err StalePreemptionAuthority, lc)
          else switch_from current_index saved lc)"

text \<open>A chosen target with the dispatch it would get.\<close>

definition with_dispatch :: "u64 \<Rightarrow> lifecycle \<Rightarrow> nat option \<Rightarrow> (nat \<times> scheduled_process) option" where
  "with_dispatch next_epoch lc target =
     map_option (\<lambda>index. (index, lc_scheduled index (ps_context (lc_slots lc ! index)) next_epoch lc)) target"

definition target_invalid :: "(nat \<times> scheduled_process) option \<Rightarrow> bool" where
  "target_invalid target =
     (case target of None \<Rightarrow> False
      | Some (_, scheduled) \<Rightarrow> \<not> is_Ok (dispatch_validate (sp_context scheduled)))"

text \<open>The common ending: the target runs, or PID0 does.\<close>

definition settle ::
    "u64 \<Rightarrow> (nat \<times> scheduled_process) option \<Rightarrow> lifecycle \<Rightarrow> schedule_decision \<times> lifecycle" where
  "settle next_epoch target lc =
     (case target of
        Some (index, scheduled) \<Rightarrow>
          (DecisionUser scheduled,
           publish_epoch next_epoch
             (set_slot index ((lc_slots lc ! index)\<lparr>ps_phase := Running\<rparr>) lc)
               \<lparr>lc_current := handle_encode (sp_handle scheduled)\<rparr>)
      | None \<Rightarrow>
          (DecisionPid0 (pid0_authority next_epoch),
           publish_epoch next_epoch lc\<lparr>lc_current := PID0_IDENTITY\<rparr>))"

text \<open>What \<open>schedule_block\<close>, \<open>schedule_exit\<close> and \<open>schedule_thread_exit\<close> share: the caller's
  slot is replaced by \<open>leave slot next_epoch\<close> once the successor's dispatch is known valid.\<close>

definition leave_cpu ::
    "(process_slot \<Rightarrow> u64 \<Rightarrow> process_slot) \<Rightarrow> nat \<Rightarrow> lifecycle \<Rightarrow>
      (schedule_decision, lifecycle_error) result \<times> lifecycle" where
  "leave_cpu leave current_index lc =
     (case next_scheduler_epoch (lc_epoch lc) of Err e \<Rightarrow> (Err e, lc)
      | Ok next_epoch \<Rightarrow>
          let target = with_dispatch next_epoch lc (next_runnable_index current_index lc) in
          if target_invalid target then (Err InvalidContext, lc)
          else
            let (decision, lc') = settle next_epoch target
                  (set_slot current_index (leave (lc_slots lc ! current_index) next_epoch) lc)
            in (Ok decision, lc'))"

definition schedule_block ::
    "saved_user_context \<Rightarrow> lifecycle \<Rightarrow> (schedule_decision, lifecycle_error) result \<times> lifecycle" where
  "schedule_block saved lc =
     (if \<not> is_Ok (context_validate saved) then (Err InvalidContext, lc)
      else case caller_index lc of Err e \<Rightarrow> (Err e, lc)
      | Ok current_index \<Rightarrow>
          if ps_phase (lc_slots lc ! current_index) \<noteq> Running then (Err InvalidTransition, lc)
          else leave_cpu (\<lambda>slot next_epoch. slot\<lparr>ps_context := saved, ps_phase := Blocked,
                 ps_wait_sequence := next_epoch\<rparr>) current_index lc)"

definition schedule_exit ::
    "int \<Rightarrow> lifecycle \<Rightarrow> (schedule_decision, lifecycle_error) result \<times> lifecycle" where
  "schedule_exit exit_code lc =
     (case caller_index lc of Err e \<Rightarrow> (Err e, lc)
      | Ok current_index \<Rightarrow>
          if ps_phase (lc_slots lc ! current_index) \<noteq> Running then (Err InvalidTransition, lc)
          else leave_cpu (\<lambda>slot next_epoch. slot\<lparr>ps_phase := Zombie, ps_exit_code := exit_code,
                 ps_wait_sequence := next_epoch\<rparr>) current_index lc)"

definition schedule_thread_exit ::
    "lifecycle \<Rightarrow> (schedule_decision, lifecycle_error) result \<times> lifecycle" where
  "schedule_thread_exit lc =
     (case caller_index lc of Err e \<Rightarrow> (Err e, lc)
      | Ok current_index \<Rightarrow>
          if ps_phase (lc_slots lc ! current_index) \<noteq> Running
            \<or> ps_pid (lc_slots lc ! current_index) = ps_thread_group (lc_slots lc ! current_index)
          then (Err InvalidTransition, lc)
          else leave_cpu (\<lambda>slot next_epoch. retired_slot slot) current_index lc)"

text \<open>The loop of \<open>schedule_exit_group\<close> over the slots: each slot is rewritten on its own.\<close>

definition exit_member :: "u32 \<Rightarrow> nat \<Rightarrow> int \<Rightarrow> u64 \<Rightarrow> nat \<Rightarrow> process_slot \<Rightarrow> process_slot" where
  "exit_member grp leader_index exit_code next_epoch index slot =
     (if \<not> ps_occupied slot \<or> ps_thread_group slot \<noteq> grp then slot
      else if index = leader_index
      then slot\<lparr>ps_phase := Zombie, ps_exit_code := exit_code, ps_wait_sequence := next_epoch\<rparr>
      else retired_slot slot)"

definition exit_members :: "u32 \<Rightarrow> nat \<Rightarrow> int \<Rightarrow> u64 \<Rightarrow> process_slot list \<Rightarrow> process_slot list" where
  "exit_members grp leader_index exit_code next_epoch slots =
     map (\<lambda>index. exit_member grp leader_index exit_code next_epoch index (slots ! index)) [0..<length slots]"

definition schedule_exit_group ::
    "int \<Rightarrow> lifecycle \<Rightarrow> (schedule_decision, lifecycle_error) result \<times> lifecycle" where
  "schedule_exit_group exit_code lc =
     (case caller_index lc of Err e \<Rightarrow> (Err e, lc)
      | Ok current_index \<Rightarrow>
          let current_slot = lc_slots lc ! current_index in
          if ps_phase current_slot \<noteq> Running then (Err InvalidTransition, lc)
          else
            let grp = ps_thread_group current_slot in
            case group_leader grp lc of None \<Rightarrow> (Err InvalidHandle, lc)
            | Some leader_index \<Rightarrow>
     case next_scheduler_epoch (lc_epoch lc) of Err e \<Rightarrow> (Err e, lc)
      | Ok next_epoch \<Rightarrow>
          let target = with_dispatch next_epoch lc
                (cyclic_find (\<lambda>slot. ps_occupied slot \<and> ps_phase slot = Runnable
                   \<and> ps_thread_group slot \<noteq> grp) current_index (lc_slots lc)) in
          if target_invalid target then (Err InvalidContext, lc)
          else
            let (decision, lc') = settle next_epoch target
                  (lc\<lparr>lc_slots := exit_members grp leader_index exit_code next_epoch (lc_slots lc)\<rparr>)
            in (Ok decision, lc'))"

definition schedule_from_pid0 ::
    "pid0_authority_t \<Rightarrow> lifecycle \<Rightarrow> (schedule_decision, lifecycle_error) result \<times> lifecycle" where
  "schedule_from_pid0 authority lc =
     (case validate_pid0_authority authority lc of Err e \<Rightarrow> (Err e, lc)
      | Ok _ \<Rightarrow>
          if list_ex (\<lambda>slot. ps_occupied slot \<and> ps_phase slot = Running) (lc_slots lc)
          then (Err InvalidTransition, lc)
          else case next_scheduler_epoch (lc_epoch lc) of Err e \<Rightarrow> (Err e, lc)
          | Ok next_epoch \<Rightarrow>
              let target = with_dispatch next_epoch lc
                    (position (\<lambda>slot. ps_occupied slot \<and> ps_phase slot = Runnable) (lc_slots lc)) in
              if target_invalid target then (Err InvalidContext, lc)
              else let (decision, lc') = settle next_epoch target lc in (Ok decision, lc'))"

definition mark_runnable :: "process_handle \<Rightarrow> lifecycle \<Rightarrow> (unit, lifecycle_error) result \<times> lifecycle" where
  "mark_runnable handle lc =
     (if ph_pid handle = NO_PID then (Err Pid0Immutable, lc)
      else case slot_by_handle handle lc of None \<Rightarrow> (Err InvalidHandle, lc)
      | Some i \<Rightarrow>
          if ps_phase (lc_slots lc ! i) \<noteq> Running \<and> ps_phase (lc_slots lc ! i) \<noteq> Blocked
          then (Err InvalidTransition, lc)
          else (Ok (), set_slot i ((lc_slots lc ! i)\<lparr>ps_phase := Runnable\<rparr>) lc))"

definition mark_blocked :: "process_handle \<Rightarrow> lifecycle \<Rightarrow> (unit, lifecycle_error) result \<times> lifecycle" where
  "mark_blocked handle lc =
     (if ph_pid handle = NO_PID then (Err Pid0Immutable, lc)
      else case slot_by_handle handle lc of None \<Rightarrow> (Err InvalidHandle, lc)
      | Some i \<Rightarrow>
          if ps_phase (lc_slots lc ! i) \<noteq> Running then (Err InvalidTransition, lc)
          else (Ok (), set_slot i ((lc_slots lc ! i)\<lparr>ps_phase := Blocked\<rparr>) lc))"

section \<open>Waiting and reaping\<close>

fun wait_child_loop ::
    "u32 \<Rightarrow> u32 option \<Rightarrow> bool \<Rightarrow> process_slot list \<Rightarrow> (process_snapshot, lifecycle_error) result" where
  "wait_child_loop parent requested_pid saw_child [] =
     (if saw_child then Err StillRunning else Err NoChild)"
| "wait_child_loop parent requested_pid saw_child (slot # slots) =
     (if \<not> ps_occupied slot \<or> ps_parent slot \<noteq> parent then wait_child_loop parent requested_pid saw_child slots
      else if (case requested_pid of None \<Rightarrow> False | Some pid \<Rightarrow> ps_pid slot \<noteq> pid)
      then wait_child_loop parent requested_pid saw_child slots
      else if ps_phase slot = Zombie then Ok (slot_snapshot slot)
      else wait_child_loop parent requested_pid True slots)"

definition wait_child :: "u32 \<Rightarrow> u32 option \<Rightarrow> lifecycle \<Rightarrow> (process_snapshot, lifecycle_error) result" where
  "wait_child parent requested_pid lc = wait_child_loop parent requested_pid False (lc_slots lc)"

definition reap_child :: "u32 \<Rightarrow> process_handle \<Rightarrow> lifecycle \<Rightarrow> (int, lifecycle_error) result \<times> lifecycle" where
  "reap_child parent handle lc =
     (if ph_pid handle = NO_PID then (Err Pid0Immutable, lc)
      else case slot_by_handle handle lc of None \<Rightarrow> (Err InvalidHandle, lc)
      | Some i \<Rightarrow>
          let slot = lc_slots lc ! i in
          if ps_parent slot \<noteq> parent then (Err NotChild, lc)
          else if ps_phase slot \<noteq> Zombie then (Err StillRunning, lc)
          else (Ok (ps_exit_code slot), set_slot i (retired_slot slot) lc))"

text \<open>\<open>cycle().skip(start).take(len)\<close> of the slots, searched for a runnable one.\<close>

definition next_runnable :: "u32 \<Rightarrow> lifecycle \<Rightarrow> process_snapshot option" where
  "next_runnable after_pid lc =
     (let start = (case slot_by_pid after_pid lc of None \<Rightarrow> 0 | Some i \<Rightarrow> i + 1) mod length (lc_slots lc)
      in map_option slot_snapshot
           (List.find (\<lambda>slot. ps_occupied slot \<and> ps_phase slot = Runnable)
             (drop start (lc_slots lc) @ take start (lc_slots lc))))"

section \<open>The transition relation\<close>

inductive lc_step :: "lifecycle \<Rightarrow> lifecycle \<Rightarrow> bool" where
  published: "publish_current h lc = (r1, lc') \<Longrightarrow> lc_step lc lc'"
| init_registered: "register_init launch lc = (r2, lc') \<Longrightarrow> lc_step lc lc'"
| child_committed: "commit_child parent launch lc = (r2, lc') \<Longrightarrow> lc_step lc lc'"
| thread_cloned: "clone_current_thread ctx sp fs lc = (r3, lc') \<Longrightarrow> lc_step lc lc'"
| thread_discarded: "discard_runnable_thread h lc = (r1, lc') \<Longrightarrow> lc_step lc lc'"
| marked_running: "mark_running h lc = (r4, lc') \<Longrightarrow> lc_step lc lc'"
| resumed: "resume_current ctx lc = (r5, lc') \<Longrightarrow> lc_step lc lc'"
| image_replaced: "replace_current_image root entry sp measurement lc = (r5, lc') \<Longrightarrow> lc_step lc lc'"
| fs_base_set: "set_current_fs_base fs lc = (r1, lc') \<Longrightarrow> lc_step lc lc'"
| yielded: "schedule_yield ctx lc = (r5, lc') \<Longrightarrow> lc_step lc lc'"
| preempted: "schedule_preempt ctx authority lc = (r5, lc') \<Longrightarrow> lc_step lc lc'"
| blocked: "schedule_block ctx lc = (r6, lc') \<Longrightarrow> lc_step lc lc'"
| exited: "schedule_exit code lc = (r6, lc') \<Longrightarrow> lc_step lc lc'"
| group_exited: "schedule_exit_group code lc = (r6, lc') \<Longrightarrow> lc_step lc lc'"
| thread_exited: "schedule_thread_exit lc = (r6, lc') \<Longrightarrow> lc_step lc lc'"
| from_pid0: "schedule_from_pid0 idle lc = (r6, lc') \<Longrightarrow> lc_step lc lc'"
| marked_runnable: "mark_runnable h lc = (r1, lc') \<Longrightarrow> lc_step lc lc'"
| marked_blocked: "mark_blocked h lc = (r1, lc') \<Longrightarrow> lc_step lc lc'"
| reaped: "reap_child ppid h lc = (r7, lc') \<Longrightarrow> lc_step lc lc'"

section \<open>Lemmas\<close>

subsection \<open>Encoded identities\<close>

lemma handle_encode_low: "ucast (handle_encode h) = ph_pid h"
  by (rule bit_word_eqI) (auto simp: handle_encode_def bit_simps)

lemma handle_encode_high: "ucast (drop_bit 32 (handle_encode h)) = ph_generation h"
proof (rule bit_word_eqI)
  fix n
  assume n: "n < LENGTH(32)"
  show "bit (ucast (drop_bit 32 (handle_encode h)) :: u32) n = bit (ph_generation h) n"
    using n by (auto simp: handle_encode_def bit_simps dest: bit_imp_le_length)
qed

lemma handle_encode_inject: "handle_encode h = handle_encode k \<longleftrightarrow> h = k"
proof
  assume e: "handle_encode h = handle_encode k"
  have "ph_pid h = ph_pid k" using e handle_encode_low [of h] handle_encode_low [of k] by simp
  moreover have "ph_generation h = ph_generation k"
    using e handle_encode_high [of h] handle_encode_high [of k] by simp
  ultimately show "h = k" by simp
qed simp

lemma handle_encode_nonzero: "ph_pid h \<noteq> 0 \<Longrightarrow> handle_encode h \<noteq> 0"
  by (metis handle_encode_low ucast_0)

lemma handle_decode_encode: "valid_owner h \<Longrightarrow> handle_decode (handle_encode h) = Some h"
  using handle_encode_nonzero [of h]
  by (simp add: handle_decode_def valid_owner_def NO_PID_def handle_encode_low handle_encode_high)

lemma handle_decode_Some:
  assumes "handle_decode w = Some h"
  shows "valid_owner h \<and> handle_encode h = w"
proof -
  from assms have h: "h = \<lparr>ph_pid = ucast w, ph_generation = ucast (drop_bit 32 w)\<rparr>" "valid_owner h"
    by (auto simp: handle_decode_def Let_def NO_PID_def valid_owner_def split: if_splits)
  have "handle_encode h = w"
  proof (rule bit_word_eqI)
    fix n
    assume "n < LENGTH(64)"
    then show "bit (handle_encode h) n = bit w n"
      unfolding h(1) by (cases "n < 32") (auto simp: handle_encode_def bit_simps)
  qed
  with h(2) show ?thesis by simp
qed

lemma pid0_not_user: "ph_pid h \<noteq> 0 \<Longrightarrow> handle_encode h \<noteq> PID0_IDENTITY"
proof -
  have "ucast PID0_IDENTITY = (0 :: u32)" by code_simp
  then show "ph_pid h \<noteq> 0 \<Longrightarrow> handle_encode h \<noteq> PID0_IDENTITY" by (metis handle_encode_low)
qed

subsection \<open>Searches\<close>

lemma slot_by_handle_Some:
  "slot_by_handle h lc = Some i \<Longrightarrow> i < length (lc_slots lc) \<and> ps_occupied (lc_slots lc ! i) \<and>
    slot_handle (lc_slots lc ! i) = h"
  by (auto simp: slot_by_handle_def position_Some_iff slot_matches_def slot_handle_def)

lemma caller_index_Ok:
  assumes "caller_index lc = Ok i"
  shows "i < length (lc_slots lc) \<and> ps_occupied (lc_slots lc ! i) \<and> lc_current lc \<noteq> PID0_IDENTITY \<and>
    lc_current lc = handle_encode (slot_handle (lc_slots lc ! i))"
proof -
  from assms obtain h where "handle_decode (lc_current lc) = Some h" "slot_by_handle h lc = Some i"
      "lc_current lc \<noteq> PID0_IDENTITY"
    by (auto simp: caller_index_def current_user_handle_def split: result.splits if_splits)
      (metis ok_or.simps result.distinct(1) result.inject(1) option.exhaust)+
  then show ?thesis using slot_by_handle_Some [of h lc i] handle_decode_Some [of "lc_current lc" h] by auto
qed

lemma find_index:
  assumes "List.find P (map f [a..<b]) = Some y"
  shows "\<exists>k. a \<le> k \<and> k < b \<and> y = f k \<and> P y \<and> (\<forall>l. a \<le> l \<longrightarrow> l < k \<longrightarrow> \<not> P (f l))"
proof -
  from assms obtain i where i: "i < b - a" "P (f (a + i))" "y = f (a + i)"
    and least: "\<And>j. j < i \<Longrightarrow> \<not> P (f (a + j))"
    by (auto simp: find_Some_iff)
  have "\<not> P (f l)" if "a \<le> l" "l < a + i" for l
    using least [of "l - a"] that by simp
  with i show ?thesis by (intro exI [of _ "a + i"]) auto
qed

lemma cyclic_find_Some:
  assumes "cyclic_find P a xs = Some i" "xs \<noteq> []"
  shows "i < length xs \<and> P (xs ! i) \<and>
    (\<exists>k. 1 \<le> k \<and> k \<le> length xs \<and> i = (a + k) mod length xs \<and>
      (\<forall>l. 1 \<le> l \<longrightarrow> l < k \<longrightarrow> \<not> P (xs ! ((a + l) mod length xs))))"
proof -
  from assms(1) obtain k where "1 \<le> k" "k < length xs + 1" "i = (a + k) mod length xs" "P (xs ! i)"
    "\<forall>l. 1 \<le> l \<longrightarrow> l < k \<longrightarrow> \<not> P (xs ! ((a + l) mod length xs))"
    using find_index [OF assms(1) [unfolded cyclic_find_def]] by auto
  moreover have "i < length xs" using calculation(3) assms(2) by simp
  ultimately show ?thesis by auto
qed

lemma cyclic_find_None:
  assumes "cyclic_find P a xs = None" "i < length xs"
  shows "\<not> P (xs ! i)"
proof -
  let ?n = "length xs"
  define k where "k = (if i > a mod ?n then i - a mod ?n else i + ?n - a mod ?n)"
  have am: "a mod ?n < ?n" using assms(2) by (intro mod_less_divisor) linarith
  have k: "1 \<le> k" "k \<le> ?n" using assms(2) am by (auto simp: k_def)
  have "(a + k) mod ?n = (a mod ?n + k) mod ?n" by (simp add: mod_add_left_eq)
  also have "\<dots> = i" using assms(2) am by (auto simp: k_def)
  finally have "(a + k) mod ?n = i" .
  moreover have "k \<in> set [1..<?n + 1]" using k by (simp del: upt_Suc)
  then have "(a + k) mod ?n \<in> set (map (\<lambda>offset. (a + offset) mod ?n) [1..<?n + 1])"
    by (simp del: upt_Suc)
  ultimately show ?thesis using assms(1) unfolding cyclic_find_def find_None_iff by metis
qed

end
