(* ===== verification/Futex.thy ===== *)
theory Futex
  imports Lifecycle "HOL-Library.Multiset"
begin

unbundle bit_operations_syntax

text \<open>
  \<^verbatim>\<open>src/src/linux_futex.rs\<close>: one table of waiters for all private futexes, ordered by a
  sequence number. The lemmas show that the table is a first-in first-out queue per key:
  \<open>futex_queue\<close> reads the waiters in arrival order, and the three table operations act on it
  as appending, taking the first waiter of a key, and removing an owner. \<open>wait_current\<close> and
  \<open>wake_current\<close> also take the process table, which they change through \<open>schedule_block\<close> and
  \<open>mark_runnable\<close>; the user word is read by the caller's closure, whose result is an argument.
\<close>

section \<open>State\<close>

abbreviation MAXIMUM_FUTEX_WAITERS :: nat where "MAXIMUM_FUTEX_WAITERS \<equiv> MAXIMUM_PROCESSES"
definition FUTEX_WORD_BYTES :: u64 where "FUTEX_WORD_BYTES = 4"

record futex_key =
  fk_address_space_root :: u64
  fk_address :: u64

record futex_waiter =
  fw_owner :: process_handle
  fw_key :: futex_key
  fw_sequence :: u64

definition FUTEX_WAITER_EMPTY :: futex_waiter where
  "FUTEX_WAITER_EMPTY = \<lparr>fw_owner = no_handle,
     fw_key = \<lparr>fk_address_space_root = 0, fk_address = 0\<rparr>, fw_sequence = 0\<rparr>"

definition waiter_occupied :: "futex_waiter \<Rightarrow> bool" where
  "waiter_occupied w \<longleftrightarrow> ph_pid (fw_owner w) \<noteq> 0 \<and> ph_generation (fw_owner w) \<noteq> 0 \<and> fw_sequence w \<noteq> 0"

record futex_table =
  ft_waiters :: "futex_waiter list"
  ft_next_sequence :: u64

definition futex_table_new :: futex_table where
  "futex_table_new = \<lparr>ft_waiters = replicate MAXIMUM_FUTEX_WAITERS FUTEX_WAITER_EMPTY, ft_next_sequence = 1\<rparr>"

datatype futex_queue_error = FqInvalidOwner | FqInvalidAddress | FqAlreadyWaiting | FqCapacity

datatype 'e futex_wait_error =
    FwQueue futex_queue_error | FwUserMemory 'e | FwValueChanged | FwLifecycle lifecycle_error

section \<open>Operations\<close>

definition contains_owner :: "process_handle \<Rightarrow> futex_table \<Rightarrow> bool" where
  "contains_owner owner table = list_ex (\<lambda>w. waiter_occupied w \<and> fw_owner w = owner) (ft_waiters table)"

definition futex_enqueue ::
    "process_handle \<Rightarrow> futex_key \<Rightarrow> futex_table \<Rightarrow> (unit, futex_queue_error) result \<times> futex_table" where
  "futex_enqueue owner key table =
     (if contains_owner owner table then (Err FqAlreadyWaiting, table)
      else
        let sequence = ft_next_sequence table in
        case checked_add sequence 1 of None \<Rightarrow> (Err FqCapacity, table)
        | Some next_sequence \<Rightarrow>
            case position (\<lambda>w. \<not> waiter_occupied w) (ft_waiters table) of None \<Rightarrow> (Err FqCapacity, table)
            | Some i \<Rightarrow>
                (Ok (), table\<lparr>ft_waiters := (ft_waiters table)[i :=
                     \<lparr>fw_owner = owner, fw_key = key, fw_sequence = sequence\<rparr>],
                   ft_next_sequence := next_sequence\<rparr>))"

text \<open>\<open>arg_min_list\<close> is the first least element, as \<open>min_by_key\<close> is.\<close>

definition take_oldest :: "futex_key \<Rightarrow> futex_table \<Rightarrow> process_handle option \<times> futex_table" where
  "take_oldest key table =
     (let ws = ft_waiters table;
          eligible = filter (\<lambda>i. waiter_occupied (ws ! i) \<and> fw_key (ws ! i) = key) [0..<length ws]
      in if eligible = [] then (None, table)
         else let i = arg_min_list (\<lambda>i. fw_sequence (ws ! i)) eligible
              in (Some (fw_owner (ws ! i)), table\<lparr>ft_waiters := ws[i := FUTEX_WAITER_EMPTY]\<rparr>))"

definition futex_cancel :: "process_handle \<Rightarrow> futex_table \<Rightarrow> bool \<times> futex_table" where
  "futex_cancel owner table =
     (case position (\<lambda>w. waiter_occupied w \<and> fw_owner w = owner) (ft_waiters table) of
        None \<Rightarrow> (False, table)
      | Some i \<Rightarrow> (True, table\<lparr>ft_waiters := (ft_waiters table)[i := FUTEX_WAITER_EMPTY]\<rparr>))"

definition futex_valid_address :: "u64 \<Rightarrow> bool" where
  "futex_valid_address address \<longleftrightarrow> USER_ADDRESS_MINIMUM \<le> address \<and> address mod FUTEX_WORD_BYTES = 0 \<and>
     (case checked_add address FUTEX_WORD_BYTES of None \<Rightarrow> False | Some e \<Rightarrow> e \<le> USER_ADDRESS_LIMIT)"

definition current_owner_and_key ::
    "u64 \<Rightarrow> lifecycle \<Rightarrow> (process_handle \<times> futex_key, futex_queue_error) result" where
  "current_owner_and_key address lc =
     (if \<not> futex_valid_address address then Err FqInvalidAddress
      else case current_handle lc of None \<Rightarrow> Err FqInvalidOwner
      | Some owner \<Rightarrow>
     case snapshot_exact owner lc of None \<Rightarrow> Err FqInvalidOwner
      | Some snap \<Rightarrow>
          Ok (owner, \<lparr>fk_address_space_root = pl_address_space_root (sn_launch snap), fk_address = address\<rparr>))"

text \<open>Both locks are held throughout: the step is atomic in the waiter and process tables.\<close>

definition wait_current ::
    "u64 \<Rightarrow> u32 \<Rightarrow> saved_user_context \<Rightarrow> (u32, 'e) result \<Rightarrow> futex_table \<Rightarrow> lifecycle \<Rightarrow>
      (schedule_decision, 'e futex_wait_error) result \<times> futex_table \<times> lifecycle" where
  "wait_current address expected saved read_word table lc =
     (case current_owner_and_key address lc of Err e \<Rightarrow> (Err (FwQueue e), table, lc)
      | Ok (owner, key) \<Rightarrow>
          if contains_owner owner table then (Err (FwQueue FqAlreadyWaiting), table, lc)
          else case read_word of Err e \<Rightarrow> (Err (FwUserMemory e), table, lc)
          | Ok observed \<Rightarrow>
              if observed \<noteq> expected then (Err FwValueChanged, table, lc)
              else case futex_enqueue owner key table of (Err e, table') \<Rightarrow> (Err (FwQueue e), table', lc)
              | (Ok _, table') \<Rightarrow>
                  case schedule_block saved lc of
                    (Ok decision, lc') \<Rightarrow> (Ok decision, table', lc')
                  | (Err e, lc') \<Rightarrow> (Err (FwLifecycle e), snd (futex_cancel owner table'), lc'))"

text \<open>The number of occupied slots: each turn of the wake loop frees one.\<close>

definition waiting_count :: "futex_table \<Rightarrow> nat" where
  "waiting_count table = length (filter waiter_occupied (ft_waiters table))"

lemma not_occupied_empty [simp]: "\<not> waiter_occupied FUTEX_WAITER_EMPTY"
  by (simp add: waiter_occupied_def FUTEX_WAITER_EMPTY_def no_handle_def)

lemma clear_waiter_count:
  assumes "i < length ws" "waiter_occupied (ws ! i)"
  shows "length (filter waiter_occupied (ws[i := FUTEX_WAITER_EMPTY])) < length (filter waiter_occupied ws)"
  using assms
proof (induction ws arbitrary: i)
  case (Cons w ws)
  then show ?case by (cases i) (auto split: if_splits)
qed simp

lemma arg_min_list_mem: "xs \<noteq> [] \<Longrightarrow> arg_min_list f xs \<in> set xs"
  by (rule arg_min_list_in)

lemma take_oldest_Some:
  assumes "take_oldest key table = (Some owner, table')"
  obtains i where "i < length (ft_waiters table)" "waiter_occupied (ft_waiters table ! i)"
    "fw_key (ft_waiters table ! i) = key" "fw_owner (ft_waiters table ! i) = owner"
    "\<And>j. j < length (ft_waiters table) \<Longrightarrow> waiter_occupied (ft_waiters table ! j) \<Longrightarrow>
       fw_key (ft_waiters table ! j) = key \<Longrightarrow> fw_sequence (ft_waiters table ! i) \<le> fw_sequence (ft_waiters table ! j)"
    "table' = table\<lparr>ft_waiters := (ft_waiters table)[i := FUTEX_WAITER_EMPTY]\<rparr>"
proof -
  let ?ws = "ft_waiters table"
  let ?el = "filter (\<lambda>i. waiter_occupied (?ws ! i) \<and> fw_key (?ws ! i) = key) [0..<length ?ws]"
  let ?i = "arg_min_list (\<lambda>i. fw_sequence (?ws ! i)) ?el"
  from assms have ne: "?el \<noteq> []" and o: "owner = fw_owner (?ws ! ?i)"
    and t: "table' = table\<lparr>ft_waiters := ?ws[?i := FUTEX_WAITER_EMPTY]\<rparr>"
    by (auto simp: take_oldest_def Let_def split: if_splits)
  have i: "?i \<in> set ?el" by (rule arg_min_list_mem [OF ne])
  have le: "fw_sequence (?ws ! ?i) \<le> fw_sequence (?ws ! j)" if "j \<in> set ?el" for j
  proof -
    have "fw_sequence (?ws ! ?i) = Min ((\<lambda>i. fw_sequence (?ws ! i)) ` set ?el)" by (rule f_arg_min_list_f [OF ne])
    also have "\<dots> \<le> fw_sequence (?ws ! j)" using that by (intro Min_le) auto
    finally show ?thesis .
  qed
  show thesis
  proof (rule that [of ?i])
    show "fw_sequence (?ws ! ?i) \<le> fw_sequence (?ws ! j)"
      if "j < length ?ws" "waiter_occupied (?ws ! j)" "fw_key (?ws ! j) = key" for j
      by (rule le) (use that in simp)
  qed (use i o t in simp_all)
qed

text \<open>The loop of \<open>wake_current\<close>. \<open>wake\<close> is \<open>mark_runnable\<close> on the scheduler's state.\<close>

function futex_wake_loop ::
    "(process_handle \<Rightarrow> 's \<Rightarrow> (unit, 'e) result \<times> 's) \<Rightarrow> nat \<Rightarrow> futex_key \<Rightarrow> nat \<Rightarrow> futex_table \<Rightarrow> 's \<Rightarrow>
      nat \<times> futex_table \<times> 's" where
  "futex_wake_loop wake maximum key woken table s =
     (if woken < maximum then
        case take_oldest key table of
          (None, table') \<Rightarrow> (woken, table', s)
        | (Some owner, table') \<Rightarrow>
            case wake owner s of
              (Ok _, s') \<Rightarrow> futex_wake_loop wake maximum key (woken + 1) table' s'
            | (Err _, s') \<Rightarrow> futex_wake_loop wake maximum key woken table' s'
      else (woken, table, s))"
  by pat_completeness auto

termination
  by (relation "measure (\<lambda>(wake, maximum, key, woken, table, s). waiting_count table)")
    (auto simp: waiting_count_def elim!: take_oldest_Some [OF sym] intro: clear_waiter_count)

declare futex_wake_loop.simps [simp del]

definition wake_current ::
    "u64 \<Rightarrow> nat \<Rightarrow> futex_table \<Rightarrow> lifecycle \<Rightarrow> (nat, futex_queue_error) result \<times> futex_table \<times> lifecycle" where
  "wake_current address maximum table lc =
     (case current_owner_and_key address lc of Err e \<Rightarrow> (Err e, table, lc)
      | Ok (_, key) \<Rightarrow>
          let (woken, table', lc') = futex_wake_loop mark_runnable maximum key 0 table lc
          in (Ok woken, table', lc'))"

definition cancel_wait :: "process_handle \<Rightarrow> futex_table \<Rightarrow> bool \<times> futex_table" where
  "cancel_wait owner table = futex_cancel owner table"

section \<open>The table is a queue\<close>

text \<open>Waiters in arrival order, and what the interface shows of them.\<close>

definition futex_line :: "futex_table \<Rightarrow> futex_waiter list" where
  "futex_line table = sort_key fw_sequence (filter waiter_occupied (ft_waiters table))"

definition futex_queue :: "futex_table \<Rightarrow> (process_handle \<times> futex_key) list" where
  "futex_queue table = map (\<lambda>w. (fw_owner w, fw_key w)) (futex_line table)"

text \<open>The abstract queue operations.\<close>

definition fifo_append :: "process_handle \<Rightarrow> futex_key \<Rightarrow> (process_handle \<times> futex_key) list \<Rightarrow> (process_handle \<times> futex_key) list" where
  "fifo_append owner key q = q @ [(owner, key)]"

definition fifo_take :: "futex_key \<Rightarrow> (process_handle \<times> futex_key) list \<Rightarrow>
    process_handle option \<times> (process_handle \<times> futex_key) list" where
  "fifo_take key q =
     (case List.find (\<lambda>(owner, k). k = key) q of None \<Rightarrow> (None, q)
      | Some x \<Rightarrow> (Some (fst x), remove1 x q))"

definition fifo_remove :: "process_handle \<Rightarrow> (process_handle \<times> futex_key) list \<Rightarrow> (process_handle \<times> futex_key) list" where
  "fifo_remove owner q = filter (\<lambda>(o', k). o' \<noteq> owner) q"

text \<open>Sequence numbers and owners are unique among the waiters, and sequence numbers are
  below the next one to be issued.\<close>

definition futex_inv :: "futex_table \<Rightarrow> bool" where
  "futex_inv table \<longleftrightarrow>
     length (ft_waiters table) = MAXIMUM_FUTEX_WAITERS \<and> 0 < ft_next_sequence table \<and>
     distinct (map fw_sequence (filter waiter_occupied (ft_waiters table))) \<and>
     distinct (map fw_owner (filter waiter_occupied (ft_waiters table))) \<and>
     (\<forall>w \<in> set (filter waiter_occupied (ft_waiters table)). fw_sequence w < ft_next_sequence table)"

lemma futex_inv_new: "futex_inv futex_table_new"
  by (simp add: futex_inv_def futex_table_new_def filter_replicate)

lemma set_futex_line: "set (futex_line table) = set (filter waiter_occupied (ft_waiters table))"
  by (simp add: futex_line_def)

lemma mset_futex_line: "mset (futex_line table) = mset (filter waiter_occupied (ft_waiters table))"
  by (simp add: futex_line_def)

lemma distinct_map_mset: "mset xs = mset ys \<Longrightarrow> distinct (map f xs) \<longleftrightarrow> distinct (map f ys)"
  by (metis mset_map mset_eq_imp_distinct_iff)

lemma futex_line_distinct:
  assumes "futex_inv table"
  shows "distinct (map fw_sequence (futex_line table))" "distinct (map fw_owner (futex_line table))"
  using assms distinct_map_mset [OF mset_futex_line, of fw_sequence table] distinct_map_mset [OF mset_futex_line, of fw_owner table] by (auto simp: futex_inv_def)

lemma futex_invI:
  assumes "length (ft_waiters table) = MAXIMUM_FUTEX_WAITERS" "0 < ft_next_sequence table"
    "distinct (map fw_sequence (futex_line table))" "distinct (map fw_owner (futex_line table))"
    "\<forall>w \<in> set (futex_line table). fw_sequence w < ft_next_sequence table"
  shows "futex_inv table"
  using assms distinct_map_mset [OF mset_futex_line, of fw_sequence table]
    distinct_map_mset [OF mset_futex_line, of fw_owner table]
  by (auto simp: futex_inv_def set_futex_line)

lemma futex_invD:
  "futex_inv table \<Longrightarrow> length (ft_waiters table) = MAXIMUM_FUTEX_WAITERS \<and> 0 < ft_next_sequence table \<and>
     (\<forall>w \<in> set (futex_line table). fw_sequence w < ft_next_sequence table)"
  by (auto simp: futex_inv_def set_futex_line)

lemma futex_line_sorted: "sorted (map fw_sequence (futex_line table))"
  by (simp add: futex_line_def)

text \<open>A list with the same waiters, sorted by sequence number, is the line.\<close>

lemma futex_line_eqI:
  assumes "mset (filter waiter_occupied (ft_waiters table)) = mset ys" "sorted (map fw_sequence ys)"
    "distinct (map fw_sequence ys)"
  shows "futex_line table = ys"
proof -
  have "distinct (map fw_sequence (filter waiter_occupied (ft_waiters table)))"
    using assms(3) distinct_map_mset [OF assms(1)] by blast
  then have "inj_on fw_sequence (set (filter waiter_occupied (ft_waiters table)))" by (simp add: distinct_map)
  then show ?thesis unfolding futex_line_def using assms(1,2) by (intro sort_key_inj_key_eq) auto
qed

lemma mset_fill:
  assumes "i < length ws" "\<not> waiter_occupied (ws ! i)" "waiter_occupied w"
  shows "mset (filter waiter_occupied (ws[i := w])) = add_mset w (mset (filter waiter_occupied ws))"
proof -
  have "filter_mset waiter_occupied (mset ws - {#ws ! i#}) = filter_mset waiter_occupied (mset ws)"
    using assms(2) by (simp add: filter_diff_mset)
  then show ?thesis using assms by (simp add: mset_update mset_filter)
qed

lemma mset_vacate:
  assumes "i < length ws" "waiter_occupied (ws ! i)"
  shows "mset (filter waiter_occupied (ws[i := FUTEX_WAITER_EMPTY])) = mset (filter waiter_occupied ws) - {#ws ! i#}"
  using assms by (simp add: mset_update mset_filter filter_diff_mset)

lemma vacate_line:
  assumes "futex_inv table" "i < length (ft_waiters table)" "waiter_occupied (ft_waiters table ! i)"
  defines "table' \<equiv> table\<lparr>ft_waiters := (ft_waiters table)[i := FUTEX_WAITER_EMPTY]\<rparr>"
  shows "futex_line table' = remove1 (ft_waiters table ! i) (futex_line table)" "futex_inv table'"
proof -
  let ?w = "ft_waiters table ! i"
  have m: "mset (filter waiter_occupied (ft_waiters table')) = mset (remove1 ?w (futex_line table))"
    using mset_vacate [OF assms(2,3)] by (simp add: table'_def mset_futex_line)
  have sub: "set (remove1 ?w (futex_line table)) \<subseteq> set (futex_line table)" by (rule set_remove1_subset)
  note d = futex_line_distinct [OF assms(1)]
  have d': "distinct (map fw_sequence (remove1 ?w (futex_line table)))"
    "distinct (map fw_owner (remove1 ?w (futex_line table)))"
    using d sub by (auto simp: distinct_map intro: inj_on_subset)
  show l: "futex_line table' = remove1 ?w (futex_line table)"
    using futex_line_sorted [of table] d'(1) by (intro futex_line_eqI [OF m]) (auto intro: sorted_map_remove1)
  show "futex_inv table'"
    using futex_invD [OF assms(1)] d' sub by (intro futex_invI) (auto simp: l, auto simp: table'_def)
qed

subsection \<open>The three operations refine the queue\<close>

lemma contains_owner_queue: "contains_owner owner table \<longleftrightarrow> owner \<in> fst ` set (futex_queue table)"
  by (force simp: contains_owner_def futex_queue_def set_futex_line list_ex_iff)

lemma futex_enqueue_cases:
  assumes "futex_enqueue owner key table = (r, table')"
  obtains (refused) e where "r = Err e" "table' = table"
  | (queued) i sequence where "r = Ok ()" "\<not> contains_owner owner table" "i < length (ft_waiters table)"
      "\<not> waiter_occupied (ft_waiters table ! i)" "checked_add (ft_next_sequence table) 1 = Some sequence"
      "table' = table\<lparr>ft_waiters := (ft_waiters table)[i :=
         \<lparr>fw_owner = owner, fw_key = key, fw_sequence = ft_next_sequence table\<rparr>], ft_next_sequence := sequence\<rparr>"
proof (cases "contains_owner owner table \<or> checked_add (ft_next_sequence table) 1 = None
    \<or> position (\<lambda>w. \<not> waiter_occupied w) (ft_waiters table) = None")
  case True
  then show thesis using assms
    by (intro refused [of "the_Err r"]) (auto simp: futex_enqueue_def Let_def split: rust_splits)
next
  case False
  then obtain sequence i where s: "checked_add (ft_next_sequence table) 1 = Some sequence"
    and i: "position (\<lambda>w. \<not> waiter_occupied w) (ft_waiters table) = Some i" and c: "\<not> contains_owner owner table"
    by auto
  show thesis
    by (rule queued [of i sequence]) (use assms s i c position_length [OF i] position_sat [OF i] in
      \<open>auto simp: futex_enqueue_def\<close>)
qed

lemma enqueue_refines:
  assumes "futex_inv table" "valid_owner owner" "futex_enqueue owner key table = (Ok (), table')"
  shows "futex_inv table' \<and> futex_queue table' = fifo_append owner key (futex_queue table)"
  using assms(3)
proof (cases rule: futex_enqueue_cases)
  case (queued i sequence)
  let ?w = "\<lparr>fw_owner = owner, fw_key = key, fw_sequence = ft_next_sequence table\<rparr>"
  have o: "waiter_occupied ?w" using assms(1,2) by (auto simp: waiter_occupied_def valid_owner_def futex_inv_def)
  have m: "mset (filter waiter_occupied (ft_waiters table')) = mset (futex_line table @ [?w])"
    using mset_fill [OF queued(3,4) o] by (simp add: queued(6) mset_futex_line)
  have less: "fw_sequence w < ft_next_sequence table" if "w \<in> set (futex_line table)" for w
    using assms(1) that by (auto simp: futex_inv_def set_futex_line)
  have fresh: "owner \<notin> fw_owner ` set (futex_line table)"
    using queued(2) by (force simp: contains_owner_queue futex_queue_def)
  note d = futex_line_distinct [OF assms(1)]
  have s: "sorted (map fw_sequence (futex_line table @ [?w]))" "distinct (map fw_sequence (futex_line table @ [?w]))"
    "distinct (map fw_owner (futex_line table @ [?w]))"
    using futex_line_sorted [of table] d less fresh by (auto simp: sorted_append order_less_imp_le dest: less)
  have l: "futex_line table' = futex_line table @ [?w]" by (rule futex_line_eqI [OF m s(1,2)])
  have "ft_next_sequence table < sequence" by (rule checked_add_one_less [OF queued(5)])
  then have "\<forall>w \<in> set (futex_line table @ [?w]). fw_sequence w < sequence"
    using less by (auto intro: less_trans)
  then have "futex_inv table'"
    using s futex_invD [OF assms(1)] checked_add_one_nonzero [OF queued(5)]
    by (intro futex_invI) (simp_all only: l, simp_all add: queued(6) word_neq_0_conv)
  with l show ?thesis by (simp add: futex_queue_def fifo_append_def)
qed simp

lemma inj_line: "futex_inv table \<Longrightarrow> inj_on (\<lambda>w. (fw_owner w, fw_key w)) (set (futex_line table))"
  using futex_line_distinct(2) [of table] by (auto simp: distinct_map inj_on_def)

lemma map_remove1: "inj_on f (insert x (set xs)) \<Longrightarrow> map f (remove1 x xs) = remove1 (f x) (map f xs)"
  by (induction xs) (auto simp: inj_on_def)

lemma queue_vacate:
  assumes "futex_inv table" "i < length (ft_waiters table)" "waiter_occupied (ft_waiters table ! i)"
    "table' = table\<lparr>ft_waiters := (ft_waiters table)[i := FUTEX_WAITER_EMPTY]\<rparr>"
  shows "futex_queue table' =
      remove1 (fw_owner (ft_waiters table ! i), fw_key (ft_waiters table ! i)) (futex_queue table)"
proof -
  let ?w = "ft_waiters table ! i"
  have "?w \<in> set (futex_line table)" using assms(2,3) by (simp add: set_futex_line)
  then have "inj_on (\<lambda>w. (fw_owner w, fw_key w)) (insert ?w (set (futex_line table)))"
    using inj_line [OF assms(1)] by (simp add: insert_absorb)
  from map_remove1 [OF this] show ?thesis
    using vacate_line(1) [OF assms(1-3)] by (simp add: futex_queue_def assms(4))
qed

lemma take_oldest_None:
  assumes "take_oldest key table = (None, table')"
  shows "table' = table" "\<forall>w \<in> set (futex_line table). fw_key w \<noteq> key"
proof -
  have "filter (\<lambda>i. waiter_occupied (ft_waiters table ! i) \<and> fw_key (ft_waiters table ! i) = key)
      [0..<length (ft_waiters table)] = []"
    using assms by (auto simp: take_oldest_def Let_def split: if_splits)
  then show "\<forall>w \<in> set (futex_line table). fw_key w \<noteq> key"
    by (auto simp: set_futex_line filter_empty_conv in_set_conv_nth)
  show "table' = table" using assms by (auto simp: take_oldest_def Let_def split: if_splits)
qed

text \<open>In a list sorted by distinct keys, the first match is the least one.\<close>

lemma find_sorted_least:
  assumes "sorted (map f xs)" "distinct (map f xs)" "x \<in> set xs" "P x"
    "\<And>y. y \<in> set xs \<Longrightarrow> P y \<Longrightarrow> f x \<le> f y"
  shows "List.find P xs = Some x"
  using assms
proof (induction xs)
  case (Cons y ys)
  show ?case
  proof (cases "P y")
    case True
    then have "f x \<le> f y" using Cons.prems(5) by simp
    moreover have "f y \<le> f x" using Cons.prems(1,3) by auto
    ultimately have "y = x" using Cons.prems(2,3) by (auto simp: image_iff)
    with True show ?thesis by simp
  next
    case False
    then have "x \<in> set ys" using Cons.prems(3,4) by auto
    with False Cons show ?thesis by simp
  qed
qed simp

lemma find_map: "List.find P (map f xs) = map_option f (List.find (\<lambda>x. P (f x)) xs)"
  by (induction xs) auto

lemma take_refines:
  assumes "futex_inv table" "take_oldest key table = (r, table')"
  shows "futex_inv table' \<and> (r, futex_queue table') = fifo_take key (futex_queue table)"
proof (cases r)
  case None
  note n = take_oldest_None [OF assms(2) [unfolded None]]
  then have "List.find (\<lambda>(o', k). k = key) (futex_queue table) = None"
    by (auto simp: find_None_iff futex_queue_def)
  then show ?thesis using n(1) assms(1) None by (simp add: fifo_take_def)
next
  case (Some owner)
  from take_oldest_Some [OF assms(2) [unfolded Some]]
  obtain i where i: "i < length (ft_waiters table)" "waiter_occupied (ft_waiters table ! i)"
      "fw_key (ft_waiters table ! i) = key" "fw_owner (ft_waiters table ! i) = owner"
    and least: "\<And>j. j < length (ft_waiters table) \<Longrightarrow> waiter_occupied (ft_waiters table ! j) \<Longrightarrow>
       fw_key (ft_waiters table ! j) = key \<Longrightarrow> fw_sequence (ft_waiters table ! i) \<le> fw_sequence (ft_waiters table ! j)"
    and t: "table' = table\<lparr>ft_waiters := (ft_waiters table)[i := FUTEX_WAITER_EMPTY]\<rparr>"
    by metis
  let ?w = "ft_waiters table ! i"
  have "List.find (\<lambda>w. fw_key w = key) (futex_line table) = Some ?w"
  proof (rule find_sorted_least [where f = fw_sequence])
    show "fw_sequence ?w \<le> fw_sequence y" if "y \<in> set (futex_line table)" "fw_key y = key" for y
      using that least by (auto simp: set_futex_line in_set_conv_nth)
  qed (use futex_line_sorted futex_line_distinct [OF assms(1)] i in \<open>simp_all add: set_futex_line\<close>)
  then have "List.find (\<lambda>(o', k). k = key) (futex_queue table) = Some (owner, key)"
    using i by (simp add: futex_queue_def find_map)
  then show ?thesis
    using queue_vacate [OF assms(1) i(1,2) t] vacate_line(2) [OF assms(1) i(1,2)] i t Some
    by (simp add: fifo_take_def)
qed

lemma cancel_refines:
  assumes "futex_inv table" "futex_cancel owner table = (found, table')"
  shows "futex_inv table' \<and> found = contains_owner owner table \<and>
    futex_queue table' = fifo_remove owner (futex_queue table)"
proof (cases "position (\<lambda>w. waiter_occupied w \<and> fw_owner w = owner) (ft_waiters table)")
  case None
  then have "\<not> contains_owner owner table" by (auto simp: contains_owner_def list_ex_iff position_None_iff)
  moreover from this have "fifo_remove owner (futex_queue table) = futex_queue table"
    by (auto simp: fifo_remove_def contains_owner_queue filter_id_conv) force
  ultimately show ?thesis using assms None by (simp add: futex_cancel_def)
next
  case (Some i)
  then have i: "i < length (ft_waiters table)" "waiter_occupied (ft_waiters table ! i)"
      "fw_owner (ft_waiters table ! i) = owner"
    by (simp_all add: position_Some_iff)
  have t: "found" "table' = table\<lparr>ft_waiters := (ft_waiters table)[i := FUTEX_WAITER_EMPTY]\<rparr>"
    using assms(2) Some by (simp_all add: futex_cancel_def)
  have c: "contains_owner owner table" using i by (auto simp: contains_owner_def list_ex_iff)
  let ?w = "ft_waiters table ! i"
  have w: "?w \<in> set (futex_line table)" using i by (simp add: set_futex_line)
  note d = futex_line_distinct(2) [OF assms(1)]
  have "remove1 ?w (futex_line table) = filter (\<lambda>w. fw_owner w \<noteq> owner) (futex_line table)"
    using d w i(3) by (subst distinct_remove1_removeAll)
      (auto simp: distinct_map removeAll_filter_not_eq inj_on_def intro!: filter_cong)
  then have "futex_queue table' = fifo_remove owner (futex_queue table)"
    using vacate_line(1) [OF assms(1) i(1,2)] t
    by (simp add: futex_queue_def fifo_remove_def filter_map o_def split_def)
  with t c vacate_line(2) [OF assms(1) i(1,2)] show ?thesis by simp
qed

section \<open>Waking\<close>

text \<open>The owners that wait on a key, in arrival order.\<close>

definition waiting_on :: "futex_key \<Rightarrow> (process_handle \<times> futex_key) list \<Rightarrow> process_handle list" where
  "waiting_on key q = map fst (filter (\<lambda>(owner, k). k = key) q)"

fun fifo_drop :: "futex_key \<Rightarrow> nat \<Rightarrow> (process_handle \<times> futex_key) list \<Rightarrow> (process_handle \<times> futex_key) list" where
  "fifo_drop key 0 q = q"
| "fifo_drop key (Suc n) q = fifo_drop key n (snd (fifo_take key q))"

lemma find_filter: "List.find P xs = (case filter P xs of [] \<Rightarrow> None | x # _ \<Rightarrow> Some x)"
  by (induction xs) auto

lemma fifo_take_None: "fst (fifo_take key q) = None \<longleftrightarrow> waiting_on key q = []"
  by (auto simp: fifo_take_def find_filter waiting_on_def split: list.splits option.splits)

lemma fifo_take_Some:
  assumes "fifo_take key q = (Some owner, q')"
  shows "waiting_on key q = owner # waiting_on key q'"
proof -
  let ?P = "\<lambda>(owner, k). k = key"
  from assms obtain x rest where f: "filter ?P q = x # rest" and x: "owner = fst x" "q' = remove1 x q"
    by (auto simp: fifo_take_def find_filter split: list.splits)
  have "filter ?P q' = remove1 x (filter ?P q)" using x(2) by (simp add: filter_remove1)
  with f x show ?thesis by (simp add: waiting_on_def)
qed

lemma distinct_waiting: "futex_inv table \<Longrightarrow> distinct (waiting_on key (futex_queue table))"
proof -
  assume "futex_inv table"
  then have "distinct (map fst (futex_queue table))"
    using futex_line_distinct(2) by (simp add: futex_queue_def o_def)
  then show ?thesis by (simp add: waiting_on_def distinct_map_filter)
qed

lemma wake_loop_preserves:
  assumes "\<And>h s r s'. wake h s = (r, s') \<Longrightarrow> Q s \<Longrightarrow> Q s'" "Q s"
    "futex_wake_loop wake maximum key woken table s = (n, table', s')"
  shows "Q s'"
  using assms
proof (induction wake maximum key woken table s rule: futex_wake_loop.induct)
  case (1 wake maximum key woken table s)
  show ?case
  proof (cases "woken < maximum")
    case False
    then show ?thesis using "1.prems"(2,3) by (subst (asm) futex_wake_loop.simps) simp
  next
    case True
    obtain o' t where t: "take_oldest key table = (o', t)" by (cases "take_oldest key table")
    show ?thesis
    proof (cases o')
      case None
      then show ?thesis using "1.prems"(2,3) True t by (subst (asm) futex_wake_loop.simps) simp
    next
      case (Some h)
      obtain r s1 where w: "wake h s = (r, s1)" by (cases "wake h s")
      have q: "Q s1" using "1.prems"(1) [OF w "1.prems"(2)] .
      show ?thesis
      proof (cases r)
        case (Ok u)
        have "futex_wake_loop wake maximum key (woken + 1) t s1 = (n, table', s')"
          using "1.prems"(3) True t Some w Ok by (subst (asm) futex_wake_loop.simps) simp
        from "1.IH"(1) [OF True t [symmetric] Some w [symmetric] Ok "1.prems"(1) q this] show ?thesis by simp
      next
        case (Err e)
        have "futex_wake_loop wake maximum key woken t s1 = (n, table', s')"
          using "1.prems"(3) True t Some w Err by (subst (asm) futex_wake_loop.simps) simp
        from "1.IH"(2) [OF True t [symmetric] Some w [symmetric] Err "1.prems"(1) q this] show ?thesis by simp
      qed
    qed
  qed
qed

lemma fifo_drop_owners:
  assumes "distinct (map fst q)"
  shows "fst ` set (fifo_drop key m q) = fst ` set q - set (take m (waiting_on key q))"
  using assms
proof (induction m arbitrary: q)
  case (Suc m)
  show ?case
  proof (cases "fifo_take key q")
    case (Pair r q')
    show ?thesis
    proof (cases r)
      case None
      then have "waiting_on key q = []" using fifo_take_None [of key q] Pair by simp
      moreover have "q' = q" using Pair None by (auto simp: fifo_take_def split: option.splits)
      ultimately show ?thesis using Suc.IH [OF Suc.prems] Pair by simp
    next
      case (Some h)
      note w = fifo_take_Some [OF Pair [unfolded Some]]
      obtain x where f: "List.find (\<lambda>(o', k). k = key) q = Some x" and e: "h = fst x" "q' = remove1 x q"
        using Pair Some by (auto simp: fifo_take_def split: option.splits)
      obtain rest where "filter (\<lambda>(o', k). k = key) q = x # rest" using f by (auto simp: find_filter split: list.splits)
      then have "x \<in> set (filter (\<lambda>(o', k). k = key) q)" by (simp only: list.set_intros)
      then have x: "x \<in> set q" "h = fst x" "q' = remove1 x q" using e by simp_all
      have d: "distinct q" "inj_on fst (set q)" using Suc.prems by (simp_all add: distinct_map)
      then have "distinct (map fst q')" using x(3) by (auto simp: distinct_map intro: inj_on_subset)
      moreover have "fst ` set q' = fst ` set q - {h}"
        using d x by (auto simp: inj_on_def)
      ultimately show ?thesis using Suc.IH [of q'] w Pair by auto
    qed
  qed
qed simp

text \<open>
  What the queue needs of the scheduler: a wake makes its process runnable and changes no other
  process, a refused wake changes nothing, and a blocked process is never refused.
\<close>

locale waker =
  fixes wake :: "process_handle \<Rightarrow> 's \<Rightarrow> (unit, 'e) result \<times> 's"
    and phase :: "'s \<Rightarrow> process_handle \<Rightarrow> process_phase option"
  assumes wake_Ok: "wake h s = (Ok u, s') \<Longrightarrow>
      phase s' h = Some Runnable \<and> (\<forall>h'. h' \<noteq> h \<longrightarrow> phase s' h' = phase s h')"
    and wake_Err: "wake h s = (Err e, s') \<Longrightarrow> s' = s"
    and wake_blocked: "phase s h = Some Blocked \<Longrightarrow> valid_owner h \<Longrightarrow> \<exists>s'. wake h s = (Ok (), s')"
begin

lemma wake_loop_exact:
  assumes "futex_inv table" "\<And>h. h \<in> set (waiting_on key (futex_queue table)) \<Longrightarrow> phase s h = Some Blocked \<and> valid_owner h"
    "woken \<le> maximum" "futex_wake_loop wake maximum key woken table s = (n, table', s')"
    "m = min (maximum - woken) (length (waiting_on key (futex_queue table)))"
  shows "futex_inv table' \<and> n = woken + m \<and> futex_queue table' = fifo_drop key m (futex_queue table) \<and>
    (\<forall>h. phase s' h = (if h \<in> set (take m (waiting_on key (futex_queue table))) then Some Runnable else phase s h))"
  using assms
proof (induction "waiting_on key (futex_queue table)" arbitrary: table s woken m)
  case Nil
  obtain r t where t: "take_oldest key table = (r, t)" by (cases "take_oldest key table")
  have "r = None" using take_refines [OF Nil.prems(1) t] fifo_take_None [of key "futex_queue table"] Nil.hyps
    by (metis fst_conv)
  moreover from this have "t = table" using take_oldest_None(1) t by blast
  ultimately show ?case
    using Nil.prems t Nil.hyps by (subst (asm) futex_wake_loop.simps) (auto split: if_splits)
next
  case (Cons h hs)
  show ?case
  proof (cases "woken < maximum")
    case False
    then show ?thesis using Cons.prems by (subst (asm) futex_wake_loop.simps) auto
  next
    case True
    obtain r t where t: "take_oldest key table = (r, t)" by (cases "take_oldest key table")
    note ref = take_refines [OF Cons.prems(1) t]
    obtain owner where o: "r = Some owner"
      using ref fifo_take_None [of key "futex_queue table"] Cons.hyps(2) by (metis fst_conv list.distinct(1) not_None_eq)
    have w: "waiting_on key (futex_queue table) = owner # waiting_on key (futex_queue t)"
      using fifo_take_Some ref o by metis
    with Cons.hyps(2) have hh: "owner = h" and hs: "hs = waiting_on key (futex_queue t)" by simp_all
    have b: "phase s h = Some Blocked" "valid_owner h" using Cons.prems(2) [of h] Cons.hyps(2) by (metis list.set_intros(1))+
    then obtain s1 where s1: "wake h s = (Ok (), s1)" using wake_blocked by blast
    have nh: "h \<notin> set hs" using distinct_waiting [OF Cons.prems(1), of key] Cons.hyps(2) by (metis distinct.simps(2))
    have loop: "futex_wake_loop wake maximum key (woken + 1) t s1 = (n, table', s')"
      using Cons.prems(4) True t o hh s1 by (subst (asm) futex_wake_loop.simps) simp
    have ph: "phase s1 h' = (if h' = h then Some Runnable else phase s h')" for h' using wake_Ok [OF s1] by simp
    have bl: "phase s1 h' = Some Blocked \<and> valid_owner h'" if "h' \<in> set (waiting_on key (futex_queue t))" for h'
      using Cons.prems(2) [of h'] that nh ph w hs by (metis list.set_intros(2))
    define m' where "m' = min (maximum - (woken + 1)) (length hs)"
    have m: "m = Suc m'" using Cons.prems(5) True w hs by (simp add: m'_def)
    from Cons.hyps(1) [OF hs _ bl _ loop] ref True
    have "futex_inv table' \<and> n = woken + 1 + m' \<and> futex_queue table' = fifo_drop key m' (futex_queue t) \<and>
        (\<forall>h'. phase s' h' = (if h' \<in> set (take m' hs) then Some Runnable else phase s1 h'))"
      using m'_def hs by simp
    moreover have "futex_queue t = snd (fifo_take key (futex_queue table))" using ref by (metis snd_conv)
    ultimately show ?thesis using m w hs hh ph by simp
  qed
qed

end

end
