(* ===== verification/LifecycleInv.thy ===== *)
theory LifecycleInv
  imports Lifecycle
begin

unbundle bit_operations_syntax

text \<open>
  The process table's invariant and what every lifecycle operation keeps of it: each slot
  moves along the edges of the process state machine (\<open>slot_move\<close>), live processes have
  distinct identifiers and valid saved contexts, at most one process runs and
  \<open>CURRENT_EXECUTION\<close> names it, and the published epoch mirrors the table's.
\<close>

section \<open>Slot moves\<close>

fun phase_edge :: "process_phase \<Rightarrow> process_phase \<Rightarrow> bool" where
  "phase_edge Runnable p = (p = Runnable \<or> p = Running \<or> p = Zombie)"
| "phase_edge Running p = (p = Runnable \<or> p = Running \<or> p = Blocked \<or> p = Zombie)"
| "phase_edge Blocked p = (p = Runnable \<or> p = Blocked \<or> p = Zombie)"
| "phase_edge p q = (p = q)"

text \<open>What one operation may do to one slot: keep the process and move its phase along an
  edge, admit a runnable process into a free slot, or retire the process.\<close>

definition slot_move :: "process_slot \<Rightarrow> process_slot \<Rightarrow> bool" where
  "slot_move s t \<longleftrightarrow>
     ps_occupied t = ps_occupied s \<and> slot_handle t = slot_handle s \<and> phase_edge (ps_phase s) (ps_phase t) \<or>
     free_slot s \<and> ps_occupied t \<and> ps_phase t = Runnable \<and> ps_pid t \<noteq> 0 \<and>
       (ps_generation t = ps_generation s \<or> checked_add (ps_generation s) 1 = Some (ps_generation t)) \<or>
     ps_occupied s \<and> t = retired_slot s"

definition lc_moves :: "lifecycle \<Rightarrow> lifecycle \<Rightarrow> bool" where
  "lc_moves lc lc' \<longleftrightarrow> length (lc_slots lc') = length (lc_slots lc) \<and>
     (\<forall>i < length (lc_slots lc). slot_move (lc_slots lc ! i) (lc_slots lc' ! i))"

lemma phase_edge_refl [simp]: "phase_edge p p"
  by (cases p) simp_all

lemma slot_move_refl [simp]: "slot_move s s"
  by (simp add: slot_move_def)

lemma slot_move_keep:
  "ps_occupied t = ps_occupied s \<Longrightarrow> slot_handle t = slot_handle s \<Longrightarrow>
    phase_edge (ps_phase s) (ps_phase t) \<Longrightarrow> slot_move s t"
  by (simp add: slot_move_def)

lemma slot_move_retired [simp]: "ps_occupied s \<Longrightarrow> slot_move s (retired_slot s)"
  by (simp add: slot_move_def)

lemma slots_set_slot [simp]: "lc_slots (set_slot i s lc) = (lc_slots lc)[i := s]"
  by (simp add: set_slot_def)

lemma publish_epoch_simps [simp]:
  "lc_slots (publish_epoch e lc) = lc_slots lc" "lc_current (publish_epoch e lc) = lc_current lc"
  "lc_epoch (publish_epoch e lc) = e" "lc_published_epoch (publish_epoch e lc) = e"
  by (simp_all add: publish_epoch_def)

lemma set_slot_simps [simp]:
  "lc_current (set_slot i s lc) = lc_current lc" "lc_epoch (set_slot i s lc) = lc_epoch lc"
  "lc_published_epoch (set_slot i s lc) = lc_published_epoch lc"
  "lc_next_pid (set_slot i s lc) = lc_next_pid lc"
  by (simp_all add: set_slot_def)

lemma slot_handle_simps [simp]:
  "slot_handle (s\<lparr>ps_phase := p\<rparr>) = slot_handle s" "slot_handle (s\<lparr>ps_context := c\<rparr>) = slot_handle s"
  "slot_handle (s\<lparr>ps_fs_base := f\<rparr>) = slot_handle s" "slot_handle (s\<lparr>ps_exit_code := x\<rparr>) = slot_handle s"
  "slot_handle (s\<lparr>ps_wait_sequence := e\<rparr>) = slot_handle s" "slot_handle (s\<lparr>ps_launch := l\<rparr>) = slot_handle s"
  by (simp_all add: slot_handle_def)

lemma lc_scheduled_simps [simp]:
  "sp_handle (lc_scheduled i u e lc) = slot_handle (lc_slots lc ! i)"
  "sp_scheduler_epoch (lc_scheduled i u e lc) = e" "dc_user (sp_context (lc_scheduled i u e lc)) = u"
  "dc_address_space_root (sp_context (lc_scheduled i u e lc)) = pl_address_space_root (ps_launch (lc_slots lc ! i))"
  "dc_kernel_stack_pointer (sp_context (lc_scheduled i u e lc)) = pl_kernel_stack_pointer (ps_launch (lc_slots lc ! i))"
  "dc_fs_base (sp_context (lc_scheduled i u e lc)) = ps_fs_base (lc_slots lc ! i)"
  by (simp_all add: lc_scheduled_def Let_def)

lemma lc_moves_refl [simp]: "lc_moves lc lc"
  by (simp add: lc_moves_def)

lemma lc_moves_same_slots: "lc_slots lc' = lc_slots lc \<Longrightarrow> lc_moves lc lc'"
  by (simp add: lc_moves_def)

lemma lc_moves_update:
  assumes "slot_move (lc_slots lc ! i) s" "lc_slots lc' = (lc_slots lc)[i := s]"
  shows "lc_moves lc lc'"
proof -
  have "slot_move (lc_slots lc ! j) ((lc_slots lc)[i := s] ! j)" for j
    using assms(1) by (cases "j = i"; cases "i < length (lc_slots lc)") (simp_all add: list_update_beyond)
  with assms(2) show ?thesis by (simp add: lc_moves_def)
qed

lemma lc_moves_set_from:
  "lc_slots lc1 = lc_slots lc \<Longrightarrow> slot_move (lc_slots lc ! i) s \<Longrightarrow> lc_moves lc (set_slot i s lc1)"
  by (rule lc_moves_update) simp_all

lemmas lc_moves_set = lc_moves_set_from [OF refl]

lemma lc_moves_frame [simp]:
  "lc_moves lc (publish_epoch e lc') = lc_moves lc lc'" "lc_moves lc (lc'\<lparr>lc_current := c\<rparr>) = lc_moves lc lc'"
  by (simp_all add: lc_moves_def)

text \<open>Two slots at once: the caller leaves and another slot is dispatched.\<close>

lemma lc_moves_update2:
  assumes "slot_move (lc_slots lc ! i) s" "slot_move (lc_slots lc ! j) t" "i \<noteq> j"
    "lc_slots lc' = (lc_slots lc)[i := s, j := t]"
  shows "lc_moves lc lc'"
proof -
  have "slot_move (lc_slots lc ! k) ((lc_slots lc)[i := s, j := t] ! k)" for k
    using assms(1,2,3)
    by (cases "k = i"; cases "k = j"; cases "i < length (lc_slots lc)"; cases "j < length (lc_slots lc)")
      (simp_all add: list_update_beyond)
  with assms(4) show ?thesis by (simp add: lc_moves_def)
qed

lemma free_slot_facts:
  "position free_slot slots = Some i \<Longrightarrow> i < length slots \<and> free_slot (slots ! i)"
  by (simp add: position_Some_iff)

lemma next_runnable_index_Some:
  assumes "next_runnable_index a lc = Some i" "a < length (lc_slots lc)"
  shows "i < length (lc_slots lc) \<and> ps_occupied (lc_slots lc ! i) \<and> ps_phase (lc_slots lc ! i) = Runnable"
proof -
  have "lc_slots lc \<noteq> []" using assms(2) by auto
  from cyclic_find_Some [OF assms(1) [unfolded next_runnable_index_def] this] show ?thesis by simp
qed

lemma allocate_pid_slots:
  "allocate_pid lc = (p, lc') \<Longrightarrow> lc_slots lc' = lc_slots lc \<and> lc_current lc' = lc_current lc \<and>
    lc_epoch lc' = lc_epoch lc \<and> lc_published_epoch lc' = lc_published_epoch lc"
  by (auto simp: allocate_pid_def split: prod.splits)

lemma allocate_pid_loop_Some:
  "allocate_pid_loop n slots next = (Some pid, next') \<Longrightarrow>
    2 \<le> pid \<and> (\<forall>s \<in> set slots. ps_occupied s \<longrightarrow> ps_pid s \<noteq> pid)"
proof (induction n arbitrary: "next")
  case (Suc n)
  then show ?case by (auto simp: Let_def list_ex_iff split: if_splits)
qed simp

lemma allocate_pid_Some:
  assumes "allocate_pid lc = (Some pid, lc')"
  shows "pid \<noteq> 0 \<and> (\<forall>i < length (lc_slots lc). ps_occupied (lc_slots lc ! i) \<longrightarrow> ps_pid (lc_slots lc ! i) \<noteq> pid)"
proof -
  obtain n where "allocate_pid_loop (MAXIMUM_PROCESSES + 1) (lc_slots lc) (lc_next_pid lc) = (Some pid, n)"
    using assms by (auto simp: allocate_pid_def split: prod.splits)
  from allocate_pid_loop_Some [OF this] show ?thesis by (auto simp: word_le_nat_alt)
qed

subsection \<open>Every operation moves slots along the state machine\<close>

lemma moves_publish: "publish_current h lc = (r, lc') \<Longrightarrow> lc_moves lc lc'"
  by (auto simp: publish_current_def intro: lc_moves_same_slots split: rust_splits)

lemma moves_register:
  assumes "register_init launch lc = (r, lc')"
  shows "lc_moves lc lc'"
  using assms
  by (auto simp: register_init_def Let_def slot_move_def admitted_slot_def INIT_PID_def
      intro!: lc_moves_set dest: free_slot_facts split: rust_splits)

lemma moves_commit:
  assumes "commit_child parent launch lc = (r, lc')"
  shows "lc_moves lc lc'"
proof (cases "\<exists>p lc1 i. allocate_pid lc = (Some p, lc1) \<and> position free_slot (lc_slots lc1) = Some i")
  case True
  then obtain p lc1 i where p: "allocate_pid lc = (Some p, lc1)" and i: "position free_slot (lc_slots lc1) = Some i"
    by blast
  note a = allocate_pid_slots [OF p] and f = free_slot_facts [OF i] and q = allocate_pid_Some [OF p]
  have "ps_generation (lc_slots lc ! i) \<noteq> - 1" using f a by (simp add: free_slot_def)
  then obtain g where g: "checked_add (ps_generation (lc_slots lc ! i)) 1 = Some g"
    by (rule checked_add_one_defined)
  have "slot_move (lc_slots lc ! i) (admitted_slot g p parent launch (lc_epoch lc1))"
    using f a q g by (simp add: slot_move_def admitted_slot_def)
  then have "lc_moves lc (set_slot i (admitted_slot g p parent launch (lc_epoch lc1)) lc1)"
    using a lc_moves_set_from by blast
  moreover have "lc' = lc \<or> lc' = set_slot i (admitted_slot g p parent launch (lc_epoch lc1)) lc1"
    using assms p i a g by (auto simp: commit_child_def split: if_splits option.splits)
  ultimately show ?thesis by auto
next
  case False
  then show ?thesis
    using assms by (auto simp: commit_child_def dest: allocate_pid_slots
        intro!: lc_moves_same_slots split: rust_splits)
qed

text \<open>The two outcomes of a clone: refused with at most the PID counter moved, or a new slot
  and the caller's context.\<close>

lemma clone_refused:
  "clone_current_thread ctx sp fs lc = (Err e, lc') \<Longrightarrow> lc' = lc \<or> (\<exists>p. allocate_pid lc = (p, lc'))"
  by (auto simp: clone_current_thread_def Let_def split: rust_splits)

lemma clone_cloned:
  assumes "clone_current_thread ctx sp fs lc = (Ok x, lc')"
  obtains c p lc1 i g e where "caller_index lc = Ok c" "ps_phase (lc_slots lc ! c) = Running"
    "allocate_pid lc = (Some p, lc1)" "position free_slot (lc_slots lc1) = Some i"
    "checked_add (ps_generation (lc_slots lc1 ! i)) 1 = Some g" "next_scheduler_epoch (lc_epoch lc1) = Ok e"
    "context_validate ctx = Ok ()" "valid_user_address sp" "valid_user_tls_base fs" "i \<noteq> c"
    "x = (\<lparr>ph_pid = p, ph_generation = g\<rparr>, lc_scheduled c (set_syscall_result (uint p) ctx) e lc1)"
    "lc' = publish_epoch e (set_slot c ((lc_slots lc ! c)\<lparr>ps_context := set_syscall_result (uint p) ctx\<rparr>)
      (set_slot i (cloned_slot g p (lc_slots lc ! c)
        ((set_syscall_result 0 ctx)\<lparr>uc_stack_pointer := sp\<rparr>) fs e) lc1))"
proof -
  have v: "valid_user_address sp" "valid_user_tls_base fs" "is_Ok (context_validate ctx)"
    using assms by (auto simp: clone_current_thread_def split: if_splits)
  obtain c where c: "caller_index lc = Ok c" "ps_phase (lc_slots lc ! c) = Running"
      "is_linux (pl_abi (ps_launch (lc_slots lc ! c)))"
    using assms v by (cases "caller_index lc") (auto simp: clone_current_thread_def Let_def split: if_splits)
  obtain p lc1 where p: "allocate_pid lc = (Some p, lc1)"
    using assms v c by (cases "allocate_pid lc"; cases "fst (allocate_pid lc)") (auto simp: clone_current_thread_def)
  note a = allocate_pid_slots [OF p]
  obtain i where i: "position free_slot (lc_slots lc1) = Some i"
    using assms v c p by (cases "position free_slot (lc_slots lc1)") (auto simp: clone_current_thread_def)
  obtain g where g: "checked_add (ps_generation (lc_slots lc1 ! i)) 1 = Some g"
    using assms v c p i by (cases "checked_add (ps_generation (lc_slots lc1 ! i)) 1") (auto simp: clone_current_thread_def)
  obtain e where e: "next_scheduler_epoch (lc_epoch lc1) = Ok e"
    using assms v c p i g by (cases "next_scheduler_epoch (lc_epoch lc1)") (auto simp: clone_current_thread_def)
  have ic: "i \<noteq> c" using caller_index_Ok [OF c(1)] free_slot_facts [OF i] a by (auto simp: free_slot_def)
  show thesis
    by (rule that [OF c(1,2) p i g e _ v(1,2) ic])
      (use assms v c p i g e ic a in
        \<open>auto simp: clone_current_thread_def Let_def is_Ok_def split: if_splits\<close>)
qed

lemma moves_clone:
  assumes "clone_current_thread ctx sp fs lc = (r, lc')"
  shows "lc_moves lc lc'"
proof (cases r)
  case (Ok x)
  from assms [unfolded Ok] show ?thesis
  proof (cases rule: clone_cloned)
    case (1 c p lc1 i g e)
    let ?child = "cloned_slot g p (lc_slots lc ! c) ((set_syscall_result 0 ctx)\<lparr>uc_stack_pointer := sp\<rparr>) fs e"
      and ?parent = "(lc_slots lc ! c)\<lparr>ps_context := set_syscall_result (uint p) ctx\<rparr>"
    note a = allocate_pid_slots [OF 1(3)]
    have "slot_move (lc_slots lc ! i) ?child"
      using free_slot_facts [OF 1(4)] a allocate_pid_Some [OF 1(3)] 1(5) by (simp add: slot_move_def cloned_slot_def)
    moreover have "slot_move (lc_slots lc ! c) ?parent" by (simp add: slot_move_keep)
    moreover have "lc_slots lc' = (lc_slots lc)[i := ?child, c := ?parent]" using 1(12) a by simp
    ultimately show ?thesis using lc_moves_update2 1(10) by blast
  qed
next
  case (Err e)
  then show ?thesis using clone_refused [of ctx sp fs lc e lc'] assms allocate_pid_slots
    by (auto intro!: lc_moves_same_slots)
qed

lemma moves_discard: "discard_runnable_thread h lc = (r, lc') \<Longrightarrow> lc_moves lc lc'"
  by (auto simp: discard_runnable_thread_def Let_def dest!: slot_by_handle_Some
      intro!: lc_moves_set split: rust_splits)

lemma moves_mark_running: "mark_running h lc = (r, lc') \<Longrightarrow> lc_moves lc lc'"
  by (auto simp: mark_running_def Let_def slot_move_keep intro!: lc_moves_set split: rust_splits)

lemma moves_resume: "resume_current ctx lc = (r, lc') \<Longrightarrow> lc_moves lc lc'"
  by (auto simp: resume_current_def Let_def slot_move_keep intro!: lc_moves_set split: rust_splits)

lemma moves_replace: "replace_current_image root entry sp m lc = (r, lc') \<Longrightarrow> lc_moves lc lc'"
  by (auto simp: replace_current_image_def Let_def slot_move_keep intro!: lc_moves_set split: rust_splits)

lemma moves_fs_base: "set_current_fs_base fs lc = (r, lc') \<Longrightarrow> lc_moves lc lc'"
  by (auto simp: set_current_fs_base_def slot_move_keep intro!: lc_moves_set split: rust_splits)

lemma moves_mark_runnable: "mark_runnable h lc = (r, lc') \<Longrightarrow> lc_moves lc lc'"
  by (auto simp: mark_runnable_def slot_move_def intro!: lc_moves_set split: rust_splits)

lemma moves_mark_blocked: "mark_blocked h lc = (r, lc') \<Longrightarrow> lc_moves lc lc'"
  by (auto simp: mark_blocked_def slot_move_def intro!: lc_moves_set split: rust_splits)

lemma moves_reap: "reap_child p h lc = (r, lc') \<Longrightarrow> lc_moves lc lc'"
  by (auto simp: reap_child_def Let_def dest!: slot_by_handle_Some intro!: lc_moves_set split: rust_splits)

subsection \<open>Scheduling decisions\<close>

lemma switch_refused: "switch_from c saved lc = (Err e, lc') \<Longrightarrow> lc' = lc"
  by (auto simp: switch_from_def Let_def split: rust_splits)

lemma switch_switched:
  assumes "switch_from c saved lc = (Ok s, lc')"
  obtains t e where "t = (case next_runnable_index c lc of None \<Rightarrow> c | Some t \<Rightarrow> t)"
    "next_scheduler_epoch (lc_epoch lc) = Ok e"
    "s = lc_scheduled t (if t = c then saved else ps_context (lc_slots lc ! t)) e lc"
    "dispatch_validate (sp_context s) = Ok ()"
    "lc_slots lc' = (lc_slots lc)[c := (lc_slots lc ! c)\<lparr>ps_context := saved, ps_phase := Runnable\<rparr>,
       t := ((lc_slots lc)[c := (lc_slots lc ! c)\<lparr>ps_context := saved, ps_phase := Runnable\<rparr>] ! t)\<lparr>ps_phase := Running\<rparr>]"
    "lc_current lc' = handle_encode (slot_handle (lc_slots lc ! t))" "lc_epoch lc' = e" "lc_published_epoch lc' = e"
    "lc_next_pid lc' = lc_next_pid lc"
proof -
  obtain e where e: "next_scheduler_epoch (lc_epoch lc) = Ok e"
    using assms by (cases "next_scheduler_epoch (lc_epoch lc)") (auto simp: switch_from_def)
  show thesis
    by (rule that [OF refl e])
      (use assms e in \<open>auto simp: switch_from_def Let_def is_Ok_def publish_epoch_def split: if_splits\<close>)
qed

lemma settle_simps:
  "settle e None lc = (DecisionPid0 (pid0_authority e), publish_epoch e lc\<lparr>lc_current := PID0_IDENTITY\<rparr>)"
  "settle e (Some (i, s)) lc = (DecisionUser s, publish_epoch e
     (set_slot i ((lc_slots lc ! i)\<lparr>ps_phase := Running\<rparr>) lc)\<lparr>lc_current := handle_encode (sp_handle s)\<rparr>)"
  by (simp_all add: settle_def)

text \<open>The endings of the operations by which the caller leaves the processor: \<open>pick\<close> chose
  the successor in the old state, \<open>lc1\<close> is the state without the caller.\<close>

definition leaves :: "nat option \<Rightarrow> lifecycle \<Rightarrow> lifecycle \<Rightarrow> schedule_decision \<Rightarrow> lifecycle \<Rightarrow> bool" where
  "leaves pick lc lc1 d lc' \<longleftrightarrow>
     (\<exists>e. next_scheduler_epoch (lc_epoch lc) = Ok e \<and>
       \<not> target_invalid (with_dispatch e lc pick) \<and>
       (d, lc') = settle e (with_dispatch e lc pick) lc1)"

lemma leave_refused: "leave_cpu leave c lc = (Err e, lc') \<Longrightarrow> lc' = lc"
  by (auto simp: leave_cpu_def Let_def split: rust_splits)

lemma leave_left:
  assumes "leave_cpu leave c lc = (Ok d, lc')"
  shows "\<exists>e. next_scheduler_epoch (lc_epoch lc) = Ok e \<and>
    leaves (next_runnable_index c lc) lc (set_slot c (leave (lc_slots lc ! c) e) lc) d lc'"
  using assms by (auto simp: leave_cpu_def leaves_def Let_def split: rust_splits)

lemma leaves_cases:
  assumes "leaves pick lc lc1 d lc'"
  obtains (idle) e where "pick = None" "next_scheduler_epoch (lc_epoch lc) = Ok e"
      "d = DecisionPid0 (pid0_authority e)" "lc' = publish_epoch e lc1\<lparr>lc_current := PID0_IDENTITY\<rparr>"
  | (dispatched) t e s where "pick = Some t" "next_scheduler_epoch (lc_epoch lc) = Ok e"
      "s = lc_scheduled t (ps_context (lc_slots lc ! t)) e lc" "dispatch_validate (sp_context s) = Ok ()"
      "d = DecisionUser s"
      "lc' = publish_epoch e (set_slot t ((lc_slots lc1 ! t)\<lparr>ps_phase := Running\<rparr>) lc1)
        \<lparr>lc_current := handle_encode (slot_handle (lc_slots lc ! t))\<rparr>"
proof (cases pick)
  case None
  with assms idle show thesis by (auto simp: leaves_def with_dispatch_def settle_simps)
next
  case (Some t)
  from assms obtain e where e: "next_scheduler_epoch (lc_epoch lc) = Ok e"
      "\<not> target_invalid (with_dispatch e lc pick)" "(d, lc') = settle e (with_dispatch e lc pick) lc1"
    by (auto simp: leaves_def)
  show thesis
    by (rule dispatched [OF Some e(1) refl])
      (use e Some in \<open>auto simp: with_dispatch_def settle_simps target_invalid_def is_Ok_def\<close>)
qed

lemma moves_switch:
  assumes "switch_from c saved lc = (r, lc')" "c < length (lc_slots lc)" "ps_phase (lc_slots lc ! c) = Running"
  shows "lc_moves lc lc'"
proof (cases r)
  case (Ok s)
  from assms(1) [unfolded Ok] show ?thesis
  proof (cases rule: switch_switched)
    case (1 t e)
    show ?thesis
    proof (cases "t = c")
      case True
      have "slot_move (lc_slots lc ! c) ((lc_slots lc ! c)\<lparr>ps_context := saved, ps_phase := Runnable, ps_phase := Running\<rparr>)"
        using assms(3) by (simp add: slot_move_keep)
      with 1(5) True assms(2) show ?thesis by (intro lc_moves_update) auto
    next
      case False
      then have t: "ps_phase (lc_slots lc ! t) = Runnable"
        using 1(1) next_runnable_index_Some [OF _ assms(2)] by (auto split: option.splits)
      have "slot_move (lc_slots lc ! c) ((lc_slots lc ! c)\<lparr>ps_context := saved, ps_phase := Runnable\<rparr>)"
        "slot_move (lc_slots lc ! t) ((lc_slots lc ! t)\<lparr>ps_phase := Running\<rparr>)"
        using assms(3) t by (simp_all add: slot_move_keep)
      moreover have "lc_slots lc' = (lc_slots lc)[c := (lc_slots lc ! c)\<lparr>ps_context := saved, ps_phase := Runnable\<rparr>,
          t := (lc_slots lc ! t)\<lparr>ps_phase := Running\<rparr>]" using 1(5) False by simp
      ultimately show ?thesis using lc_moves_update2 False by metis
    qed
  qed
next
  case (Err e)
  with assms show ?thesis by (auto dest: switch_refused)
qed

lemma moves_leave:
  assumes "leave_cpu leave c lc = (r, lc')" "c < length (lc_slots lc)" "ps_phase (lc_slots lc ! c) = Running"
    "\<And>e. slot_move (lc_slots lc ! c) (leave (lc_slots lc ! c) e)"
  shows "lc_moves lc lc'"
proof (cases r)
  case (Ok d)
  from leave_left [OF assms(1) [unfolded Ok]] obtain e where
    l: "leaves (next_runnable_index c lc) lc (set_slot c (leave (lc_slots lc ! c) e) lc) d lc'" by blast
  from l show ?thesis
  proof (cases rule: leaves_cases)
    case (idle e')
    then show ?thesis using lc_moves_set [OF assms(4)] by simp
  next
    case (dispatched t e' s)
    have t: "ps_phase (lc_slots lc ! t) = Runnable" and tc: "c \<noteq> t"
      using next_runnable_index_Some [OF dispatched(1) assms(2)] assms(3) by auto
    have "slot_move (lc_slots lc ! t) ((lc_slots lc ! t)\<lparr>ps_phase := Running\<rparr>)"
      using t by (simp add: slot_move_keep)
    moreover have "lc_slots lc' = (lc_slots lc)[c := leave (lc_slots lc ! c) e, t := (lc_slots lc ! t)\<lparr>ps_phase := Running\<rparr>]"
      using dispatched(6) tc by simp
    ultimately show ?thesis using lc_moves_update2 [OF assms(4) _ tc] by metis
  qed
next
  case (Err e)
  with assms show ?thesis by (auto dest: leave_refused)
qed

lemma moves_yield: "schedule_yield saved lc = (r, lc') \<Longrightarrow> lc_moves lc lc'"
  by (auto simp: schedule_yield_def Let_def dest!: caller_index_Ok intro: moves_switch split: rust_splits)

lemma moves_preempt: "schedule_preempt saved a lc = (r, lc') \<Longrightarrow> lc_moves lc lc'"
  by (auto simp: schedule_preempt_def dest!: slot_by_handle_Some intro: moves_switch split: rust_splits)

lemma moves_block: "schedule_block saved lc = (r, lc') \<Longrightarrow> lc_moves lc lc'"
  by (auto simp: schedule_block_def slot_move_keep dest!: caller_index_Ok
      intro!: moves_leave split: rust_splits)

lemma moves_exit: "schedule_exit code lc = (r, lc') \<Longrightarrow> lc_moves lc lc'"
  by (auto simp: schedule_exit_def slot_move_keep dest!: caller_index_Ok
      intro!: moves_leave split: rust_splits)

lemma moves_thread_exit: "schedule_thread_exit lc = (r, lc') \<Longrightarrow> lc_moves lc lc'"
  by (auto simp: schedule_thread_exit_def dest!: caller_index_Ok intro!: moves_leave split: rust_splits)

lemma length_exit_members [simp]: "length (exit_members grp l code e slots) = length slots"
  by (simp add: exit_members_def)

lemma nth_exit_members:
  "i < length slots \<Longrightarrow> exit_members grp l code e slots ! i = exit_member grp l code e i (slots ! i)"
  by (simp add: exit_members_def)

lemma exit_member_move:
  assumes "ps_occupied s \<Longrightarrow> ps_phase s \<noteq> Free \<and> ps_phase s \<noteq> Installing"
  shows "slot_move s (exit_member grp l code e i s)"
  using assms by (cases "ps_phase s") (auto simp: exit_member_def slot_move_keep)

lemma exit_group_refused: "schedule_exit_group code lc = (Err e, lc') \<Longrightarrow> lc' = lc"
  by (auto simp: schedule_exit_group_def Let_def split: rust_splits)

lemma exit_group_left:
  assumes "schedule_exit_group code lc = (Ok d, lc')"
  obtains c l e where "caller_index lc = Ok c" "ps_phase (lc_slots lc ! c) = Running"
    "group_leader (ps_thread_group (lc_slots lc ! c)) lc = Some l" "next_scheduler_epoch (lc_epoch lc) = Ok e"
    "leaves (cyclic_find (\<lambda>slot. ps_occupied slot \<and> ps_phase slot = Runnable
        \<and> ps_thread_group slot \<noteq> ps_thread_group (lc_slots lc ! c)) c (lc_slots lc)) lc
      (lc\<lparr>lc_slots := exit_members (ps_thread_group (lc_slots lc ! c)) l code e (lc_slots lc)\<rparr>) d lc'"
proof -
  obtain c where c: "caller_index lc = Ok c" "ps_phase (lc_slots lc ! c) = Running"
    using assms by (cases "caller_index lc") (auto simp: schedule_exit_group_def Let_def split: if_splits)
  obtain l where l: "group_leader (ps_thread_group (lc_slots lc ! c)) lc = Some l"
    using assms c by (cases "group_leader (ps_thread_group (lc_slots lc ! c)) lc")
      (auto simp: schedule_exit_group_def)
  obtain e where e: "next_scheduler_epoch (lc_epoch lc) = Ok e"
    using assms c l by (cases "next_scheduler_epoch (lc_epoch lc)") (auto simp: schedule_exit_group_def)
  show thesis
    by (rule that [OF c l e]) (use assms c l e in \<open>auto simp: schedule_exit_group_def leaves_def Let_def
        split: if_splits prod.splits\<close>)
qed

lemma from_pid0_refused: "schedule_from_pid0 a lc = (Err e, lc') \<Longrightarrow> lc' = lc"
  by (auto simp: schedule_from_pid0_def Let_def split: rust_splits)

lemma from_pid0_left:
  assumes "schedule_from_pid0 a lc = (Ok d, lc')"
  shows "leaves (position (\<lambda>slot. ps_occupied slot \<and> ps_phase slot = Runnable) (lc_slots lc)) lc lc d lc' \<and>
    lc_current lc = PID0_IDENTITY \<and> \<not> list_ex (\<lambda>slot. ps_occupied slot \<and> ps_phase slot = Running) (lc_slots lc)"
  using assms by (auto simp: schedule_from_pid0_def validate_pid0_authority_def leaves_def Let_def split: rust_splits)

lemma moves_from_pid0:
  assumes "schedule_from_pid0 a lc = (r, lc')"
  shows "lc_moves lc lc'"
proof (cases r)
  case (Ok d)
  from from_pid0_left [OF assms [unfolded Ok]]
  have "leaves (position (\<lambda>slot. ps_occupied slot \<and> ps_phase slot = Runnable) (lc_slots lc)) lc lc d lc'" by simp
  then show ?thesis
    by (cases rule: leaves_cases) (auto simp: position_Some_iff slot_move_keep intro!: lc_moves_set)
next
  case (Err e)
  with assms show ?thesis by (auto dest: from_pid0_refused)
qed

section \<open>The invariant\<close>

definition slot_ok :: "process_slot \<Rightarrow> bool" where
  "slot_ok s \<longleftrightarrow> ps_generation s \<noteq> 0 \<and>
     (if ps_occupied s
      then ps_pid s \<noteq> 0 \<and> ps_phase s \<noteq> Free \<and> ps_phase s \<noteq> Installing \<and> launch_validate (ps_launch s) \<and>
        context_validate (ps_context s) = Ok () \<and> valid_user_tls_base (ps_fs_base s)
      else ps_phase s = Free)"

definition lc_inv :: "lifecycle \<Rightarrow> bool" where
  "lc_inv lc \<longleftrightarrow> length (lc_slots lc) = MAXIMUM_PROCESSES \<and>
     (\<forall>i < MAXIMUM_PROCESSES. slot_ok (lc_slots lc ! i)) \<and>
     (\<forall>i < MAXIMUM_PROCESSES. \<forall>j < MAXIMUM_PROCESSES. ps_occupied (lc_slots lc ! i) \<longrightarrow>
        ps_occupied (lc_slots lc ! j) \<longrightarrow> ps_pid (lc_slots lc ! i) = ps_pid (lc_slots lc ! j) \<longrightarrow> i = j) \<and>
     (\<forall>i < MAXIMUM_PROCESSES. ps_phase (lc_slots lc ! i) = Running \<longrightarrow>
        lc_current lc = handle_encode (slot_handle (lc_slots lc ! i))) \<and>
     lc_published_epoch lc = lc_epoch lc"

definition no_running :: "lifecycle \<Rightarrow> bool" where
  "no_running lc \<longleftrightarrow> (\<forall>i < MAXIMUM_PROCESSES. ps_phase (lc_slots lc ! i) \<noteq> Running)"

lemma lc_inv_length: "lc_inv lc \<Longrightarrow> length (lc_slots lc) = MAXIMUM_PROCESSES"
  by (simp add: lc_inv_def)

lemma lc_inv_slot: "lc_inv lc \<Longrightarrow> i < MAXIMUM_PROCESSES \<Longrightarrow> slot_ok (lc_slots lc ! i)"
  by (simp add: lc_inv_def)

lemma lc_inv_pid_unique:
  "lc_inv lc \<Longrightarrow> i < MAXIMUM_PROCESSES \<Longrightarrow> j < MAXIMUM_PROCESSES \<Longrightarrow> ps_occupied (lc_slots lc ! i) \<Longrightarrow>
    ps_occupied (lc_slots lc ! j) \<Longrightarrow> ps_pid (lc_slots lc ! i) = ps_pid (lc_slots lc ! j) \<Longrightarrow> i = j"
  by (simp add: lc_inv_def)

lemma lc_inv_running:
  "lc_inv lc \<Longrightarrow> i < MAXIMUM_PROCESSES \<Longrightarrow> ps_phase (lc_slots lc ! i) = Running \<Longrightarrow>
    ps_occupied (lc_slots lc ! i) \<and> lc_current lc = handle_encode (slot_handle (lc_slots lc ! i))"
  using lc_inv_slot [of lc i] by (auto simp: lc_inv_def slot_ok_def split: if_splits)

lemma running_unique:
  assumes "lc_inv lc" "i < MAXIMUM_PROCESSES" "j < MAXIMUM_PROCESSES"
    "ps_phase (lc_slots lc ! i) = Running" "ps_phase (lc_slots lc ! j) = Running"
  shows "i = j"
proof -
  from lc_inv_running [OF assms(1,2,4)] lc_inv_running [OF assms(1,3,5)]
  have "slot_handle (lc_slots lc ! i) = slot_handle (lc_slots lc ! j)" "ps_occupied (lc_slots lc ! i)"
      "ps_occupied (lc_slots lc ! j)"
    using handle_encode_inject by metis+
  then show ?thesis using lc_inv_pid_unique [OF assms(1,2,3)] by (simp add: slot_handle_def)
qed

lemma lc_invI:
  assumes "length (lc_slots lc) = MAXIMUM_PROCESSES" "\<And>i. i < MAXIMUM_PROCESSES \<Longrightarrow> slot_ok (lc_slots lc ! i)"
    "\<And>i j. i < MAXIMUM_PROCESSES \<Longrightarrow> j < MAXIMUM_PROCESSES \<Longrightarrow> ps_occupied (lc_slots lc ! i) \<Longrightarrow>
      ps_occupied (lc_slots lc ! j) \<Longrightarrow> ps_pid (lc_slots lc ! i) = ps_pid (lc_slots lc ! j) \<Longrightarrow> i = j"
    "\<And>i. i < MAXIMUM_PROCESSES \<Longrightarrow> ps_phase (lc_slots lc ! i) = Running \<Longrightarrow>
      lc_current lc = handle_encode (slot_handle (lc_slots lc ! i))"
    "lc_published_epoch lc = lc_epoch lc"
  shows "lc_inv lc"
  using assms unfolding lc_inv_def by blast

lemma retired_slot_simps [simp]:
  "ps_occupied (retired_slot s) = False" "ps_phase (retired_slot s) = Free" "ps_generation (retired_slot s) \<noteq> 0"
  by (auto simp: retired_slot_def PROCESS_EMPTY_def dest: checked_add_one_nonzero split: option.splits)

lemma slot_ok_retired [simp]: "slot_ok (retired_slot s)"
  by (simp add: slot_ok_def)

lemma lc_inv_publish: "lc_inv lc \<Longrightarrow> lc_inv (publish_epoch e lc)"
  by (simp add: lc_inv_def)

lemma lc_inv_same:
  "lc_inv lc \<Longrightarrow> lc_slots lc' = lc_slots lc \<Longrightarrow> lc_current lc' = lc_current lc \<Longrightarrow>
    lc_published_epoch lc' = lc_epoch lc' \<Longrightarrow> lc_inv lc'"
  by (simp add: lc_inv_def)

text \<open>Replacing one slot.\<close>

lemma lc_inv_set:
  assumes inv: "lc_inv lc" and i: "i < MAXIMUM_PROCESSES" and s: "slot_ok s"
      "ps_phase s = Running \<Longrightarrow> lc_current lc = handle_encode (slot_handle s)"
    and fresh: "\<And>j. j < MAXIMUM_PROCESSES \<Longrightarrow> j \<noteq> i \<Longrightarrow> ps_occupied s \<Longrightarrow> ps_occupied (lc_slots lc ! j) \<Longrightarrow>
      ps_pid (lc_slots lc ! j) \<noteq> ps_pid s"
  shows "lc_inv (set_slot i s lc)"
proof (rule lc_invI)
  note len = lc_inv_length [OF inv]
  show "length (lc_slots (set_slot i s lc)) = MAXIMUM_PROCESSES" using len by simp
  show "slot_ok (lc_slots (set_slot i s lc) ! k)" if "k < MAXIMUM_PROCESSES" for k
    using that i len s lc_inv_slot [OF inv that] by (simp add: nth_list_update)
  show "k = l" if "k < MAXIMUM_PROCESSES" "l < MAXIMUM_PROCESSES" "ps_occupied (lc_slots (set_slot i s lc) ! k)"
      "ps_occupied (lc_slots (set_slot i s lc) ! l)"
      "ps_pid (lc_slots (set_slot i s lc) ! k) = ps_pid (lc_slots (set_slot i s lc) ! l)" for k l
    using that i len fresh [of k] fresh [of l] lc_inv_pid_unique [OF inv that(1,2)]
    by (auto simp: nth_list_update split: if_splits)
  show "lc_current (set_slot i s lc) = handle_encode (slot_handle (lc_slots (set_slot i s lc) ! k))"
    if "k < MAXIMUM_PROCESSES" "ps_phase (lc_slots (set_slot i s lc) ! k) = Running" for k
    using that i len s lc_inv_running [OF inv that(1)] by (auto simp: nth_list_update split: if_splits)
  show "lc_published_epoch (set_slot i s lc) = lc_epoch (set_slot i s lc)" using inv by (simp add: lc_inv_def)
qed

text \<open>Rewriting a slot that keeps its process.\<close>

lemma lc_inv_keep:
  assumes "lc_inv lc" "i < MAXIMUM_PROCESSES" "slot_ok s" "ps_occupied s = ps_occupied (lc_slots lc ! i)"
    "slot_handle s = slot_handle (lc_slots lc ! i)" "ps_phase s = Running \<Longrightarrow> ps_phase (lc_slots lc ! i) = Running"
  shows "lc_inv (set_slot i s lc)"
proof (rule lc_inv_set [OF assms(1,2,3)])
  show "lc_current lc = handle_encode (slot_handle s)" if "ps_phase s = Running"
    using lc_inv_running [OF assms(1,2)] assms(5,6) that by simp
  show "ps_pid (lc_slots lc ! j) \<noteq> ps_pid s"
    if "j < MAXIMUM_PROCESSES" "j \<noteq> i" "ps_occupied s" "ps_occupied (lc_slots lc ! j)" for j
    using lc_inv_pid_unique [OF assms(1) that(1) assms(2)] that assms(4,5) by (auto simp: slot_handle_def)
qed

lemma lc_inv_retire:
  "lc_inv lc \<Longrightarrow> i < MAXIMUM_PROCESSES \<Longrightarrow> lc_inv (set_slot i (retired_slot s) lc)"
  by (rule lc_inv_set) simp_all

text \<open>With nobody running, any identity may be current, and a runnable slot may be
  dispatched.\<close>

lemma lc_inv_current: "lc_inv lc \<Longrightarrow> no_running lc \<Longrightarrow> lc_inv (lc\<lparr>lc_current := c\<rparr>)"
  by (simp add: lc_inv_def no_running_def)

lemma lc_inv_dispatch:
  assumes "lc_inv lc" "no_running lc" "i < MAXIMUM_PROCESSES" "ps_occupied (lc_slots lc ! i)"
  shows "lc_inv (set_slot i ((lc_slots lc ! i)\<lparr>ps_phase := Running\<rparr>) lc
    \<lparr>lc_current := handle_encode (slot_handle (lc_slots lc ! i))\<rparr>)"
proof -
  let ?lc = "lc\<lparr>lc_current := handle_encode (slot_handle (lc_slots lc ! i))\<rparr>"
  have inv: "lc_inv ?lc" using lc_inv_current [OF assms(1,2)] .
  have "lc_inv (set_slot i ((lc_slots lc ! i)\<lparr>ps_phase := Running\<rparr>) ?lc)"
  proof (rule lc_inv_set [OF inv assms(3)])
    show "slot_ok ((lc_slots lc ! i)\<lparr>ps_phase := Running\<rparr>)"
      using lc_inv_slot [OF assms(1,3)] assms(4) by (simp add: slot_ok_def)
    show "ps_pid (lc_slots ?lc ! j) \<noteq> ps_pid ((lc_slots lc ! i)\<lparr>ps_phase := Running\<rparr>)"
      if "j < MAXIMUM_PROCESSES" "j \<noteq> i" "ps_occupied (lc_slots ?lc ! j)" for j
      using lc_inv_pid_unique [OF assms(1) that(1) assms(3)] that assms(4) by auto
  qed simp
  then show ?thesis by (rule lc_inv_same) (use assms(1) in \<open>simp_all add: lc_inv_def\<close>)
qed

text \<open>Taking the caller off the processor leaves nobody running.\<close>

lemma no_running_after:
  assumes "lc_inv lc" "c < MAXIMUM_PROCESSES" "ps_phase (lc_slots lc ! c) = Running" "ps_phase s \<noteq> Running"
  shows "no_running (set_slot c s lc)"
  using running_unique [OF assms(1) _ assms(2) _ assms(3)] assms(2,4) lc_inv_length [OF assms(1)]
  by (auto simp: no_running_def nth_list_update)

lemma lc_inv_new: "lc_inv lifecycle_new"
  by (simp add: lc_inv_def lifecycle_new_def PROCESS_EMPTY_def slot_ok_def)

lemma launch_slot_ok:
  "launch_validate l \<Longrightarrow> g \<noteq> 0 \<Longrightarrow> p \<noteq> 0 \<Longrightarrow> slot_ok (admitted_slot g p parent l w)"
  by (simp add: slot_ok_def admitted_slot_def launch_validate_def context_validate_initial
      valid_user_tls_base_def USER_ADDRESS_LIMIT_def)

lemma lc_inv_register: "lc_inv lc \<Longrightarrow> register_init l lc = (r, lc') \<Longrightarrow> lc_inv lc'"
proof (cases r)
  case (Ok h)
  assume inv: "lc_inv lc" and reg: "register_init l lc = (r, lc')"
  from reg Ok obtain i where v: "launch_validate l" and n: "slot_by_pid INIT_PID lc = None"
    and i: "position free_slot (lc_slots lc) = Some i"
    and lc': "lc' = set_slot i (admitted_slot (ps_generation (lc_slots lc ! i)) INIT_PID NO_PID l 0) lc"
    by (auto simp: register_init_def Let_def split: rust_splits)
  note f = free_slot_facts [OF i] and len = lc_inv_length [OF inv]
  show ?thesis unfolding lc'
  proof (rule lc_inv_set [OF inv])
    show "i < MAXIMUM_PROCESSES" using f len by simp
    then show "slot_ok (admitted_slot (ps_generation (lc_slots lc ! i)) INIT_PID NO_PID l 0)"
      using lc_inv_slot [OF inv] v by (intro launch_slot_ok) (simp_all add: slot_ok_def INIT_PID_def)
    show "ps_pid (lc_slots lc ! j) \<noteq> ps_pid (admitted_slot (ps_generation (lc_slots lc ! i)) INIT_PID NO_PID l 0)"
      if "j < MAXIMUM_PROCESSES" "ps_occupied (lc_slots lc ! j)" for j
      using n that len by (auto simp: slot_by_pid_def position_None_iff admitted_slot_def)
  qed (simp add: admitted_slot_def)
next
  case (Err e)
  assume "lc_inv lc" "register_init l lc = (r, lc')"
  with Err show ?thesis by (auto simp: register_init_def Let_def split: rust_splits)
qed

lemma free_slot_generation:
  "position free_slot slots = Some i \<Longrightarrow> checked_add (ps_generation (slots ! i)) 1 \<noteq> None"
  using free_slot_facts [of slots i] checked_add_one_defined by (metis free_slot_def option.distinct(1))

lemma commit_refused:
  "commit_child parent l lc = (Err e, lc') \<Longrightarrow> lc' = lc \<or> (\<exists>p. allocate_pid lc = (p, lc'))"
  by (auto simp: commit_child_def dest: free_slot_generation split: rust_splits)

lemma commit_committed:
  assumes "commit_child parent l lc = (Ok h, lc')"
  obtains p lc1 i g where "launch_validate l" "allocate_pid lc = (Some p, lc1)"
    "position free_slot (lc_slots lc1) = Some i" "checked_add (ps_generation (lc_slots lc1 ! i)) 1 = Some g"
    "h = \<lparr>ph_pid = p, ph_generation = g\<rparr>" "lc' = set_slot i (admitted_slot g p parent l (lc_epoch lc1)) lc1"
  using assms by (auto simp: commit_child_def split: rust_splits)

lemma lc_inv_admit:
  assumes "lc_inv lc" "allocate_pid lc = (Some p, lc1)" "position free_slot (lc_slots lc1) = Some i"
    "slot_ok s" "ps_pid s = p" "ps_phase s = Runnable"
  shows "lc_inv (set_slot i s lc1)"
proof (rule lc_inv_set)
  note a = allocate_pid_slots [OF assms(2)]
  show "lc_inv lc1" using lc_inv_same [OF assms(1)] a assms(1) by (simp add: lc_inv_def)
  show "i < MAXIMUM_PROCESSES" using free_slot_facts [OF assms(3)] lc_inv_length [OF assms(1)] a by simp
  show "ps_pid (lc_slots lc1 ! j) \<noteq> ps_pid s" if "j < MAXIMUM_PROCESSES" "ps_occupied (lc_slots lc1 ! j)" for j
    using allocate_pid_Some [OF assms(2)] that a lc_inv_length [OF assms(1)] assms(5) by simp
qed (simp_all add: assms(4,6))

lemma lc_inv_allocate: "lc_inv lc \<Longrightarrow> allocate_pid lc = (p, lc') \<Longrightarrow> lc_inv lc'"
  using allocate_pid_slots [of lc p lc'] by (auto intro: lc_inv_same simp: lc_inv_def)

lemma lc_inv_commit:
  assumes "lc_inv lc" "commit_child parent l lc = (r, lc')"
  shows "lc_inv lc'"
proof (cases r)
  case (Ok h)
  from assms(2) [unfolded Ok] show ?thesis
  proof (cases rule: commit_committed)
    case (1 p lc1 i g)
    have "slot_ok (admitted_slot g p parent l (lc_epoch lc1))"
      using 1(1) checked_add_one_nonzero [OF 1(4)] allocate_pid_Some [OF 1(2)] by (intro launch_slot_ok) auto
    then show ?thesis unfolding 1(6)
      by (rule lc_inv_admit [OF assms(1) 1(2,3)]) (simp_all add: admitted_slot_def)
  qed
next
  case (Err e)
  with assms commit_refused [of parent l lc e lc'] lc_inv_allocate [OF assms(1)] show ?thesis by auto
qed

lemma caller_in_table:
  assumes "lc_inv lc" "caller_index lc = Ok c"
  shows "c < MAXIMUM_PROCESSES" "slot_ok (lc_slots lc ! c)" "ps_occupied (lc_slots lc ! c)"
  using caller_index_Ok [OF assms(2)] lc_inv_length [OF assms(1)] lc_inv_slot [OF assms(1), of c] by auto

lemma named_in_table:
  assumes "lc_inv lc" "slot_by_handle h lc = Some i"
  shows "i < MAXIMUM_PROCESSES" "slot_ok (lc_slots lc ! i)" "ps_occupied (lc_slots lc ! i)"
  using slot_by_handle_Some [OF assms(2)] lc_inv_length [OF assms(1)] lc_inv_slot [OF assms(1), of i] by auto

lemma slot_ok_updates:
  "slot_ok s \<Longrightarrow> context_validate c = Ok () \<Longrightarrow> slot_ok (s\<lparr>ps_context := c\<rparr>)"
  "slot_ok s \<Longrightarrow> ps_occupied s \<Longrightarrow> p \<noteq> Free \<Longrightarrow> p \<noteq> Installing \<Longrightarrow> slot_ok (s\<lparr>ps_phase := p\<rparr>)"
  "slot_ok s \<Longrightarrow> valid_user_tls_base f \<Longrightarrow> slot_ok (s\<lparr>ps_fs_base := f\<rparr>)"
  "slot_ok s \<Longrightarrow> slot_ok (s\<lparr>ps_exit_code := x\<rparr>)" "slot_ok s \<Longrightarrow> slot_ok (s\<lparr>ps_wait_sequence := e\<rparr>)"
  "slot_ok s \<Longrightarrow> launch_validate l \<Longrightarrow> slot_ok (s\<lparr>ps_launch := l\<rparr>)"
  by (simp_all add: slot_ok_def)

lemma is_Ok_unit: "is_Ok (r :: (unit, 'e) result) \<longleftrightarrow> r = Ok ()"
  by (cases r) simp_all

lemma lc_inv_clone:
  assumes "lc_inv lc" "clone_current_thread ctx sp fs lc = (r, lc')"
  shows "lc_inv lc'"
proof (cases r)
  case (Ok x)
  from assms(2) [unfolded Ok] show ?thesis
  proof (cases rule: clone_cloned)
    case (1 c p lc1 i g e)
    note a = allocate_pid_slots [OF 1(3)] and cc = caller_in_table [OF assms(1) 1(1)]
    let ?child = "cloned_slot g p (lc_slots lc ! c) ((set_syscall_result 0 ctx)\<lparr>uc_stack_pointer := sp\<rparr>) fs e"
    have "slot_ok ?child"
      using cc(2,3) 1(7,8,9) checked_add_one_nonzero [OF 1(5)] allocate_pid_Some [OF 1(3)]
      by (simp add: slot_ok_def cloned_slot_def context_validate_stack)
    then have inv: "lc_inv (set_slot i ?child lc1)"
      by (rule lc_inv_admit [OF assms(1) 1(3,4)]) (simp_all add: cloned_slot_def)
    have "lc_inv (set_slot c ((lc_slots lc ! c)\<lparr>ps_context := set_syscall_result (uint p) ctx\<rparr>) (set_slot i ?child lc1))"
      using cc 1(7,10) a by (intro lc_inv_keep [OF inv]) (simp_all add: slot_ok_updates)
    then show ?thesis unfolding 1(12) by (rule lc_inv_publish)
  qed
next
  case (Err e)
  with assms clone_refused [of ctx sp fs lc e lc'] lc_inv_allocate [OF assms(1)] show ?thesis by auto
qed

lemma lc_inv_discard: "lc_inv lc \<Longrightarrow> discard_runnable_thread h lc = (r, lc') \<Longrightarrow> lc_inv lc'"
  by (auto simp: discard_runnable_thread_def Let_def dest: named_in_table intro!: lc_inv_retire split: rust_splits)

lemma lc_inv_reap: "lc_inv lc \<Longrightarrow> reap_child p h lc = (r, lc') \<Longrightarrow> lc_inv lc'"
  by (auto simp: reap_child_def Let_def dest: named_in_table intro!: lc_inv_retire split: rust_splits)

lemma lc_inv_resume: "lc_inv lc \<Longrightarrow> resume_current ctx lc = (r, lc') \<Longrightarrow> lc_inv lc'"
  by (auto simp: resume_current_def Let_def is_Ok_unit dest: caller_in_table
      intro!: lc_inv_publish lc_inv_keep slot_ok_updates split: rust_splits)

lemma lc_inv_fs_base: "lc_inv lc \<Longrightarrow> set_current_fs_base fs lc = (r, lc') \<Longrightarrow> lc_inv lc'"
  by (auto simp: set_current_fs_base_def dest: caller_in_table
      intro!: lc_inv_keep slot_ok_updates split: rust_splits)

lemma lc_inv_mark_runnable: "lc_inv lc \<Longrightarrow> mark_runnable h lc = (r, lc') \<Longrightarrow> lc_inv lc'"
  by (auto simp: mark_runnable_def dest: named_in_table intro!: lc_inv_keep slot_ok_updates split: rust_splits)

lemma lc_inv_mark_blocked: "lc_inv lc \<Longrightarrow> mark_blocked h lc = (r, lc') \<Longrightarrow> lc_inv lc'"
  by (auto simp: mark_blocked_def dest: named_in_table intro!: lc_inv_keep slot_ok_updates split: rust_splits)

lemma replacement_index_Ok:
  "current_replacement_index h lc = Ok i \<Longrightarrow> slot_by_handle h lc = Some i \<and> ps_phase (lc_slots lc ! i) = Running"
  by (auto simp: current_replacement_index_def Let_def split: rust_splits)

lemma lc_inv_replace:
  assumes "lc_inv lc" "replace_current_image root entry sp m lc = (r, lc')"
  shows "lc_inv lc'"
proof (cases r)
  case (Ok s)
  from assms(2) [unfolded Ok] obtain h i e l where
    i: "current_replacement_index h lc = Ok i" and l: "launch_validate l" "pl_entry_point l = entry"
      "pl_user_stack_pointer l = sp" and lc': "lc' = publish_epoch e (set_slot i ((lc_slots lc ! i)
        \<lparr>ps_launch := l, ps_context := context_initial entry sp, ps_fs_base := 0\<rparr>) lc)"
    by (auto simp: replace_current_image_def Let_def split: rust_splits)
  from replacement_index_Ok [OF i] have s: "slot_by_handle h lc = Some i" by simp
  note n = named_in_table [OF assms(1) s]
  have "slot_ok ((lc_slots lc ! i)\<lparr>ps_launch := l, ps_context := context_initial entry sp, ps_fs_base := 0\<rparr>)"
    using n l by (intro slot_ok_updates)
      (auto simp: launch_validate_def context_validate_initial valid_user_tls_base_def USER_ADDRESS_LIMIT_def)
  then show ?thesis unfolding lc' by (intro lc_inv_publish lc_inv_keep [OF assms(1) n(1)]) simp_all
next
  case (Err e)
  with assms show ?thesis by (auto simp: replace_current_image_def Let_def split: rust_splits)
qed

lemma lc_inv_publish_current:
  assumes "lc_inv lc" "publish_current h lc = (r, lc')"
  shows "lc_inv lc'"
proof (cases r)
  case (Ok u)
  with assms(2) obtain i where i: "slot_by_handle h lc = Some i" "ps_phase (lc_slots lc ! i) = Running"
      "lc' = lc\<lparr>lc_current := handle_encode h\<rparr>"
    by (auto simp: publish_current_def split: rust_splits)
  have "lc_current lc = handle_encode h"
    using lc_inv_running [OF assms(1) named_in_table(1) [OF assms(1) i(1)] i(2)] slot_by_handle_Some [OF i(1)] by simp
  then have "lc' = lc" using i(3) by simp
  with assms(1) show ?thesis by simp
next
  case (Err e)
  with assms show ?thesis by (auto simp: publish_current_def split: rust_splits)
qed

lemma no_running_list:
  assumes "lc_inv lc" "\<not> list_ex (\<lambda>slot. ps_occupied slot \<and> ps_phase slot = Running) (lc_slots lc)"
  shows "no_running lc"
proof -
  have "\<not> (ps_occupied (lc_slots lc ! i) \<and> ps_phase (lc_slots lc ! i) = Running)" if "i < MAXIMUM_PROCESSES" for i
    using assms(2) that lc_inv_length [OF assms(1)] by (auto simp: list_ex_iff)
  then show ?thesis using lc_inv_running [OF assms(1)] by (auto simp: no_running_def)
qed

lemma lc_inv_mark_running:
  assumes "lc_inv lc" "mark_running h lc = (r, lc')"
  shows "lc_inv lc'"
proof (cases r)
  case (Ok s)
  with assms(2) obtain i e where i: "slot_by_handle h lc = Some i"
    and n: "\<not> list_ex (\<lambda>slot. ps_occupied slot \<and> ps_phase slot = Running) (lc_slots lc)"
    and lc': "lc' = publish_epoch e (set_slot i ((lc_slots lc ! i)\<lparr>ps_phase := Running\<rparr>) lc)
        \<lparr>lc_current := handle_encode (slot_handle (lc_slots lc ! i))\<rparr>"
    by (auto simp: mark_running_def Let_def split: rust_splits)
  note t = named_in_table [OF assms(1) i]
  have "lc_inv (publish_epoch e (set_slot i ((lc_slots lc ! i)\<lparr>ps_phase := Running\<rparr>) lc
      \<lparr>lc_current := handle_encode (slot_handle (lc_slots lc ! i))\<rparr>))"
    using lc_inv_dispatch [OF assms(1) no_running_list [OF assms(1) n] t(1,3)] by (rule lc_inv_publish)
  then show ?thesis unfolding lc' by (rule lc_inv_same) simp_all
next
  case (Err e)
  with assms show ?thesis by (auto simp: mark_running_def Let_def split: rust_splits)
qed

lemma lc_inv_switch:
  assumes "lc_inv lc" "c < MAXIMUM_PROCESSES" "ps_occupied (lc_slots lc ! c)" "ps_phase (lc_slots lc ! c) = Running"
    "context_validate saved = Ok ()" "switch_from c saved lc = (r, lc')"
  shows "lc_inv lc'"
proof (cases r)
  case (Ok s)
  note len = lc_inv_length [OF assms(1)]
  let ?out = "(lc_slots lc ! c)\<lparr>ps_context := saved, ps_phase := Runnable\<rparr>"
  let ?lc1 = "set_slot c ?out lc"
  have inv: "lc_inv ?lc1"
    using lc_inv_slot [OF assms(1,2)] assms(3,5) by (intro lc_inv_keep [OF assms(1,2)] slot_ok_updates) simp_all
  have idle: "no_running ?lc1" by (rule no_running_after [OF assms(1,2,4)]) simp
  from assms(6) [unfolded Ok] show ?thesis
  proof (cases rule: switch_switched)
    case (1 t e)
    have t: "t < MAXIMUM_PROCESSES" "ps_occupied (lc_slots lc ! t)"
      using 1(1) assms(2,3) next_runnable_index_Some [of c lc] len by (auto split: option.splits)
    have same: "slot_handle (lc_slots ?lc1 ! t) = slot_handle (lc_slots lc ! t)" "ps_occupied (lc_slots ?lc1 ! t)"
      using t assms(2) len by (auto simp: nth_list_update)
    from lc_inv_publish [OF lc_inv_dispatch [OF inv idle t(1) same(2)], of e]
    show ?thesis by (rule lc_inv_same) (use 1 same in simp_all)
  qed
next
  case (Err e)
  with assms show ?thesis by (auto dest: switch_refused)
qed

lemma lc_inv_leaves:
  assumes "lc_inv lc1" "no_running lc1" "leaves pick lc lc1 d lc'"
    "\<And>t. pick = Some t \<Longrightarrow> t < MAXIMUM_PROCESSES \<and> ps_occupied (lc_slots lc1 ! t) \<and>
      slot_handle (lc_slots lc1 ! t) = slot_handle (lc_slots lc ! t)"
  shows "lc_inv lc'"
  using assms(3)
proof (cases rule: leaves_cases)
  case (idle e)
  have "lc_inv (publish_epoch e (lc1\<lparr>lc_current := PID0_IDENTITY\<rparr>))"
    using lc_inv_publish [OF lc_inv_current [OF assms(1,2)]] .
  then show ?thesis unfolding idle(4) by (rule lc_inv_same) simp_all
next
  case (dispatched t e s)
  note t = assms(4) [OF dispatched(1)]
  have "lc_inv (publish_epoch e (set_slot t ((lc_slots lc1 ! t)\<lparr>ps_phase := Running\<rparr>) lc1
      \<lparr>lc_current := handle_encode (slot_handle (lc_slots lc1 ! t))\<rparr>))"
    using t by (intro lc_inv_publish lc_inv_dispatch [OF assms(1,2)]) simp_all
  then show ?thesis unfolding dispatched(6) by (rule lc_inv_same) (use t in simp_all)
qed

lemma lc_inv_leave:
  assumes "lc_inv lc" "caller_index lc = Ok c" "ps_phase (lc_slots lc ! c) = Running"
    "leave_cpu leave c lc = (r, lc')" "\<And>e. ps_phase (leave (lc_slots lc ! c) e) \<noteq> Running"
    "\<And>e. lc_inv (set_slot c (leave (lc_slots lc ! c) e) lc)"
  shows "lc_inv lc'"
proof (cases r)
  case (Ok d)
  note c = caller_in_table [OF assms(1,2)] and len = lc_inv_length [OF assms(1)]
  from leave_left [OF assms(4) [unfolded Ok]] obtain e where
    l: "leaves (next_runnable_index c lc) lc (set_slot c (leave (lc_slots lc ! c) e) lc) d lc'" by blast
  show ?thesis
  proof (rule lc_inv_leaves [OF assms(6) no_running_after [OF assms(1) c(1) assms(3,5)] l])
    fix t
    assume "next_runnable_index c lc = Some t"
    then have "t < MAXIMUM_PROCESSES" "ps_occupied (lc_slots lc ! t)" "ps_phase (lc_slots lc ! t) = Runnable"
      using next_runnable_index_Some [of c lc t] c len by auto
    moreover from this(3) assms(3) have "t \<noteq> c" by auto
    ultimately show "t < MAXIMUM_PROCESSES \<and>
        ps_occupied (lc_slots (set_slot c (leave (lc_slots lc ! c) e) lc) ! t) \<and>
        slot_handle (lc_slots (set_slot c (leave (lc_slots lc ! c) e) lc) ! t) = slot_handle (lc_slots lc ! t)"
      by simp
  qed
next
  case (Err e)
  with assms show ?thesis by (auto dest: leave_refused)
qed

lemma lc_inv_yield: "lc_inv lc \<Longrightarrow> schedule_yield saved lc = (r, lc') \<Longrightarrow> lc_inv lc'"
  by (auto simp: schedule_yield_def Let_def is_Ok_unit dest: caller_in_table
      elim!: lc_inv_switch [rotated -1] split: rust_splits)

lemma lc_inv_preempt: "lc_inv lc \<Longrightarrow> schedule_preempt saved a lc = (r, lc') \<Longrightarrow> lc_inv lc'"
  by (auto simp: schedule_preempt_def is_Ok_unit dest: named_in_table
      elim!: lc_inv_switch [rotated -1] split: rust_splits)

lemma lc_inv_block: "lc_inv lc \<Longrightarrow> schedule_block saved lc = (r, lc') \<Longrightarrow> lc_inv lc'"
  by (auto simp: schedule_block_def is_Ok_unit dest: caller_in_table
      intro!: lc_inv_keep slot_ok_updates elim!: lc_inv_leave [rotated 3] split: rust_splits)

lemma lc_inv_exit: "lc_inv lc \<Longrightarrow> schedule_exit code lc = (r, lc') \<Longrightarrow> lc_inv lc'"
  by (auto simp: schedule_exit_def dest: caller_in_table
      intro!: lc_inv_keep slot_ok_updates elim!: lc_inv_leave [rotated 3] split: rust_splits)

lemma lc_inv_thread_exit: "lc_inv lc \<Longrightarrow> schedule_thread_exit lc = (r, lc') \<Longrightarrow> lc_inv lc'"
  by (auto simp: schedule_thread_exit_def dest: caller_in_table
      intro!: lc_inv_retire elim!: lc_inv_leave [rotated 3] split: rust_splits)

lemma exit_member_facts:
  "slot_ok s \<Longrightarrow> slot_ok (exit_member grp l code e i s)"
  "ps_occupied (exit_member grp l code e i s) \<Longrightarrow>
    ps_occupied s \<and> slot_handle (exit_member grp l code e i s) = slot_handle s"
  "ps_phase (exit_member grp l code e i s) = Running \<Longrightarrow> ps_phase s = Running \<and> (ps_occupied s \<longrightarrow> ps_thread_group s \<noteq> grp)"
  "ps_thread_group s \<noteq> grp \<Longrightarrow> exit_member grp l code e i s = s"
  by (auto simp: exit_member_def slot_ok_def split: if_splits)

lemma lc_inv_exit_members:
  assumes "lc_inv lc" "c < MAXIMUM_PROCESSES" "ps_phase (lc_slots lc ! c) = Running"
    and lc1_def: "lc1 = lc\<lparr>lc_slots := exit_members (ps_thread_group (lc_slots lc ! c)) l code e (lc_slots lc)\<rparr>"
  shows "lc_inv lc1 \<and> no_running lc1"
proof -
  note len = lc_inv_length [OF assms(1)]
  let ?g = "ps_thread_group (lc_slots lc ! c)"
  have nth: "lc_slots lc1 ! i = exit_member ?g l code e i (lc_slots lc ! i)" if "i < MAXIMUM_PROCESSES" for i
    using that len by (simp add: lc1_def nth_exit_members)
  have nr: "ps_phase (lc_slots lc1 ! i) \<noteq> Running" if i: "i < MAXIMUM_PROCESSES" for i
  proof
    assume "ps_phase (lc_slots lc1 ! i) = Running"
    then have r: "ps_phase (lc_slots lc ! i) = Running" "ps_occupied (lc_slots lc ! i) \<longrightarrow> ps_thread_group (lc_slots lc ! i) \<noteq> ?g"
      using exit_member_facts(3) nth [OF i] by metis+
    with running_unique [OF assms(1) i assms(2) _ assms(3)] lc_inv_running [OF assms(1) i] show False by auto
  qed
  have "lc_inv lc1"
  proof (rule lc_invI)
    show "k = m" if "k < MAXIMUM_PROCESSES" "m < MAXIMUM_PROCESSES" "ps_occupied (lc_slots lc1 ! k)"
        "ps_occupied (lc_slots lc1 ! m)" "ps_pid (lc_slots lc1 ! k) = ps_pid (lc_slots lc1 ! m)" for k m
    proof -
      have "ps_occupied (lc_slots lc ! k)" "ps_occupied (lc_slots lc ! m)"
          "slot_handle (lc_slots lc1 ! k) = slot_handle (lc_slots lc ! k)"
          "slot_handle (lc_slots lc1 ! m) = slot_handle (lc_slots lc ! m)"
        using that nth exit_member_facts(2) by metis+
      with that(5) show ?thesis
        using lc_inv_pid_unique [OF assms(1) that(1,2)] by (simp add: slot_handle_def)
    qed
    show "lc_published_epoch lc1 = lc_epoch lc1" using assms(1) by (simp add: lc1_def lc_inv_def)
  qed (use nr nth len exit_member_facts(1) lc_inv_slot [OF assms(1)] in \<open>auto simp: lc1_def\<close>)
  with nr show ?thesis by (simp add: no_running_def)
qed

lemma lc_inv_exit_group:
  assumes "lc_inv lc" "schedule_exit_group code lc = (r, lc')"
  shows "lc_inv lc'"
proof (cases r)
  case (Ok d)
  note len = lc_inv_length [OF assms(1)]
  from assms(2) [unfolded Ok] show ?thesis
  proof (cases rule: exit_group_left)
    case (1 c l e)
    let ?g = "ps_thread_group (lc_slots lc ! c)"
    let ?lc1 = "lc\<lparr>lc_slots := exit_members ?g l code e (lc_slots lc)\<rparr>"
    note c = caller_in_table [OF assms(1) 1(1)]
    have i: "lc_inv ?lc1" "no_running ?lc1" using lc_inv_exit_members [OF assms(1) c(1) 1(2) refl] by blast+
    show ?thesis
    proof (rule lc_inv_leaves [OF i 1(5)])
      fix t
      assume t: "cyclic_find (\<lambda>slot. ps_occupied slot \<and> ps_phase slot = Runnable \<and> ps_thread_group slot \<noteq> ?g) c
        (lc_slots lc) = Some t"
      have "lc_slots lc \<noteq> []" using len by auto
      from cyclic_find_Some [OF t this] len
      have "t < MAXIMUM_PROCESSES" "ps_occupied (lc_slots lc ! t)" "ps_thread_group (lc_slots lc ! t) \<noteq> ?g" by auto
      moreover from this len have "lc_slots ?lc1 ! t = lc_slots lc ! t"
        by (simp add: nth_exit_members exit_member_facts(4))
      ultimately show "t < MAXIMUM_PROCESSES \<and> ps_occupied (lc_slots ?lc1 ! t) \<and>
          slot_handle (lc_slots ?lc1 ! t) = slot_handle (lc_slots lc ! t)" by simp
    qed
  qed
next
  case (Err e)
  with assms show ?thesis by (auto dest: exit_group_refused)
qed

lemma lc_inv_from_pid0:
  assumes "lc_inv lc" "schedule_from_pid0 a lc = (r, lc')"
  shows "lc_inv lc'"
proof (cases r)
  case (Ok d)
  note f = from_pid0_left [OF assms(2) [unfolded Ok]] and len = lc_inv_length [OF assms(1)]
  have n: "no_running lc" using f no_running_list [OF assms(1)] by simp
  show ?thesis by (rule lc_inv_leaves [OF assms(1) n conjunct1 [OF f]]) (use len in \<open>auto simp: position_Some_iff\<close>)
next
  case (Err e)
  with assms show ?thesis by (auto dest: from_pid0_refused)
qed

lemma moves_exit_group:
  assumes "lc_inv lc" "schedule_exit_group code lc = (r, lc')"
  shows "lc_moves lc lc'"
proof (cases r)
  case (Ok d)
  note len = lc_inv_length [OF assms(1)]
  from assms(2) [unfolded Ok] show ?thesis
  proof (cases rule: exit_group_left)
    case (1 c l e)
    let ?g = "ps_thread_group (lc_slots lc ! c)"
    have mv: "slot_move (lc_slots lc ! i) (exit_members ?g l code e (lc_slots lc) ! i)" if i: "i < MAXIMUM_PROCESSES" for i
    proof -
      have "slot_move (lc_slots lc ! i) (exit_member ?g l code e i (lc_slots lc ! i))"
        using lc_inv_slot [OF assms(1) i] by (intro exit_member_move) (auto simp: slot_ok_def split: if_splits)
      with i len show ?thesis by (simp add: nth_exit_members)
    qed
    from 1(5) show ?thesis
    proof (cases rule: leaves_cases)
      case (idle e')
      then show ?thesis using mv len by (simp add: lc_moves_def)
    next
      case (dispatched t e' s)
      have "lc_slots lc \<noteq> []" using len by auto
      from cyclic_find_Some [OF dispatched(1) this] len
      have t: "t < MAXIMUM_PROCESSES" "ps_phase (lc_slots lc ! t) = Runnable" "ps_thread_group (lc_slots lc ! t) \<noteq> ?g"
        by auto
      then have "exit_members ?g l code e (lc_slots lc) ! t = lc_slots lc ! t"
        using len by (simp add: nth_exit_members exit_member_facts(4))
      then have "slot_move (lc_slots lc ! i)
          ((exit_members ?g l code e (lc_slots lc))[t := (lc_slots lc ! t)\<lparr>ps_phase := Running\<rparr>] ! i)" if "i < MAXIMUM_PROCESSES" for i
        using mv [OF that] t len by (cases "i = t") (simp_all add: slot_move_keep)
      then show ?thesis using dispatched(6) \<open>exit_members ?g l code e (lc_slots lc) ! t = lc_slots lc ! t\<close>
        len by (simp add: lc_moves_def)
    qed
  qed
next
  case (Err e)
  with assms show ?thesis by (auto dest: exit_group_refused)
qed

section \<open>Runs\<close>

lemma lc_inv_step: "lc_inv lc \<Longrightarrow> lc_step lc lc' \<Longrightarrow> lc_inv lc'"
  by (erule lc_step.cases)
    (blast intro: lc_inv_publish_current lc_inv_register lc_inv_commit lc_inv_clone lc_inv_discard
      lc_inv_mark_running lc_inv_resume lc_inv_replace lc_inv_fs_base lc_inv_yield lc_inv_preempt
      lc_inv_block lc_inv_exit lc_inv_exit_group lc_inv_thread_exit lc_inv_from_pid0
      lc_inv_mark_runnable lc_inv_mark_blocked lc_inv_reap)+

lemma moves_step: "lc_inv lc \<Longrightarrow> lc_step lc lc' \<Longrightarrow> lc_moves lc lc'"
  by (erule lc_step.cases)
    (blast intro: moves_publish moves_register moves_commit moves_clone moves_discard
      moves_mark_running moves_resume moves_replace moves_fs_base moves_yield moves_preempt
      moves_block moves_exit moves_exit_group moves_thread_exit moves_from_pid0
      moves_mark_runnable moves_mark_blocked moves_reap)+

interpretation lcm: invariant_machine "\<lambda>lc. lc = lifecycle_new" lc_step lc_inv
  by unfold_locales (auto intro: lc_inv_new lc_inv_step)

subsection \<open>Slot lifetimes\<close>

text \<open>The age of a slot: it grows whenever a process is admitted or retired, and a slot
  whose generations are exhausted is the oldest of all and is never used again.\<close>

definition slot_age :: "process_slot \<Rightarrow> nat" where
  "slot_age s = (if ps_occupied s then 2 * unat (ps_generation s) + 1
     else if ps_generation s = - 1 then 2 ^ 33 + 2 else 2 * unat (ps_generation s))"

lemma slot_age_retired: "ps_occupied s \<Longrightarrow> slot_age s < slot_age (retired_slot s)"
  using unsigned_less [of "ps_generation s", where ?'a = nat]
  by (auto simp: slot_age_def retired_slot_def PROCESS_EMPTY_def checked_add_Some_iff split: option.splits)

lemma slot_age_admitted:
  assumes "free_slot s" "ps_occupied t"
    "ps_generation t = ps_generation s \<or> checked_add (ps_generation s) 1 = Some (ps_generation t)"
  shows "slot_age s < slot_age t"
  using assms by (auto simp: slot_age_def free_slot_def checked_add_Some_iff)

lemma slot_age_move:
  assumes "slot_move s t"
  shows "slot_age s \<le> slot_age t \<and> (\<not> ps_occupied s \<longrightarrow> ps_occupied t \<longrightarrow> slot_age s < slot_age t)"
proof -
  have "slot_age t = slot_age s" if "ps_occupied t = ps_occupied s" "slot_handle t = slot_handle s"
    using that by (simp add: slot_age_def slot_handle_def)
  then show ?thesis
    using assms slot_age_retired [of s] slot_age_admitted [of s t]
    unfolding slot_move_def by (auto dest: less_imp_le simp: free_slot_def)
qed

definition lc_run :: "lifecycle \<Rightarrow> lifecycle \<Rightarrow> bool" where
  "lc_run lc lc' \<longleftrightarrow> lc_inv lc \<and> lc_step lc lc'"

lemma lc_run_steps: "lc_step\<^sup>*\<^sup>* lc lc' \<Longrightarrow> lc_inv lc \<Longrightarrow> lc_run\<^sup>*\<^sup>* lc lc'"
proof (induction rule: rtranclp_induct)
  case (step lc1 lc2)
  then have "lc_run lc1 lc2" using lcm.inv_steps by (simp add: lc_run_def)
  with step show ?case by simp
qed simp

lemma lc_run_slot: "lc_run lc lc' \<Longrightarrow> i < MAXIMUM_PROCESSES \<Longrightarrow> slot_move (lc_slots lc ! i) (lc_slots lc' ! i)"
  using moves_step lc_inv_length by (simp add: lc_run_def lc_moves_def)

interpretation llt: generation_lifetime lc_run
  "\<lambda>lc i. i < MAXIMUM_PROCESSES \<and> ps_occupied (lc_slots lc ! i)"
  "\<lambda>lc i. if i < MAXIMUM_PROCESSES then slot_age (lc_slots lc ! i) else 0"
  by unfold_locales (auto dest: lc_run_slot slot_age_move)

text \<open>A retired process is never seen in its slot again.\<close>

lemma retired_forever:
  assumes "lc_step\<^sup>*\<^sup>* lc lc'" "lc_inv lc" "i < MAXIMUM_PROCESSES"
    "2 * unat g + 1 < slot_age (lc_slots lc ! i)"
  shows "\<not> (ps_occupied (lc_slots lc' ! i) \<and> ps_generation (lc_slots lc' ! i) = g)"
  using llt.superseded_generation [OF lc_run_steps [OF assms(1,2)], of "2 * unat g + 1" i] assms(3,4)
  by (auto simp: slot_age_def split: if_splits)

subsection \<open>Epochs\<close>

lemma next_epoch_Ok: "next_scheduler_epoch e = Ok e' \<longleftrightarrow> unat e' = unat e + 1"
proof -
  have "next_scheduler_epoch e = Ok e' \<longleftrightarrow> checked_add e 1 = Some e'"
    by (cases "checked_add e 1") (auto simp: next_scheduler_epoch_def)
  then show ?thesis by (simp add: checked_add_Some_iff)
qed

lemma next_epoch_less: "next_scheduler_epoch e = Ok e' \<Longrightarrow> e < e' \<and> e' \<noteq> 0"
  by (auto simp: next_epoch_Ok word_less_nat_alt)

end
