(* ===== verification/Scheduler.thy ===== *)
theory Scheduler
  imports LifecycleInv Ring
begin

unbundle bit_operations_syntax

text \<open>
  What the scheduler promises: the return authority of a dispatch is accepted exactly once
  and by exactly one state of the table, a superseded authority is rejected for ever, the
  round robin reaches every runnable process, group exit never resumes the dying group,
  and admission never runs out of process identifiers.
\<close>

section \<open>Dispatches\<close>

text \<open>The operations that hand out a user dispatch.\<close>

inductive lc_dispatch :: "lifecycle \<Rightarrow> scheduled_process \<Rightarrow> lifecycle \<Rightarrow> bool" where
  by_yield: "schedule_yield ctx lc = (Ok s, lc') \<Longrightarrow> lc_dispatch lc s lc'"
| by_preempt: "schedule_preempt ctx authority lc = (Ok s, lc') \<Longrightarrow> lc_dispatch lc s lc'"
| by_resume: "resume_current ctx lc = (Ok s, lc') \<Longrightarrow> lc_dispatch lc s lc'"
| by_replace: "replace_current_image root entry sp measurement lc = (Ok s, lc') \<Longrightarrow> lc_dispatch lc s lc'"
| by_clone: "clone_current_thread ctx sp fs lc = (Ok (child, s), lc') \<Longrightarrow> lc_dispatch lc s lc'"
| by_block: "schedule_block ctx lc = (Ok (DecisionUser s), lc') \<Longrightarrow> lc_dispatch lc s lc'"
| by_exit: "schedule_exit code lc = (Ok (DecisionUser s), lc') \<Longrightarrow> lc_dispatch lc s lc'"
| by_exit_group: "schedule_exit_group code lc = (Ok (DecisionUser s), lc') \<Longrightarrow> lc_dispatch lc s lc'"
| by_thread_exit: "schedule_thread_exit lc = (Ok (DecisionUser s), lc') \<Longrightarrow> lc_dispatch lc s lc'"
| by_pid0: "schedule_from_pid0 idle lc = (Ok (DecisionUser s), lc') \<Longrightarrow> lc_dispatch lc s lc'"

text \<open>The dispatch that a state supports: the running slot's saved context under the current
  epoch.\<close>

definition dispatched_at :: "lifecycle \<Rightarrow> scheduled_process \<Rightarrow> nat \<Rightarrow> bool" where
  "dispatched_at lc s i \<longleftrightarrow> i < MAXIMUM_PROCESSES \<and> ps_phase (lc_slots lc ! i) = Running \<and> lc_epoch lc \<noteq> 0 \<and>
     s = lc_scheduled i (ps_context (lc_slots lc ! i)) (lc_epoch lc) lc"

lemma lc_scheduled_cong:
  "slot_handle (lc_slots lc ! i) = slot_handle (lc_slots lc' ! i) \<Longrightarrow>
    ps_launch (lc_slots lc ! i) = ps_launch (lc_slots lc' ! i) \<Longrightarrow>
    ps_fs_base (lc_slots lc ! i) = ps_fs_base (lc_slots lc' ! i) \<Longrightarrow>
    lc_scheduled i u e lc = lc_scheduled i u e lc'"
  by (simp add: lc_scheduled_def Let_def)

lemma dispatched_at_switch:
  assumes "lc_inv lc" "c < MAXIMUM_PROCESSES" "switch_from c saved lc = (Ok s, lc')"
  shows "lc_epoch lc < lc_epoch lc' \<and> (\<exists>i. dispatched_at lc' s i)"
  using assms(3)
proof (cases rule: switch_switched)
  case (1 t e)
  note len = lc_inv_length [OF assms(1)]
  have t: "t < MAXIMUM_PROCESSES"
    using 1(1) assms(2) next_runnable_index_Some [of c lc] len by (auto split: option.splits)
  have "slot_handle (lc_slots lc' ! t) = slot_handle (lc_slots lc ! t)"
    "ps_launch (lc_slots lc' ! t) = ps_launch (lc_slots lc ! t)"
    "ps_fs_base (lc_slots lc' ! t) = ps_fs_base (lc_slots lc ! t)"
    "ps_context (lc_slots lc' ! t) = (if t = c then saved else ps_context (lc_slots lc ! t))"
    "ps_phase (lc_slots lc' ! t) = Running"
    using 1(5) t assms(2) len by (auto simp: nth_list_update)
  then have "dispatched_at lc' s t"
    using 1(2,3,7) t next_epoch_less lc_scheduled_cong [of lc t lc'] by (auto simp: dispatched_at_def)
  then show ?thesis using 1(2,7) next_epoch_less by auto
qed

lemma dispatched_at_leaves:
  assumes "leaves pick lc lc1 (DecisionUser s) lc'" "lc_slots lc1 ! t = lc_slots lc ! t"
    "pick = Some t" "t < length (lc_slots lc1)" "t < MAXIMUM_PROCESSES"
  shows "lc_epoch lc < lc_epoch lc' \<and> dispatched_at lc' s t"
  using assms(1)
proof (cases rule: leaves_cases)
  case (dispatched t' e s')
  then have s: "s = lc_scheduled t (ps_context (lc_slots lc ! t)) e lc" and
    slot: "lc_slots lc' ! t = (lc_slots lc ! t)\<lparr>ps_phase := Running\<rparr>" "lc_epoch lc' = e"
    using assms by auto
  from slot s dispatched(2) have "dispatched_at lc' s t"
    using next_epoch_less assms(5) lc_scheduled_cong [of lc t lc'] by (auto simp: dispatched_at_def)
  then show ?thesis using slot dispatched(2) next_epoch_less by auto
qed simp

lemma leaves_pick: "leaves pick lc lc1 (DecisionUser s) lc' \<Longrightarrow> \<exists>t. pick = Some t"
  by (erule leaves_cases) auto

lemma dispatched_at_leave:
  assumes "lc_inv lc" "caller_index lc = Ok c" "ps_phase (lc_slots lc ! c) = Running"
    "leave_cpu leave c lc = (Ok (DecisionUser s), lc')"
  shows "lc_epoch lc < lc_epoch lc' \<and> (\<exists>i. dispatched_at lc' s i)"
proof -
  note c = caller_in_table [OF assms(1,2)] and len = lc_inv_length [OF assms(1)]
  from leave_left [OF assms(4)] obtain e where
    l: "leaves (next_runnable_index c lc) lc (set_slot c (leave (lc_slots lc ! c) e) lc) (DecisionUser s) lc'" by blast
  from leaves_pick [OF l] obtain t where t: "next_runnable_index c lc = Some t" by blast
  from next_runnable_index_Some [OF t] c len assms(3)
  have "t < MAXIMUM_PROCESSES" "t \<noteq> c" by auto
  with dispatched_at_leaves [OF l _ t] len show ?thesis by auto
qed

lemma dispatched_at_exit_group:
  assumes "lc_inv lc" "schedule_exit_group code lc = (Ok (DecisionUser s), lc')"
  shows "lc_epoch lc < lc_epoch lc' \<and> (\<exists>i. dispatched_at lc' s i)"
  using assms(2)
proof (cases rule: exit_group_left)
  case (1 c l e)
  note len = lc_inv_length [OF assms(1)]
  from leaves_pick [OF 1(5)] obtain t where t: "cyclic_find (\<lambda>slot. ps_occupied slot \<and> ps_phase slot = Runnable
      \<and> ps_thread_group slot \<noteq> ps_thread_group (lc_slots lc ! c)) c (lc_slots lc) = Some t" by blast
  have "lc_slots lc \<noteq> []" using len by auto
  from cyclic_find_Some [OF t this] len have "t < MAXIMUM_PROCESSES"
    "ps_thread_group (lc_slots lc ! t) \<noteq> ps_thread_group (lc_slots lc ! c)" by auto
  with dispatched_at_leaves [OF 1(5) _ t] len show ?thesis
    by (auto simp: nth_exit_members exit_member_facts(4))
qed

lemma dispatched_at_running:
  assumes "lc_inv lc" "i < MAXIMUM_PROCESSES" "ps_phase (lc_slots lc ! i) = Running"
    "next_scheduler_epoch (lc_epoch lc) = Ok e" "lc_slots lc' = (lc_slots lc)[i := slot]" "lc_epoch lc' = e"
    "ps_phase slot = Running" "s = lc_scheduled i (ps_context slot) e lc'"
  shows "lc_epoch lc < lc_epoch lc' \<and> (\<exists>i. dispatched_at lc' s i)"
  using assms next_epoch_less [OF assms(4)] lc_inv_length [OF assms(1)]
  by (auto simp: dispatched_at_def intro!: exI [of _ i])

lemma dispatched_at_resume:
  assumes "lc_inv lc" "resume_current ctx lc = (Ok s, lc')"
  shows "lc_epoch lc < lc_epoch lc' \<and> (\<exists>i. dispatched_at lc' s i)"
proof -
  from assms(2) obtain c e where c: "caller_index lc = Ok c" "ps_phase (lc_slots lc ! c) = Running"
    and e: "next_scheduler_epoch (lc_epoch lc) = Ok e" and s: "s = lc_scheduled c ctx e lc"
    and lc': "lc' = publish_epoch e (set_slot c ((lc_slots lc ! c)\<lparr>ps_context := ctx\<rparr>) lc)"
    by (auto simp: resume_current_def Let_def split: rust_splits)
  note t = caller_in_table [OF assms(1) c(1)] and len = lc_inv_length [OF assms(1)]
  have "s = lc_scheduled c ctx e lc'"
    unfolding s by (rule lc_scheduled_cong) (use t len in \<open>simp_all add: lc'\<close>)
  with dispatched_at_running [OF assms(1) t(1) c(2) e, of lc' "(lc_slots lc ! c)\<lparr>ps_context := ctx\<rparr>" s] c lc'
  show ?thesis by simp
qed

lemma dispatched_at_replace:
  assumes "lc_inv lc" "replace_current_image root entry sp m lc = (Ok s, lc')"
  shows "lc_epoch lc < lc_epoch lc' \<and> (\<exists>i. dispatched_at lc' s i)"
proof -
  let ?l = "\<lambda>i. (ps_launch (lc_slots lc ! i))\<lparr>pl_address_space_root := root, pl_entry_point := entry,
    pl_user_stack_pointer := sp, pl_image_measurement_root := m\<rparr>"
  from assms(2) obtain h i e where
    i: "current_replacement_index h lc = Ok i" and e: "next_scheduler_epoch (lc_epoch lc) = Ok e"
    and s: "s = \<lparr>sp_handle = h, sp_context = \<lparr>dc_user = context_initial entry sp, dc_address_space_root = root,
        dc_kernel_stack_pointer = pl_kernel_stack_pointer (ps_launch (lc_slots lc ! i)), dc_fs_base = 0\<rparr>,
        sp_scheduler_epoch = e\<rparr>"
    and lc': "lc' = publish_epoch e (set_slot i ((lc_slots lc ! i)
        \<lparr>ps_launch := ?l i, ps_context := context_initial entry sp, ps_fs_base := 0\<rparr>) lc)"
    by (auto simp: replace_current_image_def Let_def split: rust_splits)
  from replacement_index_Ok [OF i] have n: "slot_by_handle h lc = Some i" "ps_phase (lc_slots lc ! i) = Running" by simp_all
  note t = named_in_table [OF assms(1) n(1)] and len = lc_inv_length [OF assms(1)]
  let ?slot = "(lc_slots lc ! i)\<lparr>ps_launch := ?l i, ps_context := context_initial entry sp, ps_fs_base := 0\<rparr>"
  have "s = lc_scheduled i (context_initial entry sp) e lc'"
    using s t len slot_by_handle_Some [OF n(1)] by (simp add: lc' lc_scheduled_def Let_def)
  with dispatched_at_running [OF assms(1) t(1) n(2) e, of lc' ?slot s] n lc' show ?thesis by simp
qed

lemma dispatched_at_clone:
  assumes "lc_inv lc" "clone_current_thread ctx sp fs lc = (Ok (child, s), lc')"
  shows "lc_epoch lc < lc_epoch lc' \<and> (\<exists>i. dispatched_at lc' s i)"
  using assms(2)
proof (cases rule: clone_cloned)
  case (1 c p lc1 i g e)
  note a = allocate_pid_slots [OF 1(3)] and t = caller_in_table [OF assms(1) 1(1)]
    and len = lc_inv_length [OF assms(1)]
  have slot: "lc_slots lc' ! c = (lc_slots lc ! c)\<lparr>ps_context := set_syscall_result (uint p) ctx\<rparr>"
    using 1(12) t len a by simp
  have "s = lc_scheduled c (set_syscall_result (uint p) ctx) e lc'"
    using 1(11) slot a by (auto intro: lc_scheduled_cong)
  moreover have "e \<noteq> 0" "lc_epoch lc < e" "lc_epoch lc' = e" using next_epoch_less [OF 1(6)] a 1(12) by auto
  ultimately show ?thesis using slot t(1) 1(2) by (auto simp: dispatched_at_def intro!: exI [of _ c])
qed

lemma dispatched_at_pid0:
  assumes "lc_inv lc" "schedule_from_pid0 a lc = (Ok (DecisionUser s), lc')"
  shows "lc_epoch lc < lc_epoch lc' \<and> (\<exists>i. dispatched_at lc' s i)"
proof -
  note f = conjunct1 [OF from_pid0_left [OF assms(2)]] and len = lc_inv_length [OF assms(1)]
  from leaves_pick [OF f] obtain t where
    t: "position (\<lambda>slot. ps_occupied slot \<and> ps_phase slot = Runnable) (lc_slots lc) = Some t" by blast
  with dispatched_at_leaves [OF f _ t] len show ?thesis by (auto simp: position_Some_iff)
qed

text \<open>Every operation that hands out a dispatch leaves the table in the one state that
  supports it, under a new epoch.\<close>

lemma lc_dispatch_supported:
  assumes "lc_inv lc" "lc_dispatch lc s lc'"
  shows "lc_epoch lc < lc_epoch lc' \<and> (\<exists>i. dispatched_at lc' s i)"
  using assms(2)
proof cases
  case (by_yield ctx)
  then show ?thesis using assms(1) by (auto simp: schedule_yield_def Let_def dest: caller_in_table
        elim!: dispatched_at_switch [rotated -1] split: rust_splits)
next
  case (by_preempt ctx authority)
  then obtain c where "slot_by_handle (ea_handle authority) lc = Some c" "switch_from c ctx lc = (Ok s, lc')"
    by (auto simp: schedule_preempt_def split: rust_splits)
  then show ?thesis using dispatched_at_switch [OF assms(1)] named_in_table [OF assms(1)] by blast
next
  case (by_block ctx)
  then obtain c leave where "caller_index lc = Ok c" "ps_phase (lc_slots lc ! c) = Running"
      "leave_cpu leave c lc = (Ok (DecisionUser s), lc')"
    by (auto simp: schedule_block_def split: rust_splits)
  then show ?thesis by (rule dispatched_at_leave [OF assms(1)])
next
  case (by_exit code)
  then obtain c leave where "caller_index lc = Ok c" "ps_phase (lc_slots lc ! c) = Running"
      "leave_cpu leave c lc = (Ok (DecisionUser s), lc')"
    by (auto simp: schedule_exit_def split: rust_splits)
  then show ?thesis by (rule dispatched_at_leave [OF assms(1)])
next
  case by_thread_exit
  then obtain c leave where "caller_index lc = Ok c" "ps_phase (lc_slots lc ! c) = Running"
      "leave_cpu leave c lc = (Ok (DecisionUser s), lc')"
    by (auto simp: schedule_thread_exit_def split: rust_splits)
  then show ?thesis by (rule dispatched_at_leave [OF assms(1)])
next
  case (by_resume ctx)
  then show ?thesis by (rule dispatched_at_resume [OF assms(1)])
next
  case (by_replace root entry sp m)
  then show ?thesis by (rule dispatched_at_replace [OF assms(1)])
next
  case (by_clone ctx sp fs child)
  then show ?thesis by (rule dispatched_at_clone [OF assms(1)])
next
  case (by_exit_group code)
  then show ?thesis by (rule dispatched_at_exit_group [OF assms(1)])
next
  case (by_pid0 idle)
  then show ?thesis by (rule dispatched_at_pid0 [OF assms(1)])
qed

lemma lc_dispatch_step: "lc_dispatch lc s lc' \<Longrightarrow> lc_step lc lc'"
  by (erule lc_dispatch.cases) (blast intro: lc_step.intros)+

section \<open>Authorization\<close>

lemma dispatch_valid:
  assumes "slot_ok (lc_slots lc ! i)" "ps_occupied (lc_slots lc ! i)"
  shows "dispatch_validate (sp_context (lc_scheduled i (ps_context (lc_slots lc ! i)) e lc)) = Ok ()"
  using assms by (simp add: dispatch_validate_Ok slot_ok_def launch_validate_def)

lemma authorized_return_inject: "authorized_return s = authorized_return s' \<Longrightarrow> s = s'"
  by (simp add: authorized_return_def)

lemma slot_by_handle_slot:
  assumes "lc_inv lc" "i < MAXIMUM_PROCESSES" "ps_occupied (lc_slots lc ! i)"
  shows "slot_by_handle (slot_handle (lc_slots lc ! i)) lc = Some i"
  unfolding slot_by_handle_def
  using assms lc_inv_length [OF assms(1)] lc_inv_pid_unique [OF assms(1) _ assms(2) _ assms(3)]
  by (intro position_unique) (auto simp: slot_matches_def slot_handle_def)

lemma authorize_exact:
  assumes "lc_inv lc" "dispatched_at lc s i"
  shows "authorize_user_return a lc = Ok x \<longleftrightarrow> a = authorized_return s \<and> x = s"
proof -
  from assms(2) have i: "i < MAXIMUM_PROCESSES" "ps_phase (lc_slots lc ! i) = Running" "lc_epoch lc \<noteq> 0"
    and s: "s = lc_scheduled i (ps_context (lc_slots lc ! i)) (lc_epoch lc) lc" by (auto simp: dispatched_at_def)
  note ok = lc_inv_slot [OF assms(1) i(1)] and run = lc_inv_running [OF assms(1) i(1,2)]
  let ?h = "slot_handle (lc_slots lc ! i)"
  have vh: "valid_owner ?h" using ok run by (simp add: slot_ok_def valid_owner_def slot_handle_def)
  have cur: "current_handle lc = Some ?h" using run handle_decode_encode [OF vh] by (simp add: current_handle_def)
  have found: "slot_by_handle ?h lc = Some i" using slot_by_handle_slot [OF assms(1) i(1)] run by simp
  have "return_validate (authorized_return s) = Ok ()"
    using vh i(3) dispatch_valid [OF ok] run s
    by (simp add: return_validate_Ok authorized_return_def valid_owner_def)
  moreover have "\<lparr>ph_pid = au_pid (authorized_return s), ph_generation = au_generation (authorized_return s)\<rparr> = ?h"
    using s by (simp add: authorized_return_def slot_handle_def)
  ultimately have "authorize_user_return (authorized_return s) lc = Ok s"
    using cur found i(2) s by (simp add: authorize_user_return_def) (simp add: authorized_return_def)
  moreover have "a = authorized_return s" if "authorize_user_return a lc = Ok x" for x
    using that cur found s by (auto simp: authorize_user_return_def Let_def split: rust_splits)
  ultimately show ?thesis by (metis result.inject(1))
qed

section \<open>Epochs only grow\<close>

lemma epoch_leaves:
  "leaves pick lc lc1 d lc' \<Longrightarrow> lc_epoch lc < lc_epoch lc'"
  by (erule leaves_cases) (auto dest: next_epoch_less)

lemma epoch_leave_cpu: "leave_cpu leave c lc = (r, lc') \<Longrightarrow> lc_epoch lc \<le> lc_epoch lc'"
  by (cases r) (auto dest!: leave_left leave_refused epoch_leaves)

lemma epoch_switch: "switch_from c saved lc = (r, lc') \<Longrightarrow> lc_epoch lc \<le> lc_epoch lc'"
  by (cases r) (auto dest!: switch_refused elim!: switch_switched dest: next_epoch_less)

lemma epoch_exit_group: "schedule_exit_group code lc = (r, lc') \<Longrightarrow> lc_epoch lc \<le> lc_epoch lc'"
  by (cases r) (auto dest!: exit_group_refused elim!: exit_group_left dest: epoch_leaves)

lemma epoch_from_pid0: "schedule_from_pid0 a lc = (r, lc') \<Longrightarrow> lc_epoch lc \<le> lc_epoch lc'"
  by (cases r) (auto dest!: from_pid0_refused from_pid0_left dest: epoch_leaves)

lemma epoch_clone: "clone_current_thread ctx sp fs lc = (r, lc') \<Longrightarrow> lc_epoch lc \<le> lc_epoch lc'"
proof (cases r)
  case (Ok x)
  assume "clone_current_thread ctx sp fs lc = (r, lc')"
  from this [unfolded Ok] show ?thesis
    by (cases rule: clone_cloned) (auto dest!: allocate_pid_slots next_epoch_less)
next
  case (Err e)
  assume "clone_current_thread ctx sp fs lc = (r, lc')"
  with Err show ?thesis by (auto dest!: clone_refused allocate_pid_slots)
qed

lemma epoch_commit: "commit_child parent l lc = (r, lc') \<Longrightarrow> lc_epoch lc \<le> lc_epoch lc'"
  by (cases r) (auto dest!: commit_refused allocate_pid_slots elim!: commit_committed)

lemma epoch_step: "lc_step lc lc' \<Longrightarrow> lc_epoch lc \<le> lc_epoch lc'"
proof (induction rule: lc_step.cases)
  case (thread_cloned ctx sp fs lc r3 lc')
  then show ?thesis using epoch_clone by auto
next
  case (child_committed parent launch lc r2 lc')
  then show ?thesis using epoch_commit by auto
next
  case (group_exited code lc r6 lc')
  then show ?thesis using epoch_exit_group by auto
next
  case (from_pid0 idle lc r6 lc')
  then show ?thesis using epoch_from_pid0 by auto
next
  case (yielded ctx lc r5 lc')
  then show ?thesis by (auto simp: schedule_yield_def Let_def dest: epoch_switch split: rust_splits)
next
  case (preempted ctx authority lc r5 lc')
  then show ?thesis by (auto simp: schedule_preempt_def dest: epoch_switch split: rust_splits)
next
  case (blocked ctx lc r6 lc')
  then show ?thesis by (auto simp: schedule_block_def dest: epoch_leave_cpu split: rust_splits)
next
  case (exited code lc r6 lc')
  then show ?thesis by (auto simp: schedule_exit_def dest: epoch_leave_cpu split: rust_splits)
next
  case (thread_exited lc r6 lc')
  then show ?thesis by (auto simp: schedule_thread_exit_def dest: epoch_leave_cpu split: rust_splits)
next
  case (marked_running h lc r4 lc')
  then show ?thesis by (auto simp: mark_running_def Let_def dest: next_epoch_less split: rust_splits)
next
  case (resumed ctx lc r5 lc')
  then show ?thesis by (auto simp: resume_current_def Let_def dest: next_epoch_less split: rust_splits)
next
  case (image_replaced root entry sp measurement lc r5 lc')
  then show ?thesis by (auto simp: replace_current_image_def Let_def dest: next_epoch_less split: rust_splits)
qed (auto simp: publish_current_def register_init_def discard_runnable_thread_def set_current_fs_base_def
    mark_runnable_def mark_blocked_def reap_child_def Let_def split: rust_splits)

lemma epoch_steps: "lc_step\<^sup>*\<^sup>* lc lc' \<Longrightarrow> lc_epoch lc \<le> lc_epoch lc'"
  by (induction rule: rtranclp_induct) (auto dest: epoch_step)

text \<open>The operations after which the kernel idles in PID0.\<close>

inductive lc_idles :: "lifecycle \<Rightarrow> lifecycle \<Rightarrow> bool" where
  idle_block: "schedule_block ctx lc = (Ok (DecisionPid0 p), lc') \<Longrightarrow> lc_idles lc lc'"
| idle_exit: "schedule_exit code lc = (Ok (DecisionPid0 p), lc') \<Longrightarrow> lc_idles lc lc'"
| idle_exit_group: "schedule_exit_group code lc = (Ok (DecisionPid0 p), lc') \<Longrightarrow> lc_idles lc lc'"
| idle_thread_exit: "schedule_thread_exit lc = (Ok (DecisionPid0 p), lc') \<Longrightarrow> lc_idles lc lc'"
| idle_pid0: "schedule_from_pid0 idle lc = (Ok (DecisionPid0 p), lc') \<Longrightarrow> lc_idles lc lc'"

lemma epoch_left: "leave_cpu leave c lc = (Ok d, lc') \<Longrightarrow> lc_epoch lc < lc_epoch lc'"
  by (auto dest!: leave_left epoch_leaves)

lemma epoch_idles: "lc_idles lc lc' \<Longrightarrow> lc_epoch lc < lc_epoch lc'"
proof (induction rule: lc_idles.cases)
  case (idle_block ctx lc p lc')
  then show ?thesis by (auto simp: schedule_block_def dest: epoch_left split: rust_splits)
next
  case (idle_exit code lc p lc')
  then show ?thesis by (auto simp: schedule_exit_def dest: epoch_left split: rust_splits)
next
  case (idle_thread_exit lc p lc')
  then show ?thesis by (auto simp: schedule_thread_exit_def dest: epoch_left split: rust_splits)
next
  case (idle_exit_group code lc p lc')
  then show ?thesis by (auto elim!: exit_group_left dest: epoch_leaves)
next
  case (idle_pid0 idle lc p lc')
  then show ?thesis by (auto dest!: from_pid0_left dest: epoch_leaves)
qed

lemma authority_epoch: "authorize_user_return a lc = Ok x \<Longrightarrow> au_scheduler_epoch a = lc_epoch lc"
  by (auto simp: authorize_user_return_def Let_def split: rust_splits)

section \<open>Round robin\<close>

lemma caller_index_running:
  assumes "lc_inv lc" "i < MAXIMUM_PROCESSES" "ps_phase (lc_slots lc ! i) = Running"
  shows "caller_index lc = Ok i"
proof -
  note run = lc_inv_running [OF assms] and ok = lc_inv_slot [OF assms(1,2)]
  have v: "valid_owner (slot_handle (lc_slots lc ! i))"
    using run ok by (simp add: slot_ok_def valid_owner_def slot_handle_def)
  then have "current_user_handle lc = Ok (slot_handle (lc_slots lc ! i))"
    using run handle_decode_encode [OF v] pid0_not_user
    by (simp add: current_user_handle_def valid_owner_def)
  then show ?thesis using slot_by_handle_slot [OF assms(1,2)] run by (simp add: caller_index_def)
qed

lemma switch_total:
  assumes "lc_inv lc" "c < MAXIMUM_PROCESSES" "ps_occupied (lc_slots lc ! c)"
    "context_validate saved = Ok ()" "lc_epoch lc \<noteq> - 1"
  obtains s lc' where "switch_from c saved lc = (Ok s, lc')"
proof -
  note len = lc_inv_length [OF assms(1)]
  let ?t = "case next_runnable_index c lc of None \<Rightarrow> c | Some t \<Rightarrow> t"
  have t: "?t < MAXIMUM_PROCESSES" "ps_occupied (lc_slots lc ! ?t)"
    using next_runnable_index_Some [of c lc] assms(2,3) len by (auto split: option.splits)
  from checked_add_one_defined [OF assms(5)] obtain e where "checked_add (lc_epoch lc) 1 = Some e" by blast
  then have e: "next_scheduler_epoch (lc_epoch lc) = Ok e" by (simp add: next_scheduler_epoch_def)
  have "dispatch_validate (sp_context (lc_scheduled ?t
      (if ?t = c then saved else ps_context (lc_slots lc ! ?t)) e lc)) = Ok ()"
    using lc_inv_slot [OF assms(1) t(1)] t(2) assms(4)
    by (auto simp: dispatch_validate_Ok slot_ok_def launch_validate_def split: if_splits)
  then show thesis using e that by (auto simp: switch_from_def Let_def)
qed

text \<open>One yield: it succeeds, the next runnable slot in cyclic order runs, the caller is
  runnable again and no other slot changes.\<close>

lemma yield_total:
  assumes "lc_inv lc" "c < MAXIMUM_PROCESSES" "ps_phase (lc_slots lc ! c) = Running"
    "context_validate ctx = Ok ()" "lc_epoch lc \<noteq> - 1"
  obtains s lc' t where "schedule_yield ctx lc = (Ok s, lc')"
    "t = (case next_runnable_index c lc of None \<Rightarrow> c | Some t \<Rightarrow> t)" "t < MAXIMUM_PROCESSES"
    "ps_phase (lc_slots lc' ! t) = Running" "unat (lc_epoch lc') = unat (lc_epoch lc) + 1"
    "\<And>j. j \<noteq> c \<Longrightarrow> j \<noteq> t \<Longrightarrow> lc_slots lc' ! j = lc_slots lc ! j"
proof -
  have call: "caller_index lc = Ok c" by (rule caller_index_running [OF assms(1,2,3)])
  note len = lc_inv_length [OF assms(1)]
  have occ: "ps_occupied (lc_slots lc ! c)" using caller_in_table(3) [OF assms(1) call] .
  obtain s lc' where sw: "switch_from c (set_syscall_result 0 ctx) lc = (Ok s, lc')"
    using switch_total [OF assms(1,2) occ _ assms(5)] assms(4) by (metis context_validate_set_result)
  then have y: "schedule_yield ctx lc = (Ok s, lc')"
    using call assms(3,4) by (simp add: schedule_yield_def)
  from sw show thesis
  proof (cases rule: switch_switched)
    case (1 t e)
    have t: "t < MAXIMUM_PROCESSES"
      using 1(1) assms(2) next_runnable_index_Some [of c lc] len by (auto split: option.splits)
    show thesis
      by (rule that [OF y 1(1) t]) (use 1 t len in \<open>simp_all add: next_epoch_Ok\<close>)
  qed
qed

fun yields :: "saved_user_context list \<Rightarrow> lifecycle \<Rightarrow> lifecycle option" where
  "yields [] lc = Some lc"
| "yields (ctx # ctxs) lc =
     (case schedule_yield ctx lc of (Ok _, lc') \<Rightarrow> yields ctxs lc' | (Err _, _) \<Rightarrow> None)"

text \<open>How far slot \<open>j\<close> lies ahead of slot \<open>c\<close> in cyclic order.\<close>

definition ahead :: "nat \<Rightarrow> nat \<Rightarrow> nat" where
  "ahead c j = (j + MAXIMUM_PROCESSES - c) mod MAXIMUM_PROCESSES"

lemma ahead_if:
  assumes "c < MAXIMUM_PROCESSES" "j < MAXIMUM_PROCESSES"
  shows "ahead c j = (if c \<le> j then j - c else j + MAXIMUM_PROCESSES - c)"
proof (cases "c \<le> j")
  case True
  then have "j + MAXIMUM_PROCESSES - c = (j - c) + MAXIMUM_PROCESSES" by simp
  then show ?thesis using True assms unfolding ahead_def by (simp only: mod_add_self2) simp
next
  case False
  then show ?thesis using assms by (simp add: ahead_def)
qed

lemma ahead_nth:
  assumes "c < MAXIMUM_PROCESSES" "j < MAXIMUM_PROCESSES"
  shows "(c + ahead c j) mod MAXIMUM_PROCESSES = j"
  using assms by (auto simp: ahead_if)

lemma ahead_pos:
  assumes "c < MAXIMUM_PROCESSES" "j < MAXIMUM_PROCESSES" "c \<noteq> j"
  shows "1 \<le> ahead c j"
  using assms by (auto simp: ahead_if)

lemma ahead_closer:
  assumes "c < MAXIMUM_PROCESSES" "j < MAXIMUM_PROCESSES" "1 \<le> k" "k < ahead c j"
  shows "ahead ((c + k) mod MAXIMUM_PROCESSES) j < ahead c j"
proof (cases "c + k < MAXIMUM_PROCESSES")
  case True
  then have "(c + k) mod MAXIMUM_PROCESSES = c + k" by simp
  then show ?thesis using True assms by (auto simp: ahead_if split: if_splits)
next
  case False
  have "ahead c j < MAXIMUM_PROCESSES" by (simp add: ahead_def)
  then have l: "c + k - MAXIMUM_PROCESSES < MAXIMUM_PROCESSES" using assms by linarith
  have "(c + k) mod MAXIMUM_PROCESSES = c + k - MAXIMUM_PROCESSES"
    using False l by (simp add: mod_if)
  then show ?thesis using False l assms by (auto simp: ahead_if split: if_splits)
qed

lemma next_runnable_closer:
  assumes "lc_inv lc" "c < MAXIMUM_PROCESSES" "ps_phase (lc_slots lc ! c) = Running"
    "j < MAXIMUM_PROCESSES" "ps_phase (lc_slots lc ! j) = Runnable"
  shows "\<exists>t. next_runnable_index c lc = Some t \<and> (t = j \<or> ahead t j < ahead c j)"
proof -
  note len = lc_inv_length [OF assms(1)]
  have occ: "ps_occupied (lc_slots lc ! j)" using lc_inv_slot [OF assms(1,4)] assms(5)
    by (auto simp: slot_ok_def split: if_splits)
  have "next_runnable_index c lc \<noteq> None"
    using cyclic_find_None [of _ c "lc_slots lc" j] occ assms(4,5) len by (auto simp: next_runnable_index_def)
  then obtain t where t: "next_runnable_index c lc = Some t" by blast
  have ne: "lc_slots lc \<noteq> []" using len by auto
  obtain k where k: "1 \<le> k" "t = (c + k) mod MAXIMUM_PROCESSES"
    and least: "\<And>l. 1 \<le> l \<Longrightarrow> l < k \<Longrightarrow> \<not> (ps_occupied (lc_slots lc ! ((c + l) mod MAXIMUM_PROCESSES)) \<and>
      ps_phase (lc_slots lc ! ((c + l) mod MAXIMUM_PROCESSES)) = Runnable)"
    using cyclic_find_Some [OF t [unfolded next_runnable_index_def] ne] len by auto
  have cj: "c \<noteq> j" using assms(3,5) by auto
  then have "1 \<le> ahead c j" using ahead_pos [OF assms(2,4)] by simp
  then have "\<not> ahead c j < k" using least [of "ahead c j"] ahead_nth [OF assms(2,4)] occ assms(5) by auto
  then consider "k = ahead c j" | "k < ahead c j" by linarith
  then show ?thesis
    using t k ahead_nth [OF assms(2,4)] ahead_closer [OF assms(2,4) k(1)] by cases auto
qed

lemma yields_reach:
  assumes "lc_inv lc" "c < MAXIMUM_PROCESSES" "ps_phase (lc_slots lc ! c) = Running"
    "j < MAXIMUM_PROCESSES" "ps_phase (lc_slots lc ! j) = Runnable"
    "\<And>ctx. ctx \<in> set ctxs \<Longrightarrow> context_validate ctx = Ok ()" "ahead c j \<le> length ctxs"
    "unat (lc_epoch lc) + ahead c j < 2 ^ 64"
  shows "\<exists>k \<le> ahead c j. \<exists>lc'. yields (take k ctxs) lc = Some lc' \<and> ps_phase (lc_slots lc' ! j) = Running"
  using assms
proof (induction "ahead c j" arbitrary: lc c ctxs rule: less_induct)
  case less
  have cj: "c \<noteq> j" using less.prems(3,5) by auto
  then have a: "1 \<le> ahead c j" using ahead_pos [OF less.prems(2,4)] by simp
  then obtain ctx rest where ctxs: "ctxs = ctx # rest" using less.prems(7) by (cases ctxs) auto
  have "lc_epoch lc \<noteq> - 1"
    using less.prems(8) a room_for_one [of "lc_epoch lc"] by auto
  with less.prems(6) ctxs obtain s lc' t where y: "schedule_yield ctx lc = (Ok s, lc')"
    and t: "t = (case next_runnable_index c lc of None \<Rightarrow> c | Some t \<Rightarrow> t)" "t < MAXIMUM_PROCESSES"
    and run: "ps_phase (lc_slots lc' ! t) = Running" and e: "unat (lc_epoch lc') = unat (lc_epoch lc) + 1"
    and rest: "\<And>j. j \<noteq> c \<Longrightarrow> j \<noteq> t \<Longrightarrow> lc_slots lc' ! j = lc_slots lc ! j"
    using yield_total [OF less.prems(1,2,3), of ctx] by (metis list.set_intros(1))
  from next_runnable_closer [OF less.prems(1-5)] t have "t = j \<or> ahead t j < ahead c j" by auto
  then consider "t = j" | "t \<noteq> j" "ahead t j < ahead c j" by blast
  then show ?case
  proof cases
    case 1
    then show ?thesis using y run ctxs a by (intro exI [of _ 1]) auto
  next
    case 2
    have inv: "lc_inv lc'" using lc_inv_yield [OF less.prems(1) y] .
    have j: "ps_phase (lc_slots lc' ! j) = Runnable" using rest cj 2 less.prems(5) by simp
    have "\<exists>k \<le> ahead t j. \<exists>lc2. yields (take k rest) lc' = Some lc2 \<and> ps_phase (lc_slots lc2 ! j) = Running"
      using less.hyps [OF 2(2) inv t(2) run less.prems(4) j] less.prems(6,7,8) ctxs e 2(2) by auto
    then obtain k lc2 where "k \<le> ahead t j" "yields (take k rest) lc' = Some lc2" "ps_phase (lc_slots lc2 ! j) = Running"
      by blast
    then show ?thesis using y ctxs 2(2) by (intro exI [of _ "Suc k"]) auto
  qed
qed

section \<open>Process identifiers never run out\<close>

definition used_pids :: "process_slot list \<Rightarrow> u32 set" where
  "used_pids slots = ps_pid ` {s \<in> set slots. ps_occupied s}"

definition next_candidate :: "u32 \<Rightarrow> u32" where
  "next_candidate c = max (c + 1) 2"

lemma next_candidate_unat:
  assumes "2 \<le> unat c"
  shows "2 \<le> unat (next_candidate c) \<and>
    unat (next_candidate c) - 2 = (unat c - 2 + 1) mod (2 ^ 32 - 2)"
proof (cases "c = - 1")
  case True
  then show ?thesis by (simp add: next_candidate_def unat_max_word max_def)
next
  case False
  then have u: "unat (c + 1) = unat c + 1" "unat c + 1 < 2 ^ 32"
    using room_for_one [of c] by (simp_all add: unat_word_ariths)
  then have "next_candidate c = c + 1" using assms by (simp add: next_candidate_def max_def word_le_nat_alt)
  moreover have "(unat c - 2 + 1) mod (2 ^ 32 - 2) = unat c - 2 + 1" using u(2) by (intro mod_less) simp
  ultimately show ?thesis using u(1) assms by simp
qed

lemma candidates_unat:
  assumes "2 \<le> unat c"
  shows "2 \<le> unat ((next_candidate ^^ i) c) \<and>
    unat ((next_candidate ^^ i) c) - 2 = (unat c - 2 + i) mod (2 ^ 32 - 2)"
proof (induction i)
  case 0
  have "unat c - 2 < 2 ^ 32 - 2" using assms unsigned_less [of c, where ?'a = nat] by simp
  then show ?case using assms by simp
next
  case (Suc i)
  from next_candidate_unat [of "(next_candidate ^^ i) c"] Suc.IH
  show ?case by (simp add: mod_Suc_eq)
qed

lemma candidates_distinct:
  assumes "2 \<le> unat c" "n < 2 ^ 32 - 2"
  shows "inj_on (\<lambda>i. (next_candidate ^^ i) c) {..<n}"
proof (rule inj_onI)
  fix i j
  assume ij: "i \<in> {..<n}" "j \<in> {..<n}" "(next_candidate ^^ i) c = (next_candidate ^^ j) c"
  then have "(unat c - 2 + i) mod (2 ^ 32 - 2) = (unat c - 2 + j) mod (2 ^ 32 - 2)"
    using candidates_unat [OF assms(1)] by metis
  then show "i = j" using mod_add_inj ij(1,2) assms(2) by (meson lessThan_iff less_trans)
qed

lemma allocate_pid_loop_None:
  "allocate_pid_loop n slots next = (None, next') \<Longrightarrow>
    \<forall>i < n. (next_candidate ^^ i) (max next 2) \<in> used_pids slots"
proof (induction n arbitrary: "next")
  case (Suc n)
  let ?c = "max next 2"
  have ex: "list_ex (\<lambda>slot. ps_occupied slot \<and> ps_pid slot = ?c) slots"
    and r: "allocate_pid_loop n slots (next_candidate ?c) = (None, next')"
    using Suc.prems by (auto simp: Let_def next_candidate_def split: if_splits)
  from ex obtain s where s: "s \<in> set slots" "ps_occupied s" "ps_pid s = ?c" by (auto simp: list_ex_iff)
  have "ps_pid s \<in> used_pids slots" unfolding used_pids_def using s(1,2) by blast
  with s(3) have c: "?c \<in> used_pids slots" by simp
  have "max (next_candidate ?c) 2 = next_candidate ?c" by (simp add: next_candidate_def)
  with Suc.IH [OF r] have t: "\<forall>i < n. (next_candidate ^^ i) (next_candidate ?c) \<in> used_pids slots" by simp
  show ?case
  proof (intro allI impI)
    fix i
    assume "i < Suc n"
    then show "(next_candidate ^^ i) ?c \<in> used_pids slots"
      using c t by (cases i) (simp_all add: funpow_Suc_right del: funpow.simps)
  qed
qed simp

lemma allocate_pid_total:
  assumes "length (lc_slots lc) = MAXIMUM_PROCESSES"
  obtains pid lc' where "allocate_pid lc = (Some pid, lc')"
proof (cases "fst (allocate_pid lc)")
  case None
  let ?c = "max (lc_next_pid lc) 2" and ?n = "MAXIMUM_PROCESSES + 1"
  obtain n' where "allocate_pid_loop ?n (lc_slots lc) (lc_next_pid lc) = (None, n')"
    using None by (auto simp: allocate_pid_def split: prod.splits)
  from allocate_pid_loop_None [OF this]
  have sub: "(\<lambda>i. (next_candidate ^^ i) ?c) ` {..<?n} \<subseteq> used_pids (lc_slots lc)" by blast
  have fin: "finite (used_pids (lc_slots lc))" by (simp add: used_pids_def)
  have "2 \<le> unat ?c" by (simp add: max_def word_le_nat_alt)
  then have "card ((\<lambda>i. (next_candidate ^^ i) ?c) ` {..<?n}) = ?n"
    using candidates_distinct [of ?c ?n] by (simp add: card_image)
  moreover have "card (used_pids (lc_slots lc)) \<le> MAXIMUM_PROCESSES"
  proof -
    have "card (used_pids (lc_slots lc)) \<le> card {s \<in> set (lc_slots lc). ps_occupied s}"
      unfolding used_pids_def by (rule card_image_le) simp
    also have "\<dots> \<le> card (set (lc_slots lc))" by (rule card_mono) auto
    also have "\<dots> \<le> MAXIMUM_PROCESSES" using card_length assms by metis
    finally show ?thesis .
  qed
  ultimately show thesis using card_mono [OF fin sub] by simp
next
  case (Some pid)
  then show thesis using that by (metis prod.collapse)
qed

section \<open>Group exit\<close>

lemma exit_group_slots:
  assumes "lc_inv lc" "schedule_exit_group code lc = (Ok d, lc')" "caller_index lc = Ok c"
    "i < MAXIMUM_PROCESSES" "ps_occupied (lc_slots lc' ! i)"
    "ps_thread_group (lc_slots lc' ! i) = ps_thread_group (lc_slots lc ! c)"
  shows "ps_phase (lc_slots lc' ! i) = Zombie \<and> ps_exit_code (lc_slots lc' ! i) = code \<and>
    ps_pid (lc_slots lc' ! i) = ps_thread_group (lc_slots lc' ! i)"
  using assms(2)
proof (cases rule: exit_group_left)
  case (1 c' l e)
  let ?g = "ps_thread_group (lc_slots lc ! c)"
  have c: "c' = c" using 1(1) assms(3) by simp
  note len = lc_inv_length [OF assms(1)]
  have l: "ps_pid (lc_slots lc ! l) = ?g" using 1(3) c by (auto simp: group_leader_def position_Some_iff)
  have mem: "exit_members ?g l code e (lc_slots lc) ! i = exit_member ?g l code e i (lc_slots lc ! i)"
    using assms(4) len by (simp add: nth_exit_members)
  have gone: "ps_phase (exit_member ?g l code e i s) = Zombie \<and> ps_exit_code (exit_member ?g l code e i s) = code \<and>
      i = l \<and> ps_pid (exit_member ?g l code e i s) = ps_pid s"
    if "ps_occupied (exit_member ?g l code e i s)" "ps_thread_group (exit_member ?g l code e i s) = ?g" for s
    using that by (auto simp: exit_member_def split: if_splits)
  from 1(5) show ?thesis
  proof (cases rule: leaves_cases)
    case (idle e')
    then have "lc_slots lc' ! i = exit_member ?g l code e i (lc_slots lc ! i)" using mem c by simp
    with gone [of "lc_slots lc ! i"] assms(5,6) l show ?thesis by auto
  next
    case (dispatched t e' s)
    have "lc_slots lc \<noteq> []" using len by auto
    from cyclic_find_Some [OF dispatched(1) this] have tg: "ps_thread_group (lc_slots lc ! t) \<noteq> ?g" "t < length (lc_slots lc)"
      using c by auto
    then have "ps_thread_group (lc_slots lc' ! t) \<noteq> ?g"
      using dispatched(6) c by (simp add: nth_exit_members exit_member_facts(4))
    then have "i \<noteq> t" using assms(6) by auto
    then have "lc_slots lc' ! i = exit_member ?g l code e i (lc_slots lc ! i)" using dispatched(6) mem c by simp
    with gone [of "lc_slots lc ! i"] assms(5,6) l show ?thesis by auto
  qed
qed

section \<open>Zombies\<close>

lemma zombie_or_older:
  assumes "lc_step\<^sup>*\<^sup>* lc lc'" "lc_inv lc" "i < MAXIMUM_PROCESSES" "ps_phase (lc_slots lc ! i) = Zombie"
  shows "ps_phase (lc_slots lc' ! i) = Zombie \<and> ps_occupied (lc_slots lc' ! i) \<and>
      slot_handle (lc_slots lc' ! i) = slot_handle (lc_slots lc ! i) \<or>
    2 * unat (ps_generation (lc_slots lc ! i)) + 1 < slot_age (lc_slots lc' ! i)"
  using lc_run_steps [OF assms(1,2)]
proof (induction rule: rtranclp_induct)
  case base
  then show ?case using lc_inv_slot [OF assms(2,3)] assms(4) by (auto simp: slot_ok_def split: if_splits)
next
  case (step lc1 lc2)
  note mv = lc_run_slot [OF step.hyps(2) assms(3)]
  from step.IH show ?case
  proof
    assume z: "ps_phase (lc_slots lc1 ! i) = Zombie \<and> ps_occupied (lc_slots lc1 ! i) \<and>
      slot_handle (lc_slots lc1 ! i) = slot_handle (lc_slots lc ! i)"
    then have "slot_age (lc_slots lc1 ! i) = 2 * unat (ps_generation (lc_slots lc ! i)) + 1"
      by (simp add: slot_age_def slot_handle_def)
    with mv z slot_age_retired [of "lc_slots lc1 ! i"] show ?thesis
      by (auto simp: slot_move_def free_slot_def)
  next
    assume "2 * unat (ps_generation (lc_slots lc ! i)) + 1 < slot_age (lc_slots lc1 ! i)"
    then show ?thesis using slot_age_move [OF mv] by linarith
  qed
qed

end
