(* ===== verification/FutexKernel.thy ===== *)
theory FutexKernel
  imports Futex Scheduler
begin

text \<open>
  The futex table and the process table together, as the syscall layer of
  \<^verbatim>\<open>src/src/syscalls.rs\<close> composes them: waiting blocks the caller, waking makes processes
  runnable, and every exit path first takes the exiting threads out of the futex table and
  performs the wakes that their robust lists and clear-on-exit words request. The theorems
  state that the waiters are at all times exactly the blocked processes, so that no blocked
  process is ever lost and no other process is ever waiting, and that a wake makes the
  earliest waiters runnable, as many as it was asked for.
\<close>

section \<open>Blocked processes\<close>

definition blocked_handles :: "process_slot list \<Rightarrow> process_handle set" where
  "blocked_handles slots = (\<lambda>i. slot_handle (slots ! i)) ` {i. i < length slots \<and> ps_phase (slots ! i) = Blocked}"

definition lc_phase :: "lifecycle \<Rightarrow> process_handle \<Rightarrow> process_phase option" where
  "lc_phase lc h = map_option (\<lambda>i. ps_phase (lc_slots lc ! i)) (slot_by_handle h lc)"

lemma slot_by_handle_self:
  assumes "lc_inv lc" "i < MAXIMUM_PROCESSES" "ps_occupied (lc_slots lc ! i)"
  shows "slot_by_handle (slot_handle (lc_slots lc ! i)) lc = Some i"
  unfolding slot_by_handle_def
  by (rule position_unique)
    (use assms lc_inv_length [OF assms(1)] lc_inv_pid_unique [OF assms(1)] in
      \<open>auto simp: slot_matches_def slot_handle_def\<close>)

lemma blocked_occupied:
  assumes "lc_inv lc" "i < MAXIMUM_PROCESSES" "ps_phase (lc_slots lc ! i) = Blocked"
  shows "ps_occupied (lc_slots lc ! i) \<and> valid_owner (slot_handle (lc_slots lc ! i))"
  using lc_inv_slot [OF assms(1,2)] assms(3)
  by (auto simp: slot_ok_def valid_owner_def slot_handle_def split: if_splits)

lemma lc_phase_blocked:
  assumes "lc_inv lc"
  shows "lc_phase lc h = Some Blocked \<longleftrightarrow> h \<in> blocked_handles (lc_slots lc)"
proof
  assume "lc_phase lc h = Some Blocked"
  then obtain i where i: "slot_by_handle h lc = Some i" "ps_phase (lc_slots lc ! i) = Blocked"
    by (auto simp: lc_phase_def)
  have "slot_handle (lc_slots lc ! i) = h"
    using slot_by_handle_Some [OF i(1)] by (simp add: slot_handle_def)
  then show "h \<in> blocked_handles (lc_slots lc)"
    using i(2) named_in_table(1) [OF assms i(1)] lc_inv_length [OF assms] by (auto simp: blocked_handles_def)
next
  assume "h \<in> blocked_handles (lc_slots lc)"
  then obtain i where i: "i < MAXIMUM_PROCESSES" "ps_phase (lc_slots lc ! i) = Blocked" "h = slot_handle (lc_slots lc ! i)"
    using lc_inv_length [OF assms] by (auto simp: blocked_handles_def)
  then show "lc_phase lc h = Some Blocked"
    using slot_by_handle_self [OF assms i(1)] blocked_occupied [OF assms i(1,2)] by (simp add: lc_phase_def)
qed

text \<open>Updates that neither block nor unblock.\<close>

lemma blocked_handles_keep:
  assumes "ps_phase (slots ! i) \<noteq> Blocked" "ps_phase s \<noteq> Blocked"
  shows "blocked_handles (slots[i := s]) = blocked_handles slots"
proof -
  have "(ps_phase (slots[i := s] ! j) = Blocked) = (ps_phase (slots ! j) = Blocked)" for j
    using assms by (auto simp: nth_update)
  moreover have "slots[i := s] ! j = slots ! j" if "ps_phase (slots ! j) = Blocked" for j
    using assms that by (auto simp: nth_update)
  ultimately show ?thesis unfolding blocked_handles_def by (intro image_cong) auto
qed

lemma blocked_handles_add:
  assumes "i < length slots" "ps_phase (slots ! i) \<noteq> Blocked" "ps_phase s = Blocked"
  shows "blocked_handles (slots[i := s]) = insert (slot_handle s) (blocked_handles slots)"
proof -
  let ?B = "\<lambda>xs. {j. j < length xs \<and> ps_phase (xs ! j) = Blocked}"
  have b: "?B (slots[i := s]) = insert i (?B slots)" using assms by (auto simp: nth_update)
  have "(\<lambda>j. slot_handle (slots[i := s] ! j)) ` ?B slots = (\<lambda>j. slot_handle (slots ! j)) ` ?B slots"
    using assms(2) by (intro image_cong) (auto simp: nth_update)
  with b show ?thesis using assms(1) by (simp add: blocked_handles_def)
qed

section \<open>The scheduler as the queue's waker\<close>

lemma slot_by_handle_phase:
  "slot_by_handle h (set_slot i ((lc_slots lc ! i)\<lparr>ps_phase := p\<rparr>) lc) = slot_by_handle h lc"
  by (simp add: slot_by_handle_def position_update slot_matches_def)

interpretation lcw: waker mark_runnable lc_phase
proof
  fix h lc u lc'
  assume "mark_runnable h lc = (Ok u, lc')"
  then obtain i where i: "slot_by_handle h lc = Some i"
    and lc': "lc' = set_slot i ((lc_slots lc ! i)\<lparr>ps_phase := Runnable\<rparr>) lc"
    by (auto simp: mark_runnable_def split: rust_splits)
  note s = slot_by_handle_Some [OF i]
  have "lc_phase lc' h' = lc_phase lc h'" if "h' \<noteq> h" for h'
  proof (cases "slot_by_handle h' lc")
    case None
    then show ?thesis by (simp add: lc_phase_def lc' slot_by_handle_phase)
  next
    case (Some j)
    have "j \<noteq> i"
    proof
      assume "j = i"
      then have "h' = h" using slot_by_handle_Some [OF Some] s by (cases h; cases h') simp
      with that show False by simp
    qed
    then show ?thesis using Some by (simp add: lc_phase_def lc' slot_by_handle_phase)
  qed
  moreover have "lc_phase lc' h = Some Runnable"
    using i s by (simp add: lc_phase_def lc' slot_by_handle_phase)
  ultimately show "lc_phase lc' h = Some Runnable \<and> (\<forall>h'. h' \<noteq> h \<longrightarrow> lc_phase lc' h' = lc_phase lc h')" by blast
next
  fix h lc e lc'
  assume "mark_runnable h lc = (Err e, lc')"
  then show "lc' = lc" by (auto simp: mark_runnable_def split: rust_splits)
next
  fix lc h
  assume "lc_phase lc h = Some Blocked" "valid_owner h"
  then show "\<exists>lc'. mark_runnable h lc = (Ok (), lc')"
    by (auto simp: lc_phase_def mark_runnable_def valid_owner_def NO_PID_def split: option.splits)
qed

section \<open>Composition\<close>

type_synonym futex_kernel = "futex_table \<times> lifecycle"

text \<open>The wakes that an exiting thread requests, one per address; the addresses come from its
  robust list and its clear-on-exit word in user memory.\<close>

fun exit_wakes :: "u64 list \<Rightarrow> futex_kernel \<Rightarrow> futex_kernel" where
  "exit_wakes [] k = k"
| "exit_wakes (address # addresses) (ft, lc) = exit_wakes addresses (snd (wake_current address 1 ft lc))"

definition cleanup_futexes :: "process_handle \<Rightarrow> u64 list \<Rightarrow> futex_kernel \<Rightarrow> futex_kernel" where
  "cleanup_futexes exiting addresses k =
     exit_wakes addresses (snd (cancel_wait exiting (fst k)), snd k)"

fun cleanup_members :: "(process_handle \<times> u64 list) list \<Rightarrow> futex_kernel \<Rightarrow> futex_kernel" where
  "cleanup_members [] k = k"
| "cleanup_members ((owner, addresses) # members) k =
     cleanup_members members (cleanup_futexes owner addresses k)"

text \<open>One step of the kernel: a futex call, an exit with its cleanup, or a lifecycle operation
  that neither blocks nor wakes. An exit whose scheduling fails halts the kernel.\<close>

inductive futex_step :: "futex_kernel \<Rightarrow> futex_kernel \<Rightarrow> bool" where
  waited: "wait_current address expected saved (word :: (u32, unit) result) ft lc = (r1, k) \<Longrightarrow> futex_step (ft, lc) k"
| woke: "wake_current address maximum ft lc = (r2, k) \<Longrightarrow> futex_step (ft, lc) k"
| exited: "current_handle lc = Some h \<Longrightarrow> cleanup_futexes h addresses (ft, lc) = (ft', lc1) \<Longrightarrow>
    schedule_exit code lc1 = (Ok d, lc') \<Longrightarrow> futex_step (ft, lc) (ft', lc')"
| thread_exited: "current_handle lc = Some h \<Longrightarrow> cleanup_futexes h addresses (ft, lc) = (ft', lc1) \<Longrightarrow>
    schedule_thread_exit lc1 = (Ok d, lc') \<Longrightarrow> futex_step (ft, lc) (ft', lc')"
| group_exited: "current_thread_group_handles lc = Ok (leader, handles) \<Longrightarrow> map fst members = handles \<Longrightarrow>
    cleanup_members members (ft, lc) = (ft', lc1) \<Longrightarrow>
    schedule_exit_group code lc1 = (Ok d, lc') \<Longrightarrow> futex_step (ft, lc) (ft', lc')"
| init_registered: "register_init launch lc = (r3, lc') \<Longrightarrow> futex_step (ft, lc) (ft, lc')"
| child_committed: "commit_child parent launch lc = (r3, lc') \<Longrightarrow> futex_step (ft, lc) (ft, lc')"
| thread_cloned: "clone_current_thread ctx sp fs lc = (r4, lc') \<Longrightarrow> futex_step (ft, lc) (ft, lc')"
| thread_discarded: "discard_runnable_thread h lc = (r5, lc') \<Longrightarrow> futex_step (ft, lc) (ft, lc')"
| marked_running: "mark_running h lc = (r6, lc') \<Longrightarrow> futex_step (ft, lc) (ft, lc')"
| resumed: "resume_current ctx lc = (r7, lc') \<Longrightarrow> futex_step (ft, lc) (ft, lc')"
| image_replaced: "current_handle lc = Some h \<Longrightarrow> replace_current_image root entry sp measurement lc = (Ok s, lc') \<Longrightarrow>
    futex_step (ft, lc) (snd (cancel_wait h ft), lc')"
| fs_base_set: "set_current_fs_base fs lc = (r5, lc') \<Longrightarrow> futex_step (ft, lc) (ft, lc')"
| yielded: "schedule_yield ctx lc = (r7, lc') \<Longrightarrow> futex_step (ft, lc) (ft, lc')"
| preempted: "schedule_preempt ctx authority lc = (r7, lc') \<Longrightarrow> futex_step (ft, lc) (ft, lc')"
| from_pid0: "schedule_from_pid0 idle lc = (r8, lc') \<Longrightarrow> futex_step (ft, lc) (ft, lc')"
| reaped: "reap_child ppid h lc = (r9, lc') \<Longrightarrow> futex_step (ft, lc) (ft, lc')"

section \<open>Operations that neither block nor wake\<close>

lemma free_not_blocked:
  assumes "lc_inv lc" "position free_slot (lc_slots lc) = Some i"
  shows "ps_phase (lc_slots lc ! i) \<noteq> Blocked"
  using free_slot_facts [OF assms(2)] blocked_occupied [OF assms(1), of i] lc_inv_length [OF assms(1)]
  by (auto simp: free_slot_def)

lemma blocked_register:
  "register_init l lc = (r, lc') \<Longrightarrow> lc_inv lc \<Longrightarrow> blocked_handles (lc_slots lc') = blocked_handles (lc_slots lc)"
  by (auto simp: register_init_def Let_def admitted_slot_def blocked_handles_keep dest: free_not_blocked split: rust_splits)

lemma blocked_commit:
  assumes "commit_child p l lc = (r, lc')" "lc_inv lc"
  shows "blocked_handles (lc_slots lc') = blocked_handles (lc_slots lc)"
proof (cases "allocate_pid lc")
  case (Pair q lc1)
  have s: "lc_slots lc1 = lc_slots lc" using allocate_pid_slots [OF Pair] by simp
  have "lc' = lc \<or> lc' = lc1 \<or> (\<exists>i s. lc_slots lc' = (lc_slots lc)[i := s] \<and>
      position free_slot (lc_slots lc) = Some i \<and> (ps_phase s = Runnable \<or> ps_phase s = ps_phase (lc_slots lc ! i)))"
    using assms(1) by (auto simp: commit_child_def Let_def Pair s admitted_slot_def split: rust_splits)
  then consider "lc_slots lc' = lc_slots lc" | i s' where "lc_slots lc' = (lc_slots lc)[i := s']"
      "position free_slot (lc_slots lc) = Some i" "ps_phase s' = Runnable \<or> ps_phase s' = ps_phase (lc_slots lc ! i)"
    using s by metis
  then show ?thesis
  proof cases
    case (2 i s')
    have "ps_phase s' \<noteq> Blocked" using 2(3) free_not_blocked [OF assms(2) 2(2)] by auto
    with free_not_blocked [OF assms(2) 2(2)] show ?thesis by (simp add: 2(1) blocked_handles_keep)
  qed simp
qed

lemma blocked_clone:
  assumes "clone_current_thread ctx sp fs lc = (r, lc')" "lc_inv lc"
  shows "blocked_handles (lc_slots lc') = blocked_handles (lc_slots lc)"
proof (cases r)
  case (Ok x)
  from assms(1) [unfolded Ok] show ?thesis
  proof (cases rule: clone_cloned)
    case (1 c p lc1 i g e)
    note s = allocate_pid_slots [OF 1(3)]
    have "ps_phase (lc_slots lc ! i) \<noteq> Blocked" using free_not_blocked [OF assms(2)] 1(4) s by simp
    then show ?thesis
      using 1(2,10,12) s by (simp add: blocked_handles_keep cloned_slot_def nth_update)
  qed
next
  case (Err e)
  then show ?thesis using clone_refused [of ctx sp fs lc e lc'] assms(1) allocate_pid_slots [of lc] by auto
qed

lemma blocked_discard: "discard_runnable_thread h lc = (r, lc') \<Longrightarrow> blocked_handles (lc_slots lc') = blocked_handles (lc_slots lc)"
  by (auto simp: discard_runnable_thread_def Let_def simp: blocked_handles_keep split: rust_splits)

lemma blocked_running: "mark_running h lc = (r, lc') \<Longrightarrow> blocked_handles (lc_slots lc') = blocked_handles (lc_slots lc)"
  by (auto simp: mark_running_def Let_def simp: blocked_handles_keep split: rust_splits)

lemma blocked_resume: "resume_current ctx lc = (r, lc') \<Longrightarrow> blocked_handles (lc_slots lc') = blocked_handles (lc_slots lc)"
  by (auto simp: resume_current_def Let_def simp: blocked_handles_keep split: rust_splits)

lemma blocked_replace:
  assumes "replace_current_image a b c d lc = (r, lc')"
  shows "blocked_handles (lc_slots lc') = blocked_handles (lc_slots lc)"
  using assms
  by (auto simp: replace_current_image_def Let_def dest!: replacement_index_Ok simp: blocked_handles_keep split: rust_splits)

lemma blocked_fs_base: "set_current_fs_base f lc = (r, lc') \<Longrightarrow> blocked_handles (lc_slots lc') = blocked_handles (lc_slots lc)"
  by (auto simp: set_current_fs_base_def simp: blocked_handles_keep split: rust_splits)

lemma blocked_reap: "reap_child p h lc = (r, lc') \<Longrightarrow> blocked_handles (lc_slots lc') = blocked_handles (lc_slots lc)"
  by (auto simp: reap_child_def Let_def simp: blocked_handles_keep split: rust_splits)

lemma blocked_switch:
  assumes "switch_from c saved lc = (r, lc')" "c < length (lc_slots lc)" "ps_phase (lc_slots lc ! c) = Running"
  shows "blocked_handles (lc_slots lc') = blocked_handles (lc_slots lc)"
proof (cases r)
  case (Ok s)
  from assms(1) [unfolded Ok] show ?thesis
  proof (cases rule: switch_switched)
    case (1 t e)
    have "ps_phase (lc_slots lc ! t) \<noteq> Blocked"
      using 1(1) assms(2,3) next_runnable_index_Some [of c lc t] by (auto split: option.splits)
    then show ?thesis using assms(3) 1(5) by (simp add: blocked_handles_keep nth_update)
  qed
next
  case (Err e)
  with assms show ?thesis by (auto dest: switch_refused)
qed

lemma blocked_yield: "schedule_yield saved lc = (r, lc') \<Longrightarrow> blocked_handles (lc_slots lc') = blocked_handles (lc_slots lc)"
  by (auto simp: schedule_yield_def Let_def dest!: caller_index_Ok dest: blocked_switch split: rust_splits)

lemma blocked_preempt: "schedule_preempt saved a lc = (r, lc') \<Longrightarrow> blocked_handles (lc_slots lc') = blocked_handles (lc_slots lc)"
  by (auto simp: schedule_preempt_def dest!: slot_by_handle_Some dest: blocked_switch split: rust_splits)

text \<open>Leaving the processor: the successor was runnable.\<close>

lemma blocked_leaves:
  assumes "leaves pick lc lc1 d lc'" "\<And>t. pick = Some t \<Longrightarrow> ps_phase (lc_slots lc1 ! t) \<noteq> Blocked"
  shows "blocked_handles (lc_slots lc') = blocked_handles (lc_slots lc1)"
  using assms(1)
proof (cases rule: leaves_cases)
  case (dispatched t e s)
  then show ?thesis using assms(2) by (simp add: blocked_handles_keep)
qed simp

lemma blocked_leave:
  assumes "leave_cpu leave c lc = (Ok d, lc')" "c < length (lc_slots lc)" "ps_phase (lc_slots lc ! c) = Running"
  shows "\<exists>e. blocked_handles (lc_slots lc') = blocked_handles ((lc_slots lc)[c := leave (lc_slots lc ! c) e])"
proof -
  from leave_left [OF assms(1)] obtain e where
    l: "leaves (next_runnable_index c lc) lc (set_slot c (leave (lc_slots lc ! c) e) lc) d lc'" by blast
  have "ps_phase (lc_slots (set_slot c (leave (lc_slots lc ! c) e) lc) ! t) \<noteq> Blocked"
    if "next_runnable_index c lc = Some t" for t
    using next_runnable_index_Some [OF that assms(2)] assms(3) by (cases "t = c") (auto simp: nth_update)
  from blocked_leaves [OF l this] show ?thesis by auto
qed

lemma blocked_exit:
  assumes "schedule_exit code lc = (Ok d, lc')"
  shows "blocked_handles (lc_slots lc') = blocked_handles (lc_slots lc)"
proof -
  from assms obtain c where c: "caller_index lc = Ok c" "ps_phase (lc_slots lc ! c) = Running"
    and l: "leave_cpu (\<lambda>slot e. slot\<lparr>ps_phase := Zombie, ps_exit_code := code, ps_wait_sequence := e\<rparr>) c lc = (Ok d, lc')"
    by (auto simp: schedule_exit_def split: rust_splits)
  from blocked_leave [OF l _ c(2)] caller_index_Ok [OF c(1)] c(2) show ?thesis
    by (auto simp: blocked_handles_keep)
qed

lemma blocked_thread_exit:
  assumes "schedule_thread_exit lc = (Ok d, lc')"
  shows "blocked_handles (lc_slots lc') = blocked_handles (lc_slots lc)"
proof -
  from assms obtain c where c: "caller_index lc = Ok c" "ps_phase (lc_slots lc ! c) = Running"
    and l: "leave_cpu (\<lambda>slot e. retired_slot slot) c lc = (Ok d, lc')"
    by (auto simp: schedule_thread_exit_def split: rust_splits)
  from blocked_leave [OF l _ c(2)] caller_index_Ok [OF c(1)] c(2) show ?thesis
    by (auto simp: blocked_handles_keep)
qed

lemma blocked_from_pid0:
  assumes "schedule_from_pid0 a lc = (r, lc')"
  shows "blocked_handles (lc_slots lc') = blocked_handles (lc_slots lc)"
proof (cases r)
  case (Ok d)
  from from_pid0_left [OF assms [unfolded Ok]] show ?thesis
    by (intro blocked_leaves) (auto simp: position_Some_iff)
next
  case (Err e)
  with assms show ?thesis by (auto dest: from_pid0_refused)
qed

text \<open>Blocking adds exactly the caller.\<close>

lemma blocked_block:
  assumes "schedule_block saved lc = (Ok d, lc')" "caller_index lc = Ok c"
  shows "blocked_handles (lc_slots lc') = insert (slot_handle (lc_slots lc ! c)) (blocked_handles (lc_slots lc))"
proof -
  from assms have c: "ps_phase (lc_slots lc ! c) = Running"
    and l: "leave_cpu (\<lambda>slot e. slot\<lparr>ps_context := saved, ps_phase := Blocked, ps_wait_sequence := e\<rparr>) c lc = (Ok d, lc')"
    by (auto simp: schedule_block_def split: rust_splits)
  from blocked_leave [OF l _ c] caller_index_Ok [OF assms(2)] c show ?thesis
    by (auto simp: blocked_handles_add)
qed

lemma block_refused: "schedule_block saved lc = (Err e, lc') \<Longrightarrow> lc' = lc"
  by (auto simp: schedule_block_def dest: leave_refused split: rust_splits)

section \<open>Waiters are the blocked processes\<close>

text \<open>The owners of the table are the blocked processes but for those in \<open>D\<close>, which have
  already been taken out by the exit of their group.\<close>

definition waiters_ok :: "process_handle set \<Rightarrow> futex_kernel \<Rightarrow> bool" where
  "waiters_ok D k \<longleftrightarrow> futex_inv (fst k) \<and> lc_inv (snd k) \<and>
     fst ` set (futex_queue (fst k)) = blocked_handles (lc_slots (snd k)) - D"

text \<open>What waking leaves alone.\<close>

definition slot_ident :: "process_slot \<Rightarrow> bool \<times> process_handle \<times> u32" where
  "slot_ident slot = (ps_occupied slot, slot_handle slot, ps_thread_group slot)"

definition same_idents :: "lifecycle \<Rightarrow> lifecycle \<Rightarrow> bool" where
  "same_idents lc lc' \<longleftrightarrow> lc_current lc' = lc_current lc \<and>
     map slot_ident (lc_slots lc') = map slot_ident (lc_slots lc)"

lemma same_idents_refl [simp]: "same_idents lc lc"
  by (simp add: same_idents_def)

lemma same_idents_trans: "same_idents lc lc' \<Longrightarrow> same_idents lc' lc'' \<Longrightarrow> same_idents lc lc''"
  by (simp add: same_idents_def)

lemma mark_runnable_idents: "mark_runnable h lc = (r, lc') \<Longrightarrow> same_idents lc lc'"
  by (auto simp: mark_runnable_def same_idents_def map_update slot_ident_def slot_handle_def list_update_same_conv
      split: rust_splits dest: slot_by_handle_Some intro!: nth_equalityI simp: nth_update)

lemma queue_owner_distinct: "futex_inv ft \<Longrightarrow> distinct (map fst (futex_queue ft))"
  using futex_line_distinct(2) [of ft] by (simp add: futex_queue_def o_def)

lemma waiting_owners: "h \<in> set (waiting_on key q) \<Longrightarrow> h \<in> fst ` set q"
  by (auto simp: waiting_on_def)

lemma blocked_valid: "lc_inv lc \<Longrightarrow> h \<in> blocked_handles (lc_slots lc) \<Longrightarrow> valid_owner h"
  using blocked_occupied lc_inv_length by (fastforce simp: blocked_handles_def)

lemma wake_effect:
  assumes "waiters_ok D (ft, lc)" "current_owner_and_key address lc = Ok (owner, key)"
    "wake_current address maximum ft lc = (r, ft', lc')"
    "m = min maximum (length (waiting_on key (futex_queue ft)))"
  shows "r = Ok m \<and> futex_inv ft' \<and> futex_queue ft' = fifo_drop key m (futex_queue ft) \<and> lc_inv lc' \<and> same_idents lc lc' \<and>
    (\<forall>h. lc_phase lc' h = (if h \<in> set (take m (waiting_on key (futex_queue ft))) then Some Runnable else lc_phase lc h))"
proof -
  have inv: "futex_inv ft" "lc_inv lc" and ow: "fst ` set (futex_queue ft) = blocked_handles (lc_slots lc) - D"
    using assms(1) by (simp_all add: waiters_ok_def)
  obtain n where l: "futex_wake_loop mark_runnable maximum key 0 ft lc = (n, ft', lc')" and r: "r = Ok n"
    using assms(2,3) by (auto simp: wake_current_def split: prod.splits)
  have "lc_phase lc h = Some Blocked \<and> valid_owner h" if "h \<in> set (waiting_on key (futex_queue ft))" for h
  proof -
    have "h \<in> blocked_handles (lc_slots lc)" using waiting_owners [OF that] ow by blast
    then show ?thesis using lc_phase_blocked [OF inv(2)] blocked_valid [OF inv(2)] by blast
  qed
  from lcw.wake_loop_exact [OF inv(1) this _ l] assms(4)
  have "futex_inv ft' \<and> n = m \<and> futex_queue ft' = fifo_drop key m (futex_queue ft) \<and>
    (\<forall>h. lc_phase lc' h = (if h \<in> set (take m (waiting_on key (futex_queue ft))) then Some Runnable else lc_phase lc h))"
    by simp
  moreover have "lc_inv lc' \<and> same_idents lc lc'"
  proof (rule wake_loop_preserves [OF _ _ l, where Q = "\<lambda>s. lc_inv s \<and> same_idents lc s"])
    show "lc_inv s' \<and> same_idents lc s'" if "mark_runnable h s = (r, s')" "lc_inv s \<and> same_idents lc s" for h s r s'
      using that lc_inv_mark_runnable mark_runnable_idents same_idents_trans by blast
  qed (simp add: inv)
  ultimately show ?thesis using r by blast
qed

lemma waiters_ok_wake:
  assumes "waiters_ok D (ft, lc)" "wake_current address maximum ft lc = (r, ft', lc')"
  shows "waiters_ok D (ft', lc') \<and> same_idents lc lc'"
proof (cases "current_owner_and_key address lc")
  case (Err e)
  then show ?thesis using assms by (auto simp: wake_current_def)
next
  case (Ok ok)
  obtain owner key where ok: "ok = (owner, key)" by (cases ok)
  let ?m = "min maximum (length (waiting_on key (futex_queue ft)))"
  let ?W = "set (take ?m (waiting_on key (futex_queue ft)))"
  note w = wake_effect [OF assms(1) Ok [unfolded ok] assms(2) refl]
  have inv: "futex_inv ft" "lc_inv lc" and ow: "fst ` set (futex_queue ft) = blocked_handles (lc_slots lc) - D"
    using assms(1) by (simp_all add: waiters_ok_def)
  have q: "fst ` set (futex_queue ft') = fst ` set (futex_queue ft) - ?W"
    using fifo_drop_owners [OF queue_owner_distinct [OF inv(1)]] w by simp
  have "h \<in> blocked_handles (lc_slots lc') \<longleftrightarrow> h \<in> blocked_handles (lc_slots lc) - ?W" for h
    using w lc_phase_blocked [OF inv(2), of h] lc_phase_blocked [of lc' h] by (auto split: if_splits)
  with q ow w show ?thesis by (auto simp: waiters_ok_def)
qed

lemma waiters_ok_cancel:
  assumes "waiters_ok D (ft, lc)"
  shows "waiters_ok (insert h D) (snd (cancel_wait h ft), lc)"
proof -
  have inv: "futex_inv ft" using assms by (simp add: waiters_ok_def)
  obtain b ft' where c: "futex_cancel h ft = (b, ft')" by (cases "futex_cancel h ft")
  note r = cancel_refines [OF inv c]
  have "fst ` set (fifo_remove h (futex_queue ft)) = fst ` set (futex_queue ft) - {h}"
    by (force simp: fifo_remove_def)
  then show ?thesis using assms r c by (auto simp: waiters_ok_def cancel_wait_def)
qed

lemma waiters_ok_wakes:
  assumes "waiters_ok D k"
  shows "waiters_ok D (exit_wakes addresses k) \<and> same_idents (snd k) (snd (exit_wakes addresses k))"
  using assms
proof (induction addresses k rule: exit_wakes.induct)
  case (2 address addresses ft lc)
  obtain r ft1 lc1 where w: "wake_current address 1 ft lc = (r, ft1, lc1)" by (cases "wake_current address 1 ft lc") auto
  note s = waiters_ok_wake [OF "2.prems" w]
  from "2.IH" s w same_idents_trans show ?case by fastforce
qed simp

lemma waiters_ok_cleanup:
  assumes "waiters_ok D k"
  shows "waiters_ok (insert h D) (cleanup_futexes h addresses k) \<and>
    same_idents (snd k) (snd (cleanup_futexes h addresses k))"
proof -
  have "waiters_ok (insert h D) (snd (cancel_wait h (fst k)), snd k)"
    using waiters_ok_cancel [of D "fst k" "snd k" h] assms by simp
  from waiters_ok_wakes [OF this, of addresses] show ?thesis by (simp add: cleanup_futexes_def)
qed

lemma waiters_ok_members:
  assumes "waiters_ok D k"
  shows "waiters_ok (fst ` set members \<union> D) (cleanup_members members k) \<and>
    same_idents (snd k) (snd (cleanup_members members k))"
  using assms
proof (induction members k arbitrary: D rule: cleanup_members.induct)
  case (2 owner addresses members k)
  note c = waiters_ok_cleanup [OF "2.prems", of owner addresses]
  from "2.IH" [OF conjunct1 [OF c]] c same_idents_trans show ?case by (auto simp: insert_commute Un_commute)
qed simp

text \<open>The running process is not blocked.\<close>

lemma running_not_blocked:
  assumes "lc_inv lc" "c < MAXIMUM_PROCESSES" "ps_phase (lc_slots lc ! c) = Running"
    "handle_decode (lc_current lc) = Some h"
  shows "h \<notin> blocked_handles (lc_slots lc)"
proof
  assume "h \<in> blocked_handles (lc_slots lc)"
  then obtain i where i: "i < MAXIMUM_PROCESSES" "ps_phase (lc_slots lc ! i) = Blocked" "h = slot_handle (lc_slots lc ! i)"
    using lc_inv_length [OF assms(1)] by (auto simp: blocked_handles_def)
  note r = lc_inv_running [OF assms(1-3)]
  have "handle_encode h = handle_encode (slot_handle (lc_slots lc ! c))"
    using handle_decode_Some [OF assms(4)] r by simp
  then have "h = slot_handle (lc_slots lc ! c)" using handle_encode_inject by blast
  then have "i = c"
    using lc_inv_pid_unique [OF assms(1) i(1) assms(2)] blocked_occupied [OF assms(1) i(1,2)] r i(3)
    by (simp add: slot_handle_def)
  with i(2) assms(3) show False by simp
qed

lemma waiters_ok_drop: "waiters_ok D k \<Longrightarrow> D \<inter> blocked_handles (lc_slots (snd k)) = {} \<Longrightarrow> waiters_ok {} k"
  unfolding waiters_ok_def by (simp add: Diff_triv Int_commute)

lemma waiters_ok_same:
  "waiters_ok {} (ft, lc) \<Longrightarrow> lc_inv lc' \<Longrightarrow> blocked_handles (lc_slots lc') = blocked_handles (lc_slots lc) \<Longrightarrow>
    waiters_ok {} (ft, lc')"
  by (simp add: waiters_ok_def)

text \<open>An exit of the caller alone.\<close>

lemma waiters_ok_exit:
  assumes "waiters_ok {} (ft, lc)" "current_handle lc = Some h"
    "cleanup_futexes h addresses (ft, lc) = (ft', lc1)"
    "caller_index lc1 = Ok c" "ps_phase (lc_slots lc1 ! c) = Running"
    "lc_inv lc1 \<Longrightarrow> lc_inv lc'" "blocked_handles (lc_slots lc') = blocked_handles (lc_slots lc1)"
  shows "waiters_ok {} (ft', lc')"
proof -
  note c = waiters_ok_cleanup [OF assms(1), of h addresses, unfolded assms(3)]
  then have inv: "lc_inv lc1" by (simp add: waiters_ok_def)
  have "handle_decode (lc_current lc1) = Some h"
    using assms(2) c by (simp add: same_idents_def current_handle_def)
  from running_not_blocked [OF inv _ assms(5) this] caller_in_table(1) [OF inv assms(4)]
  have "{h} \<inter> blocked_handles (lc_slots lc1) = {}" by simp
  with waiters_ok_drop [of "{h}" "(ft', lc1)"] c have "waiters_ok {} (ft', lc1)" by simp
  from waiters_ok_same [OF this assms(6) [OF inv] assms(7)] show ?thesis .
qed

text \<open>A group exit unblocks, by retiring them, exactly the blocked members.\<close>

definition group_slots :: "u32 \<Rightarrow> process_slot list \<Rightarrow> process_slot set" where
  "group_slots grp slots = {s \<in> set slots. ps_occupied s \<and> ps_thread_group s = grp}"

lemma image_minus:
  assumes "B \<subseteq> A" "\<And>i j. i \<in> B \<Longrightarrow> j \<in> A \<Longrightarrow> P j \<Longrightarrow> f i = f j \<Longrightarrow> i = j"
  shows "f ` {i \<in> B. \<not> P i} = f ` B - f ` {j \<in> A. P j}"
proof (intro subset_antisym subsetI)
  fix x
  assume "x \<in> f ` {i \<in> B. \<not> P i}"
  then obtain i where i: "i \<in> B" "\<not> P i" "x = f i" by blast
  then have "x \<noteq> f j" if "j \<in> A" "P j" for j using assms(2) [OF i(1) that] that(2) by auto
  then show "x \<in> f ` B - f ` {j \<in> A. P j}" using i by blast
next
  fix x
  assume "x \<in> f ` B - f ` {j \<in> A. P j}"
  then show "x \<in> f ` {i \<in> B. \<not> P i}" using assms(1) by blast
qed

lemma blocked_exit_members:
  assumes "lc_inv lc"
  shows "blocked_handles (exit_members grp l code e (lc_slots lc)) =
    blocked_handles (lc_slots lc) - slot_handle ` group_slots grp (lc_slots lc)" (is "?L = ?R")
proof -
  note len = lc_inv_length [OF assms]
  let ?in = "\<lambda>i. ps_occupied (lc_slots lc ! i) \<and> ps_thread_group (lc_slots lc ! i) = grp"
  let ?B = "{i. i < MAXIMUM_PROCESSES \<and> ps_phase (lc_slots lc ! i) = Blocked}"
  have e: "exit_members grp l code e (lc_slots lc) ! i = lc_slots lc ! i" if "i < MAXIMUM_PROCESSES" "\<not> ?in i" for i
    using that len by (auto simp: nth_exit_members exit_member_def)
  have n: "ps_phase (exit_members grp l code e (lc_slots lc) ! i) \<noteq> Blocked" if "i < MAXIMUM_PROCESSES" "?in i" for i
    using that len by (auto simp: nth_exit_members exit_member_def)
  have "{i. i < length (exit_members grp l code e (lc_slots lc)) \<and>
      ps_phase (exit_members grp l code e (lc_slots lc) ! i) = Blocked} = {i \<in> ?B. \<not> ?in i}"
    using e n len by force
  then have "?L = (\<lambda>i. slot_handle (exit_members grp l code e (lc_slots lc) ! i)) ` {i \<in> ?B. \<not> ?in i}"
    by (simp only: blocked_handles_def)
  also have "\<dots> = (\<lambda>i. slot_handle (lc_slots lc ! i)) ` {i \<in> ?B. \<not> ?in i}"
    by (rule image_cong) (use e in auto)
  also have "\<dots> = (\<lambda>i. slot_handle (lc_slots lc ! i)) ` ?B - (\<lambda>i. slot_handle (lc_slots lc ! i)) ` {i. i < MAXIMUM_PROCESSES \<and> ?in i}"
    using image_minus [of ?B "{i. i < MAXIMUM_PROCESSES}" ?in "\<lambda>i. slot_handle (lc_slots lc ! i)"]
      lc_inv_pid_unique [OF assms] blocked_occupied [OF assms] by (simp add: slot_handle_def subset_iff)
  also have "(\<lambda>i. slot_handle (lc_slots lc ! i)) ` {i. i < MAXIMUM_PROCESSES \<and> ?in i} = slot_handle ` group_slots grp (lc_slots lc)"
    using len by (auto simp: group_slots_def in_set_conv_nth image_iff)
  finally show ?thesis using len by (simp add: blocked_handles_def)
qed

lemma blocked_exit_group:
  assumes "lc_inv lc" "schedule_exit_group code lc = (Ok d, lc')" "caller_index lc = Ok c"
  shows "blocked_handles (lc_slots lc') = blocked_handles (lc_slots lc) -
    slot_handle ` group_slots (ps_thread_group (lc_slots lc ! c)) (lc_slots lc)"
  using assms(2)
proof (cases rule: exit_group_left)
  case (1 c' l e)
  then have cc: "c' = c" using assms(3) by simp
  let ?grp = "ps_thread_group (lc_slots lc ! c)"
  have ne: "lc_slots lc \<noteq> []" using lc_inv_length [OF assms(1)] by auto
  have "ps_phase (exit_members ?grp l code e (lc_slots lc) ! t) \<noteq> Blocked"
    if "cyclic_find (\<lambda>slot. ps_occupied slot \<and> ps_phase slot = Runnable \<and> ps_thread_group slot \<noteq> ?grp) c (lc_slots lc) = Some t" for t
    using cyclic_find_Some [OF that ne] by (auto simp: nth_exit_members exit_member_def)
  from blocked_leaves [OF 1(5) [unfolded cc]] this blocked_exit_members [OF assms(1)] show ?thesis by simp
qed


lemma same_idents_groups:
  assumes "same_idents lc lc'"
  shows "slot_handle ` group_slots grp (lc_slots lc') = slot_handle ` group_slots grp (lc_slots lc)"
proof -
  have e: "slot_handle ` group_slots grp slots = {h. (True, h, grp) \<in> set (map slot_ident slots)}" for slots
    by (auto simp: group_slots_def slot_ident_def image_iff)
  have "map slot_ident (lc_slots lc') = map slot_ident (lc_slots lc)" using assms by (simp add: same_idents_def)
  then show ?thesis unfolding e by (simp only:)
qed

lemma same_idents_slot:
  assumes "same_idents lc lc'" "i < length (lc_slots lc)"
  shows "slot_ident (lc_slots lc' ! i) = slot_ident (lc_slots lc ! i)"
proof -
  have m: "map slot_ident (lc_slots lc') = map slot_ident (lc_slots lc)" using assms(1) by (simp add: same_idents_def)
  then have "length (lc_slots lc') = length (lc_slots lc)" by (rule map_eq_imp_length_eq)
  with arg_cong [OF m, of "\<lambda>xs. xs ! i"] assms(2) show ?thesis by simp
qed

lemma group_handles_Ok:
  assumes "current_thread_group_handles lc = Ok (leader, handles)"
  obtains c where "caller_index lc = Ok c" "set handles = slot_handle ` group_slots (ps_thread_group (lc_slots lc ! c)) (lc_slots lc)"
  using assms by (auto simp: current_thread_group_handles_def caller_index_def group_slots_def Let_def split: rust_splits)

text \<open>The caller is the same slot before and after the wakes.\<close>

lemma same_caller:
  assumes "lc_inv lc1" "same_idents lc lc1" "caller_index lc = Ok c" "caller_index lc1 = Ok c1"
  shows "c1 = c"
proof -
  note a = caller_index_Ok [OF assms(3)] and b = caller_index_Ok [OF assms(4)]
  have id: "slot_ident (lc_slots lc1 ! c) = slot_ident (lc_slots lc ! c)"
    using same_idents_slot [OF assms(2)] a by simp
  have l: "length (lc_slots lc1) = length (lc_slots lc)"
    using assms(2) map_eq_imp_length_eq by (auto simp: same_idents_def)
  have "slot_handle (lc_slots lc1 ! c1) = slot_handle (lc_slots lc1 ! c)"
    using a b id assms(2) handle_encode_inject by (simp add: same_idents_def slot_ident_def)
  then show ?thesis
    using lc_inv_pid_unique [OF assms(1), of c1 c] caller_in_table [OF assms(1,4)] a b id l lc_inv_length [OF assms(1)]
    by (simp add: slot_handle_def slot_ident_def)
qed

lemma waiters_ok_exit_group:
  assumes "waiters_ok {} (ft, lc)" "current_thread_group_handles lc = Ok (leader, handles)" "map fst members = handles"
    "cleanup_members members (ft, lc) = (ft', lc1)" "schedule_exit_group code lc1 = (Ok d, lc')"
  shows "waiters_ok {} (ft', lc')"
proof -
  obtain c where c: "caller_index lc = Ok c"
    and h: "set handles = slot_handle ` group_slots (ps_thread_group (lc_slots lc ! c)) (lc_slots lc)"
    by (rule group_handles_Ok [OF assms(2)])
  have "fst ` set members = set handles" using arg_cong [OF assms(3), of set] by (simp only: set_map)
  with waiters_ok_members [OF assms(1), of members] assms(4)
  have w: "waiters_ok (set handles) (ft', lc1)" and si: "same_idents lc lc1" by simp_all
  have inv: "lc_inv lc1" using w by (simp add: waiters_ok_def)
  obtain c1 where c1: "caller_index lc1 = Ok c1" using assms(5) by (rule exit_group_left)
  have "c1 = c" by (rule same_caller [OF inv si c c1])
  moreover have "ps_thread_group (lc_slots lc1 ! c) = ps_thread_group (lc_slots lc ! c)"
    using same_idents_slot [OF si] caller_index_Ok [OF c] by (simp add: slot_ident_def)
  ultimately have "blocked_handles (lc_slots lc') = blocked_handles (lc_slots lc1) - set handles"
    using blocked_exit_group [OF inv assms(5) c1] same_idents_groups [OF si] h by simp
  with w lc_inv_exit_group [OF inv assms(5)] show ?thesis by (simp add: waiters_ok_def)
qed

text \<open>Waiting adds the caller to both sides.\<close>

lemma fifo_append_remove:
  "\<not> contains_owner owner ft \<Longrightarrow> fifo_remove owner (fifo_append owner key (futex_queue ft)) = futex_queue ft"
  by (auto simp: fifo_remove_def fifo_append_def contains_owner_queue filter_id_conv image_iff)

text \<open>A refused wait has no effect: an entry made before the scheduler refused is taken back.\<close>

lemma wait_refused:
  assumes "futex_inv ft" "wait_current address expected saved word ft lc = (Err e, ft', lc')"
  shows "futex_queue ft' = futex_queue ft \<and> lc' = lc"
proof (cases "(ft', lc') = (ft, lc)")
  case False
  obtain owner key where ok: "current_owner_and_key address lc = Ok (owner, key)"
    using assms(2) False by (auto simp: wait_current_def split: result.splits)
  then have v: "valid_owner owner"
    by (auto simp: current_owner_and_key_def current_handle_def dest: handle_decode_Some split: rust_splits)
  obtain q ft1 where q: "futex_enqueue owner key ft = (q, ft1)" by (cases "futex_enqueue owner key ft")
  have nc: "\<not> contains_owner owner ft" using assms(2) False ok by (auto simp: wait_current_def split: if_splits)
  have "q = Ok ()" using assms(2) False ok q futex_enqueue_cases [OF q]
    by (cases q) (auto simp: wait_current_def split: rust_splits)
  note en = enqueue_refines [OF assms(1) v q [unfolded this]]
  obtain d lc1 where b: "schedule_block saved lc = (d, lc1)" by (cases "schedule_block saved lc")
  obtain f ft2 where cn: "futex_cancel owner ft1 = (f, ft2)" by (cases "futex_cancel owner ft1")
  obtain err where d: "d = Err err" and k: "ft' = ft2" "lc' = lc1"
    using assms(2) False ok q \<open>q = Ok ()\<close> b nc cn by (auto simp: wait_current_def split: result.splits if_splits)
  show ?thesis using k en cancel_refines [OF _ cn] block_refused [OF b [unfolded d]] fifo_append_remove [OF nc] by simp
qed simp

lemma waiters_ok_wait:
  assumes "waiters_ok {} (ft, lc)" "wait_current address expected saved word ft lc = (r, k)"
  shows "waiters_ok {} k"
proof (cases "current_owner_and_key address lc")
  case (Err e)
  then show ?thesis using assms by (auto simp: wait_current_def)
next
  case (Ok ok)
  obtain owner key where ok: "ok = (owner, key)" by (cases ok)
  have inv: "futex_inv ft" "lc_inv lc" and ow: "fst ` set (futex_queue ft) = blocked_handles (lc_slots lc)"
    using assms(1) by (simp_all add: waiters_ok_def)
  have cur: "handle_decode (lc_current lc) = Some owner"
    using Ok ok by (auto simp: current_owner_and_key_def current_handle_def split: rust_splits)
  then have v: "valid_owner owner" using handle_decode_Some by blast
  show ?thesis
  proof (cases "k = (ft, lc)")
    case True
    then show ?thesis using assms(1) by simp
  next
    case False
    obtain e ft1 where q: "futex_enqueue owner key ft = (e, ft1)" by (cases "futex_enqueue owner key ft")
    have "e = Ok ()" using assms(2) False Ok ok q futex_enqueue_cases [OF q]
      by (cases e) (auto simp: wait_current_def split: rust_splits)
    note en = enqueue_refines [OF inv(1) v q [unfolded this]]
    have nc: "\<not> contains_owner owner ft"
      using assms(2) False Ok ok by (auto simp: wait_current_def split: if_splits)
    obtain d lc1 where b: "schedule_block saved lc = (d, lc1)" by (cases "schedule_block saved lc")
    have k: "k = (case d of Ok _ \<Rightarrow> (ft1, lc1) | Err _ \<Rightarrow> (snd (futex_cancel owner ft1), lc1))"
      using assms(2) False Ok ok q \<open>e = Ok ()\<close> b nc by (auto simp: wait_current_def split: result.splits if_splits)
    show ?thesis
    proof (cases d)
      case d: (Ok dec)
      obtain c where c: "caller_index lc = Ok c" using b d by (auto simp: schedule_block_def split: rust_splits)
      have "slot_handle (lc_slots lc ! c) = owner"
        using caller_index_Ok [OF c] handle_decode_Some [OF cur] handle_encode_inject by metis
      then have "blocked_handles (lc_slots lc1) = insert owner (blocked_handles (lc_slots lc))"
        using blocked_block [OF b [unfolded d] c] by simp
      then show ?thesis using k d en ow lc_inv_block [OF inv(2) b] by (auto simp: waiters_ok_def fifo_append_def)
    next
      case d: (Err err)
      obtain f ft2 where cn: "futex_cancel owner ft1 = (f, ft2)" by (cases "futex_cancel owner ft1")
      show ?thesis
        using k d en ow inv(2) cn cancel_refines [OF _ cn] block_refused [OF b [unfolded d]] fifo_append_remove [OF nc]
        by (simp add: waiters_ok_def)
    qed
  qed
qed

lemma caller_of_exit:
  "schedule_exit code lc = (Ok d, lc') \<Longrightarrow> \<exists>c. caller_index lc = Ok c \<and> ps_phase (lc_slots lc ! c) = Running"
  "schedule_thread_exit lc = (Ok d, lc') \<Longrightarrow> \<exists>c. caller_index lc = Ok c \<and> ps_phase (lc_slots lc ! c) = Running"
  by (auto simp: schedule_exit_def schedule_thread_exit_def split: rust_splits)

lemma waiters_ok_replace:
  assumes "waiters_ok {} (ft, lc)" "current_handle lc = Some h" "replace_current_image a b c d lc = (Ok s, lc')"
  shows "waiters_ok {} (snd (cancel_wait h ft), lc')"
proof -
  have inv: "lc_inv lc" using assms(1) by (simp add: waiters_ok_def)
  obtain u i where i: "current_replacement_index u lc = Ok i"
    using assms(3) by (auto simp: replace_current_image_def split: rust_splits)
  note r = replacement_index_Ok [OF i]
  have "h \<notin> blocked_handles (lc_slots lc)"
    using running_not_blocked [OF inv named_in_table(1) [OF inv] _ assms(2) [unfolded current_handle_def]] r by blast
  then have "waiters_ok {} (snd (cancel_wait h ft), lc)"
    using waiters_ok_drop [OF waiters_ok_cancel [OF assms(1), of h]] by simp
  from waiters_ok_same [OF this lc_inv_replace [OF inv assms(3)] blocked_replace [OF assms(3)]] show ?thesis .
qed

lemma waiters_ok_keep:
  "waiters_ok {} (ft, lc) \<Longrightarrow> (lc_inv lc \<Longrightarrow> lc_inv lc') \<Longrightarrow>
    (lc_inv lc \<Longrightarrow> blocked_handles (lc_slots lc') = blocked_handles (lc_slots lc)) \<Longrightarrow> waiters_ok {} (ft, lc')"
  by (simp add: waiters_ok_def)

lemma waiters_ok_step:
  assumes "futex_step k k'" "waiters_ok {} k"
  shows "waiters_ok {} k'"
  using assms
proof (induction rule: futex_step.induct)
  case (waited address expected saved word ft lc r1 k)
  show ?case by (rule waiters_ok_wait [OF waited.prems waited.hyps])
next
  case (woke address maximum ft lc r2 k)
  show ?case using waiters_ok_wake [OF woke.prems, of address maximum r2 "fst k" "snd k"] woke.hyps by simp
next
  case (exited lc h addresses ft ft' lc1 code d lc')
  from caller_of_exit(1) [OF exited.hyps(3)] obtain c where "caller_index lc1 = Ok c" "ps_phase (lc_slots lc1 ! c) = Running"
    by blast
  from waiters_ok_exit [OF exited.prems exited.hyps(1,2) this lc_inv_exit [OF _ exited.hyps(3)] blocked_exit [OF exited.hyps(3)]]
  show ?case .
next
  case (thread_exited lc h addresses ft ft' lc1 d lc')
  from caller_of_exit(2) [OF thread_exited.hyps(3)] obtain c
    where "caller_index lc1 = Ok c" "ps_phase (lc_slots lc1 ! c) = Running" by blast
  from waiters_ok_exit [OF thread_exited.prems thread_exited.hyps(1,2) this lc_inv_thread_exit [OF _ thread_exited.hyps(3)]
      blocked_thread_exit [OF thread_exited.hyps(3)]]
  show ?case .
next
  case (group_exited lc leader handles members ft ft' lc1 code d lc')
  show ?case by (rule waiters_ok_exit_group [OF group_exited.prems group_exited.hyps])
next
  case (image_replaced lc h root entry sp measurement s lc' ft)
  show ?case by (rule waiters_ok_replace [OF image_replaced.prems image_replaced.hyps])
next
  case (init_registered launch lc r3 lc' ft)
  show ?case by (rule waiters_ok_keep [OF init_registered.prems lc_inv_register [OF _ init_registered.hyps] blocked_register [OF init_registered.hyps]])
next
  case (child_committed parent launch lc r3 lc' ft)
  show ?case by (rule waiters_ok_keep [OF child_committed.prems lc_inv_commit [OF _ child_committed.hyps] blocked_commit [OF child_committed.hyps]])
next
  case (thread_cloned ctx sp fs lc r4 lc' ft)
  show ?case by (rule waiters_ok_keep [OF thread_cloned.prems lc_inv_clone [OF _ thread_cloned.hyps] blocked_clone [OF thread_cloned.hyps]])
next
  case (thread_discarded h lc r5 lc' ft)
  show ?case by (rule waiters_ok_keep [OF thread_discarded.prems lc_inv_discard [OF _ thread_discarded.hyps] blocked_discard [OF thread_discarded.hyps]])
next
  case (marked_running h lc r6 lc' ft)
  show ?case by (rule waiters_ok_keep [OF marked_running.prems lc_inv_mark_running [OF _ marked_running.hyps] blocked_running [OF marked_running.hyps]])
next
  case (resumed ctx lc r7 lc' ft)
  show ?case by (rule waiters_ok_keep [OF resumed.prems lc_inv_resume [OF _ resumed.hyps] blocked_resume [OF resumed.hyps]])
next
  case (fs_base_set fs lc r5 lc' ft)
  show ?case by (rule waiters_ok_keep [OF fs_base_set.prems lc_inv_fs_base [OF _ fs_base_set.hyps] blocked_fs_base [OF fs_base_set.hyps]])
next
  case (yielded ctx lc r7 lc' ft)
  show ?case by (rule waiters_ok_keep [OF yielded.prems lc_inv_yield [OF _ yielded.hyps] blocked_yield [OF yielded.hyps]])
next
  case (preempted ctx authority lc r7 lc' ft)
  show ?case by (rule waiters_ok_keep [OF preempted.prems lc_inv_preempt [OF _ preempted.hyps] blocked_preempt [OF preempted.hyps]])
next
  case (from_pid0 idle lc r8 lc' ft)
  show ?case by (rule waiters_ok_keep [OF from_pid0.prems lc_inv_from_pid0 [OF _ from_pid0.hyps] blocked_from_pid0 [OF from_pid0.hyps]])
next
  case (reaped ppid h lc r9 lc' ft)
  show ?case by (rule waiters_ok_keep [OF reaped.prems lc_inv_reap [OF _ reaped.hyps] blocked_reap [OF reaped.hyps]])
qed

lemma waiters_ok_new: "waiters_ok {} (futex_table_new, lifecycle_new)"
  using futex_inv_new lc_inv_new
  by (simp add: waiters_ok_def futex_queue_def futex_line_def futex_table_new_def filter_replicate
      blocked_handles_def lifecycle_new_def PROCESS_EMPTY_def)

interpretation fkm: invariant_machine "\<lambda>k. k = (futex_table_new, lifecycle_new)" futex_step "waiters_ok {}"
  by unfold_locales (auto intro: waiters_ok_new waiters_ok_step)

end
