(* ===== verification/SchedulerProps.thy ===== *)
theory SchedulerProps
  imports Scheduler
begin

unbundle bit_operations_syntax

text \<open>
  The properties of the process lifecycle and the scheduler, each with a witness on a
  concrete table: process 1 is registered and running, and has committed one child.
\<close>

section \<open>A concrete table\<close>

definition demo_launch :: process_launch where
  "demo_launch = \<lparr>pl_address_space_root = 0x1000, pl_entry_point = 0x2000, pl_user_stack_pointer = 0x8000,
     pl_kernel_stack_pointer = 0xffff800000004000, pl_image_measurement_root = 1, pl_capability_root = 1,
     pl_service_class = 0, pl_priority = 10, pl_abi = LinuxX86_64\<rparr>"

definition demo_context :: saved_user_context where
  "demo_context = context_initial 0x2000 0x8000"

definition demo_lc0 :: lifecycle where
  "demo_lc0 = snd (register_init demo_launch lifecycle_new)"

definition demo_lc1 :: lifecycle where
  "demo_lc1 = snd (mark_running \<lparr>ph_pid = 1, ph_generation = 1\<rparr> demo_lc0)"

definition demo_lc2 :: lifecycle where
  "demo_lc2 = snd (commit_child 1 demo_launch demo_lc1)"

lemma demo_results:
  "fst (register_init demo_launch lifecycle_new) = Ok \<lparr>ph_pid = 1, ph_generation = 1\<rparr>"
  "is_Ok (fst (mark_running \<lparr>ph_pid = 1, ph_generation = 1\<rparr> demo_lc0))"
  "fst (commit_child 1 demo_launch demo_lc1) = Ok \<lparr>ph_pid = 2, ph_generation = 2\<rparr>"
  by code_simp+

lemma demo_steps: "lc_step\<^sup>*\<^sup>* lifecycle_new demo_lc2"
proof -
  have a: "lc_step lifecycle_new demo_lc0"
    unfolding demo_lc0_def by (rule lc_step.init_registered [of demo_launch]) (rule prod.collapse [symmetric])
  have b: "lc_step demo_lc0 demo_lc1"
    unfolding demo_lc1_def by (rule lc_step.marked_running) (rule prod.collapse [symmetric])
  have c: "lc_step demo_lc1 demo_lc2"
    unfolding demo_lc2_def by (rule lc_step.child_committed) (rule prod.collapse [symmetric])
  from r_into_rtranclp [of lc_step, OF a] b c show ?thesis by (metis rtranclp.rtrancl_into_rtrancl)
qed

lemma demo_inv: "lc_inv demo_lc2"
  using lcm.inv_reachable [OF refl demo_steps] .

lemma demo_slots:
  "ps_phase (lc_slots demo_lc2 ! 0) = Running" "ps_phase (lc_slots demo_lc2 ! 1) = Runnable"
  "ps_occupied (lc_slots demo_lc2 ! 1)" "lc_epoch demo_lc2 = 1" "context_validate demo_context = Ok ()"
  by code_simp+

section \<open>Properties\<close>

text \<open>
  C1. In every state that lifecycle operations reach, the table is well formed and at most
  one process runs: live processes have distinct identifiers and saved contexts that pass
  validation, a free slot is really free, the running process is the one that
  CURRENT_EXECUTION names, and the published epoch equals the table's.
\<close>

theorem one_process_runs:
  assumes "lc_step\<^sup>*\<^sup>* lifecycle_new lc"
  shows "lc_inv lc \<and> (\<forall>i < MAXIMUM_PROCESSES. \<forall>j < MAXIMUM_PROCESSES.
    ps_phase (lc_slots lc ! i) = Running \<longrightarrow> ps_phase (lc_slots lc ! j) = Running \<longrightarrow> i = j)"
proof -
  have inv: "lc_inv lc" using lcm.inv_reachable [OF refl assms] .
  then show ?thesis using running_unique [OF inv] by blast
qed

theorem one_process_runs_witness:
  "lc_step\<^sup>*\<^sup>* lifecycle_new demo_lc2 \<and> lc_inv demo_lc2 \<and> ps_phase (lc_slots demo_lc2 ! 0) = Running"
  using one_process_runs [OF demo_steps] demo_steps demo_slots(1) by simp

text \<open>
  C15. A dispatch is authorized exactly: right after any operation that hands out a user
  dispatch, the return path accepts the return authority of that dispatch and no other
  value, and it yields that same dispatch.
\<close>

theorem dispatch_authorized_exactly:
  assumes "lc_inv lc" "lc_dispatch lc s lc'"
  shows "authorize_user_return a lc' = Ok x \<longleftrightarrow> a = authorized_return s \<and> x = s"
proof -
  from lc_dispatch_supported [OF assms] obtain i where "dispatched_at lc' s i" by blast
  with authorize_exact [of lc' s i a x] lc_inv_step [OF assms(1) lc_dispatch_step [OF assms(2)]]
  show ?thesis by simp
qed

lemma demo_yield: "\<exists>s. schedule_yield demo_context demo_lc2 = (Ok s, snd (schedule_yield demo_context demo_lc2))"
proof -
  have "is_Ok (fst (schedule_yield demo_context demo_lc2))" by code_simp
  then show ?thesis by (metis is_Ok_def prod.collapse)
qed

theorem dispatch_authorized_exactly_witness:
  "\<exists>s. lc_dispatch demo_lc2 s (snd (schedule_yield demo_context demo_lc2)) \<and>
    authorize_user_return (authorized_return s) (snd (schedule_yield demo_context demo_lc2)) = Ok s"
proof -
  obtain s where s: "schedule_yield demo_context demo_lc2 = (Ok s, snd (schedule_yield demo_context demo_lc2))"
    using demo_yield by blast
  from lc_dispatch.by_yield [OF s] dispatch_authorized_exactly [OF demo_inv lc_dispatch.by_yield [OF s]]
  show ?thesis by blast
qed

text \<open>
  C16. A superseded return is rejected for ever: once a later scheduling decision has been
  taken, to a user process or to PID0, no state reached afterwards accepts the return
  authority of the earlier dispatch.
\<close>

theorem superseded_return_rejected:
  assumes "lc_inv lc" "lc_dispatch lc s lc1" "lc_step\<^sup>*\<^sup>* lc1 lc2"
    "(\<exists>s'. lc_dispatch lc2 s' lc3) \<or> lc_idles lc2 lc3" "lc_step\<^sup>*\<^sup>* lc3 lc4"
  shows "\<not> is_Ok (authorize_user_return (authorized_return s) lc4)"
proof
  assume "is_Ok (authorize_user_return (authorized_return s) lc4)"
  then have e: "sp_scheduler_epoch s = lc_epoch lc4"
    using authority_epoch [of "authorized_return s" lc4] by (auto simp: is_Ok_def authorized_return_def)
  have i1: "lc_inv lc1" using lc_inv_step [OF assms(1) lc_dispatch_step [OF assms(2)]] .
  have i2: "lc_inv lc2" using lcm.inv_steps [OF assms(3) i1] .
  from lc_dispatch_supported [OF assms(1,2)] have "sp_scheduler_epoch s = lc_epoch lc1"
    by (auto simp: dispatched_at_def)
  moreover have "lc_epoch lc2 < lc_epoch lc3"
    using assms(4) lc_dispatch_supported [OF i2] epoch_idles by blast
  ultimately show False using e epoch_steps [OF assms(3)] epoch_steps [OF assms(5)] by order
qed

theorem superseded_return_rejected_witness:
  "\<exists>s s' lc1 lc3. lc_dispatch demo_lc2 s lc1 \<and> lc_dispatch lc1 s' lc3 \<and>
    \<not> is_Ok (authorize_user_return (authorized_return s) lc3)"
proof -
  let ?lc1 = "snd (schedule_yield demo_context demo_lc2)"
  let ?lc3 = "snd (schedule_yield demo_context ?lc1)"
  obtain s where s: "schedule_yield demo_context demo_lc2 = (Ok s, ?lc1)" using demo_yield by blast
  have "is_Ok (fst (schedule_yield demo_context ?lc1))" by code_simp
  then obtain s' where s': "schedule_yield demo_context ?lc1 = (Ok s', ?lc3)" by (metis is_Ok_def prod.collapse)
  note d = lc_dispatch.by_yield [OF s] lc_dispatch.by_yield [OF s']
  from superseded_return_rejected [OF demo_inv d(1) rtranclp.rtrancl_refl _ rtranclp.rtrancl_refl] d
  show ?thesis by blast
qed

text \<open>
  C8. The round robin reaches everybody: if some process runs and slot \<open>j\<close> is runnable,
  then a sequence of at least 63 yields with valid contexts brings slot \<open>j\<close> onto the
  processor within its first 63 yields, each of which succeeds, as long as the 64-bit epoch
  has room for them.
\<close>

theorem round_robin_reaches:
  assumes "lc_inv lc" "c < MAXIMUM_PROCESSES" "ps_phase (lc_slots lc ! c) = Running"
    "j < MAXIMUM_PROCESSES" "ps_phase (lc_slots lc ! j) = Runnable"
    "\<forall>ctx \<in> set ctxs. context_validate ctx = Ok ()" "63 \<le> length ctxs" "unat (lc_epoch lc) + 63 < 2 ^ 64"
  shows "\<exists>k \<le> 63. \<exists>lc'. yields (take k ctxs) lc = Some lc' \<and> ps_phase (lc_slots lc' ! j) = Running"
proof -
  have a: "ahead c j \<le> 63" using mod_less_divisor [of MAXIMUM_PROCESSES "j + MAXIMUM_PROCESSES - c"]
    by (simp add: ahead_def del: mod_less_divisor)
  from yields_reach [OF assms(1-5), of ctxs] assms(6-8) a
  obtain k lc' where "k \<le> ahead c j" "yields (take k ctxs) lc = Some lc'" "ps_phase (lc_slots lc' ! j) = Running"
    by auto
  with a show ?thesis by (metis order_trans)
qed

theorem round_robin_reaches_witness:
  "\<exists>k \<le> 63. \<exists>lc'. yields (take k (replicate 63 demo_context)) demo_lc2 = Some lc' \<and>
    ps_phase (lc_slots lc' ! 1) = Running"
  using round_robin_reaches [OF demo_inv _ demo_slots(1) _ demo_slots(2), of "replicate 63 demo_context"]
    demo_slots(4,5) by simp



text \<open>
  C25. Admission never runs out of identifiers: with a valid image, a live parent and one
  free slot whose generations are not exhausted, committing a child succeeds, however the
  32-bit PID counter has wrapped, and the child's identifier was unused.
\<close>

theorem commit_child_succeeds:
  assumes "lc_inv lc" "launch_validate launch" "parent \<noteq> NO_PID" "slot_by_pid parent lc = Some p"
    "ps_phase (lc_slots lc ! p) \<noteq> Zombie" "i < MAXIMUM_PROCESSES" "free_slot (lc_slots lc ! i)"
  shows "\<exists>h lc'. commit_child parent launch lc = (Ok h, lc') \<and> slot_by_pid (ph_pid h) lc = None \<and>
    (\<exists>k. slot_by_handle h lc' = Some k \<and> ps_phase (lc_slots lc' ! k) = Runnable)"
proof -
  note len = lc_inv_length [OF assms(1)]
  obtain pid lc1 where a: "allocate_pid lc = (Some pid, lc1)" using allocate_pid_total [OF len] .
  note s = allocate_pid_slots [OF a] and fresh = allocate_pid_Some [OF a]
  obtain k where k: "position free_slot (lc_slots lc1) = Some k"
    using position_exists [of i "lc_slots lc1" free_slot] assms(6,7) s len by auto
  obtain g where g: "checked_add (ps_generation (lc_slots lc1 ! k)) 1 = Some g"
    using free_slot_generation [OF k] by blast
  let ?lc' = "set_slot k (admitted_slot g pid parent launch (lc_epoch lc1)) lc1"
  have "ps_phase (lc_slots lc ! p) \<noteq> Free"
    using lc_inv_slot [OF assms(1), of p] assms(4) len
    by (auto simp: slot_by_pid_def position_Some_iff slot_ok_def split: if_splits)
  then have c: "commit_child parent launch lc = (Ok \<lparr>ph_pid = pid, ph_generation = g\<rparr>, ?lc')"
    using assms(2-5) a k g by (simp add: commit_child_def)
  have kl: "k < MAXIMUM_PROCESSES" using free_slot_facts [OF k] s len by simp
  have "slot_by_handle (slot_handle (lc_slots ?lc' ! k)) ?lc' = Some k"
    using slot_by_handle_slot [OF lc_inv_commit [OF assms(1) c] kl] kl s len by (simp add: admitted_slot_def)
  then have "slot_by_handle \<lparr>ph_pid = pid, ph_generation = g\<rparr> ?lc' = Some k"
    using kl s len by (simp add: slot_handle_def admitted_slot_def)
  moreover have "slot_by_pid pid lc = None"
    using fresh by (auto simp: slot_by_pid_def position_None_iff in_set_conv_nth)
  ultimately show ?thesis using c kl s len by (auto simp: admitted_slot_def)
qed

theorem commit_child_succeeds_witness:
  "\<exists>h lc'. commit_child 1 demo_launch demo_lc2 = (Ok h, lc') \<and> slot_by_pid (ph_pid h) demo_lc2 = None"
proof -
  have "launch_validate demo_launch" "slot_by_pid 1 demo_lc2 = Some 0" "free_slot (lc_slots demo_lc2 ! 2)" by code_simp+
  then show ?thesis
    using commit_child_succeeds [OF demo_inv, of demo_launch 1 0 2] demo_slots(1) by (auto simp: NO_PID_def)
qed



text \<open>
  C27. A reaped process is gone from its slot for good: after a successful reap, no later
  operation makes the slot hold the reaped generation again; exhausted generations retire
  the slot instead.
\<close>

theorem reaped_generation_gone:
  assumes "lc_inv lc" "reap_child parent h lc = (Ok code, lc')" "slot_by_handle h lc = Some i"
    "lc_step\<^sup>*\<^sup>* lc' lc''"
  shows "\<not> slot_matches h (lc_slots lc'' ! i)"
proof -
  note n = named_in_table [OF assms(1,3)] and s = slot_by_handle_Some [OF assms(3)]
  have lc': "lc' = set_slot i (retired_slot (lc_slots lc ! i)) lc"
    using assms(2,3) by (auto simp: reap_child_def Let_def split: rust_splits)
  have "2 * unat (ph_generation h) + 1 < slot_age (lc_slots lc' ! i)"
    using slot_age_retired [OF n(3)] n(1,3) s lc' by (auto simp: slot_age_def [of "lc_slots lc ! i"] slot_handle_def)
  from retired_forever [OF assms(4) lc_inv_reap [OF assms(1,2)] n(1) this]
  show ?thesis by (auto simp: slot_matches_def)
qed

theorem reaped_generation_gone_witness:
  "let lc = snd (schedule_exit 3 demo_lc2); h = \<lparr>ph_pid = 1, ph_generation = 1\<rparr>; lc' = snd (reap_child 0 h lc)
   in reap_child 0 h lc = (Ok 3, lc') \<and> \<not> slot_matches h (lc_slots lc' ! 0)"
proof -
  let ?lc = "snd (schedule_exit 3 demo_lc2)" and ?h = "\<lparr>ph_pid = 1, ph_generation = 1\<rparr> :: process_handle"
  have inv: "lc_inv ?lc" by (rule lc_inv_exit [OF demo_inv]) (rule prod.collapse [symmetric])
  have "fst (reap_child 0 ?h ?lc) = Ok 3" by code_simp
  then have r: "reap_child 0 ?h ?lc = (Ok 3, snd (reap_child 0 ?h ?lc))" by (metis prod.collapse)
  have i: "slot_by_handle ?h ?lc = Some 0" by code_simp
  from reaped_generation_gone [OF inv r i rtranclp.rtrancl_refl] r show ?thesis by (simp add: Let_def)
qed


text \<open>
  The packed identity of CURRENT_EXECUTION loses nothing: a word decodes to a process
  handle if and only if it is the encoding of that handle and both halves are nonzero, and
  PID0's identity decodes to no process.
\<close>

theorem execution_identity_roundtrip:
  "(handle_decode w = Some h) = (valid_owner h \<and> handle_encode h = w) \<and> handle_decode PID0_IDENTITY = None"
proof -
  have "handle_decode PID0_IDENTITY = None" by code_simp
  then show ?thesis using handle_decode_encode handle_decode_Some by auto
qed

end
