(* ===== verification/FutexProps.thy ===== *)
theory FutexProps
  imports FutexKernel SchedulerProps
begin

text \<open>
  The properties of the futex queues and of their composition with the process table.
\<close>

text \<open>
  C20. The waiter table refines a first-in first-out queue: enqueueing appends, taking the
  oldest waiter of a key takes the first one of that key, cancelling removes exactly the
  owner's entry, and the table stays well formed, for every sequence of operations.
\<close>

theorem futex_table_refines_queue:
  assumes "futex_inv table"
  shows "(\<forall>owner key table'. valid_owner owner \<longrightarrow> futex_enqueue owner key table = (Ok (), table') \<longrightarrow>
        futex_inv table' \<and> futex_queue table' = fifo_append owner key (futex_queue table)) \<and>
    (\<forall>key. futex_inv (snd (take_oldest key table)) \<and>
        (fst (take_oldest key table), futex_queue (snd (take_oldest key table))) = fifo_take key (futex_queue table)) \<and>
    (\<forall>owner. futex_inv (snd (futex_cancel owner table)) \<and>
        futex_queue (snd (futex_cancel owner table)) = fifo_remove owner (futex_queue table))"
  using enqueue_refines [OF assms] take_refines [OF assms prod.collapse [symmetric]]
    cancel_refines [OF assms prod.collapse [symmetric]] by blast

definition demo_key :: futex_key where
  "demo_key = \<lparr>fk_address_space_root = 0x1000, fk_address = 0x2000\<rparr>"

theorem futex_table_refines_queue_witness:
  "futex_queue (snd (futex_enqueue \<lparr>ph_pid = 4, ph_generation = 1\<rparr> demo_key futex_table_new)) =
     [(\<lparr>ph_pid = 4, ph_generation = 1\<rparr>, demo_key)]"
proof -
  let ?h = "\<lparr>ph_pid = 4, ph_generation = 1\<rparr> :: process_handle"
  have "fst (futex_enqueue ?h demo_key futex_table_new) = Ok ()" by code_simp
  then have e: "futex_enqueue ?h demo_key futex_table_new = (Ok (), snd (futex_enqueue ?h demo_key futex_table_new))"
    by (metis prod.collapse)
  have "futex_queue futex_table_new = []" by code_simp
  with futex_table_refines_queue [OF futex_inv_new] e show ?thesis
    by (simp add: valid_owner_def fifo_append_def)
qed

text \<open>
  C3. No wake is lost and no sleeper is forgotten: in every state that futex calls, scheduling,
  process creation, exec and all exit paths can reach, a process waits in the futex table if
  and only if its slot is blocked.
\<close>

theorem waiters_are_the_blocked:
  assumes "futex_step\<^sup>*\<^sup>* (futex_table_new, lifecycle_new) (ft, lc)"
  shows "contains_owner h ft \<longleftrightarrow> (\<exists>i. slot_by_handle h lc = Some i \<and> ps_phase (lc_slots lc ! i) = Blocked)"
proof -
  have w: "waiters_ok {} (ft, lc)" by (rule fkm.inv_reachable [OF refl assms])
  then have "contains_owner h ft \<longleftrightarrow> h \<in> blocked_handles (lc_slots lc)"
    by (simp add: waiters_ok_def contains_owner_queue)
  also have "\<dots> \<longleftrightarrow> lc_phase lc h = Some Blocked" using w lc_phase_blocked [of lc h] by (simp add: waiters_ok_def)
  finally show ?thesis by (auto simp: lc_phase_def)
qed

text \<open>Two processes of one address space, the first of which waits on a futex.\<close>

definition demo_waiting :: futex_kernel where
  "demo_waiting = snd (wait_current 0x2000 7 demo_context (Ok 7 :: (u32, unit) result) futex_table_new demo_lc2)"

lemma demo_futex_reach: "futex_step\<^sup>*\<^sup>* (futex_table_new, lifecycle_new) (futex_table_new, demo_lc2)"
proof -
  have "futex_step (futex_table_new, lifecycle_new) (futex_table_new, demo_lc0)"
    by (rule futex_step.init_registered) (simp add: demo_lc0_def prod_eq_iff)
  moreover have "futex_step (futex_table_new, demo_lc0) (futex_table_new, demo_lc1)"
    by (rule futex_step.marked_running) (simp add: demo_lc1_def prod_eq_iff)
  moreover have "futex_step (futex_table_new, demo_lc1) (futex_table_new, demo_lc2)"
    by (rule futex_step.child_committed) (simp add: demo_lc2_def prod_eq_iff)
  ultimately show ?thesis by (meson r_into_rtranclp rtranclp_trans)
qed

lemma demo_waiting_reach: "futex_step\<^sup>*\<^sup>* (futex_table_new, lifecycle_new) demo_waiting"
proof -
  have "futex_step (futex_table_new, demo_lc2) demo_waiting"
    unfolding demo_waiting_def by (rule futex_step.waited) (rule prod.collapse [symmetric])
  with demo_futex_reach show ?thesis by (rule rtranclp.rtrancl_into_rtrancl)
qed

theorem waiters_are_the_blocked_witness:
  "contains_owner \<lparr>ph_pid = 1, ph_generation = 1\<rparr> (fst demo_waiting) \<and> ps_phase (lc_slots (snd demo_waiting) ! 0) = Blocked"
proof -
  have p: "ps_phase (lc_slots (snd demo_waiting) ! 0) = Blocked"
    "slot_by_handle \<lparr>ph_pid = 1, ph_generation = 1\<rparr> (snd demo_waiting) = Some 0" by code_simp+
  from waiters_are_the_blocked [of "fst demo_waiting" "snd demo_waiting"] demo_waiting_reach p show ?thesis by auto
qed

text \<open>
  C19. A wake is exact: it makes the earliest waiters of the caller's key runnable, as many as
  were asked for or all there are, reports that number, leaves every other process as it was,
  and keeps the remaining waiters in order.
\<close>

theorem wake_is_exact:
  assumes "futex_step\<^sup>*\<^sup>* (futex_table_new, lifecycle_new) (ft, lc)"
    "current_owner_and_key address lc = Ok (owner, key)" "wake_current address maximum ft lc = (r, ft', lc')"
    "m = min maximum (length (waiting_on key (futex_queue ft)))"
  shows "r = Ok m \<and> futex_queue ft' = fifo_drop key m (futex_queue ft) \<and>
    (\<forall>h. lc_phase lc' h = (if h \<in> set (take m (waiting_on key (futex_queue ft))) then Some Runnable else lc_phase lc h))"
  using wake_effect [OF fkm.inv_reachable [OF refl assms(1)] assms(2-4)] by simp

theorem wake_is_exact_witness:
  "fst (wake_current 0x2000 3 (fst demo_waiting) (snd demo_waiting)) = Ok 1"
proof -
  obtain o' key where k: "current_owner_and_key 0x2000 (snd demo_waiting) = Ok (o', key)"
    and l: "length (waiting_on key (futex_queue (fst demo_waiting))) = 1"
  proof -
    have "(case current_owner_and_key 0x2000 (snd demo_waiting) of Err _ \<Rightarrow> False
      | Ok (o', key) \<Rightarrow> length (waiting_on key (futex_queue (fst demo_waiting))) = 1)" by code_simp
    then show thesis using that by (auto split: result.splits)
  qed
  have "futex_step\<^sup>*\<^sup>* (futex_table_new, lifecycle_new) (fst demo_waiting, snd demo_waiting)"
    using demo_waiting_reach by simp
  moreover obtain r ft' lc' where w: "wake_current 0x2000 3 (fst demo_waiting) (snd demo_waiting) = (r, ft', lc')"
    by (metis prod.exhaust)
  ultimately show ?thesis using wake_is_exact [OF _ k w refl] l by simp
qed

text \<open>
  C30. A wait that is refused has no effect: whatever the reason - a bad address, an unreadable
  word, a changed value, a full table, or the scheduler refusing to block after the caller was
  already queued - the queue of waiters and the process table are what they were.  A changed
  value is always refused, so the comparison and the enqueueing are one step.
\<close>

theorem refused_wait_has_no_effect:
  assumes "futex_inv ft" "wait_current address expected saved word ft lc = (r, ft', lc')"
  shows "(\<not> is_Ok r \<longrightarrow> futex_queue ft' = futex_queue ft \<and> lc' = lc) \<and> (is_Ok r \<longrightarrow> word = Ok expected)"
proof (cases r)
  case (Ok d)
  with assms(2) show ?thesis by (auto simp: wait_current_def split: rust_splits)
next
  case (Err e)
  with wait_refused [OF assms(1)] assms(2) show ?thesis by simp
qed

theorem refused_wait_has_no_effect_witness:
  "\<exists>e ft' lc'. wait_current 0x2000 7 demo_context (Ok 8 :: (u32, unit) result) futex_table_new demo_lc2 = (Err e, ft', lc') \<and> lc' = demo_lc2"
proof -
  obtain r ft' lc' where w:
    "wait_current 0x2000 7 demo_context (Ok 8 :: (u32, unit) result) futex_table_new demo_lc2 = (r, ft', lc')"
    by (metis prod.exhaust)
  from refused_wait_has_no_effect [OF futex_inv_new w] w show ?thesis by (cases r) auto
qed

end
