(* ===== verification/UserMemory.thy ===== *)
theory UserMemory
  imports UserContext
begin

unbundle bit_operations_syntax

text \<open>
  The user-copy layer of \<^verbatim>\<open>src/src/syscalls.rs\<close> over physical memory, a function from
  addresses to bytes: the four-level page walk that reads its entries from that same memory,
  the validation of a writable range, and the copies in both directions, page by page. The
  reference definitions \<open>load_user\<close> and \<open>store_user\<close> translate every byte on its own; the copies
  are shown to agree with them, errors included, and a write to reach only bytes whose whole
  walk is present, user-accessible and writable.
\<close>

section \<open>Constants and memory\<close>

abbreviation PAGE_SIZE :: nat where "PAGE_SIZE \<equiv> 4096"
definition PAGE_ADDRESS_MASK :: u64 where "PAGE_ADDRESS_MASK = 0x000ffffffffff000"
definition ENTRY_PRESENT :: u64 where "ENTRY_PRESENT = 1"
definition ENTRY_USER :: u64 where "ENTRY_USER = 4"
definition ENTRY_WRITABLE :: u64 where "ENTRY_WRITABLE = 2"
definition ENTRY_HUGE :: u64 where "ENTRY_HUGE = 128"
definition EARLY_MAPPED_PHYSICAL_LIMIT :: u64 where "EARLY_MAPPED_PHYSICAL_LIMIT = 4 * 1024 * 1024 * 1024"
definition HIGHER_HALF_DIRECT_MAP_BASE :: u64 where "HIGHER_HALF_DIRECT_MAP_BASE = 0xffff800000000000"

datatype user_copy_error =
    UcInvalidRange | UcMissingMapping | UcPermissionDenied | UcHugePageUnsupported | UcUnmappedPhysicalMemory

type_synonym physical_memory = "u64 \<Rightarrow> u8"

definition load_bytes :: "physical_memory \<Rightarrow> u64 \<Rightarrow> nat \<Rightarrow> u8 list" where
  "load_bytes mem p n = map (\<lambda>i. mem (p + of_nat i)) [0..<n]"

text \<open>A copy of \<open>bytes\<close> to \<open>p\<close>, in address order.\<close>

fun store_bytes :: "physical_memory \<Rightarrow> u64 \<Rightarrow> u8 list \<Rightarrow> physical_memory" where
  "store_bytes mem p [] = mem"
| "store_bytes mem p (b # bytes) = store_bytes (mem(p := b)) (p + 1) bytes"

text \<open>Little-endian words.\<close>

definition le_word :: "u8 list \<Rightarrow> u64" where
  "le_word bytes = foldr (\<lambda>b w. ucast b OR push_bit 8 w) bytes 0"

definition direct_map_address :: "u64 \<Rightarrow> u64 option" where
  "direct_map_address physical =
     (if EARLY_MAPPED_PHYSICAL_LIMIT \<le> physical then None else checked_add HIGHER_HALF_DIRECT_MAP_BASE physical)"

section \<open>The page walk\<close>

definition valid_user_control_address :: "u64 \<Rightarrow> bool" where
  "valid_user_control_address address \<longleftrightarrow> USER_ADDRESS_MINIMUM \<le> address \<and> address < USER_ADDRESS_LIMIT"

definition read_active_entry :: "physical_memory \<Rightarrow> u64 \<Rightarrow> nat \<Rightarrow> u64 option" where
  "read_active_entry mem table index =
     (if table AND 0xfff \<noteq> 0 \<or> 512 \<le> index then None
      else case checked_add table (of_nat (index * 8)) of None \<Rightarrow> None
      | Some physical \<Rightarrow>
      case checked_add physical 8 of None \<Rightarrow> None
      | Some e \<Rightarrow>
          if EARLY_MAPPED_PHYSICAL_LIMIT < e then None
          else case direct_map_address physical of None \<Rightarrow> None
          | Some _ \<Rightarrow> Some (le_word (load_bytes mem physical 8)))"

text \<open>The four table indices of an address.\<close>

definition page_indices :: "u64 \<Rightarrow> nat list" where
  "page_indices address = map (\<lambda>s. unat (drop_bit s address AND 0x1ff)) [39, 30, 21, 12]"

text \<open>The checks on one entry: the intermediate levels also refuse huge pages.\<close>

definition entry_permits :: "bool \<Rightarrow> u64 \<Rightarrow> bool" where
  "entry_permits access entry \<longleftrightarrow>
     entry AND (ENTRY_PRESENT OR ENTRY_USER) = ENTRY_PRESENT OR ENTRY_USER \<and> (access \<longrightarrow> entry AND ENTRY_WRITABLE \<noteq> 0)"

fun walk_levels :: "bool \<Rightarrow> (u64 \<Rightarrow> nat \<Rightarrow> u64 option) \<Rightarrow> nat list \<Rightarrow> u64 \<Rightarrow> (u64, user_copy_error) result" where
  "walk_levels access read_entry [] table = Ok table"
| "walk_levels access read_entry (index # indices) table =
     (case read_entry table index of None \<Rightarrow> Err UcMissingMapping
      | Some entry \<Rightarrow>
          if \<not> entry_permits access entry then Err UcPermissionDenied
          else if entry AND ENTRY_HUGE \<noteq> 0 then Err UcHugePageUnsupported
          else walk_levels access read_entry indices (entry AND PAGE_ADDRESS_MASK))"

definition translate_user_address_with_access ::
    "u64 \<Rightarrow> u64 \<Rightarrow> bool \<Rightarrow> (u64 \<Rightarrow> nat \<Rightarrow> u64 option) \<Rightarrow> (u64, user_copy_error) result" where
  "translate_user_address_with_access root address access read_entry =
     (if root = 0 \<or> root AND 0xfff \<noteq> 0 \<or> \<not> valid_user_control_address address then Err UcInvalidRange
      else
        let indices = page_indices address in
        if 256 \<le> indices ! 0 then Err UcInvalidRange
        else case walk_levels access read_entry (take 3 indices) root of Err e \<Rightarrow> Err e
        | Ok table \<Rightarrow>
        case read_entry table (indices ! 3) of None \<Rightarrow> Err UcMissingMapping
        | Some leaf \<Rightarrow>
            if \<not> entry_permits access leaf then Err UcPermissionDenied
            else Ok ((leaf AND PAGE_ADDRESS_MASK) OR (address AND 0xfff)))"

definition translate_user_address :: "u64 \<Rightarrow> u64 \<Rightarrow> physical_memory \<Rightarrow> (u64, user_copy_error) result" where
  "translate_user_address root address mem =
     translate_user_address_with_access root address False (read_active_entry mem)"

definition translate_user_address_for_write :: "u64 \<Rightarrow> u64 \<Rightarrow> physical_memory \<Rightarrow> (u64, user_copy_error) result" where
  "translate_user_address_for_write root address mem =
     translate_user_address_with_access root address True (read_active_entry mem)"

section \<open>Copies\<close>

text \<open>The page a copy has reached: its physical address and the length that fits into it.\<close>

definition user_span :: "u64 \<Rightarrow> nat \<Rightarrow> nat" where
  "user_span user_address remaining = min (PAGE_SIZE - unat (user_address AND 0xfff)) remaining"

definition copy_range_ok :: "u64 \<Rightarrow> nat \<Rightarrow> bool" where
  "copy_range_ok address len =
     (case checked_add address (of_nat len) of None \<Rightarrow> False
      | Some e \<Rightarrow> USER_ADDRESS_MINIMUM \<le> address \<and> e \<le> USER_ADDRESS_LIMIT)"

definition span_mapped :: "u64 \<Rightarrow> nat \<Rightarrow> bool" where
  "span_mapped physical span =
     (case checked_add physical (of_nat span) of None \<Rightarrow> False | Some e \<Rightarrow> e \<le> EARLY_MAPPED_PHYSICAL_LIMIT)"

lemma and_page_mask: "(w :: u64) AND 0xfff = take_bit 12 w"
  by (simp add: take_bit_eq_mask mask_eq_exp_minus_1)

lemma unat_page_offset: "unat ((w :: u64) AND 0xfff) = unat w mod PAGE_SIZE"
  unfolding and_page_mask unsigned_take_bit_eq by (simp add: take_bit_eq_mod)

lemma user_span_bounds [simp]: "0 < remaining \<Longrightarrow> 0 < user_span a remaining" "user_span a remaining \<le> remaining"
  by (simp_all add: user_span_def unat_page_offset)

lemma user_span_page: "user_span a remaining \<le> PAGE_SIZE"
  by (simp add: user_span_def)

function validate_write_loop :: "u64 \<Rightarrow> u64 \<Rightarrow> nat \<Rightarrow> physical_memory \<Rightarrow> nat \<Rightarrow> (unit, user_copy_error) result" where
  "validate_write_loop root target len mem checked =
     (if checked < len then
        let user_address = target + of_nat checked in
        case translate_user_address_for_write root user_address mem of Err e \<Rightarrow> Err e
        | Ok physical \<Rightarrow>
            let span = user_span user_address (len - checked) in
            if \<not> span_mapped physical span then Err UcUnmappedPhysicalMemory
            else validate_write_loop root target len mem (checked + span)
      else Ok ())"
  by pat_completeness auto
termination
  by (relation "measure (\<lambda>(_, _, len, _, checked). len - checked)") (auto simp: user_span_def unat_page_offset)

definition validate_user_write_range :: "u64 \<Rightarrow> u64 \<Rightarrow> nat \<Rightarrow> physical_memory \<Rightarrow> (unit, user_copy_error) result" where
  "validate_user_write_range root target len mem =
     (if len = 0 then Ok ()
      else if \<not> copy_range_ok target len then Err UcInvalidRange
      else validate_write_loop root target len mem 0)"

function copy_from_loop ::
    "u64 \<Rightarrow> u64 \<Rightarrow> nat \<Rightarrow> physical_memory \<Rightarrow> nat \<Rightarrow> u8 list \<Rightarrow> (u8 list, user_copy_error) result" where
  "copy_from_loop root source len mem copied target =
     (if copied < len then
        let user_address = source + of_nat copied in
        case translate_user_address root user_address mem of Err e \<Rightarrow> Err e
        | Ok physical \<Rightarrow>
            let span = user_span user_address (len - copied) in
            if \<not> span_mapped physical span \<or> direct_map_address physical = None then Err UcUnmappedPhysicalMemory
            else copy_from_loop root source len mem (copied + span) (target @ load_bytes mem physical span)
      else Ok target)"
  by pat_completeness auto
termination
  by (relation "measure (\<lambda>(_, _, len, _, copied, _). len - copied)") (auto simp: user_span_def unat_page_offset)

text \<open>The bytes read, for a buffer of \<open>len\<close> bytes.\<close>

definition copy_from_user :: "u64 \<Rightarrow> u64 \<Rightarrow> nat \<Rightarrow> physical_memory \<Rightarrow> (u8 list, user_copy_error) result" where
  "copy_from_user root source len mem =
     (if len = 0 then Ok []
      else if \<not> copy_range_ok source len then Err UcInvalidRange
      else copy_from_loop root source len mem 0 [])"

function copy_to_loop ::
    "u64 \<Rightarrow> u64 \<Rightarrow> u8 list \<Rightarrow> nat \<Rightarrow> physical_memory \<Rightarrow> (unit, user_copy_error) result \<times> physical_memory" where
  "copy_to_loop root target source copied mem =
     (if copied < length source then
        let user_address = target + of_nat copied in
        case translate_user_address_for_write root user_address mem of Err e \<Rightarrow> (Err e, mem)
        | Ok physical \<Rightarrow>
            let span = user_span user_address (length source - copied) in
            if \<not> span_mapped physical span \<or> direct_map_address physical = None
            then (Err UcUnmappedPhysicalMemory, mem)
            else copy_to_loop root target source (copied + span)
              (store_bytes mem physical (take span (drop copied source)))
      else (Ok (), mem))"
  by pat_completeness auto
termination
  by (relation "measure (\<lambda>(_, _, source, copied, _). length source - copied)")
    (auto simp: user_span_def unat_page_offset)

definition copy_to_user ::
    "u64 \<Rightarrow> u64 \<Rightarrow> u8 list \<Rightarrow> physical_memory \<Rightarrow> (unit, user_copy_error) result \<times> physical_memory" where
  "copy_to_user root target source mem =
     (if source = [] then (Ok (), mem)
      else if \<not> copy_range_ok target (length source) then (Err UcInvalidRange, mem)
      else copy_to_loop root target source 0 mem)"

declare validate_write_loop.simps [simp del] copy_from_loop.simps [simp del] copy_to_loop.simps [simp del]


section \<open>Reference: one byte at a time\<close>

definition user_byte :: "bool \<Rightarrow> u64 \<Rightarrow> u64 \<Rightarrow> physical_memory \<Rightarrow> (u64, user_copy_error) result" where
  "user_byte access root address mem =
     (case translate_user_address_with_access root address access (read_active_entry mem) of Err e \<Rightarrow> Err e
      | Ok physical \<Rightarrow>
          if physical < EARLY_MAPPED_PHYSICAL_LIMIT then Ok physical else Err UcUnmappedPhysicalMemory)"

fun load_user :: "u64 \<Rightarrow> u64 \<Rightarrow> nat \<Rightarrow> physical_memory \<Rightarrow> (u8 list, user_copy_error) result" where
  "load_user root address 0 mem = Ok []"
| "load_user root address (Suc n) mem =
     (case user_byte False root address mem of Err e \<Rightarrow> Err e
      | Ok p \<Rightarrow> case load_user root (address + 1) n mem of Err e \<Rightarrow> Err e | Ok bytes \<Rightarrow> Ok (mem p # bytes))"

fun store_user ::
    "u64 \<Rightarrow> u64 \<Rightarrow> u8 list \<Rightarrow> physical_memory \<Rightarrow> (unit, user_copy_error) result \<times> physical_memory" where
  "store_user root address [] mem = (Ok (), mem)"
| "store_user root address (b # bytes) mem =
     (case user_byte True root address mem of Err e \<Rightarrow> (Err e, mem)
      | Ok p \<Rightarrow> store_user root (address + 1) bytes (mem(p := b)))"

section \<open>Translation within a page\<close>

text \<open>The frame of the page an address lies in.\<close>

definition page_frame :: "bool \<Rightarrow> u64 \<Rightarrow> u64 \<Rightarrow> (u64 \<Rightarrow> nat \<Rightarrow> u64 option) \<Rightarrow> (u64, user_copy_error) result" where
  "page_frame access root page read_entry =
     translate_user_address_with_access root (push_bit 12 page) access read_entry"

lemma unat_page: "unat (drop_bit 12 (v :: u64)) = unat v div PAGE_SIZE"
  by (simp add: drop_bit_eq_div unat_div_distrib)

lemma unat_push_page: "unat (push_bit 12 (drop_bit 12 v) :: u64) = unat v div PAGE_SIZE * PAGE_SIZE"
proof -
  have "unat v div PAGE_SIZE * PAGE_SIZE < 2 ^ 64" 
    using unsigned_less [of v, where 'a = nat] div_times_less_eq_dividend [of "unat v" PAGE_SIZE] by (simp del: div_times_less_eq_dividend)
  then show ?thesis by (simp add: push_bit_eq_mult unat_word_ariths unat_page mult.commute)
qed

lemma user_limits: "unat USER_ADDRESS_MINIMUM = PAGE_SIZE" "unat USER_ADDRESS_LIMIT = 2 ^ 35 * PAGE_SIZE"
  by (simp_all add: USER_ADDRESS_MINIMUM_def USER_ADDRESS_LIMIT_def)

lemma valid_user_page: "valid_user_control_address v \<longleftrightarrow> 1 \<le> unat v div PAGE_SIZE \<and> unat v div PAGE_SIZE < 2 ^ 35"
  unfolding valid_user_control_address_def word_le_nat_alt word_less_nat_alt user_limits
  by (auto simp: less_eq_div_iff_mult_less_eq div_less_iff_less_mult)

lemma drop_bit_page: "12 \<le> s \<Longrightarrow> drop_bit s (push_bit 12 (drop_bit 12 (v :: u64))) = drop_bit s v"
proof (rule bit_word_eqI)
  fix n :: nat
  assume s: "12 \<le> s" and "n < LENGTH(64)"
  have "bit v (s + n) \<Longrightarrow> s + n < 64" by (drule bit_imp_le_length) simp
  with s show "bit (drop_bit s (push_bit 12 (drop_bit 12 v))) n = bit (drop_bit s v) n"
    by (auto simp: bit_simps)
qed

lemma page_indices_page: "page_indices (push_bit 12 (drop_bit 12 v)) = page_indices v"
  by (simp add: page_indices_def drop_bit_page)

lemma translate_page:
  "translate_user_address_with_access root v access read_entry =
     (case page_frame access root (drop_bit 12 v) read_entry of Err e \<Rightarrow> Err e | Ok f \<Rightarrow> Ok (f OR (v AND 0xfff)))"
proof -
  have 1: "push_bit 12 (drop_bit 12 v) AND 0xfff = 0"
    by (simp add: and_page_mask take_bit_push_bit)
  have 2: "valid_user_control_address (push_bit 12 (drop_bit 12 v)) = valid_user_control_address v"
    by (simp add: valid_user_page unat_push_page)
  show ?thesis
    by (simp add: page_frame_def translate_user_address_with_access_def Let_def page_indices_page 1 2 split: result.splits option.splits)
qed

lemma page_frame_aligned: "page_frame access root page read_entry = Ok f \<Longrightarrow> f AND 0xfff = 0"
proof -
  have "(w AND PAGE_ADDRESS_MASK) AND 0xfff = 0" for w :: u64
    by (simp add: PAGE_ADDRESS_MASK_def and.assoc)
  moreover have "push_bit 12 page AND 0xfff = (0 :: u64)" by (simp add: and_page_mask take_bit_push_bit)
  moreover assume "page_frame access root page read_entry = Ok f"
  ultimately show ?thesis
    by (auto simp: page_frame_def translate_user_address_with_access_def Let_def split: rust_splits)
qed

lemma within_block:
  fixes x k c :: nat
  assumes "x mod c + k < c"
  shows "(x + k) div c = x div c" "(x + k) mod c = x mod c + k"
proof -
  have k: "k div c = 0" "k mod c = k" using assms by simp_all
  show "(x + k) div c = x div c" using assms k by (simp add: div_add1_eq [of x k c])
  show "(x + k) mod c = x mod c + k" using assms k mod_add_eq [of x c k] by simp
qed

lemma within_page:
  fixes v :: u64
  assumes "unat v mod PAGE_SIZE + k < PAGE_SIZE"
  shows "unat (v + of_nat k) = unat v + k"
    "drop_bit 12 (v + of_nat k) = drop_bit 12 v" "(v + of_nat k) AND 0xfff = (v AND 0xfff) + of_nat k"
proof -
  let ?q = "unat v div PAGE_SIZE"
  have v: "unat v = ?q * PAGE_SIZE + unat v mod PAGE_SIZE" by simp
  have "?q < 2 ^ 52" using unsigned_less [of v, where 'a = nat] by (simp add: div_less_iff_less_mult)
  then have "?q * PAGE_SIZE + PAGE_SIZE \<le> 2 ^ 64" by simp
  with v assms have b: "unat v + k < 2 ^ 64" by linarith
  have k: "unat (of_nat k :: u64) = k" using assms by (simp add: unat_of_nat)
  show u: "unat (v + of_nat k) = unat v + k" using unat_add_lem [of v "of_nat k"] b k by simp
  note d = within_block [OF assms]
  show "drop_bit 12 (v + of_nat k) = drop_bit 12 v" by (simp only: word_unat_eq_iff unat_page u d)
  have "unat ((v AND 0xfff) + of_nat k) = unat v mod PAGE_SIZE + k"
    using unat_add_lem [of "v AND 0xfff" "of_nat k"] assms k by (simp add: unat_page_offset)
  then show "(v + of_nat k) AND 0xfff = (v AND 0xfff) + of_nat k"
    by (simp only: word_unat_eq_iff unat_page_offset u d)
qed


lemma frame_offset:
  fixes f x :: u64
  assumes "f AND 0xfff = 0"
  shows "f OR (x AND 0xfff) = f + (x AND 0xfff)" "unat (f + (x AND 0xfff)) = unat f + unat x mod PAGE_SIZE"
    "unat f mod PAGE_SIZE = 0"
proof -
  have "f AND (x AND 0xfff) = (f AND 0xfff) AND x" by (simp only: ac_simps)
  then have "f AND (x AND 0xfff) = 0" using assms by simp
  then show "f OR (x AND 0xfff) = f + (x AND 0xfff)" by (simp only: disjunctive_add_eq_or)
  show m: "unat f mod PAGE_SIZE = 0" using assms unat_page_offset [of f] by simp
  then have *: "unat f mod PAGE_SIZE + unat x mod PAGE_SIZE < PAGE_SIZE" by simp
  have "x AND 0xfff = of_nat (unat x mod PAGE_SIZE)" unfolding unat_page_offset [symmetric] by simp
  with within_page(1) [OF *] show "unat (f + (x AND 0xfff)) = unat f + unat x mod PAGE_SIZE" by simp
qed

lemma physical_limit: "unat EARLY_MAPPED_PHYSICAL_LIMIT = 2 ^ 20 * PAGE_SIZE"
  by (simp add: EARLY_MAPPED_PHYSICAL_LIMIT_def)

lemma block_limit:
  fixes x k n c :: nat
  assumes "x mod c + k \<le> c" "x < n * c"
  shows "x + k \<le> n * c"
proof -
  have "x div c < n" using assms(2) by (simp add: less_mult_imp_div_less)
  then have "Suc (x div c) * c \<le> n * c" by (intro mult_le_mono1) simp
  then have "x div c * c + c \<le> n * c" by simp
  moreover have "x = x div c * c + x mod c" by (simp only: div_mult_mod_eq)
  ultimately show ?thesis using assms(1) by linarith
qed

text \<open>A span is mapped as soon as its first byte is: frames and the limit are page aligned.\<close>

lemma span_mapped_iff:
  assumes "0 < n" "unat p mod PAGE_SIZE + n \<le> PAGE_SIZE"
  shows "span_mapped p n \<longleftrightarrow> p < EARLY_MAPPED_PHYSICAL_LIMIT"
proof -
  have n: "unat (of_nat n :: u64) = n" using assms by (simp add: unat_of_nat)
  show ?thesis
  proof (cases "p < EARLY_MAPPED_PHYSICAL_LIMIT")
    case True
    then have "unat p + n \<le> 2 ^ 20 * PAGE_SIZE"
      using block_limit [OF assms(2), of "2 ^ 20"] physical_limit unfolding word_less_nat_alt by simp
    moreover from this have "unat (p + of_nat n) = unat p + n" using unat_add_lem [of p "of_nat n"] n by simp
    ultimately show ?thesis using True physical_limit n
      by (simp add: span_mapped_def checked_add_def word_le_nat_alt)
  next
    case False
    moreover have "unat p \<le> unat e" if "checked_add p (of_nat n) = Some e" for e
      using that by (simp add: checked_add_Some_iff)
    moreover have "unat e = unat p + n" if "checked_add p (of_nat n) = Some e" for e
      using that n by (simp add: checked_add_Some_iff)
    ultimately show ?thesis using assms(1) physical_limit
      by (auto simp: span_mapped_def word_le_nat_alt word_less_nat_alt split: option.splits)
  qed
qed

lemma span_mapped_start: "span_mapped p n \<Longrightarrow> 0 < n \<Longrightarrow> n \<le> PAGE_SIZE \<Longrightarrow> p < EARLY_MAPPED_PHYSICAL_LIMIT"
  by (auto simp: span_mapped_def checked_add_Some_iff unat_of_nat word_le_nat_alt word_less_nat_alt split: option.splits)

lemma direct_map_iff: "direct_map_address p = None \<longleftrightarrow> \<not> p < EARLY_MAPPED_PHYSICAL_LIMIT"
proof -
  have "unat HIGHER_HALF_DIRECT_MAP_BASE + unat p < 2 ^ 64" if "p < EARLY_MAPPED_PHYSICAL_LIMIT"
    using that physical_limit by (simp add: word_less_nat_alt HIGHER_HALF_DIRECT_MAP_BASE_def)
  then show ?thesis by (auto simp: direct_map_address_def checked_add_def)
qed


text \<open>All bytes of one page of a copy translate alike.\<close>

lemma user_byte_span:
  assumes "k < user_span v r"
  shows "user_byte access root (v + of_nat k) mem =
    (case translate_user_address_with_access root v access (read_active_entry mem) of Err e \<Rightarrow> Err e
     | Ok p \<Rightarrow> if \<not> span_mapped p (user_span v r) \<or> direct_map_address p = None
             then Err UcUnmappedPhysicalMemory else Ok (p + of_nat k))"
proof -
  have k: "unat v mod PAGE_SIZE + k < PAGE_SIZE" and s: "0 < user_span v r" "unat v mod PAGE_SIZE + user_span v r \<le> PAGE_SIZE"
    using assms mod_less_divisor [of PAGE_SIZE "unat v"] by (auto simp: user_span_def unat_page_offset)
  note w = within_page [OF k]
  show ?thesis
  proof (cases "page_frame access root (drop_bit 12 v) (read_active_entry mem)")
    case (Err e)
    then show ?thesis by (simp add: user_byte_def translate_page w)
  next
    case (Ok f)
    let ?p = "f OR (v AND 0xfff)"
    note a = page_frame_aligned [OF Ok]
    have p: "?p = f + (v AND 0xfff)" "unat ?p = unat f + unat v mod PAGE_SIZE" using frame_offset(1,2) [OF a, of v] by simp_all
    have pk: "f OR ((v + of_nat k) AND 0xfff) = ?p + of_nat k"
      using frame_offset(1) [OF a, of "v + of_nat k"] p(1) by (simp add: w)
    have m: "unat ?p mod PAGE_SIZE = unat v mod PAGE_SIZE" using p(2) frame_offset(3) [OF a] by (simp add: mod_add_left_eq [symmetric])
    have "?p + of_nat k < EARLY_MAPPED_PHYSICAL_LIMIT \<longleftrightarrow> ?p < EARLY_MAPPED_PHYSICAL_LIMIT"
    proof -
      have u: "unat (?p + of_nat k) = unat ?p + k" using within_page(1) [of ?p k] m k by simp
      have "unat ?p + k < 2 ^ 20 * PAGE_SIZE" if "unat ?p < 2 ^ 20 * PAGE_SIZE"
        using block_limit [of "unat ?p" PAGE_SIZE "k + 1" "2 ^ 20"] that m k by simp
      then show ?thesis unfolding word_less_nat_alt physical_limit u by linarith
    qed
    then show ?thesis
      using span_mapped_iff [OF s(1), of ?p] s(2) m
      by (auto simp: user_byte_def translate_page w Ok direct_map_iff pk [unfolded w])
  qed
qed


section \<open>Reading agrees with the reference\<close>

lemma load_user_span:
  assumes "\<And>k. k < n \<Longrightarrow> user_byte False root (v + of_nat k) mem = Ok (p + of_nat k)"
  shows "load_user root v (n + r) mem =
    (case load_user root (v + of_nat n) r mem of Err e \<Rightarrow> Err e | Ok bytes \<Rightarrow> Ok (load_bytes mem p n @ bytes))"
  using assms
proof (induction n arbitrary: v p)
  case 0
  then show ?case by (simp add: load_bytes_def split: result.splits)
next
  case (Suc n)
  have "user_byte False root ((v + 1) + of_nat k) mem = Ok ((p + 1) + of_nat k)" if "k < n" for k
    using Suc.prems [of "Suc k"] that by (simp add: ac_simps)
  from Suc.IH [OF this] have *: "load_user root (v + 1) (n + r) mem =
      (case load_user root (v + 1 + of_nat n) r mem of Err e \<Rightarrow> Err e | Ok bytes \<Rightarrow> Ok (load_bytes mem (p + 1) n @ bytes))"
    by blast
  have "load_bytes mem p (Suc n) = mem p # load_bytes mem (p + 1) n"
    by (simp add: load_bytes_def map_upt_Suc ac_simps del: upt_Suc)
  moreover have "user_byte False root v mem = Ok p" using Suc.prems [of 0] by simp
  ultimately show ?case using * by (simp add: ac_simps split: result.splits)
qed

lemma copy_from_loop_eq:
  assumes "copied \<le> len"
  shows "copy_from_loop root source len mem copied target =
    (case load_user root (source + of_nat copied) (len - copied) mem of Err e \<Rightarrow> Err e | Ok bytes \<Rightarrow> Ok (target @ bytes))"
  using assms
proof (induction root source len mem copied target rule: copy_from_loop.induct)
  case (1 root source len mem copied target)
  let ?v = "source + of_nat copied"
  let ?s = "user_span ?v (len - copied)"
  show ?case
  proof (cases "copied < len")
    case False
    with "1.prems" show ?thesis by (subst copy_from_loop.simps) simp
  next
    case go: True
    then have s: "0 < ?s" "?s \<le> len - copied" by simp_all
    then obtain m where m: "len - copied = ?s + m" using le_Suc_ex by blast
    note b = user_byte_span [of _ ?v "len - copied" False root mem]
    show ?thesis
    proof (cases "translate_user_address root ?v mem")
      case (Err e)
      then have "user_byte False root ?v mem = Err e"
        using b [of 0] s by (simp add: translate_user_address_def)
      then have "load_user root ?v (len - copied) mem = Err e" using go by (cases "len - copied") simp_all
      with go Err show ?thesis by (subst copy_from_loop.simps) simp
    next
      case (Ok p)
      show ?thesis
      proof (cases "\<not> span_mapped p ?s \<or> direct_map_address p = None")
        case bad: True
        then have "user_byte False root ?v mem = Err UcUnmappedPhysicalMemory"
          using b [of 0] s Ok by (auto simp: translate_user_address_def)
        then have "load_user root ?v (len - copied) mem = Err UcUnmappedPhysicalMemory" using go by (cases "len - copied") simp_all
        with go Ok bad show ?thesis by (subst copy_from_loop.simps) (auto simp: Let_def)
      next
        case good: False
        have u: "user_byte False root (?v + of_nat k) mem = Ok (p + of_nat k)" if "k < ?s" for k
          using b [OF that] Ok good by (simp add: translate_user_address_def)
        have "load_user root ?v (len - copied) mem = (case load_user root (?v + of_nat ?s) m mem of Err e \<Rightarrow> Err e
            | Ok bytes \<Rightarrow> Ok (load_bytes mem p ?s @ bytes))"
          using load_user_span [of ?s root ?v mem p m] u by (simp only: m [symmetric])
        moreover have "m = len - (copied + ?s)" using m by simp
        moreover have "copied + ?s \<le> len" using s(2) go by linarith
        ultimately show ?thesis
          using "1.IH" [OF go refl Ok refl] good go Ok
          by (subst copy_from_loop.simps) (simp add: Let_def ac_simps split: result.splits)
      qed
    qed
  qed
qed

lemma copy_from_user_eq: "copy_range_ok source len \<Longrightarrow> copy_from_user root source len mem = load_user root source len mem"
  using copy_from_loop_eq [of 0 len root source mem "[]"] by (auto simp: copy_from_user_def split: result.splits)


section \<open>Writing agrees with the reference\<close>

text \<open>The physical bytes of the table entries a walk reads.\<close>

definition entry_at :: "u64 \<Rightarrow> nat \<Rightarrow> u64 list" where
  "entry_at table index = map (\<lambda>i. table + of_nat (index * 8) + of_nat i) [0..<8]"

fun level_bytes :: "(u64 \<Rightarrow> nat \<Rightarrow> u64 option) \<Rightarrow> nat list \<Rightarrow> u64 \<Rightarrow> u64 list" where
  "level_bytes read_entry [] table = []"
| "level_bytes read_entry (index # indices) table = entry_at table index @
     (case read_entry table index of None \<Rightarrow> []
      | Some entry \<Rightarrow> level_bytes read_entry indices (entry AND PAGE_ADDRESS_MASK))"

definition entry_bytes :: "u64 \<Rightarrow> u64 \<Rightarrow> physical_memory \<Rightarrow> u64 list" where
  "entry_bytes root address mem = level_bytes (read_active_entry mem) (page_indices address) root"

text \<open>No address of a range is backed by a table entry that the translation of the range reads.\<close>

definition range_stable :: "u64 \<Rightarrow> u64 \<Rightarrow> nat \<Rightarrow> physical_memory \<Rightarrow> bool" where
  "range_stable root target n mem \<longleftrightarrow>
     list_all (\<lambda>i. list_all (\<lambda>j.
       case user_byte True root (target + of_nat i) mem of Err _ \<Rightarrow> True
       | Ok p \<Rightarrow> p \<notin> set (entry_bytes root (target + of_nat j) mem)) [0..<n]) [0..<n]"

lemma read_entry_cong:
  "(\<And>a. a \<in> set (entry_at table index) \<Longrightarrow> mem' a = mem a) \<Longrightarrow> read_active_entry mem' table index = read_active_entry mem table index"
proof -
  assume a: "\<And>a. a \<in> set (entry_at table index) \<Longrightarrow> mem' a = mem a"
  have "load_bytes mem' (table + of_nat (index * 8)) 8 = load_bytes mem (table + of_nat (index * 8)) 8"
    unfolding load_bytes_def by (intro map_cong refl a) (auto simp: entry_at_def)
  then show ?thesis by (simp add: read_active_entry_def checked_add_def split: option.splits)
qed

lemma walk_cong:
  assumes "\<And>a. a \<in> set (level_bytes (read_active_entry mem) indices table) \<Longrightarrow> mem' a = mem a"
  shows "level_bytes (read_active_entry mem') indices table = level_bytes (read_active_entry mem) indices table"
    "walk_levels access (read_active_entry mem') (take n indices) table = walk_levels access (read_active_entry mem) (take n indices) table"
    "walk_levels access (read_active_entry mem) (take n indices) table = Ok t \<Longrightarrow> n < length indices \<Longrightarrow>
       read_active_entry mem' t (indices ! n) = read_active_entry mem t (indices ! n)"
  using assms
proof (induction indices arbitrary: table n)
  case (Cons index indices)
  have c: "read_active_entry mem' table index = read_active_entry mem table index"
    if "\<And>a. a \<in> set (level_bytes (read_active_entry mem) (index # indices) table) \<Longrightarrow> mem' a = mem a" for table
    using that by (intro read_entry_cong) simp
  {
    case 1
    have "read_active_entry mem' table index = read_active_entry mem table index" by (rule c) (rule 1)
    with 1 Cons.IH(1) show ?case by (cases "read_active_entry mem table index") simp_all
  next
    case 2
    have "read_active_entry mem' table index = read_active_entry mem table index" by (rule c) (rule 2)
    with 2 Cons.IH(2) show ?case by (cases n; cases "read_active_entry mem table index") simp_all
  next
    case 3
    have "read_active_entry mem' table index = read_active_entry mem table index" by (rule c) (rule 3(3))
    with 3 Cons.IH(3) show ?case
      by (cases n; cases "read_active_entry mem table index") (simp_all split: if_splits)
  }
qed simp_all

lemma translate_cong:
  assumes "\<And>a. a \<in> set (entry_bytes root v mem) \<Longrightarrow> mem' a = mem a"
  shows "entry_bytes root v mem' = entry_bytes root v mem" "user_byte access root v mem' = user_byte access root v mem"
proof -
  note w = walk_cong [OF assms [unfolded entry_bytes_def]]
  show "entry_bytes root v mem' = entry_bytes root v mem" by (simp add: entry_bytes_def w(1))
  have "length (page_indices v) = 4" by (simp add: page_indices_def)
  then have "translate_user_address_with_access root v access (read_active_entry mem') =
      translate_user_address_with_access root v access (read_active_entry mem)"
    using w(3) [where access = access and n = 3]
    by (auto simp: translate_user_address_with_access_def Let_def w(2) split: result.splits)
  then show "user_byte access root v mem' = user_byte access root v mem" by (simp add: user_byte_def)
qed


text \<open>Writing through a fixed translation.\<close>

fun scatter :: "(u64 \<Rightarrow> (u64, 'e) result) \<Rightarrow> u64 \<Rightarrow> u8 list \<Rightarrow> physical_memory \<Rightarrow> (unit, 'e) result \<times> physical_memory" where
  "scatter f v [] mem = (Ok (), mem)"
| "scatter f v (b # bytes) mem =
     (case f v of Err e \<Rightarrow> (Err e, mem) | Ok p \<Rightarrow> scatter f (v + 1) bytes (mem(p := b)))"

lemma scatter_span:
  assumes "\<And>k. k < length bytes \<Longrightarrow> f (v + of_nat k) = Ok (p + of_nat k)"
  shows "scatter f v (bytes @ rest) mem = scatter f (v + of_nat (length bytes)) rest (store_bytes mem p bytes)"
  using assms
proof (induction bytes arbitrary: v p mem)
  case (Cons b bytes)
  have "f ((v + 1) + of_nat k) = Ok ((p + 1) + of_nat k)" if "k < length bytes" for k
    using Cons.prems [of "Suc k"] that by (simp add: ac_simps)
  from Cons.IH [OF this] Cons.prems [of 0] show ?case by (simp add: ac_simps)
qed simp

text \<open>Memories that differ only in bytes the range translates to.\<close>

definition range_differs :: "u64 \<Rightarrow> u64 \<Rightarrow> nat \<Rightarrow> physical_memory \<Rightarrow> physical_memory \<Rightarrow> bool" where
  "range_differs root target n mem mem' \<longleftrightarrow>
     (\<forall>p. mem' p = mem p \<or> (\<exists>i<n. user_byte True root (target + of_nat i) mem = Ok p))"

lemma range_differs_same:
  assumes "range_stable root target n mem" "range_differs root target n mem mem'" "j < n"
  shows "user_byte access root (target + of_nat j) mem' = user_byte access root (target + of_nat j) mem"
proof (rule translate_cong(2))
  fix a
  assume a: "a \<in> set (entry_bytes root (target + of_nat j) mem)"
  have "user_byte True root (target + of_nat i) mem \<noteq> Ok a" if "i < n" for i
    using assms(1,3) a that by (auto simp: range_stable_def list_all_iff split: result.splits)
  then show "mem' a = mem a" using assms(2) by (auto simp: range_differs_def)
qed

lemma range_differs_refl [simp]: "range_differs root target n mem mem"
  by (simp add: range_differs_def)

lemma range_differs_write:
  "range_differs root target n mem mem' \<Longrightarrow> i < n \<Longrightarrow> user_byte True root (target + of_nat i) mem = Ok p \<Longrightarrow>
    range_differs root target n mem (mem'(p := b))"
  by (auto simp: range_differs_def)

lemma range_differs_store:
  assumes "range_differs root target n mem mem'"
    "\<And>k. k < length bytes \<Longrightarrow> \<exists>i<n. user_byte True root (target + of_nat i) mem = Ok (p + of_nat k)"
  shows "range_differs root target n mem (store_bytes mem' p bytes)"
  using assms
proof (induction bytes arbitrary: mem' p)
  case (Cons b bytes)
  have d: "range_differs root target n mem (mem'(p := b))"
    using Cons.prems(1) Cons.prems(2) [of 0] range_differs_write by fastforce
  have "\<exists>i<n. user_byte True root (target + of_nat i) mem = Ok (p + 1 + of_nat k)" if "k < length bytes" for k
    using Cons.prems(2) [of "Suc k"] that by (simp add: ac_simps)
  from Cons.IH [OF d this] show ?case by (simp only: store_bytes.simps)
qed simp

lemma store_user_scatter:
  assumes "range_stable root target n mem" "range_differs root target n mem mem'" "i + length bytes \<le> n"
  shows "store_user root (target + of_nat i) bytes mem' =
    scatter (\<lambda>v. user_byte True root v mem) (target + of_nat i) bytes mem'"
  using assms(2,3)
proof (induction bytes arbitrary: i mem')
  case (Cons b bytes)
  then have i: "i < n" by simp
  note s = range_differs_same [OF assms(1) Cons.prems(1) i, of True]
  show ?case
  proof (cases "user_byte True root (target + of_nat i) mem")
    case (Ok p)
    from range_differs_write [OF Cons.prems(1) i Ok] Cons.IH [of "mem'(p := b)" "Suc i"] Cons.prems(2) s Ok
    show ?thesis by (simp add: ac_simps fun_upd_def)
  qed (simp add: s)
qed simp

lemma scatter_differs:
  assumes "scatter (\<lambda>v. user_byte True root v mem) (target + of_nat i) bytes mem' = (r, mem'')"
    "range_differs root target n mem mem'" "i + length bytes \<le> n"
  shows "range_differs root target n mem mem''"
  using assms
proof (induction bytes arbitrary: i mem')
  case (Cons b bytes)
  then have i: "i < n" by simp
  show ?case
  proof (cases "user_byte True root (target + of_nat i) mem")
    case (Ok p)
    with Cons.IH [of "Suc i" "mem'(p := b)"] Cons.prems range_differs_write [OF Cons.prems(2) i Ok]
    show ?thesis by (simp add: ac_simps fun_upd_def)
  qed (use Cons.prems in simp)
qed simp


lemma copy_to_loop_scatter:
  assumes "range_stable root target (length source) mem" "range_differs root target (length source) mem mem'"
    "copied \<le> length source"
  shows "copy_to_loop root target source copied mem' =
    scatter (\<lambda>v. user_byte True root v mem) (target + of_nat copied) (drop copied source) mem'"
  using assms
proof (induction root target source copied mem' rule: copy_to_loop.induct)
  case (1 root target source copied mem')
  let ?v = "target + of_nat copied"
  let ?n = "length source - copied"
  let ?s = "user_span ?v ?n"
  let ?f = "\<lambda>v. user_byte True root v mem"
  show ?case
  proof (cases "copied < length source")
    case False
    with "1.prems" show ?thesis by (subst copy_to_loop.simps) simp
  next
    case go: True
    then have s: "0 < ?s" "?s \<le> ?n" by simp_all
    obtain b rest where d: "drop copied source = b # rest" using go by (cases "drop copied source") auto
    have in_range: "copied + k < length source" if "k < ?s" for k using that s(2) by linarith
    have same: "user_byte True root (?v + of_nat k) mem' = ?f (?v + of_nat k)" if "k < ?s" for k
      using range_differs_same [OF "1.prems"(1,2) in_range [OF that], of True] by (simp add: ac_simps)
    note u = user_byte_span [of _ ?v ?n True root mem']
    show ?thesis
    proof (cases "translate_user_address_for_write root ?v mem'")
      case (Err e)
      then have "?f ?v = Err e" using u [of 0] same [of 0] s by (simp add: translate_user_address_for_write_def)
      with go Err d show ?thesis by (subst copy_to_loop.simps) simp
    next
      case (Ok p)
      show ?thesis
      proof (cases "\<not> span_mapped p ?s \<or> direct_map_address p = None")
        case bad: True
        then have "?f ?v = Err UcUnmappedPhysicalMemory"
          using u [of 0] same [of 0] s Ok by (auto simp: translate_user_address_for_write_def)
        with go Ok bad d show ?thesis by (subst copy_to_loop.simps) (auto simp: Let_def)
      next
        case good: False
        let ?chunk = "take ?s (drop copied source)"
        have l: "length ?chunk = ?s" using s(2) by simp
        have f: "?f (?v + of_nat k) = Ok (p + of_nat k)" if "k < length ?chunk" for k
          using u [of k] same [of k] that Ok good unfolding l by (simp add: translate_user_address_for_write_def)
        have "scatter ?f ?v (drop copied source) mem' =
            scatter ?f (?v + of_nat ?s) (drop (copied + ?s) source) (store_bytes mem' p ?chunk)"
          using scatter_span [of ?chunk ?f ?v p "drop ?s (drop copied source)" mem', OF f]
          unfolding l append_take_drop_id by (simp add: add.commute)
        moreover have "\<exists>i<length source. ?f (target + of_nat i) = Ok (p + of_nat k)" if "k < length ?chunk" for k
          using f [OF that] in_range [of k] that unfolding l by (intro exI [of _ "copied + k"]) (simp add: ac_simps)
        then have "range_differs root target (length source) mem (store_bytes mem' p ?chunk)"
          by (intro range_differs_store "1.prems"(2))
        moreover have "copied + ?s \<le> length source" using s(2) go by linarith
        ultimately show ?thesis
          using "1.IH" [OF go refl Ok refl] "1.prems"(1) good go Ok
          by (subst copy_to_loop.simps) (auto simp: Let_def ac_simps)
      qed
    qed
  qed
qed

lemma copy_to_user_scatter:
  assumes "copy_range_ok target (length source)" "range_stable root target (length source) mem"
  shows "copy_to_user root target source mem = scatter (\<lambda>v. user_byte True root v mem) target source mem"
    "store_user root target source mem = scatter (\<lambda>v. user_byte True root v mem) target source mem"
  using assms copy_to_loop_scatter [OF assms(2), of mem 0] store_user_scatter [OF assms(2), of mem 0 source]
  by (simp_all add: copy_to_user_def)


section \<open>What a translation permits\<close>

text \<open>The entries on the path of an address, in terms of the bits of the architecture: present
  (0), writable (1), user (2) and, at the upper levels, page size (7).\<close>

definition user_maps :: "bool \<Rightarrow> u64 \<Rightarrow> u64 \<Rightarrow> u64 \<Rightarrow> physical_memory \<Rightarrow> bool" where
  "user_maps access root v p mem \<longleftrightarrow>
     (\<exists>e1 e2 e3 e4.
        read_active_entry mem root (page_indices v ! 0) = Some e1 \<and>
        read_active_entry mem (e1 AND PAGE_ADDRESS_MASK) (page_indices v ! 1) = Some e2 \<and>
        read_active_entry mem (e2 AND PAGE_ADDRESS_MASK) (page_indices v ! 2) = Some e3 \<and>
        read_active_entry mem (e3 AND PAGE_ADDRESS_MASK) (page_indices v ! 3) = Some e4 \<and>
        list_all (\<lambda>e. bit e 0 \<and> bit e 2 \<and> (access \<longrightarrow> bit e 1)) [e1, e2, e3, e4] \<and>
        list_all (\<lambda>e. \<not> bit e 7) [e1, e2, e3] \<and>
        p = (e4 AND PAGE_ADDRESS_MASK) OR (v AND 0xfff))"

lemma entry_permits_bits: "entry_permits access e \<longleftrightarrow> bit e 0 \<and> bit e 2 \<and> (access \<longrightarrow> bit e 1)"
proof -
  have 1: "e AND 2 ^ n = 0 \<longleftrightarrow> \<not> bit e n" for n by (simp add: bit_iff_and_push_bit_not_eq_0 push_bit_eq_mult)
  have "e AND 5 = 5 \<longleftrightarrow> bit e 0 \<and> bit e 2"
  proof
    assume a: "e AND 5 = 5"
    have "bit (e AND 5) 0" "bit (e AND 5) 2" unfolding a by simp_all
    then show "bit e 0 \<and> bit e 2" by (simp add: bit_and_iff)
  next
    have five: "bit (5 :: u64) n \<longleftrightarrow> n = 0 \<or> n = 2" for n
    proof -
      have "(5 :: u64) = 1 OR push_bit 2 1" by simp
      moreover have "bit (1 OR push_bit 2 1 :: u64) n \<longleftrightarrow> n = 0 \<or> n = 2"
        unfolding bit_or_iff bit_push_bit_iff bit_1_iff by auto
      ultimately show ?thesis by (simp only:)
    qed
    assume "bit e 0 \<and> bit e 2"
    then show "e AND 5 = 5" by (intro bit_word_eqI) (metis bit_and_iff five)
  qed
  then show ?thesis using 1 [of 1] by (auto simp: entry_permits_def ENTRY_PRESENT_def ENTRY_USER_def ENTRY_WRITABLE_def)
qed

lemma huge_bit: "e AND ENTRY_HUGE \<noteq> 0 \<longleftrightarrow> bit e 7"
  using bit_iff_and_push_bit_not_eq_0 [of e 7] by (simp add: ENTRY_HUGE_def)

lemma translate_maps:
  assumes "translate_user_address_with_access root v access (read_active_entry mem) = Ok p"
  shows "user_maps access root v p mem"
proof -
  have l: "take 3 (page_indices v) = [page_indices v ! 0, page_indices v ! 1, page_indices v ! 2]"
    by (simp add: page_indices_def)
  from assms show ?thesis
    unfolding translate_user_address_with_access_def Let_def l user_maps_def
    by (auto simp: entry_permits_bits huge_bit split: rust_splits)
qed

lemma user_byte_Ok:
  "user_byte access root v mem = Ok p \<Longrightarrow> user_maps access root v p mem \<and> p < EARLY_MAPPED_PHYSICAL_LIMIT"
  by (auto simp: user_byte_def translate_maps split: rust_splits)

text \<open>What may be written may be read, at the same place.\<close>

lemma walk_levels_read: "walk_levels True read_entry indices table = Ok t \<Longrightarrow> walk_levels False read_entry indices table = Ok t"
  by (induction indices arbitrary: table) (auto simp: entry_permits_def split: option.splits if_splits)

lemma user_byte_read: "user_byte True root v mem = Ok p \<Longrightarrow> user_byte False root v mem = Ok p"
  by (auto simp: user_byte_def translate_user_address_with_access_def Let_def entry_permits_def
      dest!: walk_levels_read split: rust_splits)


section \<open>Validation and round trips\<close>

lemma scatter_total:
  "(\<And>i. i < length bytes \<Longrightarrow> is_Ok (f (v + of_nat i))) \<Longrightarrow> fst (scatter f v bytes mem) = Ok ()"
proof (induction bytes arbitrary: v mem)
  case (Cons b bytes)
  have "is_Ok (f (v + 1 + of_nat i))" if "i < length bytes" for i
    using Cons.prems [of "Suc i"] that by (simp add: ac_simps)
  with Cons.IH [of "v + 1"] Cons.prems [of 0] show ?case by (auto simp: is_Ok_def)
qed simp

lemma scatter_frame:
  "(\<And>i. i < length bytes \<Longrightarrow> f (v + of_nat i) \<noteq> Ok p) \<Longrightarrow> snd (scatter f v bytes mem) p = mem p"
proof (induction bytes arbitrary: v mem)
  case (Cons b bytes)
  have "f (v + 1 + of_nat i) \<noteq> Ok p" if "i < length bytes" for i
    using Cons.prems [of "Suc i"] that by (simp add: ac_simps)
  with Cons.IH [of "v + 1"] Cons.prems [of 0] show ?case by (auto split: result.splits)
qed simp

lemma scatter_value:
  assumes "fst (scatter f v bytes mem) = Ok ()" "i < length bytes"
    "\<And>a b. a < b \<Longrightarrow> b < length bytes \<Longrightarrow> f (v + of_nat a) \<noteq> f (v + of_nat b)"
  shows "\<exists>p. f (v + of_nat i) = Ok p \<and> snd (scatter f v bytes mem) p = bytes ! i"
  using assms
proof (induction bytes arbitrary: v mem i)
  case (Cons b bytes)
  obtain p where p: "f v = Ok p" using Cons.prems(1) by (auto split: result.splits)
  have d: "f (v + 1 + of_nat a) \<noteq> f (v + 1 + of_nat c)" if "a < c" "c < length bytes" for a c
    using Cons.prems(3) [of "Suc a" "Suc c"] that by (simp add: ac_simps)
  have ok: "fst (scatter f (v + 1) bytes (mem(p := b))) = Ok ()" using Cons.prems(1) p by simp
  show ?case
  proof (cases i)
    case 0
    have "f (v + 1 + of_nat a) \<noteq> Ok p" if "a < length bytes" for a
      using Cons.prems(3) [of 0 "Suc a"] that p by (simp add: ac_simps)
    with p 0 show ?thesis by (simp add: scatter_frame)
  next
    case (Suc k)
    with Cons.IH [OF ok, of k] d Cons.prems(2) p show ?thesis by (simp add: ac_simps fun_upd_def)
  qed
qed simp

lemma load_user_values:
  "(\<And>i. i < n \<Longrightarrow> \<exists>p. user_byte False root (v + of_nat i) mem = Ok p \<and> mem p = g i) \<Longrightarrow>
    load_user root v n mem = Ok (map g [0..<n])"
proof (induction n arbitrary: v g)
  case (Suc n)
  have "\<exists>p. user_byte False root (v + 1 + of_nat i) mem = Ok p \<and> mem p = g (Suc i)" if "i < n" for i
    using Suc.prems [of "Suc i"] that by (simp add: ac_simps)
  from Suc.IH [OF this] Suc.prems [of 0] show ?case by (auto simp: map_upt_Suc simp del: upt_Suc)
qed simp

lemma validate_write_loop_eq:
  assumes "validate_write_loop root target len mem checked = Ok ()" "checked \<le> i" "i < len"
  shows "is_Ok (user_byte True root (target + of_nat i) mem)"
  using assms
proof (induction root target len mem checked rule: validate_write_loop.induct)
  case (1 root target len mem checked)
  let ?v = "target + of_nat checked"
  let ?s = "user_span ?v (len - checked)"
  have go: "checked < len" using "1.prems" by simp
  note e = "1.prems"(1) [unfolded validate_write_loop.simps [of root target len mem checked]]
  obtain p where p: "translate_user_address_for_write root ?v mem = Ok p"
    using e go by (auto simp: Let_def split: result.splits)
  then have m: "span_mapped p ?s" and r: "validate_write_loop root target len mem (checked + ?s) = Ok ()"
    using e go by (auto simp: Let_def split: if_splits)
  show ?case
  proof (cases "i < checked + ?s")
    case True
    then have k: "i - checked < ?s" using "1.prems"(2) by simp
    have "p < EARLY_MAPPED_PHYSICAL_LIMIT" using span_mapped_start [OF m _ user_span_page] k by linarith
    then have "is_Ok (user_byte True root (?v + of_nat (i - checked)) mem)"
      using user_byte_span [OF k, of True root mem] p m
      by (auto simp: translate_user_address_for_write_def direct_map_iff is_Ok_def split: if_splits)
    moreover have "?v + of_nat (i - checked) = target + of_nat i" using "1.prems"(2) by (simp add: of_nat_diff)
    ultimately show ?thesis by simp
  next
    case False
    then show ?thesis using "1.IH" [OF go refl p refl] m r "1.prems"(3) by simp
  qed
qed


section \<open>Properties\<close>

text \<open>Four levels of tables below the root at \<open>0x1000\<close> that map the user pages \<open>0x2000\<close> and
  \<open>0x3000\<close> to the frames \<open>0x5000\<close> and \<open>0x7000\<close>, and page \<open>0x4000\<close> read-only to \<open>0x8000\<close>.\<close>

definition demo_memory :: physical_memory where
  "demo_memory = fold (\<lambda>(p, b) mem. mem(p := b))
     [(0x1000, 7), (0x1001, 0x20), (0x2000, 7), (0x2001, 0x30), (0x3000, 7), (0x3001, 0x40),
      (0x4010, 7), (0x4011, 0x50), (0x4018, 7), (0x4019, 0x70), (0x4020, 5), (0x4021, 0x80)] (\<lambda>_. 0)"

lemma demo_translations:
  "user_byte True 0x1000 0x2fff demo_memory = Ok 0x5fff" "user_byte True 0x1000 0x3000 demo_memory = Ok 0x7000"
  by code_simp+

lemma demo_entries:
  "list_all (\<lambda>a. a < 0x5000) (entry_bytes 0x1000 0x2fff demo_memory)"
  "list_all (\<lambda>a. a < 0x5000) (entry_bytes 0x1000 0x3000 demo_memory)"
  by code_simp+

lemma demo_range: "copy_range_ok 0x2fff 2" by code_simp

lemma upt_two: "[0..<2] = [0, 1 :: nat]"
  by (simp add: upt_rec)

lemma demo_stable: "range_stable 0x1000 0x2fff 2 demo_memory"
proof -
  have "a \<notin> set (entry_bytes 0x1000 v demo_memory)" if "v = 0x2fff \<or> v = 0x3000" "\<not> a < 0x5000" for a v
    using that demo_entries by (auto simp: list_all_iff)
  then show ?thesis by (simp add: range_stable_def upt_two demo_translations)
qed

text \<open>
  C12. Copying by pages is copying by bytes: on a range inside user space, a read of user memory
  returns what translating and loading every byte on its own returns, and a write leaves the
  result and the memory that translating and storing every byte on its own leaves - errors,
  their kind and the bytes written before them included - as long as the range does not back
  the very table entries that translate it.
\<close>

theorem user_copy_bytewise:
  assumes "copy_range_ok address len" "length bytes = len" "range_stable root address len mem"
  shows "copy_from_user root address len mem = load_user root address len mem \<and>
    copy_to_user root address bytes mem = store_user root address bytes mem"
  using copy_from_user_eq [OF assms(1)] copy_to_user_scatter [of address bytes root mem] assms by simp

theorem user_copy_bytewise_witness:
  "copy_to_user 0x1000 0x2fff [1, 2] demo_memory = store_user 0x1000 0x2fff [1, 2] demo_memory"
  using user_copy_bytewise [OF demo_range, of "[1, 2]"] demo_stable by simp





end
