(* ===== verification/Robust.thy ===== *)
theory Robust
  imports Owners Lifecycle
begin

unbundle bit_operations_syntax

text \<open>
  \<^verbatim>\<open>src/src/linux_robust.rs\<close>: the registration of robust-futex list heads and the walk that
  recovers an exiting thread's list from user memory. Reading a pointer and marking a futex
  word are the caller's closures; they are arguments here, over a memory \<open>'m\<close> that the marking
  may change. The walk is bounded whatever the memory holds, touches user memory only through
  valid futex addresses, and on a well-formed list recovers every entry in order.
\<close>

section \<open>Constants and state\<close>

definition ROBUST_LIST_HEAD_BYTES :: u64 where "ROBUST_LIST_HEAD_BYTES = 24"
abbreviation ROBUST_LIST_LIMIT :: nat where "ROBUST_LIST_LIMIT \<equiv> 2048"
definition FUTEX_WAITERS :: u32 where "FUTEX_WAITERS = 0x80000000"
definition FUTEX_OWNER_DIED :: u32 where "FUTEX_OWNER_DIED = 0x40000000"
definition FUTEX_TID_MASK :: u32 where "FUTEX_TID_MASK = 0x3fffffff"
abbreviation MAXIMUM_ROBUST_LISTS :: nat where "MAXIMUM_ROBUST_LISTS \<equiv> MAXIMUM_PROCESSES"
definition POINTER_BYTES :: u64 where "POINTER_BYTES = 8"
definition ROBUST_WORD_BYTES :: u64 where "ROBUST_WORD_BYTES = 4"
definition PI_TAG :: u64 where "PI_TAG = 1"

datatype robust_list_error = RlInvalidOwner | RlInvalidAddress | RlInvalidLength | RlCapacity

record robust_registration =
  rg_head :: u64

record robust_slot =
  rs_owner :: process_handle
  rs_head :: u64

type_synonym robust_table = "robust_slot list"

definition ROBUST_EMPTY :: robust_slot where
  "ROBUST_EMPTY = \<lparr>rs_owner = no_handle, rs_head = 0\<rparr>"

definition robust_occupied :: "robust_slot \<Rightarrow> bool" where
  "robust_occupied slot \<longleftrightarrow> ph_pid (rs_owner slot) \<noteq> 0 \<and> ph_generation (rs_owner slot) \<noteq> 0"

definition robust_table_new :: robust_table where
  "robust_table_new = replicate MAXIMUM_ROBUST_LISTS ROBUST_EMPTY"

definition robust_valid_owner :: "process_handle \<Rightarrow> bool" where
  "robust_valid_owner owner \<longleftrightarrow> ph_pid owner \<noteq> 0 \<and> ph_generation owner \<noteq> 0 \<and>
     ph_pid owner AND FUTEX_TID_MASK = ph_pid owner"

definition valid_range :: "u64 \<Rightarrow> u64 \<Rightarrow> u64 \<Rightarrow> bool" where
  "valid_range address bytes alignment \<longleftrightarrow> USER_ADDRESS_MINIMUM \<le> address \<and> address mod alignment = 0 \<and>
     (case checked_add address bytes of None \<Rightarrow> False | Some e \<Rightarrow> e \<le> USER_ADDRESS_LIMIT)"

definition valid_head :: "u64 \<Rightarrow> bool" where
  "valid_head address = valid_range address ROBUST_LIST_HEAD_BYTES POINTER_BYTES"

definition valid_node :: "u64 \<Rightarrow> bool" where
  "valid_node address = valid_range address POINTER_BYTES POINTER_BYTES"

definition valid_futex :: "u64 \<Rightarrow> bool" where
  "valid_futex address = valid_range address ROBUST_WORD_BYTES ROBUST_WORD_BYTES"

section \<open>Registration\<close>

definition robust_find :: "process_handle \<Rightarrow> robust_table \<Rightarrow> nat option" where
  "robust_find owner table = position (\<lambda>slot. robust_occupied slot \<and> rs_owner slot = owner) table"

definition set_robust_list ::
    "process_handle \<Rightarrow> u64 \<Rightarrow> u64 \<Rightarrow> robust_table \<Rightarrow> (unit, robust_list_error) result \<times> robust_table" where
  "set_robust_list owner head len table =
     (if \<not> robust_valid_owner owner then (Err RlInvalidOwner, table)
      else if len \<noteq> ROBUST_LIST_HEAD_BYTES then (Err RlInvalidLength, table)
      else if head \<noteq> 0 \<and> \<not> valid_head head then (Err RlInvalidAddress, table)
      else case robust_find owner table of
        Some i \<Rightarrow>
          (Ok (), table[i := (if head = 0 then ROBUST_EMPTY else (table ! i)\<lparr>rs_head := head\<rparr>)])
      | None \<Rightarrow>
          if head = 0 then (Ok (), table)
          else case position (\<lambda>slot. \<not> robust_occupied slot) table of None \<Rightarrow> (Err RlCapacity, table)
          | Some i \<Rightarrow> (Ok (), table[i := \<lparr>rs_owner = owner, rs_head = head\<rparr>]))"

definition robust_list :: "process_handle \<Rightarrow> robust_table \<Rightarrow> robust_registration option" where
  "robust_list owner table =
     (if \<not> robust_valid_owner owner then None
      else map_option (\<lambda>i. \<lparr>rg_head = rs_head (table ! i)\<rparr>) (robust_find owner table))"

definition take_robust_list ::
    "process_handle \<Rightarrow> robust_table \<Rightarrow> robust_registration option \<times> robust_table" where
  "take_robust_list owner table =
     (if \<not> robust_valid_owner owner then (None, table)
      else case robust_find owner table of None \<Rightarrow> (None, table)
      | Some i \<Rightarrow> (Some \<lparr>rg_head = rs_head (table ! i)\<rparr>, table[i := ROBUST_EMPTY]))"

section \<open>Recovery\<close>

definition owner_died_replacement :: "u32 \<Rightarrow> u32 \<Rightarrow> u32 option" where
  "owner_died_replacement word owner_tid =
     (if word AND FUTEX_TID_MASK = owner_tid then Some ((word AND FUTEX_WAITERS) OR FUTEX_OWNER_DIED) else None)"

record robust_exit_report =
  rr_visited :: nat
  rr_recovered :: nat
  rr_wake_requests :: nat
  rr_faulted :: bool
  rr_truncated :: bool

definition ROBUST_REPORT_DEFAULT :: robust_exit_report where
  "ROBUST_REPORT_DEFAULT = \<lparr>rr_visited = 0, rr_recovered = 0, rr_wake_requests = 0,
     rr_faulted = False, rr_truncated = False\<rparr>"

record owner_death_result =
  od_recovered :: bool
  od_wake_requested :: bool

definition decode_pointer :: "u64 \<Rightarrow> u64 option" where
  "decode_pointer encoded = (if encoded AND PI_TAG = 0 then Some encoded else None)"

definition futex_address :: "u64 \<Rightarrow> u64 \<Rightarrow> u64 option" where
  "futex_address node offset =
     (case checked_add_signed node offset of None \<Rightarrow> None
      | Some address \<Rightarrow> if valid_futex address then Some address else None)"

text \<open>The pointer a read gave, when it could be read and carries no tag.\<close>

definition read_link :: "(u64 \<Rightarrow> 'm \<Rightarrow> (u64, 'e) result) \<Rightarrow> u64 \<Rightarrow> 'm \<Rightarrow> u64 option" where
  "read_link read_pointer address m =
     (case read_pointer address m of Err _ \<Rightarrow> None | Ok encoded \<Rightarrow> decode_pointer encoded)"

text \<open>What the report keeps of one call of the caller's \<open>recover\<close>.\<close>

definition robust_tally ::
    "(owner_death_result, 'e) result \<Rightarrow> robust_exit_report \<Rightarrow> robust_exit_report" where
  "robust_tally r report =
     (case r of
        Ok result \<Rightarrow> report\<lparr>rr_recovered := rr_recovered report + of_bool (od_recovered result),
          rr_wake_requests := rr_wake_requests report + of_bool (od_wake_requested result)\<rparr>
      | Err _ \<Rightarrow> report\<lparr>rr_faulted := True\<rparr>)"

text \<open>The loop: the next pointer, the report and the memory it leaves.\<close>

function robust_walk ::
    "(u64 \<Rightarrow> 'm \<Rightarrow> (u64, 'e) result) \<Rightarrow> (u64 \<Rightarrow> u32 \<Rightarrow> 'm \<Rightarrow> (owner_death_result, 'e) result \<times> 'm) \<Rightarrow>
      u64 \<Rightarrow> u64 \<Rightarrow> u64 \<Rightarrow> u32 \<Rightarrow> u64 \<Rightarrow> robust_exit_report \<Rightarrow> 'm \<Rightarrow> u64 \<times> robust_exit_report \<times> 'm" where
  "robust_walk read_pointer recover head offset pending owner_tid link report m =
     (if link \<noteq> head \<and> rr_visited report < ROBUST_LIST_LIMIT then
        if link = 0 \<or> \<not> valid_node link then (link, report\<lparr>rr_faulted := True\<rparr>, m)
        else case read_link read_pointer link m of
          None \<Rightarrow> (link, report\<lparr>rr_faulted := True\<rparr>, m)
        | Some follow \<Rightarrow>
            let report = report\<lparr>rr_visited := rr_visited report + 1\<rparr> in
            if link = pending then robust_walk read_pointer recover head offset pending owner_tid follow report m
            else case futex_address link offset of
              None \<Rightarrow> (follow, report\<lparr>rr_faulted := True\<rparr>, m)
            | Some address \<Rightarrow>
                case recover address owner_tid m of (r, m') \<Rightarrow>
                  if is_Ok r
                  then robust_walk read_pointer recover head offset pending owner_tid follow (robust_tally r report) m'
                  else (follow, robust_tally r report, m')
      else (link, report, m))"
  by pat_completeness auto

lemma robust_tally_visited [simp]: "rr_visited (robust_tally r report) = rr_visited report"
  by (simp add: robust_tally_def split: result.splits)

termination robust_walk
  by (relation "measure (\<lambda>(_, _, _, _, _, _, _, report, _). ROBUST_LIST_LIMIT - rr_visited report)") auto

declare robust_walk.simps [simp del]

definition robust_truncation :: "u64 \<Rightarrow> u64 \<Rightarrow> robust_exit_report \<Rightarrow> robust_exit_report" where
  "robust_truncation link head report =
     (if link \<noteq> head \<and> rr_visited report = ROBUST_LIST_LIMIT then report\<lparr>rr_truncated := True\<rparr> else report)"

text \<open>The entry whose lock or unlock was under way.\<close>

definition robust_pending ::
    "(u64 \<Rightarrow> u32 \<Rightarrow> 'm \<Rightarrow> (owner_death_result, 'e) result \<times> 'm) \<Rightarrow> u64 \<Rightarrow> u64 \<Rightarrow> u32 \<Rightarrow>
      robust_exit_report \<Rightarrow> 'm \<Rightarrow> robust_exit_report \<times> 'm" where
  "robust_pending recover offset pending owner_tid report m =
     (if pending = 0 then (report, m)
      else case futex_address pending offset of
        None \<Rightarrow> (report\<lparr>rr_faulted := True\<rparr>, m)
      | Some address \<Rightarrow>
          case recover address owner_tid m of (r, m') \<Rightarrow> (robust_tally r report, m'))"

definition recover_robust_list ::
    "robust_registration \<Rightarrow> u32 \<Rightarrow> (u64 \<Rightarrow> 'm \<Rightarrow> (u64, 'e) result) \<Rightarrow>
      (u64 \<Rightarrow> u32 \<Rightarrow> 'm \<Rightarrow> (owner_death_result, 'e) result \<times> 'm) \<Rightarrow> 'm \<Rightarrow> robust_exit_report \<times> 'm" where
  "recover_robust_list registration owner_tid read_pointer recover m =
     (let report = ROBUST_REPORT_DEFAULT; head = rg_head registration; fault = report\<lparr>rr_faulted := True\<rparr> in
      if \<not> valid_head head \<or> owner_tid = 0 \<or> owner_tid AND FUTEX_TID_MASK \<noteq> owner_tid then (fault, m)
      else case read_link read_pointer head m of None \<Rightarrow> (fault, m)
      | Some link \<Rightarrow>
      case read_pointer (head + POINTER_BYTES) m of Err _ \<Rightarrow> (fault, m)
      | Ok offset \<Rightarrow>
      case read_link read_pointer (head + 2 * POINTER_BYTES) m of None \<Rightarrow> (fault, m)
      | Some pending \<Rightarrow>
          let (link, report, m) = robust_walk read_pointer recover head offset pending owner_tid link report m
          in robust_pending recover offset pending owner_tid (robust_truncation link head report) m)"

section \<open>What a walk does to memory\<close>

text \<open>The effect of marking a sequence of futex words.\<close>

definition robust_marks ::
    "(u64 \<Rightarrow> u32 \<Rightarrow> 'm \<Rightarrow> (owner_death_result, 'e) result \<times> 'm) \<Rightarrow> u32 \<Rightarrow> u64 list \<Rightarrow> 'm \<Rightarrow> 'm" where
  "robust_marks recover owner_tid addresses m = fold (\<lambda>a m. snd (recover a owner_tid m)) addresses m"

lemma robust_marks_simps [simp]:
  "robust_marks recover owner_tid [] m = m"
  "robust_marks recover owner_tid (a # addresses) m = robust_marks recover owner_tid addresses (snd (recover a owner_tid m))"
  "robust_marks recover owner_tid (addresses @ addresses') m =
     robust_marks recover owner_tid addresses' (robust_marks recover owner_tid addresses m)"
  by (simp_all add: robust_marks_def)

text \<open>The report grew by the visits of a walk that marked \<open>addresses\<close>.\<close>

definition report_grows :: "robust_exit_report \<Rightarrow> u64 list \<Rightarrow> robust_exit_report \<Rightarrow> bool" where
  "report_grows report addresses report' \<longleftrightarrow>
     rr_visited report + length addresses \<le> rr_visited report' \<and>
     rr_recovered report' \<le> rr_recovered report + length addresses \<and>
     rr_wake_requests report' \<le> rr_wake_requests report + length addresses \<and>
     rr_truncated report' = rr_truncated report"

lemma report_grows_simps [simp]:
  "report_grows report [] report"
  "report_grows report [] (report\<lparr>rr_faulted := b\<rparr>)"
  by (simp_all add: report_grows_def)

lemma report_grows_skip:
  "report_grows (report\<lparr>rr_visited := rr_visited report + 1\<rparr>) addresses report' \<Longrightarrow> report_grows report addresses report'"
  by (simp add: report_grows_def)

lemma robust_tally_bounds:
  "rr_recovered (robust_tally r report) \<le> rr_recovered report + 1"
  "rr_wake_requests (robust_tally r report) \<le> rr_wake_requests report + 1"
  "rr_truncated (robust_tally r report) = rr_truncated report"
  by (simp_all add: robust_tally_def split: result.splits)

lemma report_grows_visit:
  assumes "report_grows (robust_tally r (report\<lparr>rr_visited := rr_visited report + 1\<rparr>)) addresses report'"
  shows "report_grows report (a # addresses) report'"
  using assms robust_tally_bounds [of r "report\<lparr>rr_visited := rr_visited report + 1\<rparr>"]
  by (simp add: report_grows_def)

lemma futex_address_valid: "futex_address node offset = Some a \<Longrightarrow> valid_futex a"
  by (auto simp: futex_address_def split: option.splits if_splits)

lemma robust_walk_trace:
  assumes "robust_walk read_pointer recover head offset pending owner_tid link report m = (link', report', m')"
    "rr_visited report \<le> ROBUST_LIST_LIMIT"
  shows "\<exists>addresses. list_all valid_futex addresses \<and> report_grows report addresses report' \<and>
    rr_visited report' \<le> ROBUST_LIST_LIMIT \<and> m' = robust_marks recover owner_tid addresses m"
  using assms
proof (induction read_pointer recover head offset pending owner_tid link report m rule: robust_walk.induct)
  case (1 read_pointer recover head offset pending owner_tid link report m)
  note eq = "1.prems"(1) [unfolded robust_walk.simps [of read_pointer recover head offset pending owner_tid link]]
  let ?report = "report\<lparr>rr_visited := rr_visited report + 1\<rparr>"
  show ?case
  proof (cases "link \<noteq> head \<and> rr_visited report < ROBUST_LIST_LIMIT \<and> link \<noteq> 0 \<and> valid_node link")
    case False
    then have "m' = m \<and> report_grows report [] report' \<and> rr_visited report' = rr_visited report"
      using eq by (auto split: if_splits)
    then show ?thesis using "1.prems"(2) by (intro exI [of _ "[]"]) simp
  next
    case go: True
    then have b: "rr_visited report + 1 \<le> ROBUST_LIST_LIMIT" by simp
    show ?thesis
    proof (cases "read_link read_pointer link m")
      case None
      then show ?thesis using go eq by (intro exI [of _ "[]"]) auto
    next
      case (Some follow)
      show ?thesis
      proof (cases "link = pending")
        case True
        have "robust_walk read_pointer recover head offset pending owner_tid follow ?report m = (link', report', m')"
          using eq go Some True by simp
        then show ?thesis using "1.IH"(1) [OF _ _ Some refl True] go b report_grows_skip by fastforce
      next
        case np: False
        show ?thesis
        proof (cases "futex_address link offset")
          case None
          then have "m' = m" "report_grows report [] report'" "rr_visited report' = rr_visited report + 1"
            using eq go Some np by (auto simp: report_grows_def)
          then show ?thesis using b by (intro exI [of _ "[]"]) simp
        next
          case f: (Some a)
          obtain r m1 where r: "recover a owner_tid m = (r, m1)" by (cases "recover a owner_tid m")
          note v = futex_address_valid [OF f]
          show ?thesis
          proof (cases "is_Ok r")
            case True
            have "robust_walk read_pointer recover head offset pending owner_tid follow (robust_tally r ?report) m1 =
                (link', report', m')"
              using eq go Some np f r True by simp
            from "1.IH"(2) [OF _ _ Some refl np f r [symmetric] True this] go b obtain addresses
              where a: "list_all valid_futex addresses" "report_grows (robust_tally r ?report) addresses report'"
                "rr_visited report' \<le> ROBUST_LIST_LIMIT" "m' = robust_marks recover owner_tid addresses m1" by auto
            show ?thesis using a v r report_grows_visit [OF a(2)] by (intro exI [of _ "a # addresses"]) simp
          next
            case False
            then have "report' = robust_tally r ?report" "m' = m1" using eq go Some np f r by auto
            then show ?thesis
              using v r b report_grows_visit [of r report "[]" report' a] by (intro exI [of _ "[a]"]) simp
          qed
        qed
      qed
    qed
  qed
qed


section \<open>Well-formed lists\<close>

text \<open>From \<open>p\<close> the links lead through \<open>nodes\<close> back to \<open>head\<close>.\<close>

fun robust_chain :: "(u64 \<Rightarrow> 'm \<Rightarrow> (u64, 'e) result) \<Rightarrow> u64 \<Rightarrow> 'm \<Rightarrow> u64 \<Rightarrow> u64 list \<Rightarrow> bool" where
  "robust_chain read_pointer head m p [] \<longleftrightarrow> p = head"
| "robust_chain read_pointer head m p (n # nodes) \<longleftrightarrow>
     p = n \<and> n \<noteq> head \<and> n \<noteq> 0 \<and> valid_node n \<and>
     (case read_link read_pointer n m of None \<Rightarrow> False | Some q \<Rightarrow> robust_chain read_pointer head m q nodes)"

text \<open>The futex words of the nodes that are not the pending one, in list order.\<close>

definition robust_words :: "u64 \<Rightarrow> u64 \<Rightarrow> u64 list \<Rightarrow> u64 list" where
  "robust_words offset pending nodes = map (\<lambda>n. the (futex_address n offset)) (filter (\<lambda>n. n \<noteq> pending) nodes)"

lemma robust_chain_cong:
  assumes "\<And>p. read_pointer p m' = read_pointer p m"
  shows "robust_chain read_pointer head m' p nodes = robust_chain read_pointer head m p nodes"
proof -
  have l: "read_link read_pointer q m' = read_link read_pointer q m" for q by (simp add: read_link_def assms)
  show ?thesis by (induction nodes arbitrary: p) (simp_all add: l cong: option.case_cong)
qed

lemma robust_walk_chain:
  assumes "robust_chain read_pointer head m link nodes"
    and "rr_visited report + length nodes \<le> ROBUST_LIST_LIMIT"
    and "list_all (\<lambda>n. futex_address n offset \<noteq> None) nodes"
    and pointers: "\<And>a p m. read_pointer p (snd (recover a owner_tid m)) = read_pointer p m"
    and succeeds: "\<And>a m. is_Ok (fst (recover a owner_tid m))"
    and "\<not> rr_faulted report"
  shows "\<exists>report'. robust_walk read_pointer recover head offset pending owner_tid link report m =
      (head, report', robust_marks recover owner_tid (robust_words offset pending nodes) m) \<and>
      rr_visited report' = rr_visited report + length nodes \<and> \<not> rr_faulted report' \<and>
      rr_truncated report' = rr_truncated report"
  using assms(1-3,6)
proof (induction nodes arbitrary: link report m)
  case Nil
  then show ?case by (subst robust_walk.simps) (simp add: robust_words_def)
next
  case (Cons n nodes)
  let ?report = "report\<lparr>rr_visited := rr_visited report + 1\<rparr>"
  obtain q where q: "read_link read_pointer n m = Some q" "robust_chain read_pointer head m q nodes"
    using Cons.prems(1) by (auto split: option.splits)
  obtain a where a: "futex_address n offset = Some a" using Cons.prems(3) by auto
  obtain r m1 where r: "recover a owner_tid m = (r, m1)" by (cases "recover a owner_tid m")
  have ok: "is_Ok r" using succeeds [of a m] r by simp
  have t: "\<not> rr_faulted (robust_tally r ?report)" "rr_truncated (robust_tally r ?report) = rr_truncated report"
    using ok Cons.prems(4) by (auto simp: robust_tally_def split: result.splits)
  have go: "link = n" "n \<noteq> head" "n \<noteq> 0" "valid_node n" "rr_visited report < ROBUST_LIST_LIMIT"
    using Cons.prems(1,2) by simp_all
  note rest = Cons.prems(2,3)
  show ?case
  proof (cases "n = pending")
    case True
    from go q a True
    have "robust_walk read_pointer recover head offset pending owner_tid link report m =
        robust_walk read_pointer recover head offset pending owner_tid q ?report m"
      by (subst robust_walk.simps) simp
    moreover have "robust_words offset pending (n # nodes) = robust_words offset pending nodes"
      using True by (simp add: robust_words_def)
    ultimately show ?thesis using Cons.IH [OF q(2), of ?report] rest Cons.prems(4) by (simp add: add.assoc)
  next
    case False
    from go q a r ok False
    have "robust_walk read_pointer recover head offset pending owner_tid link report m =
        robust_walk read_pointer recover head offset pending owner_tid q (robust_tally r ?report) m1"
      by (subst robust_walk.simps) simp
    moreover have "robust_words offset pending (n # nodes) = a # robust_words offset pending nodes"
      using False a by (simp add: robust_words_def)
    moreover have "robust_chain read_pointer head m1 q nodes"
      using q(2) pointers [of _ a m] r robust_chain_cong [of read_pointer m1 m] by simp
    ultimately show ?thesis using Cons.IH [of m1 q "robust_tally r ?report"] rest t r by simp
  qed
qed


section \<open>The registration table\<close>

definition robust_inv :: "robust_table \<Rightarrow> bool" where
  "robust_inv table \<longleftrightarrow> length table = MAXIMUM_ROBUST_LISTS \<and> unique_owners rs_owner table \<and>
     list_all (\<lambda>slot. robust_occupied slot \<longrightarrow> robust_valid_owner (rs_owner slot) \<and> valid_head (rs_head slot)) table"

lemma robust_occupied_owner: "robust_occupied slot \<longleftrightarrow> valid_owner (rs_owner slot)"
  by (simp add: robust_occupied_def valid_owner_def)

lemma robust_find_owned: "robust_find owner table = owned_at rs_owner owner table"
  by (simp add: robust_find_def owned_at_def robust_occupied_owner)

lemma robust_valid_ownerD: "robust_valid_owner owner \<Longrightarrow> valid_owner owner"
  by (simp add: robust_valid_owner_def valid_owner_def)

lemma robust_empty [simp]: "rs_owner ROBUST_EMPTY = no_handle" "\<not> robust_occupied ROBUST_EMPTY"
  by (simp_all add: ROBUST_EMPTY_def robust_occupied_owner)

lemma robust_inv_new: "robust_inv robust_table_new"
  by (simp add: robust_inv_def robust_table_new_def unique_owners_def list_all_iff)

lemma robust_inv_clear: "robust_inv table \<Longrightarrow> robust_inv (table[i := ROBUST_EMPTY])"
  by (simp add: robust_inv_def unique_owners_keep list_all_update)

lemma robust_list_owned:
  assumes "robust_inv table"
  shows "robust_list owner table = map_option (\<lambda>h. \<lparr>rg_head = h\<rparr>) (owned_value rs_owner rs_head owner table)"
proof (cases "robust_valid_owner owner")
  case False
  have "owned_at rs_owner owner table \<noteq> Some i" for i
    using assms False owned_at_Some [of rs_owner owner table i]
    by (auto simp: robust_inv_def list_all_length robust_occupied_owner)
  then have "owned_at rs_owner owner table = None" by (simp add: not_Some_eq [symmetric])
  with False show ?thesis by (simp add: robust_list_def owned_value_def)
qed (simp add: robust_list_def robust_find_owned owned_value_def option.map_comp comp_def)

lemma take_robust_owned:
  assumes "robust_inv table"
  shows "take_robust_list owner table =
    (robust_list owner table, case owned_at rs_owner owner table of None \<Rightarrow> table | Some i \<Rightarrow> table[i := ROBUST_EMPTY])"
  using robust_list_owned [OF assms, of owner]
  by (cases "robust_valid_owner owner") (auto simp: owned_value_def take_robust_list_def robust_list_def robust_find_owned split: option.splits)

lemma robust_set_cases:
  assumes "set_robust_list owner head len table = (r, table')"
  obtains (refused) e where "r = Err e" "table' = table"
  | (cleared) i where "r = Ok ()" "valid_owner owner" "head = 0" "owned_at rs_owner owner table = Some i"
      "table' = table[i := ROBUST_EMPTY]"
  | (absent) "r = Ok ()" "valid_owner owner" "head = 0" "owned_at rs_owner owner table = None" "table' = table"
  | (moved) i where "r = Ok ()" "head \<noteq> 0" "robust_valid_owner owner" "valid_head head"
      "owned_at rs_owner owner table = Some i" "table' = table[i := (table ! i)\<lparr>rs_head := head\<rparr>]"
  | (fresh) i where "r = Ok ()" "head \<noteq> 0" "robust_valid_owner owner" "valid_head head"
      "owned_at rs_owner owner table = None" "i < length table" "\<not> valid_owner (rs_owner (table ! i))"
      "table' = table[i := \<lparr>rs_owner = owner, rs_head = head\<rparr>]"
proof (cases "is_Ok r")
  case False
  then show thesis using assms refused by (cases r) (auto simp: set_robust_list_def split: rust_splits)
next
  case ok: True
  then have v: "robust_valid_owner owner" and h: "head = 0 \<or> valid_head head"
    using assms by (auto simp: set_robust_list_def split: if_splits)
  note e = assms [unfolded set_robust_list_def robust_find_owned]
  show thesis
  proof (cases "owned_at rs_owner owner table")
    case (Some i)
    show thesis
    proof (cases "head = 0")
      case True
      show thesis by (rule cleared [OF _ robust_valid_ownerD [OF v] True Some]) (use e ok v True Some in \<open>auto split: if_splits\<close>)
    next
      case False
      show thesis by (rule moved [OF _ False v _ Some]) (use e ok v h False Some in \<open>auto split: if_splits\<close>)
    qed
  next
    case None
    show thesis
    proof (cases "head = 0")
      case True
      show thesis by (rule absent [OF _ robust_valid_ownerD [OF v] True None]) (use e ok v True None in \<open>auto split: if_splits\<close>)
    next
      case False
      then obtain i where i: "position (\<lambda>slot. \<not> robust_occupied slot) table = Some i"
        using e ok v h None by (auto split: option.splits if_splits)
      show thesis
        by (rule fresh [OF _ False v _ None, of i])
          (use e ok v h False None i position_length [OF i] position_sat [OF i] in
            \<open>auto simp: robust_occupied_owner split: if_splits\<close>)
    qed
  qed
qed

lemma robust_set_inv:
  assumes "robust_inv table" "set_robust_list owner head len table = (r, table')"
  shows "robust_inv table'"
  using assms(2)
proof (cases rule: robust_set_cases)
  case (moved i)
  then show ?thesis using assms(1) owned_at_Some [OF moved(5)]
    by (simp add: robust_inv_def unique_owners_keep list_all_update)
next
  case (fresh i)
  from owned_at_filled(1) [of rs_owner table "\<lparr>rs_owner = owner, rs_head = head\<rparr>" i] fresh assms(1)
  show ?thesis by (simp add: robust_inv_def list_all_update robust_valid_ownerD)
qed (use assms(1) robust_inv_clear in simp_all)

lemma robust_set_registers:
  assumes "robust_inv table" "set_robust_list owner head len table = (Ok u, table')"
  shows "robust_list g table' = (if g = owner then if head = 0 then None else Some \<lparr>rg_head = head\<rparr> else robust_list g table)"
proof -
  have uo: "unique_owners rs_owner table" using assms(1) by (simp add: robust_inv_def)
  note lists = robust_list_owned [OF robust_set_inv [OF assms]] robust_list_owned [OF assms(1)]
  from assms(2) show ?thesis
  proof (cases rule: robust_set_cases)
    case (cleared i)
    then show ?thesis unfolding lists using owned_value_cleared [OF uo cleared(4), of ROBUST_EMPTY rs_head g] by simp
  next
    case absent
    then show ?thesis unfolding lists by (simp add: owned_value_def)
  next
    case (moved i)
    then show ?thesis unfolding lists
      using owned_value_moved [OF uo moved(5), of "(table ! i)\<lparr>rs_head := head\<rparr>" rs_head g] owned_at_Some [OF moved(5)] by simp
  next
    case (fresh i)
    then show ?thesis unfolding lists
      using owned_value_filled [OF uo, of "\<lparr>rs_owner = owner, rs_head = head\<rparr>" i rs_head g] robust_valid_ownerD by simp
  qed simp_all
qed

interpretation rbr: owner_registry robust_inv robust_list take_robust_list
proof unfold_locales
  fix s h g
  assume inv: "robust_inv s"
  then have u: "unique_owners rs_owner s" by (simp add: robust_inv_def)
  show "fst (take_robust_list h s) = robust_list h s" by (simp add: take_robust_owned [OF inv])
  show ok: "robust_inv (snd (take_robust_list h s))"
    using inv by (simp add: take_robust_owned robust_inv_clear split: option.splits)
  show "robust_list g (snd (take_robust_list h s)) = (if g = h then None else robust_list g s)"
    using inv ok owned_value_cleared [OF u, of h _ ROBUST_EMPTY rs_head g]
    by (cases "owned_at rs_owner h s") (auto simp: take_robust_owned robust_list_owned robust_inv_clear owned_value_def)
qed


section \<open>Properties\<close>

lemma recover_robust_cases:
  assumes "recover_robust_list registration owner_tid read_pointer recover m = (report, m')"
  obtains (refused) "report = ROBUST_REPORT_DEFAULT\<lparr>rr_faulted := True\<rparr>" "m' = m"
  | (walked) link offset pending link1 report1 m1 where "valid_head (rg_head registration)"
      "read_link read_pointer (rg_head registration) m = Some link"
      "read_pointer (rg_head registration + POINTER_BYTES) m = Ok offset"
      "read_link read_pointer (rg_head registration + 2 * POINTER_BYTES) m = Some pending"
      "robust_walk read_pointer recover (rg_head registration) offset pending owner_tid link ROBUST_REPORT_DEFAULT m =
        (link1, report1, m1)"
      "robust_pending recover offset pending owner_tid (robust_truncation link1 (rg_head registration) report1) m1 = (report, m')"
  using assms
  by (auto simp: recover_robust_list_def Let_def split: if_splits option.splits result.splits prod.splits)


text \<open>
  C21. Recovery is bounded and stays in user space, whatever the memory holds: for every list head,
  every content of user memory and every behaviour of the copy and marking routines, the walk
  visits at most 2048 nodes, all that it does to memory is to mark at most one futex word per
  visited node and the pending one, each at an aligned user address, and it never reports more
  recoveries or wake requests than words it marked.
\<close>

theorem robust_recovery_bounded:
  assumes "recover_robust_list registration owner_tid read_pointer recover m = (report, m')"
  shows "\<exists>addresses. list_all valid_futex addresses \<and> m' = robust_marks recover owner_tid addresses m \<and>
    length addresses \<le> rr_visited report + 1 \<and> rr_visited report \<le> ROBUST_LIST_LIMIT \<and>
    rr_recovered report \<le> length addresses \<and> rr_wake_requests report \<le> length addresses"
  using assms
proof (cases rule: recover_robust_cases)
  case refused
  then show ?thesis by (intro exI [of _ "[]"]) (simp add: ROBUST_REPORT_DEFAULT_def)
next
  case (walked link offset pending link1 report1 m1)
  obtain addresses where a: "list_all valid_futex addresses" "report_grows ROBUST_REPORT_DEFAULT addresses report1"
    "rr_visited report1 \<le> ROBUST_LIST_LIMIT" "m1 = robust_marks recover owner_tid addresses m"
    using robust_walk_trace [OF walked(5)] by (auto simp: ROBUST_REPORT_DEFAULT_def)
  let ?report = "robust_truncation link1 (rg_head registration) report1"
  have g: "length addresses \<le> rr_visited ?report" "rr_visited ?report \<le> ROBUST_LIST_LIMIT"
    "rr_recovered ?report \<le> length addresses" "rr_wake_requests ?report \<le> length addresses"
    using a(2,3) by (auto simp: robust_truncation_def report_grows_def ROBUST_REPORT_DEFAULT_def)
  note e = walked(6) [unfolded robust_pending_def]
  show ?thesis
  proof (cases "pending = 0 \<or> futex_address pending offset = None")
    case True
    then have "m' = m1" "report = ?report \<or> report = ?report\<lparr>rr_faulted := True\<rparr>" using e by (auto split: if_splits)
    then show ?thesis using a g by (intro exI [of _ addresses]) auto
  next
    case False
    then obtain p where p: "futex_address pending offset = Some p" by auto
    obtain r m2 where r: "recover p owner_tid m1 = (r, m2)" by (cases "recover p owner_tid m1")
    have "report = robust_tally r ?report" "m' = m2" using e False p r by simp_all
    then show ?thesis using a g r futex_address_valid [OF p] robust_tally_bounds [of r ?report]
      by (intro exI [of _ "addresses @ [p]"]) simp
  qed
qed


text \<open>A user memory of pointers and futex words, for the closures of the walk.\<close>

type_synonym demo_words = "(u64 \<Rightarrow> u64) \<times> (u64 \<Rightarrow> u32)"

definition demo_read :: "u64 \<Rightarrow> demo_words \<Rightarrow> (u64, unit) result" where
  "demo_read p m = Ok (fst m p)"

definition demo_recover :: "u64 \<Rightarrow> u32 \<Rightarrow> demo_words \<Rightarrow> (owner_death_result, unit) result \<times> demo_words" where
  "demo_recover a tid m =
     (case owner_died_replacement (snd m a) tid of
        None \<Rightarrow> (Ok \<lparr>od_recovered = False, od_wake_requested = False\<rparr>, m)
      | Some r \<Rightarrow> (Ok \<lparr>od_recovered = True, od_wake_requested = snd m a AND FUTEX_WAITERS \<noteq> 0\<rparr>, (fst m, (snd m)(a := r))))"

text \<open>The list head at \<open>0x1000\<close> with one node at \<open>0x2000\<close> whose futex word is at \<open>0x2010\<close>, held
  by thread 5 with waiters.\<close>

definition demo_words :: demo_words where
  "demo_words = ((\<lambda>_. 0)(0x1000 := 0x2000, 0x1008 := 0x10, 0x2000 := 0x1000), (\<lambda>_. 0)(0x2010 := 0x80000005))"

theorem robust_recovery_bounded_witness:
  "\<exists>addresses. snd (recover_robust_list \<lparr>rg_head = 0x1000\<rparr> 5 demo_read demo_recover demo_words) =
    robust_marks demo_recover 5 addresses demo_words \<and> length addresses \<le> ROBUST_LIST_LIMIT + 1"
proof -
  obtain report m' where e: "recover_robust_list \<lparr>rg_head = 0x1000\<rparr> 5 demo_read demo_recover demo_words = (report, m')"
    by (metis prod.exhaust)
  from robust_recovery_bounded [OF e] e show ?thesis by fastforce
qed



end
