(* ===== verification/ThreadId.thy ===== *)
theory ThreadId
  imports Owners Lifecycle
begin

text \<open>
  \<^verbatim>\<open>src/src/linux_thread.rs\<close>: the \<open>clear_child_tid\<close> address a thread registers and its exit
  consumes. The table is an \<open>owner_registry\<close>.
\<close>

section \<open>State\<close>

abbreviation MAXIMUM_THREAD_IDENTITIES :: nat where "MAXIMUM_THREAD_IDENTITIES \<equiv> MAXIMUM_PROCESSES"
definition TID_WORD_BYTES :: u64 where "TID_WORD_BYTES = 4"

datatype thread_identity_error = TiInvalidOwner | TiInvalidAddress | TiCapacity

record thread_identity_slot =
  ti_owner :: process_handle
  ti_clear_child_tid :: u64

type_synonym thread_identity_table = "thread_identity_slot list"

definition THREAD_IDENTITY_EMPTY :: thread_identity_slot where
  "THREAD_IDENTITY_EMPTY = \<lparr>ti_owner = no_handle, ti_clear_child_tid = 0\<rparr>"

definition thread_identity_occupied :: "thread_identity_slot \<Rightarrow> bool" where
  "thread_identity_occupied slot \<longleftrightarrow> ph_pid (ti_owner slot) \<noteq> 0 \<and> ph_generation (ti_owner slot) \<noteq> 0"

definition thread_identities_new :: thread_identity_table where
  "thread_identities_new = replicate MAXIMUM_THREAD_IDENTITIES THREAD_IDENTITY_EMPTY"

definition valid_tid_address :: "u64 \<Rightarrow> bool" where
  "valid_tid_address address \<longleftrightarrow> address = 0 \<or>
     USER_ADDRESS_MINIMUM \<le> address \<and> address mod TID_WORD_BYTES = 0 \<and>
     (case checked_add address TID_WORD_BYTES of None \<Rightarrow> False | Some e \<Rightarrow> e \<le> USER_ADDRESS_LIMIT)"

section \<open>Operations\<close>

definition thread_identity_find :: "process_handle \<Rightarrow> thread_identity_table \<Rightarrow> nat option" where
  "thread_identity_find owner table =
     position (\<lambda>slot. thread_identity_occupied slot \<and> ti_owner slot = owner) table"

definition set_tid_address ::
    "process_handle \<Rightarrow> u64 \<Rightarrow> thread_identity_table \<Rightarrow> (u32, thread_identity_error) result \<times> thread_identity_table" where
  "set_tid_address owner address table =
     (if \<not> valid_owner owner then (Err TiInvalidOwner, table)
      else if \<not> valid_tid_address address then (Err TiInvalidAddress, table)
      else case thread_identity_find owner table of
        Some i \<Rightarrow>
          (Ok (ph_pid owner),
           table[i := (if address = 0 then THREAD_IDENTITY_EMPTY else (table ! i)\<lparr>ti_clear_child_tid := address\<rparr>)])
      | None \<Rightarrow>
          if address = 0 then (Ok (ph_pid owner), table)
          else case position (\<lambda>slot. \<not> thread_identity_occupied slot) table of None \<Rightarrow> (Err TiCapacity, table)
          | Some i \<Rightarrow> (Ok (ph_pid owner), table[i := \<lparr>ti_owner = owner, ti_clear_child_tid = address\<rparr>]))"

definition take_clear_child_tid ::
    "process_handle \<Rightarrow> thread_identity_table \<Rightarrow> u64 option \<times> thread_identity_table" where
  "take_clear_child_tid owner table =
     (if \<not> valid_owner owner then (None, table)
      else case thread_identity_find owner table of None \<Rightarrow> (None, table)
      | Some i \<Rightarrow>
          let address = ti_clear_child_tid (table ! i)
          in (if address \<noteq> 0 then Some address else None, table[i := THREAD_IDENTITY_EMPTY]))"

section \<open>The table is a registry\<close>

definition thread_identity_inv :: "thread_identity_table \<Rightarrow> bool" where
  "thread_identity_inv table \<longleftrightarrow> length table = MAXIMUM_THREAD_IDENTITIES \<and> unique_owners ti_owner table \<and>
     list_all (\<lambda>slot. thread_identity_occupied slot \<longrightarrow> ti_clear_child_tid slot \<noteq> 0 \<and> valid_tid_address (ti_clear_child_tid slot)) table"

text \<open>The address registered for a handle.\<close>

definition clear_child_tid :: "process_handle \<Rightarrow> thread_identity_table \<Rightarrow> u64 option" where
  "clear_child_tid owner table = owned_value ti_owner ti_clear_child_tid owner table"

lemma thread_identity_occupied_owner: "thread_identity_occupied slot \<longleftrightarrow> valid_owner (ti_owner slot)"
  by (simp add: thread_identity_occupied_def valid_owner_def)

lemma thread_identity_find_owned: "thread_identity_find owner table = owned_at ti_owner owner table"
  by (simp add: thread_identity_find_def owned_at_def thread_identity_occupied_owner)

lemma thread_identity_empty [simp]:
  "ti_owner THREAD_IDENTITY_EMPTY = no_handle" "\<not> thread_identity_occupied THREAD_IDENTITY_EMPTY"
  by (simp_all add: THREAD_IDENTITY_EMPTY_def thread_identity_occupied_owner)

lemma thread_identity_inv_new: "thread_identity_inv thread_identities_new"
  by (simp add: thread_identity_inv_def thread_identities_new_def unique_owners_def list_all_iff)

lemma thread_identity_inv_clear: "thread_identity_inv table \<Longrightarrow> thread_identity_inv (table[i := THREAD_IDENTITY_EMPTY])"
  by (simp add: thread_identity_inv_def unique_owners_keep list_all_update)

lemma take_clear_child_tid_owned:
  assumes "thread_identity_inv table"
  shows "take_clear_child_tid owner table = (clear_child_tid owner table,
    case owned_at ti_owner owner table of None \<Rightarrow> table | Some i \<Rightarrow> table[i := THREAD_IDENTITY_EMPTY])"
proof (cases "owned_at ti_owner owner table")
  case None
  then show ?thesis
    by (simp add: take_clear_child_tid_def thread_identity_find_owned clear_child_tid_def owned_value_def)
next
  case (Some i)
  from owned_at_Some [OF Some] assms have "ti_clear_child_tid (table ! i) \<noteq> 0" "valid_owner owner"
    by (auto simp: thread_identity_inv_def list_all_length thread_identity_occupied_owner)
  with Some show ?thesis
    by (simp add: take_clear_child_tid_def thread_identity_find_owned clear_child_tid_def owned_value_def)
qed

lemma set_tid_cases:
  assumes "set_tid_address owner address table = (r, table')"
  obtains (refused) e where "r = Err e" "table' = table"
  | (cleared) i where "r = Ok (ph_pid owner)" "address = 0" "owned_at ti_owner owner table = Some i"
      "table' = table[i := THREAD_IDENTITY_EMPTY]"
  | (absent) "r = Ok (ph_pid owner)" "address = 0" "owned_at ti_owner owner table = None" "table' = table"
  | (moved) i where "r = Ok (ph_pid owner)" "address \<noteq> 0" "valid_tid_address address"
      "owned_at ti_owner owner table = Some i" "table' = table[i := (table ! i)\<lparr>ti_clear_child_tid := address\<rparr>]"
  | (fresh) i where "r = Ok (ph_pid owner)" "address \<noteq> 0" "valid_owner owner" "valid_tid_address address"
      "owned_at ti_owner owner table = None" "i < length table" "\<not> valid_owner (ti_owner (table ! i))"
      "table' = table[i := \<lparr>ti_owner = owner, ti_clear_child_tid = address\<rparr>]"
proof (cases "is_Ok r")
  case False
  then show thesis using assms refused by (cases r) (auto simp: set_tid_address_def split: rust_splits)
next
  case ok: True
  then have v: "valid_owner owner" "valid_tid_address address"
    using assms by (auto simp: set_tid_address_def split: if_splits)
  note e = assms [unfolded set_tid_address_def thread_identity_find_owned]
  show thesis
  proof (cases "owned_at ti_owner owner table")
    case (Some i)
    show thesis
    proof (cases "address = 0")
      case True
      show thesis by (rule cleared [OF _ True Some]) (use e v True Some in auto)
    next
      case False
      show thesis by (rule moved [OF _ False v(2) Some]) (use e v False Some in auto)
    qed
  next
    case None
    show thesis
    proof (cases "address = 0")
      case True
      show thesis by (rule absent [OF _ True None]) (use e v True None in auto)
    next
      case False
      then obtain i where i: "position (\<lambda>slot. \<not> thread_identity_occupied slot) table = Some i"
        using e ok v None by (auto split: option.splits)
      show thesis
        by (rule fresh [OF _ False v None position_length [OF i]])
          (use e v False None i position_sat [OF i] in \<open>auto simp: thread_identity_occupied_owner\<close>)
    qed
  qed
qed

lemma set_tid_inv:
  assumes "thread_identity_inv table" "set_tid_address owner address table = (r, table')"
  shows "thread_identity_inv table'"
  using assms(2)
proof (cases rule: set_tid_cases)
  case (moved i)
  then show ?thesis using assms(1) owned_at_Some [OF moved(4)]
    by (simp add: thread_identity_inv_def unique_owners_keep list_all_update)
next
  case (fresh i)
  from owned_at_filled(1) [of ti_owner table "\<lparr>ti_owner = owner, ti_clear_child_tid = address\<rparr>" i] fresh assms(1)
  show ?thesis by (simp add: thread_identity_inv_def list_all_update)
qed (use assms(1) thread_identity_inv_clear in simp_all)

lemma set_tid_registers:
  assumes "thread_identity_inv table" "set_tid_address owner address table = (Ok t, table')"
  shows "t = ph_pid owner \<and> clear_child_tid g table' =
    (if g = owner then if address = 0 then None else Some address else clear_child_tid g table)"
proof -
  have uo: "unique_owners ti_owner table" using assms(1) by (simp add: thread_identity_inv_def)
  from assms(2) show ?thesis
  proof (cases rule: set_tid_cases)
    case (cleared i)
    then show ?thesis unfolding clear_child_tid_def using owned_value_cleared [OF uo cleared(3), of THREAD_IDENTITY_EMPTY ti_clear_child_tid g] by simp
  next
    case absent
    then show ?thesis unfolding clear_child_tid_def by (simp add: owned_value_def)
  next
    case (moved i)
    then show ?thesis unfolding clear_child_tid_def
      using owned_value_moved [OF uo moved(4), of "(table ! i)\<lparr>ti_clear_child_tid := address\<rparr>" ti_clear_child_tid g]
        owned_at_Some [OF moved(4)] by simp
  next
    case (fresh i)
    then show ?thesis unfolding clear_child_tid_def
      using owned_value_filled [OF uo, of "\<lparr>ti_owner = owner, ti_clear_child_tid = address\<rparr>" i ti_clear_child_tid g] by simp
  qed simp
qed

interpretation tir: owner_registry thread_identity_inv clear_child_tid take_clear_child_tid
proof unfold_locales
  fix s h g
  assume inv: "thread_identity_inv s"
  then have u: "unique_owners ti_owner s" by (simp add: thread_identity_inv_def)
  show "fst (take_clear_child_tid h s) = clear_child_tid h s" by (simp add: take_clear_child_tid_owned [OF inv])
  show "thread_identity_inv (snd (take_clear_child_tid h s))"
    using inv by (simp add: take_clear_child_tid_owned thread_identity_inv_clear split: option.splits)
  show "clear_child_tid g (snd (take_clear_child_tid h s)) = (if g = h then None else clear_child_tid g s)"
    using owned_value_cleared [OF u, of h _ THREAD_IDENTITY_EMPTY ti_clear_child_tid g]
    by (cases "owned_at ti_owner h s") (auto simp: take_clear_child_tid_owned [OF inv] clear_child_tid_def owned_value_def)
qed

end
