(* ===== verification/ExitCleanup.thy ===== *)
theory ExitCleanup
  imports FutexProps UserMemory Robust ThreadId Signal
begin

unbundle bit_operations_syntax

text \<open>
  The cleanup of an exiting thread in \<^verbatim>\<open>src/src/syscalls.rs\<close>, over the futex queues, the process
  table, the robust-list and thread-identity registries, the signal state and physical memory.
  It composes the components: its effect on the futex queues and the process table is one of the
  cleanups the invariant of \<open>FutexKernel\<close> covers, and it consumes exactly the exiting thread's
  registrations.
\<close>

section \<open>State\<close>

record exit_state =
  ex_root :: u64
  ex_memory :: physical_memory
  ex_futex :: futex_kernel
  ex_robust :: robust_table
  ex_threads :: thread_identity_table
  ex_signals :: signal_table

section \<open>User words\<close>

definition read_user_u64 :: "u64 \<Rightarrow> exit_state \<Rightarrow> (u64, user_copy_error) result" where
  "read_user_u64 address st =
     (case copy_from_user (ex_root st) address 8 (ex_memory st) of Err e \<Rightarrow> Err e | Ok bytes \<Rightarrow> Ok (le_word bytes))"

definition wake_one :: "u64 \<Rightarrow> exit_state \<Rightarrow> exit_state" where
  "wake_one address st = st\<lparr>ex_futex := snd (wake_current address 1 (fst (ex_futex st)) (snd (ex_futex st)))\<rparr>"

text \<open>The exit runs with the address space to itself, so the compare-and-exchange of the marking
  loop meets the word it loaded.\<close>

definition mark_robust_owner_died ::
    "u64 \<Rightarrow> u32 \<Rightarrow> exit_state \<Rightarrow> (owner_death_result, user_copy_error) result \<times> exit_state" where
  "mark_robust_owner_died address owner_tid st =
     (if address mod 4 \<noteq> 0 then (Err UcInvalidRange, st)
      else case translate_user_address_for_write (ex_root st) address (ex_memory st) of Err e \<Rightarrow> (Err e, st)
      | Ok physical \<Rightarrow>
          if \<not> span_mapped physical 4 \<or> direct_map_address physical = None then (Err UcUnmappedPhysicalMemory, st)
          else
            let observed = ucast (le_word (load_bytes (ex_memory st) physical 4)) :: u32 in
            case owner_died_replacement observed owner_tid of
              None \<Rightarrow> (Ok \<lparr>od_recovered = False, od_wake_requested = False\<rparr>, st)
            | Some replacement \<Rightarrow>
                let wake_requested = observed AND FUTEX_WAITERS \<noteq> 0;
                    st = st\<lparr>ex_memory := store_bytes (ex_memory st) physical (le_bytes replacement)\<rparr>
                in (Ok \<lparr>od_recovered = True, od_wake_requested = wake_requested\<rparr>,
                    if wake_requested then wake_one address st else st))"

definition recover_exiting_robust_list :: "process_handle \<Rightarrow> exit_state \<Rightarrow> exit_state" where
  "recover_exiting_robust_list owner st =
     (case take_robust_list owner (ex_robust st) of
        (None, table) \<Rightarrow> st\<lparr>ex_robust := table\<rparr>
      | (Some registration, table) \<Rightarrow>
          snd (recover_robust_list registration (ph_pid owner) read_user_u64 mark_robust_owner_died (st\<lparr>ex_robust := table\<rparr>)))"

section \<open>The cleanup\<close>

definition clear_child_word :: "u64 \<Rightarrow> exit_state \<Rightarrow> exit_state" where
  "clear_child_word address st =
     (case copy_to_user (ex_root st) address (le_bytes 0) (ex_memory st) of
        (Ok _, mem) \<Rightarrow> wake_one address (st\<lparr>ex_memory := mem\<rparr>)
      | (Err _, mem) \<Rightarrow> st\<lparr>ex_memory := mem\<rparr>)"

definition cleanup_linux_thread_exit :: "process_handle \<Rightarrow> process_handle option \<Rightarrow> exit_state \<Rightarrow> exit_state" where
  "cleanup_linux_thread_exit exiting clear_group st =
     (let st = st\<lparr>ex_futex := (snd (cancel_wait exiting (fst (ex_futex st))), snd (ex_futex st))\<rparr>;
          st = recover_exiting_robust_list exiting st;
          st = st\<lparr>ex_signals := clear_thread exiting clear_group (ex_signals st)\<rparr>
      in case take_clear_child_tid exiting (ex_threads st) of
           (None, table) \<Rightarrow> st\<lparr>ex_threads := table\<rparr>
         | (Some address, table) \<Rightarrow> clear_child_word address (st\<lparr>ex_threads := table\<rparr>))"

text \<open>The loop of a group exit over the members, the leader's group state with the leader.\<close>

fun cleanup_thread_group :: "process_handle \<Rightarrow> process_handle list \<Rightarrow> exit_state \<Rightarrow> exit_state" where
  "cleanup_thread_group leader [] st = st"
| "cleanup_thread_group leader (owner # owners) st =
     cleanup_thread_group leader owners
       (cleanup_linux_thread_exit owner (if owner = leader then Some leader else None) st)"

section \<open>What it does to the futex queues\<close>

text \<open>Steps that change memory and wake, and nothing else.\<close>

definition wakes_only :: "exit_state \<Rightarrow> exit_state \<Rightarrow> bool" where
  "wakes_only st st' \<longleftrightarrow> ex_root st' = ex_root st \<and> ex_robust st' = ex_robust st \<and>
     ex_threads st' = ex_threads st \<and> ex_signals st' = ex_signals st \<and>
     (\<exists>addresses. ex_futex st' = exit_wakes addresses (ex_futex st))"

lemma exit_wakes_append: "exit_wakes (addresses @ addresses') k = exit_wakes addresses' (exit_wakes addresses k)"
  by (induction addresses k rule: exit_wakes.induct) simp_all

lemma wakes_only_refl [simp]: "wakes_only st st" "wakes_only st (st\<lparr>ex_memory := mem\<rparr>)"
  by (auto simp: wakes_only_def intro: exI [of _ "[]"])

lemma wakes_only_trans: "wakes_only st1 st2 \<Longrightarrow> wakes_only st2 st3 \<Longrightarrow> wakes_only st1 st3"
  unfolding wakes_only_def by (metis exit_wakes_append)

lemma wakes_only_wake: "wakes_only st (wake_one address (st\<lparr>ex_memory := mem\<rparr>))"
  by (cases "ex_futex st") (auto simp: wakes_only_def wake_one_def intro!: exI [of _ "[address]"])

lemma wakes_only_mark: "wakes_only st (snd (mark_robust_owner_died address owner_tid st))"
  by (auto simp: mark_robust_owner_died_def Let_def wakes_only_wake split: result.splits option.splits)

lemma wakes_only_marked: "mark_robust_owner_died address owner_tid st = (r, st') \<Longrightarrow> wakes_only st st'"
  using wakes_only_mark [of st address owner_tid] by simp

lemma wakes_only_marks: "wakes_only st (robust_marks mark_robust_owner_died owner_tid addresses st)"
  by (induction addresses arbitrary: st) (auto intro: wakes_only_trans wakes_only_mark)

lemma wakes_only_recover:
  assumes "recover_robust_list registration owner_tid read_pointer mark_robust_owner_died st = (report, st')"
  shows "wakes_only st st'"
  using assms
proof (cases rule: recover_robust_cases)
  case (walked link offset pending link1 report1 st1)
  obtain addresses where "st1 = robust_marks mark_robust_owner_died owner_tid addresses st"
    using robust_walk_trace [OF walked(5)] by (auto simp: ROBUST_REPORT_DEFAULT_def)
  then have "wakes_only st st1" by (simp add: wakes_only_marks)
  moreover have "wakes_only st1 st'"
    using walked(6) by (auto simp: robust_pending_def wakes_only_marked split: if_splits option.splits prod.splits)
  ultimately show ?thesis by (rule wakes_only_trans)
qed simp

lemma recover_exiting_effect:
  "wakes_only (st\<lparr>ex_robust := snd (take_robust_list owner (ex_robust st))\<rparr>) (recover_exiting_robust_list owner st)"
  by (auto simp: recover_exiting_robust_list_def wakes_only_recover [OF prod.collapse [symmetric]] split: prod.splits option.splits)

lemma clear_child_effect: "wakes_only st (clear_child_word address st)"
  by (auto simp: clear_child_word_def wakes_only_wake split: prod.splits result.splits)

text \<open>All of the cleanup at once.\<close>

lemma cleanup_effect:
  assumes "st' = cleanup_linux_thread_exit exiting clear_group st"
  shows "ex_robust st' = snd (take_robust_list exiting (ex_robust st))"
    "ex_threads st' = snd (take_clear_child_tid exiting (ex_threads st))"
    "ex_signals st' = clear_thread exiting clear_group (ex_signals st)"
    "\<exists>addresses. ex_futex st' = cleanup_futexes exiting addresses (ex_futex st)"
proof -
  let ?a = "st\<lparr>ex_futex := (snd (cancel_wait exiting (fst (ex_futex st))), snd (ex_futex st))\<rparr>"
  let ?b = "recover_exiting_robust_list exiting ?a"
  let ?c = "?b\<lparr>ex_signals := clear_thread exiting clear_group (ex_signals ?b)\<rparr>"
  let ?d = "?c\<lparr>ex_threads := snd (take_clear_child_tid exiting (ex_threads ?c))\<rparr>"
  from recover_exiting_effect [where st = ?a and owner = exiting]
  have b: "ex_robust ?b = snd (take_robust_list exiting (ex_robust st))" "ex_threads ?b = ex_threads st"
      "ex_signals ?b = ex_signals st" "\<exists>addresses. ex_futex ?b = exit_wakes addresses (ex_futex ?a)"
    by (auto simp: wakes_only_def)
  have "wakes_only ?d st'"
    unfolding assms cleanup_linux_thread_exit_def Let_def
    by (auto simp: clear_child_effect split: prod.splits option.splits)
  then have d: "ex_robust st' = ex_robust ?b" "ex_threads st' = snd (take_clear_child_tid exiting (ex_threads ?b))"
      "ex_signals st' = clear_thread exiting clear_group (ex_signals ?b)"
      "\<exists>addresses. ex_futex st' = exit_wakes addresses (ex_futex ?b)"
    by (auto simp: wakes_only_def)
  from b d show "ex_robust st' = snd (take_robust_list exiting (ex_robust st))"
    "ex_threads st' = snd (take_clear_child_tid exiting (ex_threads st))"
    "ex_signals st' = clear_thread exiting clear_group (ex_signals st)" by simp_all
  from b(4) d(4) obtain x y where "ex_futex st' = exit_wakes y (exit_wakes x (ex_futex ?a))" by auto
  then have "ex_futex st' = cleanup_futexes exiting (x @ y) (ex_futex st)"
    by (simp add: cleanup_futexes_def exit_wakes_append)
  then show "\<exists>addresses. ex_futex st' = cleanup_futexes exiting addresses (ex_futex st)" by blast
qed


section \<open>Exit of a thread group\<close>

lemma cleanup_group_effect:
  assumes "st' = cleanup_thread_group leader owners st"
  shows "ex_robust st' = fold (\<lambda>h t. snd (take_robust_list h t)) owners (ex_robust st) \<and>
    ex_threads st' = fold (\<lambda>h t. snd (take_clear_child_tid h t)) owners (ex_threads st) \<and>
    (\<exists>members. map fst members = owners \<and> ex_futex st' = cleanup_members members (ex_futex st))"
  using assms
proof (induction owners arbitrary: st)
  case Nil
  then show ?case by (auto intro: exI [of _ "[]"])
next
  case (Cons owner owners)
  let ?st = "cleanup_linux_thread_exit owner (if owner = leader then Some leader else None) st"
  note c = cleanup_effect [OF refl, of owner "if owner = leader then Some leader else None" st]
  obtain addresses where "ex_futex ?st = cleanup_futexes owner addresses (ex_futex st)" using c(4) by blast
  moreover obtain members where "map fst members = owners" "ex_futex st' = cleanup_members members (ex_futex ?st)"
    using Cons.IH [of ?st] Cons.prems by auto
  ultimately have "map fst ((owner, addresses) # members) = owner # owners \<and>
      ex_futex st' = cleanup_members ((owner, addresses) # members) (ex_futex st)" by simp
  then have "\<exists>members. map fst members = owner # owners \<and> ex_futex st' = cleanup_members members (ex_futex st)"
    by (rule exI)
  then show ?case using Cons.IH [of ?st] Cons.prems c(1,2) by simp
qed

text \<open>
  C10. The exit of a thread group, with all its cleanup in user memory, robust lists, signals and
  thread identities, is one step of the futex and process-table machine, so everything proved
  of that machine holds across it; afterwards no member waits on a futex, the robust list and the
  clear-on-exit word of every member are unregistered, and no other thread's are touched.
\<close>

theorem group_exit_releases_members:
  assumes "waiters_ok {} (ex_futex st)" "robust_inv (ex_robust st)" "thread_identity_inv (ex_threads st)"
    and "current_thread_group_handles (snd (ex_futex st)) = Ok (leader, handles)"
    and "st' = cleanup_thread_group leader handles st"
    and "schedule_exit_group code (snd (ex_futex st')) = (Ok d, lc')"
  shows "futex_step (ex_futex st) (fst (ex_futex st'), lc') \<and>
    list_all (\<lambda>h. \<not> contains_owner h (fst (ex_futex st'))) handles \<and>
    (\<forall>h. robust_list h (ex_robust st') = (if h \<in> set handles then None else robust_list h (ex_robust st)) \<and>
         clear_child_tid h (ex_threads st') = (if h \<in> set handles then None else clear_child_tid h (ex_threads st)))"
proof -
  note c = cleanup_group_effect [OF assms(5)]
  then obtain members where m: "map fst members = handles" "ex_futex st' = cleanup_members members (ex_futex st)" by blast
  have "futex_step (ex_futex st) (fst (ex_futex st'), lc')"
    using futex_step.group_exited [of "snd (ex_futex st)" leader handles members "fst (ex_futex st)" "fst (ex_futex st')"
        "snd (ex_futex st')" code d lc'] assms(4,6) m by simp
  moreover have "waiters_ok (set handles) (ex_futex st')"
    using waiters_ok_members [OF assms(1), of members] m(2) arg_cong [OF m(1), of set] by simp
  then have "list_all (\<lambda>h. \<not> contains_owner h (fst (ex_futex st'))) handles"
    by (cases "ex_futex st'") (auto simp: waiters_ok_def list_all_iff contains_owner_queue)
  ultimately show ?thesis
    using c rbr.taken_each [OF assms(2), of handles] tir.taken_each [OF assms(3), of handles] by simp
qed

text \<open>Process 1 runs alone in its group, with a robust list and a clear-on-exit word registered.\<close>

definition demo_exit :: exit_state where
  "demo_exit = \<lparr>ex_root = 0, ex_memory = (\<lambda>_. 0), ex_futex = (futex_table_new, demo_lc2),
     ex_robust = snd (set_robust_list \<lparr>ph_pid = 1, ph_generation = 1\<rparr> 0x2000 24 robust_table_new),
     ex_threads = snd (set_tid_address \<lparr>ph_pid = 1, ph_generation = 1\<rparr> 0x3000 thread_identities_new),
     ex_signals = signal_table_new\<rparr>"

lemma demo_exit_ok:
  "waiters_ok {} (ex_futex demo_exit)" "robust_inv (ex_robust demo_exit)" "thread_identity_inv (ex_threads demo_exit)"
proof -
  have "futex_step\<^sup>*\<^sup>* (futex_table_new, lifecycle_new) (futex_table_new, demo_lc2)" by (rule demo_futex_reach)
  then show "waiters_ok {} (ex_futex demo_exit)" using fkm.inv_reachable by (simp add: demo_exit_def)
  show "robust_inv (ex_robust demo_exit)" unfolding demo_exit_def
    using robust_set_inv [OF robust_inv_new prod.collapse [symmetric]] by simp
  show "thread_identity_inv (ex_threads demo_exit)" unfolding demo_exit_def
    using set_tid_inv [OF thread_identity_inv_new prod.collapse [symmetric]] by simp
qed

theorem group_exit_releases_members_witness:
  "robust_list \<lparr>ph_pid = 1, ph_generation = 1\<rparr> (ex_robust demo_exit) \<noteq> None \<and>
   robust_list \<lparr>ph_pid = 1, ph_generation = 1\<rparr>
     (ex_robust (cleanup_thread_group \<lparr>ph_pid = 1, ph_generation = 1\<rparr> [\<lparr>ph_pid = 1, ph_generation = 1\<rparr>] demo_exit)) = None"
proof -
  let ?h = "\<lparr>ph_pid = 1, ph_generation = 1\<rparr> :: process_handle"
  let ?st = "cleanup_thread_group ?h [?h] demo_exit"
  have g: "current_thread_group_handles (snd (ex_futex demo_exit)) = Ok (?h, [?h])" by code_simp
  have "is_Ok (fst (schedule_exit_group 0 (snd (ex_futex ?st))))" by code_simp
  then obtain d lc' where x: "schedule_exit_group 0 (snd (ex_futex ?st)) = (Ok d, lc')"
    by (metis is_Ok_def prod.collapse)
  have "robust_list ?h (ex_robust demo_exit) \<noteq> None" by code_simp
  then show ?thesis using group_exit_releases_members [OF demo_exit_ok g refl x] by simp
qed

end
