(* ===== verification/Memfd.thy ===== *)
theory Memfd
  imports Handles EventFd
begin

unbundle bit_operations_syntax

text \<open>
  \<^verbatim>\<open>src/src/linux_memfd.rs\<close>: the 32 anonymous memory-file descriptions. The module owns
  the metadata; the pages belong to the process runtime, whose three calls
  (\<open>linux_shared_memory_create\<close>, \<open>_resize\<close>, \<open>_close\<close>) are the arguments \<open>shm_create\<close>,
  \<open>shm_resize\<close> and \<open>shm_close\<close> on a state of their own. Handles implement
  \<open>handle_codec\<close>, the slots \<open>generation_lifetime\<close> and the size bound
  \<open>invariant_machine\<close>.
\<close>

section \<open>State\<close>

definition MFD_CLOEXEC :: u32 where "MFD_CLOEXEC = 1"
definition MFD_ALLOW_SEALING :: u32 where "MFD_ALLOW_SEALING = 2"
definition MFD_ALLOWED_FLAGS :: u32 where "MFD_ALLOWED_FLAGS = MFD_CLOEXEC OR MFD_ALLOW_SEALING"
abbreviation MAXIMUM_MEMFD_NAME_BYTES :: nat where "MAXIMUM_MEMFD_NAME_BYTES \<equiv> 249"
abbreviation MAXIMUM_MEMFD_BYTES :: nat where "MAXIMUM_MEMFD_BYTES \<equiv> 1048576"
abbreviation MAXIMUM_MEMFDS :: nat where "MAXIMUM_MEMFDS \<equiv> 32"
abbreviation MEMFD_INDEX_BITS :: nat where "MEMFD_INDEX_BITS \<equiv> 6"
definition MEMFD_INDEX_MASK :: u32 where "MEMFD_INDEX_MASK = 0x3F"
definition MEMFD_MAXIMUM_GENERATION :: u32 where "MEMFD_MAXIMUM_GENERATION = 0x3FFFFFF"

datatype memfd_error =
    MfInvalidArgument | MfBadFileDescriptor | MfCapacity | MfPermissionDenied | MfOperationNotSupported

record memfd_snapshot_t =
  ms_identity :: u32
  ms_size_bytes :: nat
  ms_flags :: u32
  ms_name_length :: u8
  ms_name :: "u8 list"

record memfd_slot =
  mf_occupied :: bool
  mf_generation :: u32
  mf_owner :: process_handle
  mf_flags :: u32
  mf_name_length :: u8
  mf_name :: "u8 list"
  mf_size_bytes :: nat
  mf_offset :: nat

definition MEMFD_EMPTY :: memfd_slot where
  "MEMFD_EMPTY = \<lparr>mf_occupied = False, mf_generation = 0, mf_owner = no_handle, mf_flags = 0,
     mf_name_length = 0, mf_name = replicate MAXIMUM_MEMFD_NAME_BYTES 0, mf_size_bytes = 0, mf_offset = 0\<rparr>"

type_synonym memfd_table = "memfd_slot list"

definition memfd_table_new :: memfd_table where
  "memfd_table_new = replicate MAXIMUM_MEMFDS MEMFD_EMPTY"

section \<open>Operations\<close>

definition memfd_encode :: "nat \<Rightarrow> u32 \<Rightarrow> u32 option" where
  "memfd_encode index generation =
     (if index \<ge> MAXIMUM_MEMFDS \<or> generation = 0 \<or> generation > MEMFD_MAXIMUM_GENERATION then None
      else Some (push_bit MEMFD_INDEX_BITS generation OR (of_nat index + 1)))"

definition memfd_decode :: "u32 \<Rightarrow> (nat \<times> u32) option" where
  "memfd_decode handle =
     (let encoded_index = handle AND MEMFD_INDEX_MASK;
          generation = drop_bit MEMFD_INDEX_BITS handle
      in if encoded_index = 0 \<or> generation = 0 then None
         else let index = unat (encoded_index - 1)
              in if index < MAXIMUM_MEMFDS then Some (index, generation) else None)"

definition memfd_resolve :: "memfd_table \<Rightarrow> process_handle \<Rightarrow> u32 \<Rightarrow> (nat \<times> memfd_slot, memfd_error) result" where
  "memfd_resolve slots owner handle =
     (case memfd_decode handle of None \<Rightarrow> Err MfBadFileDescriptor
      | Some (index, generation) \<Rightarrow>
          let slot = slots ! index in
          if \<not> mf_occupied slot \<or> mf_generation slot \<noteq> generation \<or> mf_owner slot \<noteq> owner
          then Err MfBadFileDescriptor
          else Ok (index, slot))"

text \<open>The slot \<open>create\<close> stores, and the one a close or a failed creation leaves.\<close>

definition memfd_fresh :: "u32 \<Rightarrow> process_handle \<Rightarrow> u32 \<Rightarrow> u8 list \<Rightarrow> memfd_slot" where
  "memfd_fresh generation owner flags name =
     MEMFD_EMPTY\<lparr>mf_occupied := True, mf_generation := generation, mf_owner := owner, mf_flags := flags,
       mf_name_length := of_nat (length name),
       mf_name := name @ drop (length name) (mf_name MEMFD_EMPTY)\<rparr>"

definition memfd_vacant :: "u32 \<Rightarrow> memfd_slot" where
  "memfd_vacant generation = MEMFD_EMPTY\<lparr>mf_generation := generation\<rparr>"

definition memfd_next_generation :: "u32 \<Rightarrow> u32 option" where
  "memfd_next_generation current =
     (case checked_add current 1 of None \<Rightarrow> None
      | Some generation \<Rightarrow> if generation \<le> MEMFD_MAXIMUM_GENERATION then Some generation else None)"

definition memfd_create ::
    "(u32 \<Rightarrow> 'm \<Rightarrow> (unit, 'e) result \<times> 'm) \<Rightarrow> process_handle \<Rightarrow> u8 list \<Rightarrow> u32 \<Rightarrow> memfd_table \<Rightarrow> 'm \<Rightarrow>
      (u32, memfd_error) result \<times> memfd_table \<times> 'm" where
  "memfd_create shm_create owner name flags slots m =
     (if \<not> valid_owner owner \<or> length name > MAXIMUM_MEMFD_NAME_BYTES \<or> 0 \<in> set name
         \<or> flags AND NOT MFD_ALLOWED_FLAGS \<noteq> 0
      then (Err MfInvalidArgument, slots, m)
      else case position (\<lambda>slot. \<not> mf_occupied slot) slots of None \<Rightarrow> (Err MfCapacity, slots, m)
      | Some index \<Rightarrow>
     case memfd_next_generation (mf_generation (slots ! index)) of None \<Rightarrow> (Err MfCapacity, slots, m)
      | Some generation \<Rightarrow>
     case memfd_encode index generation of None \<Rightarrow> (Err MfCapacity, slots, m)
      | Some handle \<Rightarrow>
          let slots' = slots[index := memfd_fresh generation owner flags name] in
          case shm_create handle m of
            (Ok _, m') \<Rightarrow> (Ok handle, slots', m')
          | (Err _, m') \<Rightarrow>
              (Err MfCapacity, slots'[index := memfd_vacant (mf_generation (slots' ! index))], m'))"

text \<open>The table lock is dropped around the call into the runtime; nothing else changes the
  table in between, but the code resolves and compares again.\<close>

definition memfd_truncate ::
    "(u32 \<Rightarrow> nat \<Rightarrow> nat \<Rightarrow> 'm \<Rightarrow> (unit, 'e) result \<times> 'm) \<Rightarrow> process_handle \<Rightarrow> u32 \<Rightarrow> nat \<Rightarrow> memfd_table \<Rightarrow> 'm \<Rightarrow>
      (unit, memfd_error) result \<times> memfd_table \<times> 'm" where
  "memfd_truncate shm_resize owner handle size_bytes slots m =
     (if size_bytes > MAXIMUM_MEMFD_BYTES then (Err MfInvalidArgument, slots, m)
      else case memfd_resolve slots owner handle of Err e \<Rightarrow> (Err e, slots, m)
      | Ok (index, current) \<Rightarrow>
     case shm_resize handle (mf_size_bytes current) size_bytes m of
        (Err _, m') \<Rightarrow> (Err MfOperationNotSupported, slots, m')
      | (Ok _, m') \<Rightarrow>
     case memfd_resolve slots owner handle of Err e \<Rightarrow> (Err e, slots, m')
      | Ok (_, observed) \<Rightarrow>
          if mf_size_bytes observed \<noteq> mf_size_bytes current then (Err MfPermissionDenied, slots, m')
          else (Ok (), slots[index := (slots ! index)\<lparr>mf_size_bytes := size_bytes,
                  mf_offset := min (mf_offset (slots ! index)) size_bytes\<rparr>], m'))"

definition memfd_seek ::
    "process_handle \<Rightarrow> u32 \<Rightarrow> int \<Rightarrow> u32 \<Rightarrow> memfd_table \<Rightarrow> (u64, memfd_error) result \<times> memfd_table" where
  "memfd_seek owner handle offset whence slots =
     (case memfd_resolve slots owner handle of Err e \<Rightarrow> (Err e, slots)
      | Ok (index, slot) \<Rightarrow>
          if 2 < whence then (Err MfInvalidArgument, slots)
          else
            let base = (if whence = 0 then 0 else if whence = 1 then int (mf_offset slot) else int (mf_size_bytes slot));
                value = base + offset in
            if value < 0 \<or> int usize_limit \<le> value then (Err MfInvalidArgument, slots)
            else (Ok (of_nat (nat value)), slots[index := (slots ! index)\<lparr>mf_offset := nat value\<rparr>]))"

definition memfd_snapshot :: "process_handle \<Rightarrow> u32 \<Rightarrow> memfd_table \<Rightarrow> (memfd_snapshot_t, memfd_error) result" where
  "memfd_snapshot owner handle slots =
     (case memfd_resolve slots owner handle of Err e \<Rightarrow> Err e
      | Ok (_, slot) \<Rightarrow> Ok \<lparr>ms_identity = handle, ms_size_bytes = mf_size_bytes slot, ms_flags = mf_flags slot,
          ms_name_length = mf_name_length slot, ms_name = mf_name slot\<rparr>)"

definition memfd_readiness :: "process_handle \<Rightarrow> u32 \<Rightarrow> memfd_table \<Rightarrow> (u32, memfd_error) result" where
  "memfd_readiness owner handle slots =
     (case memfd_resolve slots owner handle of Err e \<Rightarrow> Err e
      | Ok _ \<Rightarrow> Ok (READY_IN OR READY_OUT))"

definition memfd_close ::
    "(u32 \<Rightarrow> 'm \<Rightarrow> (unit, 'e) result \<times> 'm) \<Rightarrow> process_handle \<Rightarrow> u32 \<Rightarrow> memfd_table \<Rightarrow> 'm \<Rightarrow>
      (unit, memfd_error) result \<times> memfd_table \<times> 'm" where
  "memfd_close shm_close owner handle slots m =
     (case memfd_resolve slots owner handle of Err e \<Rightarrow> (Err e, slots, m)
      | Ok (index, _) \<Rightarrow>
     case shm_close handle m of (Err _, m') \<Rightarrow> (Err MfPermissionDenied, slots, m')
      | (Ok _, m') \<Rightarrow>
     case memfd_resolve slots owner handle of Err e \<Rightarrow> (Err e, slots, m')
      | Ok (_, slot) \<Rightarrow> (Ok (), slots[index := memfd_vacant (mf_generation slot)], m'))"

section \<open>Lemmas\<close>

interpretation mfc: handle_codec memfd_encode memfd_decode MAXIMUM_MEMFDS
proof (rule tagged_codec_of [where k = MEMFD_INDEX_BITS])
  show "memfd_encode i g = tagged_encode MEMFD_INDEX_BITS MAXIMUM_MEMFDS i g" for i g
    by (auto simp: memfd_encode_def tagged_encode_def MEMFD_MAXIMUM_GENERATION_def word_less_nat_alt)
  show "memfd_decode h = tagged_decode MEMFD_INDEX_BITS MAXIMUM_MEMFDS h" for h
    by (simp add: memfd_decode_def tagged_decode_def MEMFD_INDEX_MASK_def mask_eq_exp_minus_1)
qed simp_all

lemma memfd_resolve_Ok:
  "memfd_resolve slots owner handle = Ok (i, s) \<longleftrightarrow>
    memfd_decode handle = Some (i, mf_generation s) \<and> s = slots ! i \<and> mf_occupied s \<and> mf_owner s = owner"
  by (auto simp: memfd_resolve_def Let_def split: rust_splits)

lemma memfd_slot_simps [simp]:
  "mf_occupied (memfd_fresh g owner flags name)" "mf_generation (memfd_fresh g owner flags name) = g"
  "mf_owner (memfd_fresh g owner flags name) = owner" "mf_size_bytes (memfd_fresh g owner flags name) = 0"
  "\<not> mf_occupied (memfd_vacant g)" "mf_generation (memfd_vacant g) = g" "mf_size_bytes (memfd_vacant g) = 0"
  by (simp_all add: memfd_fresh_def memfd_vacant_def MEMFD_EMPTY_def)

text \<open>What a call can do to the table: nothing, fill a free slot under the next generation,
  change the size and offset of an occupied slot, or free a slot keeping its generation.\<close>

inductive memfd_change :: "memfd_table \<Rightarrow> memfd_table \<Rightarrow> bool" where
  same: "memfd_change slots slots"
| filled: "position (\<lambda>slot. \<not> mf_occupied slot) slots = Some i \<Longrightarrow>
    memfd_next_generation (mf_generation (slots ! i)) = Some g \<Longrightarrow> valid_owner owner \<Longrightarrow>
    memfd_change slots (slots[i := memfd_fresh g owner flags name])"
| moved: "i < length slots \<Longrightarrow> mf_occupied (slots ! i) \<Longrightarrow> n \<le> MAXIMUM_MEMFD_BYTES \<or> n = mf_size_bytes (slots ! i) \<Longrightarrow>
    memfd_change slots (slots[i := (slots ! i)\<lparr>mf_size_bytes := n, mf_offset := k\<rparr>])"
| freed: "i < length slots \<Longrightarrow> mf_generation (slots ! i) \<le> g \<Longrightarrow>
    memfd_change slots (slots[i := memfd_vacant g])"

lemma memfd_next_generation_less: "memfd_next_generation g = Some g' \<Longrightarrow> g < g'"
  using checked_add_one_less by (auto simp: memfd_next_generation_def split: option.splits if_splits)

lemma memfd_create_change: "memfd_create sc owner name flags slots m = (r, slots', m') \<Longrightarrow> memfd_change slots slots'"
  unfolding memfd_create_def Let_def
  by (auto split: if_splits option.splits prod.splits result.splits dest: memfd_next_generation_less
      simp: position_length intro!: memfd_change.intros)

lemma memfd_truncate_change:
  assumes "length slots = MAXIMUM_MEMFDS" "memfd_truncate sr owner handle n slots m = (r, slots', m')"
  shows "memfd_change slots slots'"
  using assms mfc.decode_range unfolding memfd_truncate_def
  by (auto split: if_splits prod.splits result.splits simp: memfd_resolve_Ok intro!: memfd_change.intros)

lemma memfd_seek_change:
  assumes "length slots = MAXIMUM_MEMFDS" "memfd_seek owner handle off wh slots = (r, slots')"
  shows "memfd_change slots slots'"
proof (cases "memfd_resolve slots owner handle")
  case (Err e)
  with assms(2) show ?thesis by (auto simp: memfd_seek_def intro: memfd_change.same)
next
  case (Ok p)
  then obtain i where "memfd_resolve slots owner handle = Ok (i, slots ! i)" and i: "i < length slots" "mf_occupied (slots ! i)"
    using assms(1) mfc.decode_range by (cases p) (auto simp: memfd_resolve_Ok)
  then have "slots' = slots \<or> (\<exists>k. slots' = slots[i := (slots ! i)\<lparr>mf_offset := k\<rparr>])"
    using assms(2) by (auto simp: memfd_seek_def Let_def split: if_splits)
  moreover have "slots[i := (slots ! i)\<lparr>mf_offset := k\<rparr>]
      = slots[i := (slots ! i)\<lparr>mf_size_bytes := mf_size_bytes (slots ! i), mf_offset := k\<rparr>]" for k by simp
  ultimately show ?thesis using i memfd_change.moved memfd_change.same by metis
qed

lemma memfd_close_change:
  assumes "length slots = MAXIMUM_MEMFDS" "memfd_close sc owner handle slots m = (r, slots', m')"
  shows "memfd_change slots slots'"
  using assms mfc.decode_range unfolding memfd_close_def
  by (auto split: prod.splits result.splits simp: memfd_resolve_Ok intro!: memfd_change.intros)

text \<open>The table keeps its size and no description exceeds the bound; a freed generation is
  never live again.\<close>

definition memfd_inv :: "memfd_table \<Rightarrow> bool" where
  "memfd_inv slots \<longleftrightarrow> length slots = MAXIMUM_MEMFDS \<and>
     list_all (\<lambda>slot. mf_size_bytes slot \<le> MAXIMUM_MEMFD_BYTES) slots"

lemma memfd_change_inv: "memfd_inv slots \<Longrightarrow> memfd_change slots slots' \<Longrightarrow> memfd_inv slots'"
  by (erule memfd_change.cases)
    (auto simp: memfd_inv_def list_all_length nth_update)

interpretation mfm: invariant_machine "\<lambda>slots. slots = memfd_table_new" memfd_change memfd_inv
proof
  show "s = memfd_table_new \<Longrightarrow> memfd_inv s" for s
    by (simp add: memfd_inv_def memfd_table_new_def MEMFD_EMPTY_def list_all_iff)
qed (rule memfd_change_inv)

interpretation mfl: generation_lifetime memfd_change "\<lambda>slots i. mf_occupied (slots ! i)" "\<lambda>slots i. mf_generation (slots ! i)"
proof
  show "mf_generation (s ! i) \<le> mf_generation (t ! i)" if "memfd_change s t" for s t i
    using that by (cases rule: memfd_change.cases)
      (auto simp: nth_update order.strict_implies_order dest: memfd_next_generation_less)
  show "mf_generation (s ! i) < mf_generation (t ! i)"
    if "memfd_change s t" "\<not> mf_occupied (s ! i)" "mf_occupied (t ! i)" for s t i
    using that by (cases rule: memfd_change.cases)
      (auto simp: nth_update dest: memfd_next_generation_less split: if_splits)
qed

end
