(* ===== verification/UnixAddress.thy ===== *)
theory UnixAddress
  imports Handles EventFd
begin

unbundle bit_operations_syntax

text \<open>
  The vocabulary that the stream sockets and the datagram sockets share, from
  \<^verbatim>\<open>src/src/linux_socket.rs\<close>: flags, sizes and the local socket address.
\<close>

definition AF_UNIX :: u32 where "AF_UNIX = 1"
definition SOCK_STREAM :: u32 where "SOCK_STREAM = 1"
definition SOCK_DGRAM :: u32 where "SOCK_DGRAM = 2"
definition SOCK_NONBLOCK :: u32 where "SOCK_NONBLOCK = 0x800"
definition SOCK_CLOEXEC :: u32 where "SOCK_CLOEXEC = 0x80000"
definition SOCKET_TYPE_MASK :: u32 where "SOCKET_TYPE_MASK = 0xf"
definition SOCKET_ALLOWED_FLAGS :: u32 where "SOCKET_ALLOWED_FLAGS = SOCK_NONBLOCK OR SOCK_CLOEXEC"
definition SHUT_RD :: u32 where "SHUT_RD = 0"
definition SHUT_WR :: u32 where "SHUT_WR = 1"
definition SHUT_RDWR :: u32 where "SHUT_RDWR = 2"
definition MSG_PEEK :: u32 where "MSG_PEEK = 0x2"
definition MSG_DONTWAIT :: u32 where "MSG_DONTWAIT = 0x40"
definition MSG_NOSIGNAL :: u32 where "MSG_NOSIGNAL = 0x4000"
definition SEND_FLAGS :: u32 where "SEND_FLAGS = MSG_DONTWAIT OR MSG_NOSIGNAL"
definition RECEIVE_FLAGS :: u32 where "RECEIVE_FLAGS = MSG_PEEK OR MSG_DONTWAIT"
abbreviation UNIX_PATH_BYTES :: nat where "UNIX_PATH_BYTES \<equiv> 108"
abbreviation SOCKET_BUFFER_BYTES :: nat where "SOCKET_BUFFER_BYTES \<equiv> 4096"

datatype socket_error =
    SkInvalidArgument | SkBadFileDescriptor | SkAddressFamilyNotSupported | SkAddressInUse
  | SkConnectionRefused | SkAlreadyConnected | SkNotConnected | SkWouldBlock | SkBrokenPipe
  | SkCapacity | SkOperationNotSupported

record unix_address =
  ua_bytes :: "u8 list"
  ua_length :: u8

definition UNNAMED :: unix_address where
  "UNNAMED = \<lparr>ua_bytes = replicate UNIX_PATH_BYTES 0, ua_length = 0\<rparr>"

definition unix_address_new :: "u8 list \<Rightarrow> (unix_address, socket_error) result" where
  "unix_address_new path =
     (if path = [] \<or> length path > UNIX_PATH_BYTES then Err SkInvalidArgument
      else Ok (UNNAMED\<lparr>ua_bytes := path @ drop (length path) (ua_bytes UNNAMED), ua_length := of_nat (length path)\<rparr>))"

definition address_bytes :: "unix_address \<Rightarrow> u8 list" where
  "address_bytes address = take (unat (ua_length address)) (ua_bytes address)"

definition is_unnamed :: "unix_address \<Rightarrow> bool" where
  "is_unnamed address \<longleftrightarrow> ua_length address = 0"

definition is_abstract :: "unix_address \<Rightarrow> bool" where
  "is_abstract address \<longleftrightarrow> ua_length address \<noteq> 0 \<and> ua_bytes address ! 0 = 0"

lemma unnamed_UNNAMED [simp]: "is_unnamed UNNAMED"
  by (simp add: is_unnamed_def UNNAMED_def)

text \<open>A name survives the fixed-size representation, and two names meet only if they are equal.\<close>

lemma unix_address_bytes:
  assumes "unix_address_new path = Ok a"
  shows "address_bytes a = path" "\<not> is_unnamed a"
proof -
  from assms have p: "path \<noteq> []" "length path \<le> 108"
    and a: "a = UNNAMED\<lparr>ua_bytes := path @ drop (length path) (ua_bytes UNNAMED), ua_length := of_nat (length path)\<rparr>"
    by (auto simp: unix_address_new_def split: if_splits)
  from p(2) have u: "unat (of_nat (length path) :: u8) = length path" by (simp add: unat_of_nat)
  with a show "address_bytes a = path" by (simp add: address_bytes_def)
  from u p(1) have "(of_nat (length path) :: u8) \<noteq> 0" by (metis length_0_conv unat_0)
  with a show "\<not> is_unnamed a" by (simp add: is_unnamed_def)
qed

lemma unix_address_inject:
  "unix_address_new p = Ok a \<Longrightarrow> unix_address_new q = Ok a \<Longrightarrow> p = q"
  using unix_address_bytes(1) by metis

end
