(* ===== verification/Dgram.thy ===== *)
theory Dgram
  imports UnixAddress Ring
begin

unbundle bit_operations_syntax

text \<open>
  \<^verbatim>\<open>src/src/linux_unix_dgram.rs\<close>: 32 local datagram endpoints, each with a ring of 32
  messages. The message flags of the module have the values of the stream module's and
  are shared with it. Handles implement \<open>handle_codec\<close>, the table \<open>generation_lifetime\<close> and
  \<open>invariant_machine\<close>; the lemmas show each ring to be a bounded queue of whole messages.
\<close>

section \<open>State\<close>

abbreviation MAXIMUM_DATAGRAM_BYTES :: nat where "MAXIMUM_DATAGRAM_BYTES \<equiv> SOCKET_BUFFER_BYTES"
abbreviation MAXIMUM_DGRAM_ENDPOINTS :: nat where "MAXIMUM_DGRAM_ENDPOINTS \<equiv> 32"
abbreviation MAXIMUM_QUEUE_LENGTH :: nat where "MAXIMUM_QUEUE_LENGTH \<equiv> 32"
abbreviation DGRAM_INDEX_BITS :: nat where "DGRAM_INDEX_BITS \<equiv> 8"
definition DGRAM_INDEX_MASK :: u32 where "DGRAM_INDEX_MASK = 0xFF"
definition DGRAM_MAXIMUM_GENERATION :: u32 where "DGRAM_MAXIMUM_GENERATION = 0xFFFFFF"

datatype datagram_error =
    DgInvalidArgument | DgBadFileDescriptor | DgAddressInUse | DgConnectionRefused | DgNotConnected
  | DgWouldBlock | DgCapacity | DgOperationNotSupported

record received_datagram =
  rd_bytes :: nat
  rd_sender :: process_handle
  rd_sender_address :: unix_address
  rd_truncated :: bool

record datagram =
  dm_sender :: process_handle
  dm_sender_address :: unix_address
  dm_length :: u16
  dm_bytes :: "u8 list"

definition DATAGRAM_EMPTY :: datagram where
  "DATAGRAM_EMPTY = \<lparr>dm_sender = no_handle, dm_sender_address = UNNAMED, dm_length = 0,
     dm_bytes = replicate MAXIMUM_DATAGRAM_BYTES 0\<rparr>"

record dgram_endpoint =
  dg_owner :: process_handle
  dg_generation :: u32
  dg_address :: unix_address
  dg_bound :: bool
  dg_passcred :: bool
  dg_queue_head :: u8
  dg_queue_length :: u8
  dg_queue :: "datagram list"
  dg_readiness_generation :: u64

definition DGRAM_EMPTY :: dgram_endpoint where
  "DGRAM_EMPTY = \<lparr>dg_owner = no_handle, dg_generation = 0, dg_address = UNNAMED, dg_bound = False,
     dg_passcred = False, dg_queue_head = 0, dg_queue_length = 0,
     dg_queue = replicate MAXIMUM_QUEUE_LENGTH DATAGRAM_EMPTY, dg_readiness_generation = 0\<rparr>"

definition dgram_occupied :: "dgram_endpoint \<Rightarrow> bool" where
  "dgram_occupied slot \<longleftrightarrow> ph_pid (dg_owner slot) \<noteq> 0 \<and> ph_generation (dg_owner slot) \<noteq> 0"

definition clear_queue :: "dgram_endpoint \<Rightarrow> dgram_endpoint" where
  "clear_queue slot = slot\<lparr>dg_queue_head := 0, dg_queue_length := 0,
     dg_queue := map (\<lambda>_. DATAGRAM_EMPTY) (dg_queue slot)\<rparr>"

type_synonym dgram_table = "dgram_endpoint list"

definition dgram_table_new :: dgram_table where
  "dgram_table_new = replicate MAXIMUM_DGRAM_ENDPOINTS DGRAM_EMPTY"

section \<open>Operations\<close>

definition dgram_next_generation :: "u32 \<Rightarrow> u32 option" where
  "dgram_next_generation current =
     (case checked_add current 1 of None \<Rightarrow> None
      | Some generation \<Rightarrow> if generation \<le> DGRAM_MAXIMUM_GENERATION then Some generation else None)"

definition dgram_encode :: "nat \<Rightarrow> u32 \<Rightarrow> u32 option" where
  "dgram_encode index generation =
     (if index \<ge> MAXIMUM_DGRAM_ENDPOINTS \<or> generation = 0 \<or> generation > DGRAM_MAXIMUM_GENERATION then None
      else Some (push_bit DGRAM_INDEX_BITS generation OR (of_nat index + 1)))"

definition dgram_decode :: "u32 \<Rightarrow> (nat \<times> u32) option" where
  "dgram_decode handle =
     (let encoded_index = handle AND DGRAM_INDEX_MASK;
          generation = drop_bit DGRAM_INDEX_BITS handle
      in if encoded_index = 0 \<or> generation = 0 then None
         else let index = unat (encoded_index - 1)
              in if index < MAXIMUM_DGRAM_ENDPOINTS then Some (index, generation) else None)"

text \<open>\<open>endpoint\<close> returns a mutable slot: here, its index.\<close>

definition dgram_lookup :: "dgram_table \<Rightarrow> process_handle \<Rightarrow> u32 \<Rightarrow> (nat, datagram_error) result" where
  "dgram_lookup table owner handle =
     (case dgram_decode handle of None \<Rightarrow> Err DgBadFileDescriptor
      | Some (index, generation) \<Rightarrow>
          let slot = table ! index in
          if \<not> dgram_occupied slot \<or> dg_generation slot \<noteq> generation \<or> dg_owner slot \<noteq> owner
          then Err DgBadFileDescriptor
          else Ok index)"

definition dgram_create :: "process_handle \<Rightarrow> dgram_table \<Rightarrow> (u32, datagram_error) result \<times> dgram_table" where
  "dgram_create owner table =
     (if ph_pid owner = 0 \<or> ph_generation owner = 0 then (Err DgInvalidArgument, table)
      else case position (\<lambda>slot. \<not> dgram_occupied slot) table of None \<Rightarrow> (Err DgCapacity, table)
      | Some index \<Rightarrow>
     case dgram_next_generation (dg_generation (table ! index)) of None \<Rightarrow> (Err DgCapacity, table)
      | Some generation \<Rightarrow>
          (ok_or DgCapacity (dgram_encode index generation),
           table[index := DGRAM_EMPTY\<lparr>dg_owner := owner, dg_generation := generation\<rparr>]))"

definition dgram_bind ::
    "process_handle \<Rightarrow> u32 \<Rightarrow> unix_address \<Rightarrow> dgram_table \<Rightarrow> (unit, datagram_error) result \<times> dgram_table" where
  "dgram_bind owner handle address table =
     (if is_unnamed address then (Err DgInvalidArgument, table)
      else case dgram_lookup table owner handle of Err e \<Rightarrow> (Err e, table)
      | Ok index \<Rightarrow>
          if dg_bound (table ! index) then (Err DgInvalidArgument, table)
          else if list_ex (\<lambda>slot. dgram_occupied slot \<and> dg_bound slot \<and> dg_address slot = address) table
          then (Err DgAddressInUse, table)
          else (Ok (), table[index := (table ! index)\<lparr>dg_address := address, dg_bound := True\<rparr>]))"

definition dgram_set_passcred ::
    "process_handle \<Rightarrow> u32 \<Rightarrow> bool \<Rightarrow> dgram_table \<Rightarrow> (unit, datagram_error) result \<times> dgram_table" where
  "dgram_set_passcred owner handle enabled table =
     (case dgram_lookup table owner handle of Err e \<Rightarrow> (Err e, table)
      | Ok index \<Rightarrow> (Ok (), table[index := (table ! index)\<lparr>dg_passcred := enabled\<rparr>]))"

definition dgram_passcred :: "process_handle \<Rightarrow> u32 \<Rightarrow> dgram_table \<Rightarrow> (bool, datagram_error) result" where
  "dgram_passcred owner handle table =
     (case dgram_lookup table owner handle of Err e \<Rightarrow> Err e | Ok index \<Rightarrow> Ok (dg_passcred (table ! index)))"

text \<open>The message \<open>send\<close> builds and the target slot it leaves.\<close>

definition datagram_of :: "process_handle \<Rightarrow> unix_address \<Rightarrow> u8 list \<Rightarrow> datagram" where
  "datagram_of owner sender_address input =
     DATAGRAM_EMPTY\<lparr>dm_sender := owner, dm_sender_address := sender_address, dm_length := of_nat (length input),
       dm_bytes := input @ drop (length input) (dm_bytes DATAGRAM_EMPTY)\<rparr>"

definition dgram_push :: "datagram \<Rightarrow> dgram_endpoint \<Rightarrow> dgram_endpoint" where
  "dgram_push datagram target =
     (let queue_index = (unat (dg_queue_head target) + unat (dg_queue_length target)) mod MAXIMUM_QUEUE_LENGTH
      in target\<lparr>dg_queue := (dg_queue target)[queue_index := datagram],
           dg_readiness_generation :=
             (if dg_queue_length target = 0 then dg_readiness_generation target + 1 else dg_readiness_generation target),
           dg_queue_length := dg_queue_length target + 1\<rparr>)"

definition dgram_send ::
    "process_handle \<Rightarrow> u32 \<Rightarrow> unix_address \<Rightarrow> u8 list \<Rightarrow> u32 \<Rightarrow> dgram_table \<Rightarrow>
      (nat, datagram_error) result \<times> dgram_table" where
  "dgram_send owner handle destination input flags table =
     (if flags AND NOT SEND_FLAGS \<noteq> 0 \<or> length input > MAXIMUM_DATAGRAM_BYTES then (Err DgInvalidArgument, table)
      else case dgram_lookup table owner handle of Err e \<Rightarrow> (Err e, table)
      | Ok index \<Rightarrow>
          let sender = table ! index in
          if dg_bound sender \<and> destination = dg_address sender then (Err DgConnectionRefused, table)
          else
            let sender_address = (if dg_bound sender then dg_address sender else UNNAMED) in
            case position (\<lambda>slot. dgram_occupied slot \<and> dg_bound slot \<and> dg_address slot = destination) table of
              None \<Rightarrow> (Err DgConnectionRefused, table)
            | Some destination_index \<Rightarrow>
                if unat (dg_queue_length (table ! destination_index)) \<ge> MAXIMUM_QUEUE_LENGTH
                then (Err DgWouldBlock, table)
                else (Ok (length input),
                  table[destination_index :=
                    dgram_push (datagram_of owner sender_address input) (table ! destination_index)]))"

definition dgram_pop :: "dgram_endpoint \<Rightarrow> dgram_endpoint" where
  "dgram_pop slot =
     (let queue_index = unat (dg_queue_head slot)
      in slot\<lparr>dg_queue := (dg_queue slot)[queue_index := DATAGRAM_EMPTY],
           dg_queue_head := of_nat ((queue_index + 1) mod MAXIMUM_QUEUE_LENGTH),
           dg_queue_length := dg_queue_length slot - 1,
           dg_readiness_generation :=
             (if dg_queue_length slot - 1 = 0 then dg_readiness_generation slot + 1 else dg_readiness_generation slot)\<rparr>)"

text \<open>\<open>receive\<close> into a slice of length \<open>n\<close>; the copied prefix is returned with the report.\<close>

definition dgram_receive ::
    "process_handle \<Rightarrow> u32 \<Rightarrow> nat \<Rightarrow> u32 \<Rightarrow> dgram_table \<Rightarrow>
      (u8 list \<times> received_datagram, datagram_error) result \<times> dgram_table" where
  "dgram_receive owner handle n flags table =
     (if flags AND NOT RECEIVE_FLAGS \<noteq> 0 then (Err DgInvalidArgument, table)
      else case dgram_lookup table owner handle of Err e \<Rightarrow> (Err e, table)
      | Ok index \<Rightarrow>
          let slot = table ! index in
          if dg_queue_length slot = 0 then (Err DgWouldBlock, table)
          else
            let datagram = dg_queue slot ! unat (dg_queue_head slot);
                requested = unat (dm_length datagram);
                copied = min requested n
            in (Ok (take copied (dm_bytes datagram),
                  \<lparr>rd_bytes = copied, rd_sender = dm_sender datagram,
                   rd_sender_address = dm_sender_address datagram, rd_truncated = (copied < requested)\<rparr>),
                if flags AND MSG_PEEK = 0 then table[index := dgram_pop slot] else table))"

definition dgram_readiness :: "process_handle \<Rightarrow> u32 \<Rightarrow> dgram_table \<Rightarrow> (u32, datagram_error) result" where
  "dgram_readiness owner handle table =
     (case dgram_lookup table owner handle of Err e \<Rightarrow> Err e
      | Ok index \<Rightarrow> Ok (READY_OUT OR (if dg_queue_length (table ! index) \<noteq> 0 then READY_IN else 0)))"

definition dgram_readiness_generation :: "process_handle \<Rightarrow> u32 \<Rightarrow> dgram_table \<Rightarrow> (u64, datagram_error) result" where
  "dgram_readiness_generation owner handle table =
     (case dgram_lookup table owner handle of Err e \<Rightarrow> Err e
      | Ok index \<Rightarrow> Ok (dg_readiness_generation (table ! index)))"

definition dgram_local_address :: "process_handle \<Rightarrow> u32 \<Rightarrow> dgram_table \<Rightarrow> (unix_address, datagram_error) result" where
  "dgram_local_address owner handle table =
     (case dgram_lookup table owner handle of Err e \<Rightarrow> Err e | Ok index \<Rightarrow> Ok (dg_address (table ! index)))"

definition dgram_bound :: "unix_address \<Rightarrow> dgram_table \<Rightarrow> bool" where
  "dgram_bound address table \<longleftrightarrow>
     list_ex (\<lambda>slot. dgram_occupied slot \<and> dg_bound slot \<and> dg_address slot = address) table"

definition dgram_peer_address :: "process_handle \<Rightarrow> u32 \<Rightarrow> dgram_table \<Rightarrow> (unix_address, datagram_error) result" where
  "dgram_peer_address owner handle table =
     (case dgram_lookup table owner handle of Err e \<Rightarrow> Err e
      | Ok index \<Rightarrow> if dg_bound (table ! index) then Ok UNNAMED else Err DgNotConnected)"

definition dgram_close :: "process_handle \<Rightarrow> u32 \<Rightarrow> dgram_table \<Rightarrow> (unit, datagram_error) result \<times> dgram_table" where
  "dgram_close owner handle table =
     (case dgram_lookup table owner handle of Err e \<Rightarrow> (Err e, table)
      | Ok index \<Rightarrow>
          (Ok (), table[index := DGRAM_EMPTY\<lparr>dg_generation := dg_generation (clear_queue (table ! index))\<rparr>]))"

definition dgram_close_all :: "process_handle \<Rightarrow> dgram_table \<Rightarrow> nat \<times> dgram_table" where
  "dgram_close_all owner table =
     (if ph_pid owner = 0 \<or> ph_generation owner = 0 then (0, table)
      else (length (filter (\<lambda>slot. dg_owner slot = owner) table),
            map (\<lambda>slot. if dg_owner slot = owner
                  then DGRAM_EMPTY\<lparr>dg_generation := dg_generation slot\<rparr> else slot) table))"

section \<open>Lemmas\<close>

interpretation dgc: handle_codec dgram_encode dgram_decode MAXIMUM_DGRAM_ENDPOINTS
proof (rule tagged_codec_of [where k = DGRAM_INDEX_BITS])
  show "dgram_encode i g = tagged_encode DGRAM_INDEX_BITS MAXIMUM_DGRAM_ENDPOINTS i g" for i g
    by (auto simp: dgram_encode_def tagged_encode_def DGRAM_MAXIMUM_GENERATION_def word_less_nat_alt)
  show "dgram_decode h = tagged_decode DGRAM_INDEX_BITS MAXIMUM_DGRAM_ENDPOINTS h" for h
    by (simp add: dgram_decode_def tagged_decode_def DGRAM_INDEX_MASK_def mask_eq_exp_minus_1)
qed simp_all

lemma dgram_lookup_Ok:
  "dgram_lookup table owner handle = Ok i \<longleftrightarrow>
    dgram_decode handle = Some (i, dg_generation (table ! i)) \<and> dgram_occupied (table ! i) \<and> dg_owner (table ! i) = owner"
  by (auto simp: dgram_lookup_def Let_def split: rust_splits)

lemma dgram_lookup_range: "dgram_lookup table owner handle = Ok i \<Longrightarrow> i < MAXIMUM_DGRAM_ENDPOINTS"
  using dgc.decode_range by (auto simp: dgram_lookup_Ok)

lemma dgram_next_generation_less: "dgram_next_generation g = Some g' \<Longrightarrow> g < g'"
  using checked_add_one_less by (auto simp: dgram_next_generation_def split: option.splits if_splits)

lemma dgram_empty_simps [simp]:
  "\<not> dgram_occupied DGRAM_EMPTY" "\<not> dgram_occupied (DGRAM_EMPTY\<lparr>dg_generation := g\<rparr>)" "dg_generation (clear_queue s) = dg_generation s"
  "\<not> dg_bound DGRAM_EMPTY" "dg_queue_head DGRAM_EMPTY = 0" "dg_queue_length DGRAM_EMPTY = 0"
  "dg_queue DGRAM_EMPTY = replicate MAXIMUM_QUEUE_LENGTH DATAGRAM_EMPTY" "dg_owner DGRAM_EMPTY = no_handle"
  "dgram_occupied (DGRAM_EMPTY\<lparr>dg_owner := h, dg_generation := g\<rparr>) = valid_owner h"
  by (simp_all add: dgram_occupied_def DGRAM_EMPTY_def clear_queue_def no_handle_def valid_owner_def)

subsection \<open>The ring of one endpoint is a queue of messages\<close>

definition datagram_message :: "datagram \<Rightarrow> process_handle \<times> unix_address \<times> u8 list" where
  "datagram_message d = (dm_sender d, dm_sender_address d, take (unat (dm_length d)) (dm_bytes d))"

definition dgram_messages :: "dgram_endpoint \<Rightarrow> (process_handle \<times> unix_address \<times> u8 list) list" where
  "dgram_messages slot =
     map datagram_message (ring_contents (unat (dg_queue_head slot)) (unat (dg_queue_length slot)) (dg_queue slot))"

definition datagram_ok :: "datagram \<Rightarrow> bool" where
  "datagram_ok d \<longleftrightarrow> unat (dm_length d) \<le> length (dm_bytes d) \<and> length (dm_bytes d) = MAXIMUM_DATAGRAM_BYTES"

definition dgram_ring :: "dgram_endpoint \<Rightarrow> bool" where
  "dgram_ring slot \<longleftrightarrow> length (dg_queue slot) = MAXIMUM_QUEUE_LENGTH \<and>
     unat (dg_queue_head slot) < MAXIMUM_QUEUE_LENGTH \<and> unat (dg_queue_length slot) \<le> MAXIMUM_QUEUE_LENGTH \<and>
     list_all datagram_ok (dg_queue slot)"

lemma length_dgram_messages [simp]: "length (dgram_messages slot) = unat (dg_queue_length slot)"
  by (simp add: dgram_messages_def)

lemma datagram_empty_ok [simp]: "datagram_ok DATAGRAM_EMPTY"
  by (simp add: datagram_ok_def DATAGRAM_EMPTY_def)

lemma dgram_ring_empty [simp]: "dgram_ring DGRAM_EMPTY" "dgram_messages DGRAM_EMPTY = []"
  by (simp_all add: dgram_ring_def dgram_messages_def list_all_iff)

lemma dgram_ring_frame [simp]:
  "dgram_ring (s\<lparr>dg_owner := h\<rparr>) = dgram_ring s" "dgram_ring (s\<lparr>dg_generation := g\<rparr>) = dgram_ring s"
  "dgram_ring (s\<lparr>dg_address := a\<rparr>) = dgram_ring s" "dgram_ring (s\<lparr>dg_bound := b\<rparr>) = dgram_ring s"
  "dgram_ring (s\<lparr>dg_passcred := c\<rparr>) = dgram_ring s"
  by (simp_all add: dgram_ring_def)

lemma datagram_of_message:
  assumes "length input \<le> MAXIMUM_DATAGRAM_BYTES"
  shows "datagram_message (datagram_of owner a input) = (owner, a, input)" "datagram_ok (datagram_of owner a input)"
proof -
  from assms have "unat (of_nat (length input) :: u16) = length input" by (simp add: unat_of_nat)
  with assms show "datagram_message (datagram_of owner a input) = (owner, a, input)"
    "datagram_ok (datagram_of owner a input)"
    by (simp_all add: datagram_message_def datagram_of_def datagram_ok_def DATAGRAM_EMPTY_def)
qed

lemma unat_inc_u8: "unat (w :: u8) < 32 \<Longrightarrow> unat (w + 1) = Suc (unat w)"
  by (simp add: unat_word_ariths)

lemma dgram_push_ring:
  assumes "dgram_ring slot" "unat (dg_queue_length slot) < MAXIMUM_QUEUE_LENGTH" "datagram_ok d"
  shows "dgram_ring (dgram_push d slot)" "dgram_messages (dgram_push d slot) = dgram_messages slot @ [datagram_message d]"
proof -
  note push = ring_contents_push [of "unat (dg_queue_length slot)" "dg_queue slot" "unat (dg_queue_head slot)" d]
  show "dgram_ring (dgram_push d slot)"
    using assms by (simp add: dgram_ring_def dgram_push_def Let_def unat_inc_u8 list_all_update)
  show "dgram_messages (dgram_push d slot) = dgram_messages slot @ [datagram_message d]"
    using assms push by (simp add: dgram_ring_def dgram_messages_def dgram_push_def Let_def unat_inc_u8)
qed

lemma dgram_pop_ring:
  assumes "dgram_ring slot" "dg_queue_length slot \<noteq> 0"
  shows "dgram_ring (dgram_pop slot)"
    "dgram_messages slot = datagram_message (dg_queue slot ! unat (dg_queue_head slot)) # dgram_messages (dgram_pop slot)"
proof -
  let ?h = "unat (dg_queue_head slot)" and ?n = "unat (dg_queue_length slot) - 1"
  have n: "unat (dg_queue_length slot - 1) = ?n" "unat (dg_queue_length slot) = Suc ?n"
    using assms(2) by (simp_all add: unat_dec_word unat_gt_0 Suc_diff_1)
  have h: "unat (of_nat ((?h + 1) mod 32) :: u8) = (?h + 1) mod 32"
    using mod_less_divisor [of 32 "?h + 1"] by (simp add: unat_of_nat del: mod_less_divisor)
  show "dgram_ring (dgram_pop slot)"
    using assms n h by (auto simp: dgram_ring_def dgram_pop_def Let_def intro!: list_all_update)
  have "ring_contents ?h (Suc ?n) (dg_queue slot)
      = dg_queue slot ! ?h # ring_contents ((?h + 1) mod 32) ?n ((dg_queue slot)[?h := DATAGRAM_EMPTY])"
    using assms(1) n(2) ring_contents_Suc [of ?h "dg_queue slot" ?n] ring_contents_update_head [of ?h "dg_queue slot" ?n DATAGRAM_EMPTY]
    by (simp add: dgram_ring_def)
  then show "dgram_messages slot = datagram_message (dg_queue slot ! ?h) # dgram_messages (dgram_pop slot)"
    using n h by (simp add: dgram_messages_def dgram_pop_def Let_def)
qed

subsection \<open>The table\<close>

text \<open>Sizes, and a bound name belongs to one endpoint.\<close>

definition dgram_inv :: "dgram_table \<Rightarrow> bool" where
  "dgram_inv table \<longleftrightarrow> length table = MAXIMUM_DGRAM_ENDPOINTS \<and> list_all dgram_ring table \<and>
     (\<forall>i < length table. \<forall>j < length table.
        dgram_occupied (table ! i) \<longrightarrow> dg_bound (table ! i) \<longrightarrow>
        dgram_occupied (table ! j) \<longrightarrow> dg_bound (table ! j) \<longrightarrow> dg_address (table ! i) = dg_address (table ! j) \<longrightarrow> i = j)"

lemma dgram_inv_slot: "dgram_inv table \<Longrightarrow> i < MAXIMUM_DGRAM_ENDPOINTS \<Longrightarrow> dgram_ring (table ! i)"
  by (simp add: dgram_inv_def list_all_length)

text \<open>One slot is replaced by a well-formed one that claims no new name.\<close>

lemma dgram_inv_set:
  assumes "dgram_inv table" "dgram_ring s"
    "\<And>j. j < length table \<Longrightarrow> j \<noteq> i \<Longrightarrow> dgram_occupied s \<Longrightarrow> dg_bound s \<Longrightarrow> dgram_occupied (table ! j) \<Longrightarrow>
      dg_bound (table ! j) \<Longrightarrow> dg_address (table ! j) \<noteq> dg_address s"
  shows "dgram_inv (table[i := s])"
  unfolding dgram_inv_def
proof (intro conjI allI impI)
  fix j k
  assume jk: "j < length (table[i := s])" "k < length (table[i := s])"
    "dgram_occupied (table[i := s] ! j)" "dg_bound (table[i := s] ! j)"
    "dgram_occupied (table[i := s] ! k)" "dg_bound (table[i := s] ! k)"
    "dg_address (table[i := s] ! j) = dg_address (table[i := s] ! k)"
  then show "j = k"
    using assms(1) assms(3) [of j] assms(3) [of k]
    by (cases "j = i"; cases "k = i") (auto simp: dgram_inv_def nth_update)
qed (use assms in \<open>auto simp: dgram_inv_def intro: list_all_update\<close>)

lemma dgram_inv_keep:
  assumes "dgram_inv table" "i < MAXIMUM_DGRAM_ENDPOINTS" "dgram_ring s" "dgram_occupied s = dgram_occupied (table ! i)"
    "dg_bound s = dg_bound (table ! i)" "dg_address s = dg_address (table ! i)"
  shows "dgram_inv (table[i := s])"
proof (rule dgram_inv_set [OF assms(1,3)])
  fix j
  assume "j < length table" "j \<noteq> i" "dgram_occupied s" "dg_bound s" "dgram_occupied (table ! j)" "dg_bound (table ! j)"
  then show "dg_address (table ! j) \<noteq> dg_address s"
    using assms unfolding dgram_inv_def by metis
qed

text \<open>The calls as steps of the table.\<close>

inductive dgram_step :: "dgram_table \<Rightarrow> dgram_table \<Rightarrow> bool" where
  "dgram_create owner t = (r, t') \<Longrightarrow> dgram_step t t'"
| "dgram_bind owner h a t = (r, t') \<Longrightarrow> dgram_step t t'"
| "dgram_set_passcred owner h b t = (r, t') \<Longrightarrow> dgram_step t t'"
| "dgram_send owner h a input flags t = (r', t') \<Longrightarrow> dgram_step t t'"
| "dgram_receive owner h n flags t = (r'', t') \<Longrightarrow> dgram_step t t'"
| "dgram_close owner h t = (r, t') \<Longrightarrow> dgram_step t t'"
| "dgram_close_all owner t = (k, t') \<Longrightarrow> dgram_step t t'"

lemma dgram_push_frame [simp]:
  "dg_owner (dgram_push d s) = dg_owner s" "dg_generation (dgram_push d s) = dg_generation s"
  "dg_bound (dgram_push d s) = dg_bound s" "dg_address (dgram_push d s) = dg_address s"
  "dgram_occupied (dgram_push d s) = dgram_occupied s"
  by (simp_all add: dgram_push_def Let_def dgram_occupied_def)

lemma dgram_pop_frame [simp]:
  "dg_owner (dgram_pop s) = dg_owner s" "dg_generation (dgram_pop s) = dg_generation s"
  "dg_bound (dgram_pop s) = dg_bound s" "dg_address (dgram_pop s) = dg_address s"
  "dgram_occupied (dgram_pop s) = dgram_occupied s"
  by (simp_all add: dgram_pop_def Let_def dgram_occupied_def)

lemma dgram_create_cases:
  assumes "dgram_create owner t = (r, t')"
  obtains "t' = t" "\<not> is_Ok r"
  | i g where "valid_owner owner" "i < length t" "\<not> dgram_occupied (t ! i)"
      "dgram_next_generation (dg_generation (t ! i)) = Some g" "r = ok_or DgCapacity (dgram_encode i g)"
      "t' = t[i := DGRAM_EMPTY\<lparr>dg_owner := owner, dg_generation := g\<rparr>]"
proof (cases "valid_owner owner")
  case False
  then show ?thesis using assms that(1) by (auto simp: dgram_create_def valid_owner_def)
next
  case True
  then have e: "dgram_create owner t = (case position (\<lambda>slot. \<not> dgram_occupied slot) t of None \<Rightarrow> (Err DgCapacity, t)
      | Some index \<Rightarrow> case dgram_next_generation (dg_generation (t ! index)) of None \<Rightarrow> (Err DgCapacity, t)
      | Some generation \<Rightarrow> (ok_or DgCapacity (dgram_encode index generation),
           t[index := DGRAM_EMPTY\<lparr>dg_owner := owner, dg_generation := generation\<rparr>]))"
    by (simp add: dgram_create_def valid_owner_def)
  show ?thesis
  proof (cases "position (\<lambda>slot. \<not> dgram_occupied slot) t")
    case None
    then show ?thesis using assms e that(1) by auto
  next
    case (Some i)
    show ?thesis
    proof (cases "dgram_next_generation (dg_generation (t ! i))")
      case None
      with assms e Some show ?thesis by (intro that(1)) auto
    next
      case g: (Some g)
      with assms e Some position_length [OF Some] position_sat [OF Some] True show ?thesis
        by (intro that(2) [of i g]) auto
    qed
  qed
qed

lemma dgram_bind_cases:
  assumes "dgram_bind owner h a t = (r, t')"
  obtains "t' = t" "\<not> is_Ok r"
  | i where "dgram_lookup t owner h = Ok i" "r = Ok ()" "\<not> dgram_bound a t"
      "t' = t[i := (t ! i)\<lparr>dg_address := a, dg_bound := True\<rparr>]"
proof (cases "dgram_lookup t owner h")
  case (Err e)
  with assms show ?thesis by (intro that(1)) (auto simp: dgram_bind_def split: if_splits)
next
  case (Ok i)
  show ?thesis
  proof (cases "is_Ok r")
    case False
    with assms Ok show ?thesis by (intro that(1)) (auto simp: dgram_bind_def split: if_splits)
  next
    case True
    with assms Ok show ?thesis by (intro that(2) [of i]) (auto simp: dgram_bind_def dgram_bound_def split: if_splits)
  qed
qed

lemma dgram_send_cases:
  assumes "dgram_send owner h a input flags t = (r, t')"
  obtains "t' = t" "\<not> is_Ok r"
  | i d where "dgram_lookup t owner h = Ok i" "length input \<le> MAXIMUM_DATAGRAM_BYTES" "d < length t"
      "dgram_occupied (t ! d)" "dg_bound (t ! d)" "dg_address (t ! d) = a" "d \<noteq> i"
      "unat (dg_queue_length (t ! d)) < MAXIMUM_QUEUE_LENGTH" "r = Ok (length input)"
      "t' = t[d := dgram_push (datagram_of owner (if dg_bound (t ! i) then dg_address (t ! i) else UNNAMED) input) (t ! d)]"
proof (cases "dgram_lookup t owner h")
  case (Err e)
  from assms show ?thesis by (intro that(1)) (auto simp: dgram_send_def Err split: if_splits)
next
  case (Ok i)
  show ?thesis
  proof (cases "is_Ok r")
    case False
    with assms Ok show ?thesis
      by (intro that(1)) (auto simp: dgram_send_def Let_def split: if_splits option.splits)
  next
    case True
    with assms Ok obtain d where
      d: "position (\<lambda>slot. dgram_occupied slot \<and> dg_bound slot \<and> dg_address slot = a) t = Some d"
      by (auto simp: dgram_send_def Let_def split: if_splits option.splits)
    have "d < length t" "dgram_occupied (t ! d)" "dg_bound (t ! d)" "dg_address (t ! d) = a"
      using d by (auto simp: position_Some_iff)
    with assms Ok True d show ?thesis
      by (intro that(2) [of i d]) (auto simp: dgram_send_def Let_def split: if_splits)
  qed
qed

lemma dgram_receive_cases:
  assumes "dgram_receive owner h n flags t = (r, t')"
  obtains "t' = t" "\<not> is_Ok r"
  | i d where "dgram_lookup t owner h = Ok i" "dg_queue_length (t ! i) \<noteq> 0"
      "d = dg_queue (t ! i) ! unat (dg_queue_head (t ! i))"
      "r = Ok (take (min (unat (dm_length d)) n) (dm_bytes d),
         \<lparr>rd_bytes = min (unat (dm_length d)) n, rd_sender = dm_sender d, rd_sender_address = dm_sender_address d,
          rd_truncated = (min (unat (dm_length d)) n < unat (dm_length d))\<rparr>)"
      "t' = (if flags AND MSG_PEEK = 0 then t[i := dgram_pop (t ! i)] else t)"
proof (cases "dgram_lookup t owner h")
  case (Err e)
  with assms show ?thesis by (intro that(1)) (auto simp: dgram_receive_def split: if_splits)
next
  case (Ok i)
  show ?thesis
  proof (cases "is_Ok r")
    case False
    with assms Ok show ?thesis by (intro that(1)) (auto simp: dgram_receive_def Let_def split: if_splits)
  next
    case True
    with assms Ok show ?thesis
      by (intro that(2) [of i "dg_queue (t ! i) ! unat (dg_queue_head (t ! i))"])
        (auto simp: dgram_receive_def Let_def split: if_splits)
  qed
qed

lemma dgram_inv_step:
  assumes "dgram_inv t" "dgram_step t t'"
  shows "dgram_inv t'"
  using assms(2)
proof cases
  case (1 owner r)
  from 1 show ?thesis
    by (cases rule: dgram_create_cases) (use assms(1) in \<open>auto intro: dgram_inv_set\<close>)
next
  case (2 owner h a r)
  from 2 show ?thesis
  proof (cases rule: dgram_bind_cases)
    case (2 i)
    then show ?thesis using assms(1) dgram_lookup_range [OF 2(1)]
      by (auto simp: dgram_bound_def list_ex_length dgram_inv_slot intro!: dgram_inv_set)
  qed (use assms(1) in simp)
next
  case (3 owner h b r)
  then show ?thesis using assms(1)
    by (cases "dgram_lookup t owner h")
      (auto simp: dgram_set_passcred_def dgram_occupied_def dgram_inv_slot dgram_lookup_range intro!: dgram_inv_keep)
next
  case (4 owner h a input flags r')
  from 4 show ?thesis
  proof (cases rule: dgram_send_cases)
    case (2 i d)
    then have "d < MAXIMUM_DGRAM_ENDPOINTS" using assms(1) by (simp add: dgram_inv_def)
    with 2 assms(1) show ?thesis
      by (auto intro!: dgram_inv_keep dgram_push_ring(1) datagram_of_message(2) dgram_inv_slot)
  qed (use assms(1) in simp)
next
  case (5 owner h n flags r'')
  from 5 show ?thesis
  proof (cases rule: dgram_receive_cases)
    case (2 i d)
    then show ?thesis using assms(1) dgram_lookup_range [OF 2(1)]
      by (auto intro!: dgram_inv_keep dgram_pop_ring(1) dgram_inv_slot)
  qed (use assms(1) in simp)
next
  case (6 owner h r)
  then show ?thesis using assms(1)
    by (cases "dgram_lookup t owner h") (auto simp: dgram_close_def intro!: dgram_inv_set)
next
  case (7 owner k)
  then have "t' = t \<or> t' = map (\<lambda>s. if dg_owner s = owner then DGRAM_EMPTY\<lparr>dg_generation := dg_generation s\<rparr> else s) t"
    by (auto simp: dgram_close_all_def split: if_splits)
  then show ?thesis using assms(1) by (auto simp: dgram_inv_def list_all_length split: if_splits)
qed

interpretation dgm: invariant_machine "\<lambda>t. t = dgram_table_new" dgram_step dgram_inv
proof
  show "s = dgram_table_new \<Longrightarrow> dgram_inv s" for s
    by (simp add: dgram_inv_def dgram_table_new_def list_all_iff)
qed (rule dgram_inv_step)

lemma nth_beyond: "length xs = length ys \<Longrightarrow> length xs \<le> i \<Longrightarrow> xs ! i = ys ! i"
  by (induction xs ys arbitrary: i rule: list_induct2) (auto simp: nth_Cons split: nat.splits)

lemma dgram_step_slots:
  assumes "dgram_step t t'"
  shows "dg_generation (t ! i) \<le> dg_generation (t' ! i) \<and>
    (\<not> dgram_occupied (t ! i) \<longrightarrow> dgram_occupied (t' ! i) \<longrightarrow> dg_generation (t ! i) < dg_generation (t' ! i))"
  using assms
proof cases
  case (1 owner r)
  from 1 show ?thesis
    by (cases rule: dgram_create_cases)
      (auto simp: nth_update order.strict_implies_order split: if_splits dest: dgram_next_generation_less)
next
  case (2 owner h a r)
  from 2 show ?thesis by (cases rule: dgram_bind_cases) (auto simp: nth_update dgram_occupied_def split: if_splits)
next
  case (3 owner h b r)
  then show ?thesis
    by (cases "dgram_lookup t owner h") (auto simp: dgram_set_passcred_def nth_update dgram_occupied_def split: if_splits)
next
  case (4 owner h a input flags r')
  from 4 show ?thesis by (cases rule: dgram_send_cases) (auto simp: nth_update split: if_splits)
next
  case (5 owner h n flags r'')
  from 5 show ?thesis by (cases rule: dgram_receive_cases) (auto simp: nth_update split: if_splits)
next
  case (6 owner h r)
  then show ?thesis by (cases "dgram_lookup t owner h") (auto simp: dgram_close_def nth_update split: if_splits)
next
  case (7 owner k)
  then have "t' = t \<or> t' = map (\<lambda>s. if dg_owner s = owner then DGRAM_EMPTY\<lparr>dg_generation := dg_generation s\<rparr> else s) t"
    by (auto simp: dgram_close_all_def split: if_splits)
  then show ?thesis
    by (cases "i < length t") (auto simp: nth_beyond [of "map _ t" t] split: if_splits)
qed

interpretation dgl: generation_lifetime dgram_step "\<lambda>t i. dgram_occupied (t ! i)" "\<lambda>t i. dg_generation (t ! i)"
  using dgram_step_slots by unfold_locales blast+

section \<open>Properties\<close>

text \<open>
  C13. Every endpoint of a reachable datagram table is a bounded first-in first-out queue of whole
  messages. A successful send appends exactly one message, with the sender's identity, its bound
  name (or none) and the whole payload, to the endpoint bound to the destination, which is not the
  sender, and changes no other endpoint. A successful receive reports the oldest message of the
  caller's endpoint: its sender, its address, the prefix of its payload that fits, and whether
  that cut it; it removes the message unless the caller only peeks, and changes no other endpoint.
\<close>

theorem datagrams_are_queued_whole:
  assumes "dgram_step\<^sup>*\<^sup>* dgram_table_new t"
  shows "(dgram_send owner h a input flags t = (Ok n, t') \<longrightarrow>
      n = length input \<and>
      (\<exists>i d. dgram_lookup t owner h = Ok i \<and> d \<noteq> i \<and> dg_bound (t ! d) \<and> dg_address (t ! d) = a \<and>
        dgram_messages (t' ! d) = dgram_messages (t ! d)
          @ [(owner, if dg_bound (t ! i) then dg_address (t ! i) else UNNAMED, input)] \<and>
        length (dgram_messages (t' ! d)) \<le> MAXIMUM_QUEUE_LENGTH \<and> (\<forall>j. j \<noteq> d \<longrightarrow> t' ! j = t ! j)))
    \<and> (dgram_receive owner h k flags t = (Ok (output, report), t') \<longrightarrow>
      (\<exists>i sender address payload rest. dgram_lookup t owner h = Ok i \<and>
        dgram_messages (t ! i) = (sender, address, payload) # rest \<and>
        output = take k payload \<and> rd_bytes report = length output \<and> rd_truncated report = (k < length payload) \<and>
        rd_sender report = sender \<and> rd_sender_address report = address \<and>
        dgram_messages (t' ! i) = (if flags AND MSG_PEEK = 0 then rest else (sender, address, payload) # rest) \<and>
        (\<forall>j. j \<noteq> i \<longrightarrow> t' ! j = t ! j)))"
proof (intro conjI impI)
  have inv: "dgram_inv t" using dgm.inv_reachable [OF refl assms] .
  assume s: "dgram_send owner h a input flags t = (Ok n, t')"
  from s show "n = length input" by (cases rule: dgram_send_cases) simp_all
  from s show "\<exists>i d. dgram_lookup t owner h = Ok i \<and> d \<noteq> i \<and> dg_bound (t ! d) \<and> dg_address (t ! d) = a \<and>
      dgram_messages (t' ! d) = dgram_messages (t ! d)
        @ [(owner, if dg_bound (t ! i) then dg_address (t ! i) else UNNAMED, input)] \<and>
      length (dgram_messages (t' ! d)) \<le> MAXIMUM_QUEUE_LENGTH \<and> (\<forall>j. j \<noteq> d \<longrightarrow> t' ! j = t ! j)"
  proof (cases rule: dgram_send_cases)
    case (2 i d)
    let ?m = "datagram_of owner (if dg_bound (t ! i) then dg_address (t ! i) else UNNAMED) input"
    have "d < MAXIMUM_DGRAM_ENDPOINTS" using 2 inv by (simp add: dgram_inv_def)
    note push = dgram_push_ring(2) [OF dgram_inv_slot [OF inv this] 2(8) datagram_of_message(2) [OF 2(2)]]
    have "dgram_messages (t' ! d) = dgram_messages (t ! d) @ [datagram_message ?m]" using 2 push by simp
    moreover from this have "length (dgram_messages (t' ! d)) \<le> MAXIMUM_QUEUE_LENGTH" using 2(8) by simp
    ultimately show ?thesis using 2 datagram_of_message(1) [OF 2(2)]
      by (intro exI [of _ i] exI [of _ d]) simp
  qed simp
next
  have inv: "dgram_inv t" using dgm.inv_reachable [OF refl assms] .
  assume r: "dgram_receive owner h k flags t = (Ok (output, report), t')"
  then show "\<exists>i sender address payload rest. dgram_lookup t owner h = Ok i \<and>
      dgram_messages (t ! i) = (sender, address, payload) # rest \<and>
      output = take k payload \<and> rd_bytes report = length output \<and> rd_truncated report = (k < length payload) \<and>
      rd_sender report = sender \<and> rd_sender_address report = address \<and>
      dgram_messages (t' ! i) = (if flags AND MSG_PEEK = 0 then rest else (sender, address, payload) # rest) \<and>
      (\<forall>j. j \<noteq> i \<longrightarrow> t' ! j = t ! j)"
  proof (cases rule: dgram_receive_cases)
    case (2 i d)
    note i = dgram_lookup_range [OF 2(1)]
    note slot = dgram_inv_slot [OF inv i]
    have "d \<in> set (dg_queue (t ! i))" using slot 2(3) by (simp add: dgram_ring_def)
    then have "datagram_ok d" using slot by (simp add: dgram_ring_def list_all_iff)
    moreover have "i < length t" using i inv by (simp add: dgram_inv_def)
    ultimately show ?thesis using 2 dgram_pop_ring(2) [OF slot 2(2)]
      by (intro exI [of _ i] exI [of _ "dm_sender d"] exI [of _ "dm_sender_address d"]
          exI [of _ "take (unat (dm_length d)) (dm_bytes d)"] exI [of _ "dgram_messages (dgram_pop (t ! i))"])
        (auto simp: datagram_message_def datagram_ok_def min_def)
  qed simp
qed

text \<open>Two endpoints, the second bound to the name \<open>/run\<close>.\<close>

definition demo_sender :: process_handle where "demo_sender = \<lparr>ph_pid = 1, ph_generation = 1\<rparr>"
definition demo_receiver :: process_handle where "demo_receiver = \<lparr>ph_pid = 2, ph_generation = 1\<rparr>"
definition demo_name :: unix_address where "demo_name = the_Ok (unix_address_new [47, 114, 117, 110])"

definition demo_dgrams :: dgram_table where
  "demo_dgrams = DGRAM_EMPTY\<lparr>dg_owner := demo_sender, dg_generation := 1\<rparr>
     # DGRAM_EMPTY\<lparr>dg_owner := demo_receiver, dg_generation := 1, dg_address := demo_name, dg_bound := True\<rparr>
     # replicate 30 DGRAM_EMPTY"

lemma demo_dgram_handles:
  "dgram_decode 0x101 = Some (0, 1)" "dgram_decode 0x102 = Some (1, 1)" "dgram_encode 0 1 = Some 0x101"
  "dgram_encode 1 1 = Some 0x102" "dgram_next_generation 0 = Some 1"
  by code_simp+

lemma demo_dgram_owners [simp]:
  "valid_owner demo_sender" "valid_owner demo_receiver" "ph_pid demo_sender = 1" "ph_generation demo_sender = 1"
  "ph_pid demo_receiver = 2" "ph_generation demo_receiver = 1"
  by (simp_all add: valid_owner_def demo_sender_def demo_receiver_def)

lemma demo_name_named: "\<not> is_unnamed demo_name"
  by code_simp

lemma dgram_table_new_cons: "dgram_table_new = DGRAM_EMPTY # DGRAM_EMPTY # replicate 30 DGRAM_EMPTY"
  by (simp add: dgram_table_new_def numeral_eq_Suc)

lemma demo_dgrams_reach: "dgram_step\<^sup>*\<^sup>* dgram_table_new demo_dgrams"
proof -
  let ?a = "DGRAM_EMPTY\<lparr>dg_owner := demo_sender, dg_generation := 1\<rparr>"
    and ?b = "DGRAM_EMPTY\<lparr>dg_owner := demo_receiver, dg_generation := 1\<rparr>"
  have v: "dgram_occupied ?a" "dgram_occupied ?b" "dg_generation DGRAM_EMPTY = 0"
    by (simp_all add: dgram_occupied_def demo_sender_def demo_receiver_def DGRAM_EMPTY_def)
  have c1: "dgram_create demo_sender dgram_table_new = (Ok 0x101, ?a # DGRAM_EMPTY # replicate 30 DGRAM_EMPTY)"
    by (simp add: dgram_create_def dgram_table_new_cons v demo_dgram_handles)
  have c2: "dgram_create demo_receiver (?a # DGRAM_EMPTY # replicate 30 DGRAM_EMPTY)
      = (Ok 0x102, ?a # ?b # replicate 30 DGRAM_EMPTY)"
    by (simp add: dgram_create_def v demo_dgram_handles [simplified])
  have c3: "dgram_bind demo_receiver 0x102 demo_name (?a # ?b # replicate 30 DGRAM_EMPTY) = (Ok (), demo_dgrams)"
    by (simp add: dgram_bind_def demo_name_named dgram_lookup_def v demo_dgram_handles demo_dgrams_def list_ex_iff)
  show ?thesis
    by (rule converse_rtranclp_into_rtranclp [OF dgram_step.intros(1) [OF c1] converse_rtranclp_into_rtranclp
          [OF dgram_step.intros(1) [OF c2] r_into_rtranclp [where r = dgram_step, OF dgram_step.intros(2) [OF c3]]]])
qed

theorem datagrams_are_queued_whole_witness:
  "dgram_step\<^sup>*\<^sup>* dgram_table_new demo_dgrams \<and>
   fst (dgram_send demo_sender 0x101 demo_name [7, 8] 0 demo_dgrams) = Ok 2 \<and>
   dgram_messages (snd (dgram_send demo_sender 0x101 demo_name [7, 8] 0 demo_dgrams) ! 1)
     = [(demo_sender, UNNAMED, [7, 8])]"
proof -
  have v: "dgram_occupied (demo_dgrams ! 0)" "dgram_occupied (demo_dgrams ! 1)" "dg_owner (demo_dgrams ! 0) = demo_sender"
    by (simp_all add: dgram_occupied_def demo_sender_def demo_receiver_def demo_dgrams_def DGRAM_EMPTY_def)
  have l: "dgram_lookup demo_dgrams demo_sender 0x101 = Ok 0"
    using v by (simp add: dgram_lookup_def demo_dgram_handles) (simp add: demo_dgrams_def)
  have p: "position (\<lambda>slot. dgram_occupied slot \<and> dg_bound slot \<and> dg_address slot = demo_name) demo_dgrams = Some 1"
    using v by (simp add: demo_dgrams_def)
  have b: "\<not> dg_bound (demo_dgrams ! 0)" "dg_queue_length (demo_dgrams ! 1) = 0" "dgram_messages (demo_dgrams ! 1) = []"
    by (simp_all add: demo_dgrams_def dgram_messages_def)
  let ?slot = "dgram_push (datagram_of demo_sender UNNAMED [7, 8]) (demo_dgrams ! 1)"
  obtain t where s: "dgram_send demo_sender 0x101 demo_name [7, 8] 0 demo_dgrams = (Ok 2, t)"
    and t: "t = demo_dgrams[1 := ?slot]"
    using l p b by (simp add: dgram_send_def)
  have "dg_queue_length ?slot = 1" "length demo_dgrams = 32"
    using b(2) by (simp add: dgram_push_def Let_def) (simp add: demo_dgrams_def)
  with t b(2) have "t ! 1 \<noteq> demo_dgrams ! 1" by auto
  from datagrams_are_queued_whole [OF demo_dgrams_reach, THEN conjunct1, rule_format, OF s] l b(1)
  obtain d where d: "dgram_messages (t ! d) = dgram_messages (demo_dgrams ! d) @ [(demo_sender, UNNAMED, [7, 8])]"
    "\<And>j. j \<noteq> d \<Longrightarrow> t ! j = demo_dgrams ! j"
    by auto
  from \<open>t ! 1 \<noteq> demo_dgrams ! 1\<close> d(2) have "d = 1" by metis
  with d(1) b(3) s demo_dgrams_reach show ?thesis by simp
qed

end
