(* ===== verification/ObjectKey.thy ===== *)
theory ObjectKey
  imports Handles
begin

text \<open>
  The identities of open objects, from \<^verbatim>\<open>src/src/linux_fd.rs\<close>: the key that epoll
  watches and transfer tokens hold instead of a descriptor number.
\<close>

record object_key =
  ok_index :: u16
  ok_generation :: u32

definition KEY_EMPTY :: object_key where
  "KEY_EMPTY = \<lparr>ok_index = - 1, ok_generation = 0\<rparr>"

definition key_new :: "nat \<Rightarrow> u32 \<Rightarrow> object_key" where
  "key_new index generation = \<lparr>ok_index = of_nat index, ok_generation = generation\<rparr>"

definition key_index :: "object_key \<Rightarrow> nat option" where
  "key_index key = (if ok_generation key = 0 \<or> ok_index key = - 1 then None else Some (unat (ok_index key)))"

definition key_is_empty :: "object_key \<Rightarrow> bool" where
  "key_is_empty key \<longleftrightarrow> ok_generation key = 0 \<or> ok_index key = - 1"

record transfer_token =
  tt_key :: object_key

definition TOKEN_EMPTY :: transfer_token where
  "TOKEN_EMPTY = \<lparr>tt_key = KEY_EMPTY\<rparr>"

definition token_occupied :: "transfer_token \<Rightarrow> bool" where
  "token_occupied token \<longleftrightarrow> \<not> key_is_empty (tt_key token)"

abbreviation MAXIMUM_TRANSFER_DESCRIPTORS :: nat where "MAXIMUM_TRANSFER_DESCRIPTORS \<equiv> 8"

lemma key_empty_simps [simp]: "key_is_empty KEY_EMPTY" "key_index KEY_EMPTY = None" "\<not> token_occupied TOKEN_EMPTY"
  by (simp_all add: key_is_empty_def key_index_def KEY_EMPTY_def TOKEN_EMPTY_def token_occupied_def)

lemma key_index_None_iff: "key_index key = None \<longleftrightarrow> key_is_empty key"
  by (simp add: key_index_def key_is_empty_def)

lemma key_index_new: "index < 2 ^ 16 - 1 \<Longrightarrow> g \<noteq> 0 \<Longrightarrow> key_index (key_new index g) = Some index"
proof -
  assume i: "index < 2 ^ 16 - 1" and g: "g \<noteq> 0"
  then have u: "unat (of_nat index :: u16) = index" by (simp add: unat_of_nat)
  moreover have "(of_nat index :: u16) \<noteq> - 1" using u i unat_max_word [where 'a = 16] by fastforce
  ultimately show ?thesis using g by (simp add: key_index_def key_new_def)
qed

lemma key_index_Some: "key_index key = Some i \<Longrightarrow> key = key_new i (ok_generation key) \<and> ok_generation key \<noteq> 0"
  by (auto simp: key_index_def key_new_def split: if_splits)

end
