(* ===== verification/Epoll.thy ===== *)
theory Epoll
  imports ObjectKey EventFd "HOL-Library.Multiset"
begin

unbundle bit_operations_syntax

text \<open>
  \<^verbatim>\<open>src/src/linux_epoll.rs\<close>: 16 epoll instances of 64 watches each. A watch names an
  open object by its key. The readiness of a target comes from the descriptor layer, so
  \<open>ctl\<close>, \<open>wait\<close> and \<open>readiness\<close> take it as an argument that threads the state \<open>'s\<close> of that
  layer (\<open>linux_fd::readiness_by_key\<close>; reading a timer updates it). The table itself is
  not part of that state, as it is not while the code queries its targets outside the table
  lock.
\<close>

section \<open>State\<close>

definition EPOLL_CLOEXEC :: u32 where "EPOLL_CLOEXEC = 0x80000"
definition EPOLL_ALLOWED_FLAGS :: u32 where "EPOLL_ALLOWED_FLAGS = EPOLL_CLOEXEC"
definition EPOLL_CTL_ADD :: u32 where "EPOLL_CTL_ADD = 1"
definition EPOLL_CTL_DEL :: u32 where "EPOLL_CTL_DEL = 2"
definition EPOLL_CTL_MOD :: u32 where "EPOLL_CTL_MOD = 3"
definition EPOLLIN :: u32 where "EPOLLIN = READY_IN"
definition EPOLLOUT :: u32 where "EPOLLOUT = READY_OUT"
definition EPOLLERR :: u32 where "EPOLLERR = READY_ERR"
definition EPOLLHUP :: u32 where "EPOLLHUP = READY_HUP"
definition EPOLLET :: u32 where "EPOLLET = push_bit 31 1"
definition EPOLL_INTEREST_MASK :: u32 where
  "EPOLL_INTEREST_MASK = EPOLLIN OR EPOLLOUT OR EPOLLERR OR EPOLLHUP OR EPOLLET"
abbreviation MAXIMUM_EPOLL_OBJECTS :: nat where "MAXIMUM_EPOLL_OBJECTS \<equiv> 16"
abbreviation MAXIMUM_EPOLL_WATCHES :: nat where "MAXIMUM_EPOLL_WATCHES \<equiv> 64"
definition EPOLL_BASE :: u32 where "EPOLL_BASE = 0x1000"

datatype epoll_error = EpInvalidArgument | EpBadFileDescriptor | EpAlreadyExists | EpNotFound | EpCapacity

record ready_event =
  re_events :: u32
  re_data :: u64

record watch =
  wt_target :: object_key
  wt_registration :: u64
  wt_events :: u32
  wt_data :: u64
  wt_last_ready :: u32
  wt_last_generation :: u64
  wt_edge_seen :: bool

definition WATCH_EMPTY :: watch where
  "WATCH_EMPTY = \<lparr>wt_target = KEY_EMPTY, wt_registration = 0, wt_events = 0, wt_data = 0, wt_last_ready = 0,
     wt_last_generation = 0, wt_edge_seen = False\<rparr>"

definition watch_occupied :: "watch \<Rightarrow> bool" where
  "watch_occupied w \<longleftrightarrow> \<not> key_is_empty (wt_target w)"

record epoll_slot =
  el_owner :: process_handle
  el_flags :: u32
  el_next_registration :: u64
  el_watches :: "watch list"

definition EPOLL_EMPTY :: epoll_slot where
  "EPOLL_EMPTY = \<lparr>el_owner = no_handle, el_flags = 0, el_next_registration = 0,
     el_watches = replicate MAXIMUM_EPOLL_WATCHES WATCH_EMPTY\<rparr>"

definition epoll_occupied :: "epoll_slot \<Rightarrow> bool" where
  "epoll_occupied slot \<longleftrightarrow> ph_pid (el_owner slot) \<noteq> 0 \<and> ph_generation (el_owner slot) \<noteq> 0"

type_synonym epoll_table = "epoll_slot list"

definition epoll_table_new :: epoll_table where
  "epoll_table_new = replicate MAXIMUM_EPOLL_OBJECTS EPOLL_EMPTY"

type_synonym 's readiness_query = "object_key \<Rightarrow> 's \<Rightarrow> (u32 \<times> u64) option \<times> 's"

section \<open>Operations\<close>

definition epoll_index_for_fd :: "u32 \<Rightarrow> nat option" where
  "epoll_index_for_fd fd =
     (if fd < EPOLL_BASE then None
      else let index = unat (fd - EPOLL_BASE)
           in if index < MAXIMUM_EPOLL_OBJECTS then Some index else None)"

definition epoll_fd_for_index :: "nat \<Rightarrow> u32" where
  "epoll_fd_for_index index = EPOLL_BASE + of_nat index"

definition epoll_create :: "process_handle \<Rightarrow> u32 \<Rightarrow> epoll_table \<Rightarrow> (u32, epoll_error) result \<times> epoll_table" where
  "epoll_create owner flags table =
     (if ph_pid owner = 0 \<or> ph_generation owner = 0 \<or> flags AND NOT EPOLL_ALLOWED_FLAGS \<noteq> 0
      then (Err EpInvalidArgument, table)
      else case position (\<lambda>slot. \<not> epoll_occupied slot) table of None \<Rightarrow> (Err EpCapacity, table)
      | Some index \<Rightarrow>
          (Ok (epoll_fd_for_index index),
           table[index := \<lparr>el_owner = owner, el_flags = flags, el_next_registration = 0,
             el_watches = replicate MAXIMUM_EPOLL_WATCHES WATCH_EMPTY\<rparr>]))"

text \<open>The slot a descriptor of \<open>owner\<close> names.\<close>

definition epoll_lookup :: "process_handle \<Rightarrow> u32 \<Rightarrow> epoll_table \<Rightarrow> (nat, epoll_error) result" where
  "epoll_lookup owner epfd table =
     (case epoll_index_for_fd epfd of None \<Rightarrow> Err EpBadFileDescriptor
      | Some index \<Rightarrow>
          if \<not> epoll_occupied (table ! index) \<or> el_owner (table ! index) \<noteq> owner then Err EpBadFileDescriptor
          else Ok index)"

text \<open>The watch that add and modify store at \<open>pos\<close>, under the next registration number.\<close>

definition epoll_register ::
    "nat \<Rightarrow> object_key \<Rightarrow> u32 \<Rightarrow> u64 \<Rightarrow> epoll_slot \<Rightarrow> (unit, epoll_error) result \<times> epoll_slot" where
  "epoll_register pos target events data slot =
     (case checked_add (el_next_registration slot) 1 of None \<Rightarrow> (Err EpCapacity, slot)
      | Some registration \<Rightarrow>
          (Ok (), slot\<lparr>el_next_registration := registration,
             el_watches := (el_watches slot)[pos := \<lparr>wt_target = target, wt_registration = registration,
               wt_events = events, wt_data = data, wt_last_ready = 0, wt_last_generation = 0, wt_edge_seen = False\<rparr>]\<rparr>))"

definition epoll_ctl_slot ::
    "u32 \<Rightarrow> object_key \<Rightarrow> u32 \<Rightarrow> u64 \<Rightarrow> epoll_slot \<Rightarrow> (unit, epoll_error) result \<times> epoll_slot" where
  "epoll_ctl_slot operation target events data slot =
     (let existing = position (\<lambda>w. wt_target w = target) (el_watches slot) in
      if operation = EPOLL_CTL_ADD then
        (if existing \<noteq> None then (Err EpAlreadyExists, slot)
         else case position (\<lambda>w. \<not> watch_occupied w) (el_watches slot) of None \<Rightarrow> (Err EpCapacity, slot)
         | Some pos \<Rightarrow> epoll_register pos target events data slot)
      else if operation = EPOLL_CTL_MOD then
        (case existing of None \<Rightarrow> (Err EpNotFound, slot)
         | Some pos \<Rightarrow> epoll_register pos target events data slot)
      else if operation = EPOLL_CTL_DEL then
        (case existing of None \<Rightarrow> (Err EpNotFound, slot)
         | Some pos \<Rightarrow> (Ok (), slot\<lparr>el_watches := (el_watches slot)[pos := WATCH_EMPTY]\<rparr>))
      else (Err EpInvalidArgument, slot))"

definition epoll_ctl ::
    "'s readiness_query \<Rightarrow> process_handle \<Rightarrow> u32 \<Rightarrow> u32 \<Rightarrow> object_key \<Rightarrow> u32 \<Rightarrow> u64 \<Rightarrow> epoll_table \<Rightarrow> 's \<Rightarrow>
      (unit, epoll_error) result \<times> epoll_table \<times> 's" where
  "epoll_ctl target_readiness owner epfd operation target events data table s =
     (if events AND NOT EPOLL_INTEREST_MASK \<noteq> 0 then (Err EpInvalidArgument, table, s)
      else
        let (missing, s') = (if operation \<noteq> EPOLL_CTL_DEL
              then (case target_readiness target s of (r, s') \<Rightarrow> (r = None, s')) else (False, s)) in
        if missing then (Err EpInvalidArgument, table, s')
        else case epoll_lookup owner epfd table of Err e \<Rightarrow> (Err e, table, s')
        | Ok index \<Rightarrow>
            case epoll_ctl_slot operation target events data (table ! index) of
              (r, slot) \<Rightarrow> (r, table[index := slot], s'))"

text \<open>The bits a watch reports on besides the edge flag; errors and hang-ups always count.\<close>

definition interest :: "watch \<Rightarrow> u32" where
  "interest w = ((wt_events w AND NOT EPOLLET) OR EPOLLERR OR EPOLLHUP)"

definition is_edge :: "watch \<Rightarrow> bool" where
  "is_edge w \<longleftrightarrow> wt_events w AND EPOLLET \<noteq> 0"

text \<open>One turn of the scan of \<open>wait\<close> with \<open>room\<close> output entries left: the updated watch and
  the event, if one is emitted.\<close>

definition epoll_probe :: "(u32 \<times> u64) option \<Rightarrow> nat \<Rightarrow> watch \<Rightarrow> watch \<times> ready_event option" where
  "epoll_probe target room w =
     (let (ready, generation, invalid) = (case target of
              Some (ready, generation) \<Rightarrow> (ready, generation, False)
            | None \<Rightarrow> (EPOLLERR OR EPOLLHUP, 0, True));
          interested = ready AND interest w;
          edge = is_edge w;
          should_report = (if invalid then True
            else if edge then interested \<noteq> 0 \<and> (\<not> wt_edge_seen w \<or> wt_last_generation w \<noteq> generation)
            else interested \<noteq> 0);
          emitted = (should_report \<and> 0 < room);
          w' = w\<lparr>wt_last_ready := interested\<rparr>
      in (if edge \<and> emitted then w'\<lparr>wt_edge_seen := True, wt_last_generation := generation\<rparr>
          else if edge \<and> interested = 0 then w'\<lparr>wt_edge_seen := False, wt_last_generation := generation\<rparr>
          else w',
          if emitted
          then Some \<lparr>re_events = (if invalid then interested OR (EPOLLERR OR EPOLLHUP) else interested), re_data = wt_data w\<rparr>
          else None))"

fun epoll_scan :: "'s readiness_query \<Rightarrow> nat \<Rightarrow> watch list \<Rightarrow> 's \<Rightarrow> watch list \<times> ready_event list \<times> 's" where
  "epoll_scan target_readiness room [] s = ([], [], s)"
| "epoll_scan target_readiness room (w # ws) s =
     (if \<not> watch_occupied w
      then (case epoll_scan target_readiness room ws s of (ws', events, s') \<Rightarrow> (w # ws', events, s'))
      else case target_readiness (wt_target w) s of (target, s1) \<Rightarrow>
        (case epoll_probe target room w of
           (w', None) \<Rightarrow> (case epoll_scan target_readiness room ws s1 of (ws', events, s') \<Rightarrow> (w' # ws', events, s'))
         | (w', Some event) \<Rightarrow>
             (case epoll_scan target_readiness (room - 1) ws s1 of (ws', events, s') \<Rightarrow> (w' # ws', event # events, s'))))"

text \<open>Writing the scanned state back into the watches that are still registered.\<close>

fun epoll_store :: "watch list \<Rightarrow> watch list \<Rightarrow> watch list" where
  "epoll_store [] current = current"
| "epoll_store (w # ws) current =
     epoll_store ws
       (case position (\<lambda>c. wt_target c = wt_target w \<and> wt_registration c = wt_registration w) current of
          None \<Rightarrow> current
        | Some i \<Rightarrow> current[i := (current ! i)\<lparr>wt_last_ready := wt_last_ready w,
            wt_last_generation := wt_last_generation w, wt_edge_seen := wt_edge_seen w\<rparr>])"

text \<open>\<open>wait\<close> into an output slice of length \<open>n\<close>; the result is the filled prefix.\<close>

definition epoll_wait ::
    "'s readiness_query \<Rightarrow> process_handle \<Rightarrow> u32 \<Rightarrow> nat \<Rightarrow> epoll_table \<Rightarrow> 's \<Rightarrow>
      (ready_event list, epoll_error) result \<times> epoll_table \<times> 's" where
  "epoll_wait target_readiness owner epfd n table s =
     (if n = 0 then (Err EpInvalidArgument, table, s)
      else case epoll_lookup owner epfd table of Err e \<Rightarrow> (Err e, table, s)
      | Ok index \<Rightarrow>
          case epoll_scan target_readiness n (el_watches (table ! index)) s of (watches, events, s') \<Rightarrow>
          let slot = table ! index in
          if \<not> epoll_occupied slot \<or> el_owner slot \<noteq> owner then (Err EpBadFileDescriptor, table, s')
          else (Ok events, table[index := slot\<lparr>el_watches := epoll_store watches (el_watches slot)\<rparr>], s'))"

fun epoll_any_ready :: "'s readiness_query \<Rightarrow> watch list \<Rightarrow> 's \<Rightarrow> bool \<times> 's" where
  "epoll_any_ready target_readiness [] s = (False, s)"
| "epoll_any_ready target_readiness (w # ws) s =
     (if watch_occupied w then
        (case target_readiness (wt_target w) s of (target, s') \<Rightarrow>
           let (ready, generation) = (case target of Some p \<Rightarrow> p | None \<Rightarrow> (EPOLLERR OR EPOLLHUP, 0));
               edge_pending = (\<not> is_edge w \<or> \<not> wt_edge_seen w \<or> wt_last_generation w \<noteq> generation) in
           if ready AND interest w \<noteq> 0 \<and> edge_pending then (True, s')
           else epoll_any_ready target_readiness ws s')
      else epoll_any_ready target_readiness ws s)"

definition epoll_readiness ::
    "'s readiness_query \<Rightarrow> process_handle \<Rightarrow> u32 \<Rightarrow> epoll_table \<Rightarrow> 's \<Rightarrow> (u32, epoll_error) result \<times> 's" where
  "epoll_readiness target_readiness owner epfd table s =
     (case epoll_lookup owner epfd table of Err e \<Rightarrow> (Err e, s)
      | Ok index \<Rightarrow>
          case epoll_any_ready target_readiness (el_watches (table ! index)) s of
            (ready, s') \<Rightarrow> (Ok (if ready then EPOLLIN else 0), s'))"

text \<open>\<open>close\<close> with an output slice of length \<open>n\<close>; the keys it hands back.\<close>

definition epoll_close ::
    "process_handle \<Rightarrow> u32 \<Rightarrow> nat \<Rightarrow> epoll_table \<Rightarrow> (object_key list, epoll_error) result \<times> epoll_table" where
  "epoll_close owner epfd n table =
     (case epoll_lookup owner epfd table of Err e \<Rightarrow> (Err e, table)
      | Ok index \<Rightarrow>
          let watched = map wt_target (filter watch_occupied (el_watches (table ! index))) in
          if length watched > n then (Err EpCapacity, table)
          else (Ok watched, table[index := EPOLL_EMPTY]))"

definition epoll_remove_target :: "object_key \<Rightarrow> epoll_table \<Rightarrow> nat \<times> epoll_table" where
  "epoll_remove_target target table =
     (sum_list (map (\<lambda>slot. if epoll_occupied slot then length (filter (\<lambda>w. wt_target w = target) (el_watches slot)) else 0) table),
      map (\<lambda>slot. if epoll_occupied slot
             then slot\<lparr>el_watches := map (\<lambda>w. if wt_target w = target then WATCH_EMPTY else w) (el_watches slot)\<rparr>
             else slot) table)"

section \<open>Lemmas\<close>

interpretation epf: offset_codec epoll_index_for_fd epoll_fd_for_index MAXIMUM_EPOLL_OBJECTS
  by (rule offset_codec_of [where base = EPOLL_BASE])
    (simp_all add: EPOLL_BASE_def epoll_index_for_fd_def epoll_fd_for_index_def offset_index_def offset_handle_def)

lemma epoll_lookup_Ok:
  "epoll_lookup owner epfd table = Ok i \<longleftrightarrow>
    epoll_index_for_fd epfd = Some i \<and> epoll_occupied (table ! i) \<and> el_owner (table ! i) = owner"
  by (auto simp: epoll_lookup_def split: rust_splits)

lemma epoll_lookup_range: "epoll_lookup owner epfd table = Ok i \<Longrightarrow> i < MAXIMUM_EPOLL_OBJECTS"
  using epf.handle_index by (auto simp: epoll_lookup_Ok)

lemma epoll_empty_simps [simp]:
  "\<not> epoll_occupied EPOLL_EMPTY" "\<not> watch_occupied WATCH_EMPTY" "wt_target WATCH_EMPTY = KEY_EMPTY"
  "el_watches EPOLL_EMPTY = replicate MAXIMUM_EPOLL_WATCHES WATCH_EMPTY" "wt_registration WATCH_EMPTY = 0"
  by (simp_all add: epoll_occupied_def watch_occupied_def WATCH_EMPTY_def EPOLL_EMPTY_def no_handle_def)

subsection \<open>The references a table holds\<close>

text \<open>The keys of the registered watches, with multiplicity: one reference of the descriptor
  layer stands behind each.\<close>

definition slot_keys :: "watch list \<Rightarrow> object_key multiset" where
  "slot_keys ws = mset (map wt_target (filter watch_occupied ws))"

definition watch_keys :: "epoll_table \<Rightarrow> object_key multiset" where
  "watch_keys table = (\<Sum>slot \<leftarrow> table. slot_keys (el_watches slot))"

lemma slot_keys_simps [simp]:
  "slot_keys [] = {#}" "slot_keys (w # ws) = (if watch_occupied w then add_mset (wt_target w) (slot_keys ws) else slot_keys ws)"
  by (simp_all add: slot_keys_def)

lemma slot_keys_replicate [simp]: "slot_keys (replicate n WATCH_EMPTY) = {#}"
  by (induction n) simp_all

lemma slot_keys_update:
  assumes "i < length ws"
  shows "slot_keys (ws[i := w]) + (if watch_occupied (ws ! i) then {#wt_target (ws ! i)#} else {#})
    = slot_keys ws + (if watch_occupied w then {#wt_target w#} else {#})"
  using assms
proof (induction ws arbitrary: i)
  case (Cons v ws)
  show ?case
  proof (cases i)
    case (Suc k)
    then show ?thesis using Cons.IH [of k] Cons.prems by (auto split: if_splits)
  qed auto
qed simp

lemma slot_keys_cong: "list_all2 (\<lambda>v w. wt_target v = wt_target w) vs ws \<Longrightarrow> slot_keys vs = slot_keys ws"
  by (induction rule: list_all2_induct) (auto simp: watch_occupied_def)

lemma watch_keys_update:
  assumes "i < length table"
  shows "watch_keys (table[i := slot]) + slot_keys (el_watches (table ! i)) = watch_keys table + slot_keys (el_watches slot)"
  using sum_table_update [OF assms, of "\<lambda>slot. slot_keys (el_watches slot)" slot] by (simp add: watch_keys_def)

lemma slot_keys_subset:
  assumes "i < length table"
  shows "slot_keys (el_watches (table ! i)) \<subseteq># watch_keys table"
  using assms unfolding watch_keys_def
proof (induction table arbitrary: i)
  case (Cons v table)
  then show ?case by (cases i) (auto simp: subset_mset.add_increasing)
qed simp

lemma slot_keys_nonempty: "key \<in># slot_keys ws \<Longrightarrow> \<not> key_is_empty key"
  by (induction ws) (auto simp: watch_occupied_def split: if_splits)

lemma watch_keys_nonempty: "key \<in># watch_keys table \<Longrightarrow> \<not> key_is_empty key"
  unfolding watch_keys_def by (induction table) (auto dest: slot_keys_nonempty)

subsection \<open>The invariant\<close>

definition watches_ok :: "watch list \<Rightarrow> bool" where
  "watches_ok ws \<longleftrightarrow> length ws = MAXIMUM_EPOLL_WATCHES \<and>
     (\<forall>w \<in> set ws. \<not> watch_occupied w \<longrightarrow> w = WATCH_EMPTY) \<and>
     (\<forall>i < length ws. \<forall>j < length ws. watch_occupied (ws ! i) \<longrightarrow> wt_target (ws ! i) = wt_target (ws ! j) \<longrightarrow> i = j)"

definition epoll_slot_ok :: "epoll_slot \<Rightarrow> bool" where
  "epoll_slot_ok slot \<longleftrightarrow> watches_ok (el_watches slot) \<and> (\<not> epoll_occupied slot \<longrightarrow> slot = EPOLL_EMPTY)"

definition epoll_inv :: "epoll_table \<Rightarrow> bool" where
  "epoll_inv table \<longleftrightarrow> length table = MAXIMUM_EPOLL_OBJECTS \<and> list_all epoll_slot_ok table"

lemma watches_ok_empty [simp]: "watches_ok (replicate MAXIMUM_EPOLL_WATCHES WATCH_EMPTY)"
  by (simp add: watches_ok_def)

lemma epoll_inv_new: "epoll_inv epoll_table_new"
  by (simp add: epoll_inv_def epoll_table_new_def epoll_slot_ok_def list_all_iff)

lemma epoll_inv_slot: "epoll_inv table \<Longrightarrow> i < MAXIMUM_EPOLL_OBJECTS \<Longrightarrow> epoll_slot_ok (table ! i)"
  by (simp add: epoll_inv_def list_all_length)

lemma epoll_inv_set: "epoll_inv table \<Longrightarrow> epoll_slot_ok slot \<Longrightarrow> epoll_inv (table[i := slot])"
  by (simp add: epoll_inv_def list_all_update)

lemma watches_ok_nth: "watches_ok ws \<Longrightarrow> i < MAXIMUM_EPOLL_WATCHES \<Longrightarrow> \<not> watch_occupied (ws ! i) \<Longrightarrow> ws ! i = WATCH_EMPTY"
  by (simp add: watches_ok_def)

lemma watches_ok_set:
  assumes "watches_ok ws" "watch_occupied w \<or> w = WATCH_EMPTY"
    "\<And>j. j < length ws \<Longrightarrow> j \<noteq> i \<Longrightarrow> watch_occupied w \<Longrightarrow> wt_target (ws ! j) \<noteq> wt_target w"
  shows "watches_ok (ws[i := w])"
  unfolding watches_ok_def
proof (intro conjI allI impI ballI)
  show "length (ws[i := w]) = MAXIMUM_EPOLL_WATCHES" using assms(1) by (simp add: watches_ok_def)
  show "v = WATCH_EMPTY" if "v \<in> set (ws[i := w])" "\<not> watch_occupied v" for v
    using that assms(1,2) set_update_subset_insert [of ws i w] by (auto simp: watches_ok_def)
  show "j = k" if jk: "j < length (ws[i := w])" "k < length (ws[i := w])" "watch_occupied (ws[i := w] ! j)"
    "wt_target (ws[i := w] ! j) = wt_target (ws[i := w] ! k)" for j k
  proof -
    have "watch_occupied (ws[i := w] ! k)" using jk(3,4) by (simp add: watch_occupied_def)
    with jk show ?thesis
      using assms(1) assms(3) [of j] assms(3) [of k]
      by (cases "j = i"; cases "k = i") (auto simp: watches_ok_def)
  qed
qed

lemma watches_ok_frame:
  assumes "watches_ok ws" "length vs = length ws"
    "\<And>i. i < length ws \<Longrightarrow> wt_target (vs ! i) = wt_target (ws ! i)"
    "\<And>i. i < length ws \<Longrightarrow> \<not> watch_occupied (ws ! i) \<Longrightarrow> vs ! i = ws ! i"
  shows "watches_ok vs" "slot_keys vs = slot_keys ws"
proof -
  have o: "watch_occupied (vs ! i) = watch_occupied (ws ! i)" if "i < length ws" for i
    using assms(3) [OF that] by (simp add: watch_occupied_def)
  have "ws ! i = WATCH_EMPTY" if "i < length ws" "\<not> watch_occupied (ws ! i)" for i
    using watches_ok_nth [OF assms(1)] that assms(1) by (simp add: watches_ok_def)
  then show "watches_ok vs" using assms o unfolding watches_ok_def by (auto simp: in_set_conv_nth)
  show "slot_keys vs = slot_keys ws" using assms by (intro slot_keys_cong) (simp add: list_all2_conv_all_nth)
qed

subsection \<open>Creation, control and removal\<close>

lemma epoll_create_cases:
  assumes "epoll_create owner flags t = (r, t')"
  obtains "t' = t" "\<not> is_Ok r"
  | i where "valid_owner owner" "i < length t" "\<not> epoll_occupied (t ! i)" "r = Ok (epoll_fd_for_index i)"
      "t' = t[i := \<lparr>el_owner = owner, el_flags = flags, el_next_registration = 0,
         el_watches = replicate MAXIMUM_EPOLL_WATCHES WATCH_EMPTY\<rparr>]"
proof (cases "is_Ok r")
  case False
  with assms show ?thesis by (intro that(1)) (auto simp: epoll_create_def split: if_splits option.splits)
next
  case True
  with assms obtain i where "position (\<lambda>slot. \<not> epoll_occupied slot) t = Some i"
    by (auto simp: epoll_create_def split: if_splits option.splits)
  with assms True position_length [OF this] position_sat [OF this] show ?thesis
    by (intro that(2) [of i]) (auto simp: epoll_create_def valid_owner_def split: if_splits)
qed

lemma epoll_create_inv:
  assumes "epoll_inv t" "epoll_create owner flags t = (r, t')"
  shows "epoll_inv t'" "watch_keys t' = watch_keys t"
proof -
  have "epoll_inv t' \<and> watch_keys t' = watch_keys t"
    using assms(2)
  proof (cases rule: epoll_create_cases)
    case (2 i)
    from 2 assms(1) have i: "i < MAXIMUM_EPOLL_OBJECTS" by (simp add: epoll_inv_def)
    have "t ! i = EPOLL_EMPTY" using epoll_inv_slot [OF assms(1) i] 2(3) by (simp add: epoll_slot_ok_def)
    moreover have "epoll_slot_ok \<lparr>el_owner = owner, el_flags = flags, el_next_registration = 0,
        el_watches = replicate MAXIMUM_EPOLL_WATCHES WATCH_EMPTY\<rparr>"
      using 2(1) by (simp add: epoll_slot_ok_def epoll_occupied_def valid_owner_def)
    ultimately show ?thesis using 2 assms(1) watch_keys_update [OF 2(2)] epoll_inv_set by fastforce
  qed (use assms(1) in simp)
  then show "epoll_inv t'" "watch_keys t' = watch_keys t" by simp_all
qed

lemma epoll_register_slot:
  assumes "epoll_slot_ok slot" "epoll_occupied slot" "pos < MAXIMUM_EPOLL_WATCHES" "\<not> key_is_empty target"
    "\<And>j. j < MAXIMUM_EPOLL_WATCHES \<Longrightarrow> j \<noteq> pos \<Longrightarrow> wt_target (el_watches slot ! j) \<noteq> target"
    "epoll_register pos target events data slot = (r, slot')"
  shows "epoll_slot_ok slot' \<and> el_owner slot' = el_owner slot \<and> (is_Ok r \<longrightarrow>
      slot_keys (el_watches slot') + (if watch_occupied (el_watches slot ! pos) then {#wt_target (el_watches slot ! pos)#} else {#})
        = add_mset target (slot_keys (el_watches slot))) \<and> (\<not> is_Ok r \<longrightarrow> slot' = slot)"
proof (cases "checked_add (el_next_registration slot) 1")
  case None
  with assms(1,6) show ?thesis by (auto simp: epoll_register_def)
next
  case (Some n)
  let ?w = "\<lparr>wt_target = target, wt_registration = n, wt_events = events, wt_data = data, wt_last_ready = 0,
    wt_last_generation = 0, wt_edge_seen = False\<rparr>"
  from Some assms(6) have s: "slot' = slot\<lparr>el_next_registration := n, el_watches := (el_watches slot)[pos := ?w]\<rparr>" "r = Ok ()"
    by (auto simp: epoll_register_def)
  have ws: "watches_ok (el_watches slot)" "length (el_watches slot) = MAXIMUM_EPOLL_WATCHES"
    using assms(1) by (simp_all add: epoll_slot_ok_def watches_ok_def)
  have o: "watch_occupied ?w" using assms(4) by (simp add: watch_occupied_def)
  have "watches_ok ((el_watches slot)[pos := ?w])"
    using ws assms(5) o by (intro watches_ok_set) auto
  then have "epoll_slot_ok slot'" using s assms(2) by (simp add: epoll_slot_ok_def epoll_occupied_def)
  then show ?thesis using s slot_keys_update [of pos "el_watches slot" ?w] assms(3) ws o by simp
qed

text \<open>What a successful control call does to the keys of its instance.\<close>

lemma epoll_ctl_slot_keys:
  assumes "epoll_slot_ok slot" "epoll_occupied slot" "operation \<noteq> EPOLL_CTL_DEL \<Longrightarrow> \<not> key_is_empty target"
    "epoll_ctl_slot operation target events data slot = (r, slot')"
  shows "epoll_slot_ok slot' \<and> el_owner slot' = el_owner slot \<and> (\<not> is_Ok r \<longrightarrow> slot' = slot) \<and> (is_Ok r \<longrightarrow>
      (operation = EPOLL_CTL_ADD \<and> slot_keys (el_watches slot') = add_mset target (slot_keys (el_watches slot))
     \<or> operation = EPOLL_CTL_MOD \<and> slot_keys (el_watches slot') = slot_keys (el_watches slot)
     \<or> operation = EPOLL_CTL_DEL \<and> \<not> key_is_empty target \<and>
         slot_keys (el_watches slot) = add_mset target (slot_keys (el_watches slot'))
     \<or> operation = EPOLL_CTL_DEL \<and> key_is_empty target \<and> slot' = slot))"
proof -
  let ?ws = "el_watches slot"
  have ws: "watches_ok ?ws" "length ?ws = MAXIMUM_EPOLL_WATCHES"
    using assms(1) by (simp_all add: epoll_slot_ok_def watches_ok_def)
  have uniq: "j = i" if "i < MAXIMUM_EPOLL_WATCHES" "j < MAXIMUM_EPOLL_WATCHES" "wt_target (?ws ! i) = target"
    "wt_target (?ws ! j) = target" "\<not> key_is_empty target" for i j
    using ws that by (simp add: watches_ok_def watch_occupied_def)
  have ops: "EPOLL_CTL_ADD \<noteq> EPOLL_CTL_MOD" "EPOLL_CTL_ADD \<noteq> EPOLL_CTL_DEL" "EPOLL_CTL_MOD \<noteq> EPOLL_CTL_DEL"
    by (simp_all add: EPOLL_CTL_ADD_def EPOLL_CTL_MOD_def EPOLL_CTL_DEL_def)
  consider (add) pos where "operation = EPOLL_CTL_ADD" "position (\<lambda>w. wt_target w = target) ?ws = None"
      "position (\<lambda>w. \<not> watch_occupied w) ?ws = Some pos" "epoll_register pos target events data slot = (r, slot')"
    | (modify) pos where "operation = EPOLL_CTL_MOD" "position (\<lambda>w. wt_target w = target) ?ws = Some pos"
      "epoll_register pos target events data slot = (r, slot')"
    | (delete) pos where "operation = EPOLL_CTL_DEL" "position (\<lambda>w. wt_target w = target) ?ws = Some pos"
      "r = Ok ()" "slot' = slot\<lparr>el_watches := ?ws[pos := WATCH_EMPTY]\<rparr>"
    | (refused) "\<not> is_Ok r" "slot' = slot"
    using assms(4) ops unfolding epoll_ctl_slot_def Let_def by (simp split: if_splits option.splits) (blast | force)+
  then show ?thesis
  proof cases
    case add
    then have "epoll_slot_ok slot' \<and> el_owner slot' = el_owner slot \<and> (is_Ok r \<longrightarrow>
        slot_keys (el_watches slot') + {#} = add_mset target (slot_keys ?ws)) \<and> (\<not> is_Ok r \<longrightarrow> slot' = slot)"
      using epoll_register_slot [OF assms(1,2) _ assms(3) _ add(4)] ws ops position_None_nth [OF add(2)]
      by (auto simp: position_Some_iff)
    with add ops show ?thesis by simp
  next
    case modify
    then have p: "pos < MAXIMUM_EPOLL_WATCHES" "wt_target (?ws ! pos) = target" "\<not> key_is_empty target"
      using ws assms(3) ops by (auto simp: position_Some_iff)
    then have "watch_occupied (?ws ! pos)" by (simp add: watch_occupied_def)
    with epoll_register_slot [OF assms(1,2) p(1,3) _ modify(3)] uniq [OF p(1) _ p(2) _ p(3)] p(2)
    have "epoll_slot_ok slot' \<and> el_owner slot' = el_owner slot \<and> (is_Ok r \<longrightarrow>
        add_mset target (slot_keys (el_watches slot')) = add_mset target (slot_keys ?ws)) \<and> (\<not> is_Ok r \<longrightarrow> slot' = slot)"
      by auto
    with modify ops show ?thesis by simp
  next
    case delete
    then have p: "pos < MAXIMUM_EPOLL_WATCHES" "wt_target (?ws ! pos) = target"
      using ws by (auto simp: position_Some_iff)
    have "watches_ok (?ws[pos := WATCH_EMPTY])" using ws by (intro watches_ok_set) auto
    then have ok: "epoll_slot_ok slot'" using delete assms(2) by (simp add: epoll_slot_ok_def epoll_occupied_def)
    show ?thesis
    proof (cases "key_is_empty target")
      case True
      with p have "?ws ! pos = WATCH_EMPTY" using watches_ok_nth [OF ws(1)] by (simp add: watch_occupied_def)
      then have "?ws[pos := WATCH_EMPTY] = ?ws" by (metis list_update_id)
      with delete True ok ops show ?thesis by simp
    next
      case False
      with delete ok ops p ws slot_keys_update [of pos ?ws WATCH_EMPTY] show ?thesis
        by (simp add: watch_occupied_def)
    qed
  qed (use assms(1) in simp)
qed

lemma epoll_ctl_cases:
  assumes "epoll_ctl q owner epfd operation target events data t s = (r, t', s')"
  obtains "t' = t" "\<not> is_Ok r" "s' = s \<or> s' = snd (q target s)"
  | i slot where "epoll_lookup owner epfd t = Ok i" "epoll_ctl_slot operation target events data (t ! i) = (r, slot)"
      "t' = t[i := slot]" "operation \<noteq> EPOLL_CTL_DEL \<Longrightarrow> fst (q target s) \<noteq> None"
      "s' = (if operation = EPOLL_CTL_DEL then s else snd (q target s))"
proof (cases "epoll_lookup owner epfd t")
  case (Err e)
  with assms show ?thesis
    by (intro that(1)) (auto simp: epoll_ctl_def Let_def case_prod_beta split: if_splits)
next
  case (Ok i)
  obtain r0 slot where c: "epoll_ctl_slot operation target events data (t ! i) = (r0, slot)" by fastforce
  show ?thesis
  proof (cases "events AND NOT EPOLL_INTEREST_MASK \<noteq> 0 \<or> operation \<noteq> EPOLL_CTL_DEL \<and> fst (q target s) = None")
    case True
    with assms show ?thesis
      by (intro that(1)) (auto simp: epoll_ctl_def Let_def case_prod_beta split: if_splits)
  next
    case False
    with assms Ok c show ?thesis
      by (intro that(2) [of i slot]) (auto simp: epoll_ctl_def Let_def case_prod_beta split: if_splits)
  qed
qed

text \<open>A control call keeps the invariant, and a successful one changes the keys of the table by
  its target.\<close>

lemma epoll_ctl_keys:
  assumes "epoll_inv t" "\<And>key s. key_is_empty key \<Longrightarrow> fst (q key s) = None"
    "epoll_ctl q owner epfd operation target events data t s = (r, t', s')"
  shows "epoll_inv t' \<and> (\<not> is_Ok r \<longrightarrow> watch_keys t' = watch_keys t) \<and> (is_Ok r \<longrightarrow>
      (operation = EPOLL_CTL_ADD \<and> watch_keys t' = add_mset target (watch_keys t)
     \<or> operation = EPOLL_CTL_MOD \<and> watch_keys t' = watch_keys t
     \<or> operation = EPOLL_CTL_DEL \<and> \<not> key_is_empty target \<and> watch_keys t = add_mset target (watch_keys t')
     \<or> operation = EPOLL_CTL_DEL \<and> key_is_empty target \<and> watch_keys t' = watch_keys t))"
  using assms(3)
proof (cases rule: epoll_ctl_cases)
  case (2 i slot)
  have i: "i < MAXIMUM_EPOLL_OBJECTS" "i < length t"
    using epoll_lookup_range [OF 2(1)] assms(1) by (simp_all add: epoll_inv_def)
  have o: "epoll_occupied (t ! i)" using 2(1) by (simp add: epoll_lookup_Ok)
  have ne: "operation \<noteq> EPOLL_CTL_DEL \<Longrightarrow> \<not> key_is_empty target" using 2(4) assms(2) [of target s] by auto
  note k = epoll_ctl_slot_keys [OF epoll_inv_slot [OF assms(1) i(1)] o ne 2(2)]
  have u: "watch_keys t' + slot_keys (el_watches (t ! i)) = watch_keys t + slot_keys (el_watches slot)"
    unfolding 2(3) by (rule watch_keys_update [OF i(2)])
  have "epoll_inv t'" unfolding 2(3) using k assms(1) by (intro epoll_inv_set) simp_all
  moreover have "watch_keys t' = watch_keys t" if "slot_keys (el_watches slot) = slot_keys (el_watches (t ! i))"
    using u that by simp
  moreover have "watch_keys t' = add_mset target (watch_keys t)"
    if "slot_keys (el_watches slot) = add_mset target (slot_keys (el_watches (t ! i)))"
    using u that by simp
  moreover have "watch_keys t = add_mset target (watch_keys t')"
    if "slot_keys (el_watches (t ! i)) = add_mset target (slot_keys (el_watches slot))"
    using u that by simp
  ultimately show ?thesis using k by auto
qed (use assms(1) in simp)

lemma epoll_close_keys:
  assumes "epoll_inv t" "epoll_close owner epfd n t = (r, t')"
  shows "epoll_inv t' \<and> (\<not> is_Ok r \<longrightarrow> t' = t) \<and> (\<forall>ks. r = Ok ks \<longrightarrow> watch_keys t = mset ks + watch_keys t')"
proof (cases "epoll_lookup owner epfd t")
  case (Err e)
  with assms show ?thesis by (auto simp: epoll_close_def)
next
  case (Ok i)
  have i: "i < length t" using epoll_lookup_range [OF Ok] assms(1) by (simp add: epoll_inv_def)
  have "epoll_inv (t[i := EPOLL_EMPTY])" using assms(1) by (intro epoll_inv_set) (simp_all add: epoll_slot_ok_def)
  moreover have "watch_keys (t[i := EPOLL_EMPTY]) + slot_keys (el_watches (t ! i)) = watch_keys t"
    using watch_keys_update [OF i, of EPOLL_EMPTY] by simp
  ultimately show ?thesis using assms Ok
    by (auto simp: epoll_close_def Let_def slot_keys_def add.commute split: if_splits)
qed

lemma epoll_close_count:
  assumes "epoll_inv t" "epoll_lookup owner epfd t = Ok i"
  shows "\<exists>ks. epoll_close owner epfd MAXIMUM_EPOLL_WATCHES t = (Ok ks, t[i := EPOLL_EMPTY])"
proof -
  have "length (el_watches (t ! i)) = MAXIMUM_EPOLL_WATCHES"
    using epoll_inv_slot [OF assms(1) epoll_lookup_range [OF assms(2)]] by (simp add: epoll_slot_ok_def watches_ok_def)
  then have "length (filter watch_occupied (el_watches (t ! i))) \<le> MAXIMUM_EPOLL_WATCHES"
    by (metis length_filter_le)
  then show ?thesis using assms(2) by (simp add: epoll_close_def)
qed

lemma slot_keys_count:
  "\<not> key_is_empty key \<Longrightarrow> length (filter (\<lambda>w. wt_target w = key) ws) = count (slot_keys ws) key"
  by (induction ws) (auto simp: watch_occupied_def)

lemma slot_keys_removed:
  "\<not> key_is_empty key \<Longrightarrow>
    slot_keys (map (\<lambda>w. if wt_target w = key then WATCH_EMPTY else w) ws) = filter_mset (\<lambda>k. k \<noteq> key) (slot_keys ws)"
  by (induction ws) auto

lemma watches_ok_removed:
  assumes "watches_ok ws" "\<not> key_is_empty key"
  shows "watches_ok (map (\<lambda>w. if wt_target w = key then WATCH_EMPTY else w) ws)"
  unfolding watches_ok_def
proof (intro conjI ballI allI impI)
  let ?vs = "map (\<lambda>w. if wt_target w = key then WATCH_EMPTY else w) ws"
  show "length ?vs = MAXIMUM_EPOLL_WATCHES" using assms(1) by (simp add: watches_ok_def)
  show "w = WATCH_EMPTY" if "w \<in> set ?vs" "\<not> watch_occupied w" for w
    using that assms(1) by (auto simp: watches_ok_def)
  show "i = j" if ij: "i < length ?vs" "j < length ?vs" "watch_occupied (?vs ! i)" "wt_target (?vs ! i) = wt_target (?vs ! j)" for i j
  proof -
    have "?vs ! i = ws ! i" using ij by auto
    moreover have "watch_occupied (?vs ! j)" using ij(3,4) by (simp add: watch_occupied_def)
    then have "?vs ! j = ws ! j" using ij(2) by auto
    ultimately show ?thesis using ij assms(1) by (simp add: watches_ok_def)
  qed
qed

text \<open>Removing a target takes exactly its watches, in every instance.\<close>

lemma epoll_remove_target_keys:
  assumes "epoll_inv t" "\<not> key_is_empty key" "epoll_remove_target key t = (n, t')"
  shows "n = count (watch_keys t) key" "epoll_inv t'" "watch_keys t' = filter_mset (\<lambda>k. k \<noteq> key) (watch_keys t)"
proof -
  have e: "slot_keys (el_watches slot) = {#}" if "slot \<in> set t" "\<not> epoll_occupied slot" for slot
    using assms(1) that by (auto simp: epoll_inv_def list_all_iff epoll_slot_ok_def)
  have "(\<Sum>slot \<leftarrow> u. if epoll_occupied slot then length (filter (\<lambda>w. wt_target w = key) (el_watches slot)) else 0)
      = count (watch_keys u) key"
    if "set u \<subseteq> set t" for u
    using that unfolding watch_keys_def
    by (induction u) (auto simp: slot_keys_count [OF assms(2)] e)
  then show "n = count (watch_keys t) key" using assms(3) by (auto simp: epoll_remove_target_def)
  have "watch_keys (map (\<lambda>slot. if epoll_occupied slot
      then slot\<lparr>el_watches := map (\<lambda>w. if wt_target w = key then WATCH_EMPTY else w) (el_watches slot)\<rparr> else slot) u)
      = filter_mset (\<lambda>k. k \<noteq> key) (watch_keys u)" if "set u \<subseteq> set t" for u
    using that unfolding watch_keys_def
    by (induction u) (auto simp: slot_keys_removed [OF assms(2)] e)
  then show "watch_keys t' = filter_mset (\<lambda>k. k \<noteq> key) (watch_keys t)"
    using assms(3) by (auto simp: epoll_remove_target_def)
  show "epoll_inv t'" using assms watches_ok_removed [OF _ assms(2)]
    by (auto simp: epoll_remove_target_def epoll_inv_def list_all_iff epoll_slot_ok_def epoll_occupied_def)
qed

subsection \<open>Waiting\<close>

text \<open>What a scan leaves alone: the registration of every watch, and free entries entirely.\<close>

definition same_watch :: "watch \<Rightarrow> watch \<Rightarrow> bool" where
  "same_watch v w \<longleftrightarrow> wt_target v = wt_target w \<and> wt_registration v = wt_registration w \<and> wt_events v = wt_events w \<and>
     wt_data v = wt_data w \<and> (\<not> watch_occupied w \<longrightarrow> v = w)"

abbreviation same_watches :: "watch list \<Rightarrow> watch list \<Rightarrow> bool" where
  "same_watches \<equiv> list_all2 same_watch"

lemma epoll_probe_same: "watch_occupied w \<Longrightarrow> epoll_probe target room w = (w', e) \<Longrightarrow> same_watch w' w"
  by (auto simp: epoll_probe_def same_watch_def Let_def split: if_splits option.splits prod.splits)

lemma epoll_scan_same:
  "epoll_scan q room ws s = (ws', es, s') \<Longrightarrow> same_watches ws' ws \<and> length es \<le> room"
proof (induction ws arbitrary: room s ws' es s')
  case (Cons w ws)
  show ?case
  proof (cases "watch_occupied w")
    case False
    then show ?thesis using Cons by (auto simp: same_watch_def split: prod.splits)
  next
    case True
    obtain target s1 where q: "q (wt_target w) s = (target, s1)" by fastforce
    obtain w' e where p: "epoll_probe target room w = (w', e)" by fastforce
    have "e \<noteq> None \<Longrightarrow> 0 < room" using p by (auto simp: epoll_probe_def Let_def split: if_splits prod.splits option.splits)
    then show ?thesis
      using Cons.prems True q p epoll_probe_same [OF True p] Cons.IH [of room s1] Cons.IH [of "room - 1" s1]
      by (cases e) (fastforce split: prod.splits)+
  qed
qed simp

lemma watches_ok_unique:
  "watches_ok ws \<Longrightarrow> i < MAXIMUM_EPOLL_WATCHES \<Longrightarrow> j < MAXIMUM_EPOLL_WATCHES \<Longrightarrow> watch_occupied (ws ! i) \<Longrightarrow>
    wt_target (ws ! i) = wt_target (ws ! j) \<Longrightarrow> i = j"
  by (simp add: watches_ok_def)

lemma same_watches_ok:
  assumes "watches_ok ws" "same_watches vs ws"
  shows "watches_ok vs" "slot_keys vs = slot_keys ws"
  using watches_ok_frame [OF assms(1) list_all2_lengthD [OF assms(2)]] assms(2)
  by (auto simp: list_all2_conv_all_nth same_watch_def)

lemma epoll_store_step:
  assumes "watches_ok ws" "k < MAXIMUM_EPOLL_WATCHES" "same_watch w (ws ! k)"
  shows "(case position (\<lambda>c. wt_target c = wt_target w \<and> wt_registration c = wt_registration w) ws of None \<Rightarrow> ws
      | Some i \<Rightarrow> ws[i := (ws ! i)\<lparr>wt_last_ready := wt_last_ready w, wt_last_generation := wt_last_generation w,
          wt_edge_seen := wt_edge_seen w\<rparr>]) = ws[k := w]"
proof (cases "watch_occupied (ws ! k)")
  case True
  have len: "length ws = MAXIMUM_EPOLL_WATCHES" using assms(1) by (simp add: watches_ok_def)
  have "position (\<lambda>c. wt_target c = wt_target w \<and> wt_registration c = wt_registration w) ws = Some k"
  proof (rule position_unique)
    show "wt_target (ws ! k) = wt_target w \<and> wt_registration (ws ! k) = wt_registration w"
      using assms(3) by (simp add: same_watch_def)
    show "j = k" if "j < length ws" "wt_target (ws ! j) = wt_target w \<and> wt_registration (ws ! j) = wt_registration w" for j
      using watches_ok_unique [OF assms(1,2) _ True, of j] that len assms(3) by (simp add: same_watch_def)
  qed (use assms(2) len in simp)
  moreover have "(ws ! k)\<lparr>wt_last_ready := wt_last_ready w, wt_last_generation := wt_last_generation w,
      wt_edge_seen := wt_edge_seen w\<rparr> = w"
    using assms(3) by (simp add: same_watch_def)
  ultimately show ?thesis by simp
next
  case False
  then have e: "w = WATCH_EMPTY" "ws ! k = WATCH_EMPTY"
    using watches_ok_nth [OF assms(1,2)] assms(3) by (simp_all add: same_watch_def)
  have "ws ! i = WATCH_EMPTY" if "i < length ws" "wt_target (ws ! i) = KEY_EMPTY" for i
    using watches_ok_nth [OF assms(1)] that assms(1) by (simp add: watches_ok_def watch_occupied_def)
  then have "ws ! i = w" if "position (\<lambda>c. wt_target c = wt_target w \<and> wt_registration c = wt_registration w) ws = Some i" for i
    using that e by (auto simp: position_Some_iff)
  then have "ws[i := (ws ! i)\<lparr>wt_last_ready := wt_last_ready w, wt_last_generation := wt_last_generation w,
      wt_edge_seen := wt_edge_seen w\<rparr>] = ws"
    if "position (\<lambda>c. wt_target c = wt_target w \<and> wt_registration c = wt_registration w) ws = Some i" for i
    using list_update_id [of ws i] that by simp
  moreover have "ws[k := w] = ws" using e by (metis list_update_id)
  ultimately show ?thesis by (auto split: option.split)
qed

lemma epoll_store_same:
  assumes "watches_ok ws" "same_watches ws' ws" "k \<le> length ws"
  shows "epoll_store (drop k ws') (take k ws' @ drop k ws) = ws'"
  using assms(3)
proof (induction "length ws - k" arbitrary: k)
  case 0
  then show ?case using assms(2) by (simp add: list_all2_lengthD)
next
  case (Suc n)
  have len: "length ws' = length ws" using assms(2) by (rule list_all2_lengthD)
  have k: "k < length ws" using Suc.hyps(2) by simp
  let ?cur = "take k ws' @ drop k ws" and ?w = "ws' ! k"
  have sw: "same_watch (ws' ! i) (ws ! i)" if "i < length ws" for i
    using assms(2) len that by (simp add: list_all2_conv_all_nth)
  have "same_watches ?cur ws"
    using sw len k by (auto simp: list_all2_conv_all_nth nth_append same_watch_def)
  then have cur: "watches_ok ?cur" by (rule same_watches_ok(1) [OF assms(1)])
  have next_cur: "?cur[k := ?w] = take (Suc k) ws' @ drop (Suc k) ws"
    using k len by (simp add: list_update_append upd_conv_take_nth_drop take_Suc_conv_app_nth Cons_nth_drop_Suc [symmetric])
  have "?cur ! k = ws ! k" using k len by (simp add: nth_append)
  then have "same_watch ?w (?cur ! k)" using sw [OF k] by simp
  moreover have "k < MAXIMUM_EPOLL_WATCHES" using k assms(1) by (simp add: watches_ok_def)
  moreover have "drop k ws' = ?w # drop (Suc k) ws'" using k len by (simp add: Cons_nth_drop_Suc)
  ultimately have "epoll_store (drop k ws') ?cur = epoll_store (drop (Suc k) ws') (?cur[k := ?w])"
    using epoll_store_step [OF cur] by simp
  also have "\<dots> = ws'" unfolding next_cur using Suc.hyps(2) k by (intro Suc.hyps(1)) simp_all
  finally show ?case .
qed

text \<open>A wait stores exactly what its scan computed.\<close>

lemma epoll_wait_Ok:
  assumes "epoll_inv t" "epoll_lookup owner epfd t = Ok i" "0 < n"
    "epoll_scan q n (el_watches (t ! i)) s = (ws, es, s')"
  shows "epoll_wait q owner epfd n t s = (Ok es, t[i := (t ! i)\<lparr>el_watches := ws\<rparr>], s')"
    "epoll_inv (t[i := (t ! i)\<lparr>el_watches := ws\<rparr>])" "watch_keys (t[i := (t ! i)\<lparr>el_watches := ws\<rparr>]) = watch_keys t"
proof -
  have i: "i < MAXIMUM_EPOLL_OBJECTS" "i < length t"
    using epoll_lookup_range [OF assms(2)] assms(1) by (simp_all add: epoll_inv_def)
  have ok: "watches_ok (el_watches (t ! i))" using epoll_inv_slot [OF assms(1) i(1)] by (simp add: epoll_slot_ok_def)
  have same: "same_watches ws (el_watches (t ! i))" using epoll_scan_same [OF assms(4)] by simp
  have o: "epoll_occupied (t ! i)" "el_owner (t ! i) = owner" using assms(2) by (simp_all add: epoll_lookup_Ok)
  show "epoll_wait q owner epfd n t s = (Ok es, t[i := (t ! i)\<lparr>el_watches := ws\<rparr>], s')"
    using epoll_store_same [OF ok same, of 0] assms(2-4) o by (simp add: epoll_wait_def)
  have "epoll_slot_ok ((t ! i)\<lparr>el_watches := ws\<rparr>)"
    using same_watches_ok(1) [OF ok same] o by (simp add: epoll_slot_ok_def epoll_occupied_def)
  then show "epoll_inv (t[i := (t ! i)\<lparr>el_watches := ws\<rparr>])" using assms(1) by (intro epoll_inv_set)
  show "watch_keys (t[i := (t ! i)\<lparr>el_watches := ws\<rparr>]) = watch_keys t"
    using watch_keys_update [OF i(2), of "(t ! i)\<lparr>el_watches := ws\<rparr>"] same_watches_ok(2) [OF ok same] by simp
qed

lemma epoll_wait_inv:
  assumes "epoll_inv t" "epoll_wait q owner epfd n t s = (r, t', s')"
  shows "epoll_inv t'" "watch_keys t' = watch_keys t"
proof -
  have "epoll_inv t' \<and> watch_keys t' = watch_keys t"
  proof (cases "n = 0")
    case True
    with assms show ?thesis by (simp add: epoll_wait_def)
  next
    case False
    show ?thesis
    proof (cases "epoll_lookup owner epfd t")
      case (Err e)
      with assms False show ?thesis by (auto simp: epoll_wait_def)
    next
      case (Ok i)
      obtain ws es s1 where "epoll_scan q n (el_watches (t ! i)) s = (ws, es, s1)" by (metis prod_cases3)
      with epoll_wait_Ok [OF assms(1) Ok _ this] False assms(2) show ?thesis by simp
    qed
  qed
  then show "epoll_inv t'" "watch_keys t' = watch_keys t" by simp_all
qed

subsection \<open>What a wait reports\<close>

text \<open>The specification, for targets whose readiness is \<open>f\<close>: when a watch is due and what event
  it reports.\<close>

definition watch_due :: "(object_key \<Rightarrow> (u32 \<times> u64) option) \<Rightarrow> watch \<Rightarrow> bool" where
  "watch_due f w \<longleftrightarrow> watch_occupied w \<and> (case f (wt_target w) of None \<Rightarrow> True
     | Some (ready, generation) \<Rightarrow> ready AND interest w \<noteq> 0 \<and>
         (is_edge w \<longrightarrow> \<not> wt_edge_seen w \<or> wt_last_generation w \<noteq> generation))"

definition watch_event :: "(object_key \<Rightarrow> (u32 \<times> u64) option) \<Rightarrow> watch \<Rightarrow> ready_event" where
  "watch_event f w = \<lparr>re_events = (case f (wt_target w) of
       None \<Rightarrow> (EPOLLERR OR EPOLLHUP) AND interest w OR (EPOLLERR OR EPOLLHUP)
     | Some (ready, _) \<Rightarrow> ready AND interest w), re_data = wt_data w\<rparr>"

abbreviation static :: "(object_key \<Rightarrow> (u32 \<times> u64) option) \<Rightarrow> 's readiness_query" where
  "static f \<equiv> \<lambda>key s. (f key, s)"

lemma watch_due_free: "\<not> watch_occupied w \<Longrightarrow> \<not> watch_due f w"
  by (simp add: watch_due_def)

lemma epoll_probe_event:
  "watch_occupied w \<Longrightarrow>
    snd (epoll_probe (f (wt_target w)) room w) = (if watch_due f w \<and> 0 < room then Some (watch_event f w) else None)"
  by (auto simp: epoll_probe_def Let_def watch_due_def watch_event_def split: option.splits)

lemma epoll_probe_after:
  assumes "watch_occupied w" "f (wt_target w) \<noteq> None"
  shows "watch_due f (fst (epoll_probe (f (wt_target w)) room w)) \<longleftrightarrow> watch_due f w \<and> \<not> (is_edge w \<and> 0 < room)"
    "is_edge (fst (epoll_probe (f (wt_target w)) room w)) = is_edge w"
    "watch_event f (fst (epoll_probe (f (wt_target w)) room w)) = watch_event f w"
proof -
  let ?w = "fst (epoll_probe (f (wt_target w)) room w)"
  have same: "wt_target ?w = wt_target w" "wt_events ?w = wt_events w" "wt_data ?w = wt_data w"
    using epoll_probe_same [OF assms(1), of "f (wt_target w)" room ?w] by (simp_all add: same_watch_def prod_eq_iff)
  from assms(2) obtain ready g where f: "f (wt_target w) = Some (ready, g)" by auto
  from same f show "is_edge ?w = is_edge w" "watch_event f ?w = watch_event f w"
    by (simp_all add: is_edge_def watch_event_def interest_def)
  have i: "interest ?w = interest w" "watch_occupied ?w" "is_edge ?w = is_edge w"
    using same assms(1) by (simp_all add: interest_def watch_occupied_def is_edge_def)
  have "wt_edge_seen ?w = (if is_edge w \<and> watch_due f w \<and> 0 < room then True
      else if is_edge w \<and> ready AND interest w = 0 then False else wt_edge_seen w)"
    "wt_last_generation ?w = (if is_edge w \<and> (watch_due f w \<and> 0 < room \<or> ready AND interest w = 0) then g else wt_last_generation w)"
    using f assms(1) by (auto simp: epoll_probe_def Let_def watch_due_def)
  then show "watch_due f ?w \<longleftrightarrow> watch_due f w \<and> \<not> (is_edge w \<and> 0 < room)"
    using f i same(1) assms(1) by (auto simp: watch_due_def split: if_splits)
qed

lemma epoll_scan_events:
  "epoll_scan (static f) room ws s = (ws', es, s') \<Longrightarrow>
    s' = s \<and> es = take room (map (watch_event f) (filter (watch_due f) ws))"
proof (induction ws arbitrary: room ws' es s')
  case (Cons w ws)
  show ?case
  proof (cases "watch_occupied w")
    case False
    then show ?thesis using Cons by (auto simp: watch_due_free split: prod.splits)
  next
    case True
    obtain w' e where p: "epoll_probe (f (wt_target w)) room w = (w', e)" by fastforce
    with epoll_probe_event [OF True, of f room] have e: "e = (if watch_due f w \<and> 0 < room then Some (watch_event f w) else None)"
      by simp
    obtain ws1 es1 s1 where r: "epoll_scan (static f) (if e = None then room else room - 1) ws s = (ws1, es1, s1)"
      by (metis prod_cases3)
    from Cons.IH [OF r] Cons.prems True p r e show ?thesis
      by (cases room) (auto split: if_splits)
  qed
qed simp

text \<open>After a scan the level-triggered watches it reported are due again, the edge-triggered ones
  are not, and those it had no room for still are.\<close>

lemma epoll_scan_due:
  assumes "\<forall>w \<in> set ws. watch_occupied w \<longrightarrow> f (wt_target w) \<noteq> None" "epoll_scan (static f) room ws s = (ws', es, s')"
  shows "map (watch_event f) (filter (watch_due f) ws')
    = map (watch_event f) (filter (\<lambda>w. \<not> is_edge w) (take room (filter (watch_due f) ws)) @ drop room (filter (watch_due f) ws))"
  using assms
proof (induction ws arbitrary: room ws' es s')
  case (Cons w ws)
  show ?case
  proof (cases "watch_occupied w")
    case False
    then show ?thesis using Cons by (auto simp: watch_due_free split: prod.splits)
  next
    case True
    obtain w' e where p: "epoll_probe (f (wt_target w)) room w = (w', e)" by fastforce
    with epoll_probe_event [OF True, of f room] have e: "e = (if watch_due f w \<and> 0 < room then Some (watch_event f w) else None)"
      by simp
    obtain ws1 es1 s1 where r: "epoll_scan (static f) (if e = None then room else room - 1) ws s = (ws1, es1, s1)"
      by (metis prod_cases3)
    have ws': "ws' = w' # ws1" using Cons.prems(2) True p r by (cases e) auto
    have "f (wt_target w) \<noteq> None" using Cons.prems(1) True by simp
    note after = epoll_probe_after [of w f, OF True this, of room, unfolded p, simplified]
    from Cons.IH [OF _ r] Cons.prems(1)
    have ih: "map (watch_event f) (filter (watch_due f) ws1) = map (watch_event f)
        (filter (\<lambda>w. \<not> is_edge w) (take (if e = None then room else room - 1) (filter (watch_due f) ws))
          @ drop (if e = None then room else room - 1) (filter (watch_due f) ws))" by simp
    show ?thesis
    proof (cases "watch_due f w \<and> 0 < room")
      case True
      then obtain k where "room = Suc k" by (cases room) auto
      with True ih e after ws' show ?thesis by simp
    next
      case False
      then show ?thesis using ih e after ws' by (cases "watch_due f w") simp_all
    qed
  qed
qed simp

lemma epoll_any_ready_due:
  assumes "\<forall>w \<in> set ws. watch_occupied w \<longrightarrow> f (wt_target w) \<noteq> None"
  shows "epoll_any_ready (static f) ws s = (\<exists>w \<in> set ws. watch_due f w, s)"
  using assms by (induction ws) (auto simp: watch_due_def split: option.splits)

subsection \<open>Runs\<close>

text \<open>The calls as steps of the table, against any descriptor layer that knows no empty key.\<close>

inductive epoll_step :: "epoll_table \<Rightarrow> epoll_table \<Rightarrow> bool" where
  "epoll_create owner flags t = (r, t') \<Longrightarrow> epoll_step t t'"
| "epoll_ctl (static f) owner epfd operation target events data t () = (r, t', ()) \<Longrightarrow>
    (\<And>key. key_is_empty key \<Longrightarrow> f key = None) \<Longrightarrow> epoll_step t t'"
| "epoll_wait (static f) owner epfd n t () = (r, t', ()) \<Longrightarrow> epoll_step t t'"
| "epoll_close owner epfd n t = (r, t') \<Longrightarrow> epoll_step t t'"
| "epoll_remove_target key t = (n, t') \<Longrightarrow> \<not> key_is_empty key \<Longrightarrow> epoll_step t t'"

lemma epoll_inv_step:
  assumes "epoll_inv t" "epoll_step t t'"
  shows "epoll_inv t'"
  using assms(2)
proof cases
  case (1 owner flags r)
  then show ?thesis using epoll_create_inv(1) [OF assms(1)] by blast
next
  case (2 f owner epfd operation target events data r)
  then show ?thesis using epoll_ctl_keys [OF assms(1), of "static f"] by fastforce
next
  case (3 f owner epfd n r)
  then show ?thesis by (rule epoll_wait_inv(1) [OF assms(1)])
next
  case (4 owner epfd n r)
  then show ?thesis using epoll_close_keys [OF assms(1)] by blast
next
  case (5 key n)
  then show ?thesis using epoll_remove_target_keys(2) [OF assms(1)] by blast
qed

interpretation epm: invariant_machine "\<lambda>t. t = epoll_table_new" epoll_step epoll_inv
  by unfold_locales (simp_all add: epoll_inv_new epoll_inv_step)

section \<open>Properties\<close>

text \<open>
  C11. Epoll reports readiness exactly. Take an epoll instance of a reachable table whose targets
  are all open, and let the due watches be those with a ready event of interest that are
  level-triggered, or edge-triggered and not yet reported under the target's current
  transition generation. A wait returns the events of the first due watches in table order, as many as
  fit. If nothing changes in between, a second wait returns the level-triggered ones among those
  again, then the due ones the first had no room for: an edge is reported once and never lost.
  The instance polls readable exactly when some watch is due, and waiting changes no registration.
\<close>

theorem epoll_reports_due_watches:
  assumes "epoll_step\<^sup>*\<^sup>* epoll_table_new t" "epoll_lookup owner epfd t = Ok i" "0 < n" "0 < m"
    "\<forall>w \<in> set (el_watches (t ! i)). watch_occupied w \<longrightarrow> f (wt_target w) \<noteq> None"
    "due = filter (watch_due f) (el_watches (t ! i))"
  shows "\<exists>t1 t2. epoll_wait (static f) owner epfd n t s = (Ok (take n (map (watch_event f) due)), t1, s) \<and>
    epoll_wait (static f) owner epfd m t1 s
      = (Ok (take m (map (watch_event f) (filter (\<lambda>w. \<not> is_edge w) (take n due) @ drop n due))), t2, s) \<and>
    epoll_readiness (static f) owner epfd t s = (Ok (if due = [] then 0 else EPOLLIN), s) \<and>
    watch_keys t1 = watch_keys t \<and> watch_keys t2 = watch_keys t"
proof -
  have inv: "epoll_inv t" using epm.inv_reachable [OF refl assms(1)] .
  obtain ws es s1 where scan: "epoll_scan (static f) n (el_watches (t ! i)) s = (ws, es, s1)" by (metis prod_cases3)
  note ev = epoll_scan_events [OF scan]
  let ?t1 = "t[i := (t ! i)\<lparr>el_watches := ws\<rparr>]"
  note w1 = epoll_wait_Ok [OF inv assms(2,3) scan]
  have i: "i < length t" using epoll_lookup_range [OF assms(2)] inv by (simp add: epoll_inv_def)
  have l1: "epoll_lookup owner epfd ?t1 = Ok i" using assms(2) i by (auto simp: epoll_lookup_Ok epoll_occupied_def)
  obtain ws2 es2 s2 where scan2: "epoll_scan (static f) m (el_watches (?t1 ! i)) s = (ws2, es2, s2)" by (metis prod_cases3)
  note w2 = epoll_wait_Ok [OF w1(2) l1 assms(4) scan2] and ev2 = epoll_scan_events [OF scan2]
  have "map (watch_event f) (filter (watch_due f) ws)
      = map (watch_event f) (filter (\<lambda>w. \<not> is_edge w) (take n due) @ drop n due)"
    using epoll_scan_due [OF assms(5) scan] assms(6) by simp
  moreover have "epoll_readiness (static f) owner epfd t s = (Ok (if due = [] then 0 else EPOLLIN), s)"
    using assms(2,6) epoll_any_ready_due [OF assms(5), of s] by (auto simp: epoll_readiness_def filter_empty_conv)
  ultimately show ?thesis using w1 w2 ev ev2 i assms(6) by (intro exI [of _ ?t1] exI) auto
qed

text \<open>An instance with a level-triggered and an edge-triggered watch, both ready for input.\<close>

definition demo_epoll_owner :: process_handle where "demo_epoll_owner = \<lparr>ph_pid = 1, ph_generation = 1\<rparr>"

definition demo_watch :: "nat \<Rightarrow> u64 \<Rightarrow> u32 \<Rightarrow> watch" where
  "demo_watch k registration events = \<lparr>wt_target = key_new k 1, wt_registration = registration, wt_events = events,
     wt_data = of_nat k, wt_last_ready = 0, wt_last_generation = 0, wt_edge_seen = False\<rparr>"

definition demo_epolls :: epoll_table where
  "demo_epolls = \<lparr>el_owner = demo_epoll_owner, el_flags = 0, el_next_registration = 2,
     el_watches = demo_watch 3 1 EPOLLIN # demo_watch 4 2 (EPOLLIN OR EPOLLET) # replicate 62 WATCH_EMPTY\<rparr>
     # replicate 15 EPOLL_EMPTY"

definition demo_ready :: "object_key \<Rightarrow> (u32 \<times> u64) option" where
  "demo_ready key = (if key_is_empty key then None else Some (EPOLLIN, 7))"

lemma demo_epolls_lookup: "epoll_lookup demo_epoll_owner 0x1000 demo_epolls = Ok 0"
  by code_simp

lemma demo_keys:
  "\<not> key_is_empty (key_new 3 1)" "\<not> key_is_empty (key_new 4 1)" "key_new 3 1 \<noteq> key_new 4 1" "key_new 3 1 \<noteq> KEY_EMPTY"
  "key_new 4 1 \<noteq> KEY_EMPTY" "EPOLLIN AND NOT EPOLL_INTEREST_MASK = 0"
  "(EPOLLIN OR EPOLLET) AND NOT EPOLL_INTEREST_MASK = 0" "epoll_index_for_fd 0x1000 = Some 0" "EPOLL_CTL_ADD \<noteq> EPOLL_CTL_DEL"
  "checked_add 0 1 = Some (1 :: u64)" "checked_add 1 1 = Some (2 :: u64)" "epoll_fd_for_index 0 = 0x1000"
  by code_simp+

text \<open>The table after creation, and after the first watch.\<close>

abbreviation demo_with :: "u64 \<Rightarrow> watch list \<Rightarrow> epoll_table" where
  "demo_with n ws \<equiv> \<lparr>el_owner = demo_epoll_owner, el_flags = 0, el_next_registration = n, el_watches = ws\<rparr> # replicate 15 EPOLL_EMPTY"

lemma demo_created: "epoll_create demo_epoll_owner 0 epoll_table_new = (Ok 0x1000, demo_with 0 (replicate 64 WATCH_EMPTY))"
proof -
  have r: "replicate 16 EPOLL_EMPTY = EPOLL_EMPTY # replicate 15 EPOLL_EMPTY" by (simp add: numeral_eq_Suc)
  show ?thesis by (simp add: epoll_create_def epoll_table_new_def r demo_epoll_owner_def demo_keys)
qed

lemma demo_added:
  assumes "events AND NOT EPOLL_INTEREST_MASK = 0" "\<not> key_is_empty (key_new k 1)" "checked_add n 1 = Some n'"
    "position (\<lambda>w. wt_target w = key_new k 1) ws = None" "position (\<lambda>w. \<not> watch_occupied w) ws = Some p"
  shows "epoll_ctl (static demo_ready) demo_epoll_owner 0x1000 EPOLL_CTL_ADD (key_new k 1) events (of_nat k) (demo_with n ws) ()
    = (Ok (), demo_with n' (ws[p := demo_watch k n' events]), ())"
  using assms by (simp add: epoll_ctl_def demo_keys demo_ready_def epoll_lookup_def epoll_occupied_def demo_epoll_owner_def
      epoll_ctl_slot_def epoll_register_def demo_watch_def)

lemma demo_epolls_reach: "epoll_step\<^sup>*\<^sup>* epoll_table_new demo_epolls"
proof -
  have r: "replicate 64 WATCH_EMPTY = WATCH_EMPTY # WATCH_EMPTY # replicate 62 WATCH_EMPTY" by (simp add: numeral_eq_Suc)
  let ?w = "demo_watch 3 1 EPOLLIN"
  have w: "watch_occupied ?w" "wt_target ?w = key_new 3 1" by (simp_all add: demo_watch_def watch_occupied_def demo_keys)
  have none: "demo_ready key = None" if "key_is_empty key" for key using that by (simp add: demo_ready_def)
  have "epoll_step epoll_table_new (demo_with 0 (replicate 64 WATCH_EMPTY))"
    by (rule epoll_step.intros(1) [OF demo_created])
  moreover have "epoll_step (demo_with 0 (replicate 64 WATCH_EMPTY)) (demo_with 1 (?w # WATCH_EMPTY # replicate 62 WATCH_EMPTY))"
    using demo_added [of EPOLLIN 3 0 1 "replicate 64 WATCH_EMPTY" 0] demo_keys r none
    by (intro epoll_step.intros(2) [of demo_ready demo_epoll_owner "0x1000" EPOLL_CTL_ADD "key_new 3 1" EPOLLIN 3])
      (simp_all add: position_replicate)
  moreover have "epoll_step (demo_with 1 (?w # WATCH_EMPTY # replicate 62 WATCH_EMPTY)) demo_epolls"
    using demo_added [of "EPOLLIN OR EPOLLET" 4 1 2 "?w # WATCH_EMPTY # replicate 62 WATCH_EMPTY" 1] demo_keys w none
    by (intro epoll_step.intros(2) [of demo_ready demo_epoll_owner "0x1000" EPOLL_CTL_ADD "key_new 4 1" "EPOLLIN OR EPOLLET" 4])
      (simp_all add: position_replicate demo_epolls_def)
  ultimately show ?thesis by (meson converse_rtranclp_into_rtranclp rtranclp.rtrancl_refl)
qed

theorem epoll_reports_due_watches_witness:
  "epoll_step\<^sup>*\<^sup>* epoll_table_new demo_epolls \<and> (\<exists>t1 t2.
     epoll_wait (static demo_ready) demo_epoll_owner 0x1000 8 demo_epolls ()
       = (Ok [\<lparr>re_events = EPOLLIN, re_data = 3\<rparr>, \<lparr>re_events = EPOLLIN, re_data = 4\<rparr>], t1, ()) \<and>
     epoll_wait (static demo_ready) demo_epoll_owner 0x1000 8 t1 () = (Ok [\<lparr>re_events = EPOLLIN, re_data = 3\<rparr>], t2, ()))"
proof -
  let ?a = "demo_watch 3 1 EPOLLIN" and ?b = "demo_watch 4 2 (EPOLLIN OR EPOLLET)"
  have ws: "el_watches (demo_epolls ! 0) = ?a # ?b # replicate 62 WATCH_EMPTY" by (simp add: demo_epolls_def)
  have ab: "watch_due demo_ready ?a" "watch_due demo_ready ?b" "\<not> is_edge ?a" "is_edge ?b"
    "watch_event demo_ready ?a = \<lparr>re_events = EPOLLIN, re_data = 3\<rparr>" "watch_event demo_ready ?b = \<lparr>re_events = EPOLLIN, re_data = 4\<rparr>"
    by code_simp+
  have due: "[?a, ?b] = filter (watch_due demo_ready) (el_watches (demo_epolls ! 0))"
    using ab by (simp add: ws watch_due_free)
  have open_targets: "\<forall>w \<in> set (el_watches (demo_epolls ! 0)). watch_occupied w \<longrightarrow> demo_ready (wt_target w) \<noteq> None"
    by (simp add: demo_ready_def watch_occupied_def)
  show ?thesis
    using epoll_reports_due_watches [OF demo_epolls_reach demo_epolls_lookup _ _ open_targets due, of 8 8 "()"] ab demo_epolls_reach
    by auto
qed

end
