(* ===== verification/Socket.thy ===== *)
theory Socket
  imports UnixAddress ObjectKey Ring "HOL-Library.Multiset"
begin

unbundle bit_operations_syntax

text \<open>
  \<^verbatim>\<open>src/src/linux_socket.rs\<close>: local stream sockets. 64 endpoints name 32 connections; a
  connection holds, for each of its two sides, a ring of outgoing bytes and a ring of
  descriptor transfers, each tied to the position of a byte in the stream. The registry behind
  the module's lock is \<open>socket_registry\<close>. Where the code releases discarded transfers
  through the descriptor layer after it has dropped the lock, the definition of the locked part
  returns them, and the release is left to the descriptor layer that calls it.
\<close>

section \<open>State\<close>

abbreviation MAXIMUM_LISTEN_BACKLOG :: nat where "MAXIMUM_LISTEN_BACKLOG \<equiv> 8"
abbreviation MAXIMUM_RIGHTS_RECORDS :: nat where "MAXIMUM_RIGHTS_RECORDS \<equiv> 8"
abbreviation MAXIMUM_SOCKET_ENDPOINTS :: nat where "MAXIMUM_SOCKET_ENDPOINTS \<equiv> 64"
abbreviation MAXIMUM_CONNECTIONS :: nat where "MAXIMUM_CONNECTIONS \<equiv> 32"
abbreviation SOCKET_INDEX_BITS :: nat where "SOCKET_INDEX_BITS \<equiv> 8"
definition SOCKET_INDEX_MASK :: u32 where "SOCKET_INDEX_MASK = 0xFF"
definition SOCKET_MAXIMUM_GENERATION :: u32 where "SOCKET_MAXIMUM_GENERATION = 0xFFFFFF"

record peer_credentials_t =
  pc_pid :: u32
  pc_uid :: u32
  pc_gid :: u32

datatype endpoint_state = EsUnbound | EsBound | EsListening | EsConnected

record socket_endpoint =
  se_occupied :: bool
  se_generation :: u32
  se_owner :: process_handle
  se_state :: endpoint_state
  se_address :: unix_address
  se_connection_index :: u8
  se_connection_generation :: u32
  se_side :: u8
  se_backlog :: u8
  se_pending_head :: u8
  se_pending_length :: u8
  se_pending :: "u32 list"
  se_readiness_generation :: u64

definition SOCKET_ENDPOINT_EMPTY :: socket_endpoint where
  "SOCKET_ENDPOINT_EMPTY = \<lparr>se_occupied = False, se_generation = 0, se_owner = no_handle, se_state = EsUnbound,
     se_address = UNNAMED, se_connection_index = - 1, se_connection_generation = 0, se_side = 0, se_backlog = 0,
     se_pending_head = 0, se_pending_length = 0, se_pending = replicate MAXIMUM_LISTEN_BACKLOG 0,
     se_readiness_generation = 0\<rparr>"

record byte_queue =
  bq_head :: nat
  bq_length :: nat
  bq_sequence :: u64
  bq_bytes :: "u8 list"

definition BYTE_QUEUE_EMPTY :: byte_queue where
  "BYTE_QUEUE_EMPTY = \<lparr>bq_head = 0, bq_length = 0, bq_sequence = 0, bq_bytes = replicate SOCKET_BUFFER_BYTES 0\<rparr>"

definition bq_clear :: "byte_queue \<Rightarrow> byte_queue" where
  "bq_clear q = q\<lparr>bq_sequence := bq_sequence q + of_nat (bq_length q), bq_head := 0, bq_length := 0,
     bq_bytes := map (\<lambda>_. 0) (bq_bytes q)\<rparr>"

definition bq_reset :: "byte_queue \<Rightarrow> byte_queue" where
  "bq_reset q = q\<lparr>bq_head := 0, bq_length := 0, bq_sequence := 0, bq_bytes := map (\<lambda>_. 0) (bq_bytes q)\<rparr>"

definition tail_sequence :: "byte_queue \<Rightarrow> u64 option" where
  "tail_sequence q = checked_add (bq_sequence q) (of_nat (bq_length q))"

record rights_record =
  rg_sequence :: u64
  rg_count :: u8
  rg_tokens :: "transfer_token list"

definition RIGHTS_RECORD_EMPTY :: rights_record where
  "RIGHTS_RECORD_EMPTY = \<lparr>rg_sequence = 0, rg_count = 0, rg_tokens = replicate MAXIMUM_TRANSFER_DESCRIPTORS TOKEN_EMPTY\<rparr>"

record rights_queue =
  rq_head :: u8
  rq_length :: u8
  rq_records :: "rights_record list"

definition RIGHTS_QUEUE_EMPTY :: rights_queue where
  "RIGHTS_QUEUE_EMPTY = \<lparr>rq_head = 0, rq_length = 0, rq_records = replicate MAXIMUM_RIGHTS_RECORDS RIGHTS_RECORD_EMPTY\<rparr>"

text \<open>\<open>push\<close> moves the caller's tokens into the record; on an error they stay with the caller.\<close>

definition rights_push :: "u64 \<Rightarrow> transfer_token list \<Rightarrow> rights_queue \<Rightarrow> (unit, socket_error) result \<times> rights_queue" where
  "rights_push sequence tokens q =
     (if tokens = [] \<or> length tokens > MAXIMUM_TRANSFER_DESCRIPTORS \<or> unat (rq_length q) \<ge> MAXIMUM_RIGHTS_RECORDS
         \<or> list_ex (\<lambda>token. \<not> token_occupied token) tokens
      then (Err SkCapacity, q)
      else
        let index = (unat (rq_head q) + unat (rq_length q)) mod MAXIMUM_RIGHTS_RECORDS;
            record = RIGHTS_RECORD_EMPTY\<lparr>rg_sequence := sequence, rg_count := of_nat (length tokens),
              rg_tokens := tokens @ drop (length tokens) (rg_tokens RIGHTS_RECORD_EMPTY)\<rparr>
        in (Ok (), q\<lparr>rq_records := (rq_records q)[index := record], rq_length := rq_length q + 1\<rparr>))"

definition rights_at :: "rights_queue \<Rightarrow> nat \<Rightarrow> rights_record option" where
  "rights_at q offset =
     (if offset \<ge> unat (rq_length q) then None
      else Some (rq_records q ! ((unat (rq_head q) + offset) mod MAXIMUM_RIGHTS_RECORDS)))"

text \<open>\<open>pop\<close> into an output slice of length \<open>n\<close>: the tokens copied.\<close>

definition rights_pop :: "nat \<Rightarrow> rights_queue \<Rightarrow> transfer_token list \<times> rights_queue" where
  "rights_pop n q =
     (if rq_length q = 0 then ([], q)
      else
        let index = unat (rq_head q);
            record = rq_records q ! index;
            count = min (unat (rg_count record)) n
        in (take count (rg_tokens record),
            q\<lparr>rq_records := (rq_records q)[index := RIGHTS_RECORD_EMPTY],
              rq_head := of_nat ((index + 1) mod MAXIMUM_RIGHTS_RECORDS), rq_length := rq_length q - 1\<rparr>))"

function rights_drain_loop :: "nat \<Rightarrow> rights_queue \<Rightarrow> transfer_token list \<times> rights_queue" where
  "rights_drain_loop n q =
     (if rq_length q \<noteq> 0 then
        (case rights_pop n q of (tokens, q1) \<Rightarrow>
           (case rights_drain_loop (n - length tokens) q1 of (rest, q2) \<Rightarrow> (tokens @ rest, q2)))
      else ([], q))"
  by pat_completeness auto

termination
  by (relation "measure (\<lambda>(n, q). unat (rq_length q))")
    (auto simp: rights_pop_def Let_def unat_dec_word unat_gt_0)

declare rights_drain_loop.simps [simp del]

definition rights_drain :: "nat \<Rightarrow> rights_queue \<Rightarrow> transfer_token list \<times> rights_queue" where
  "rights_drain n q = (case rights_drain_loop n q of (tokens, q') \<Rightarrow> (tokens, q'\<lparr>rq_head := 0\<rparr>))"

definition rights_reset_empty :: "rights_queue \<Rightarrow> rights_queue" where
  "rights_reset_empty q = q\<lparr>rq_head := 0, rq_length := 0,
     rq_records := map (\<lambda>r. r\<lparr>rg_sequence := 0, rg_count := 0, rg_tokens := map (\<lambda>_. TOKEN_EMPTY) (rg_tokens r)\<rparr>) (rq_records q)\<rparr>"

record connection_slot =
  cs_occupied :: bool
  cs_generation :: u32
  cs_endpoint_handles :: "u32 list"
  cs_owners :: "process_handle list"
  cs_addresses :: "unix_address list"
  cs_endpoint_open :: "bool list"
  cs_read_open :: "bool list"
  cs_write_open :: "bool list"
  cs_outgoing :: "byte_queue list"
  cs_outgoing_rights :: "rights_queue list"
  cs_readiness_generation :: u64

definition CONNECTION_EMPTY :: connection_slot where
  "CONNECTION_EMPTY = \<lparr>cs_occupied = False, cs_generation = 0, cs_endpoint_handles = [0, 0],
     cs_owners = [no_handle, no_handle], cs_addresses = [UNNAMED, UNNAMED], cs_endpoint_open = [False, False],
     cs_read_open = [False, False], cs_write_open = [False, False],
     cs_outgoing = [BYTE_QUEUE_EMPTY, BYTE_QUEUE_EMPTY], cs_outgoing_rights = [RIGHTS_QUEUE_EMPTY, RIGHTS_QUEUE_EMPTY],
     cs_readiness_generation = 0\<rparr>"

definition connection_initialize ::
    "u32 \<Rightarrow> u32 \<Rightarrow> u32 \<Rightarrow> process_handle \<Rightarrow> process_handle \<Rightarrow> unix_address \<Rightarrow> unix_address \<Rightarrow> connection_slot \<Rightarrow> connection_slot" where
  "connection_initialize generation first second first_owner second_owner first_address second_address c =
     c\<lparr>cs_occupied := True, cs_generation := generation, cs_endpoint_handles := [first, second],
       cs_owners := [first_owner, second_owner], cs_addresses := [first_address, second_address],
       cs_endpoint_open := [True, True], cs_read_open := [True, True], cs_write_open := [True, True],
       cs_outgoing := map bq_reset (cs_outgoing c), cs_outgoing_rights := map rights_reset_empty (cs_outgoing_rights c),
       cs_readiness_generation := 1\<rparr>"

definition reset_preserving_generation :: "connection_slot \<Rightarrow> connection_slot" where
  "reset_preserving_generation c =
     c\<lparr>cs_occupied := False, cs_endpoint_handles := [0, 0], cs_owners := [no_handle, no_handle],
       cs_addresses := [UNNAMED, UNNAMED], cs_endpoint_open := [False, False], cs_read_open := [False, False],
       cs_write_open := [False, False], cs_outgoing := map bq_reset (cs_outgoing c),
       cs_outgoing_rights := map rights_reset_empty (cs_outgoing_rights c), cs_readiness_generation := 0\<rparr>"

record socket_registry =
  sr_endpoints :: "socket_endpoint list"
  sr_connections :: "connection_slot list"

definition socket_registry_new :: socket_registry where
  "socket_registry_new = \<lparr>sr_endpoints = replicate MAXIMUM_SOCKET_ENDPOINTS SOCKET_ENDPOINT_EMPTY,
     sr_connections = replicate MAXIMUM_CONNECTIONS CONNECTION_EMPTY\<rparr>"

section \<open>Operations\<close>

definition next_endpoint_generation :: "u32 \<Rightarrow> u32 option" where
  "next_endpoint_generation current =
     (case checked_add current 1 of None \<Rightarrow> None
      | Some generation \<Rightarrow> if generation \<le> SOCKET_MAXIMUM_GENERATION then Some generation else None)"

definition next_connection_generation :: "u32 \<Rightarrow> u32 option" where
  "next_connection_generation current =
     (case checked_add current 1 of None \<Rightarrow> None
      | Some generation \<Rightarrow> if generation \<noteq> 0 then Some generation else None)"

definition socket_encode :: "nat \<Rightarrow> u32 \<Rightarrow> u32 option" where
  "socket_encode index generation =
     (if index \<ge> MAXIMUM_SOCKET_ENDPOINTS \<or> generation = 0 \<or> generation > SOCKET_MAXIMUM_GENERATION then None
      else Some (push_bit SOCKET_INDEX_BITS generation OR (of_nat index + 1)))"

definition socket_decode :: "u32 \<Rightarrow> (nat \<times> u32) option" where
  "socket_decode handle =
     (let encoded_index = handle AND SOCKET_INDEX_MASK;
          generation = drop_bit SOCKET_INDEX_BITS handle
      in if encoded_index = 0 \<or> generation = 0 then None
         else let index = unat (encoded_index - 1)
              in if index < MAXIMUM_SOCKET_ENDPOINTS then Some (index, generation) else None)"

definition socket_resolve ::
    "socket_registry \<Rightarrow> process_handle \<Rightarrow> u32 \<Rightarrow> (nat \<times> socket_endpoint, socket_error) result" where
  "socket_resolve registry owner handle =
     (case socket_decode handle of None \<Rightarrow> Err SkBadFileDescriptor
      | Some (index, generation) \<Rightarrow>
          let endpoint = sr_endpoints registry ! index in
          if \<not> se_occupied endpoint \<or> se_generation endpoint \<noteq> generation \<or> se_owner endpoint \<noteq> owner
          then Err SkBadFileDescriptor
          else Ok (index, endpoint))"

text \<open>The connection and the side an endpoint is on.\<close>

definition connection_of :: "socket_registry \<Rightarrow> socket_endpoint \<Rightarrow> (connection_slot \<Rightarrow> nat \<Rightarrow> bool) \<Rightarrow> (nat \<times> nat) option" where
  "connection_of registry endpoint P =
     (let index = unat (se_connection_index endpoint); side = unat (se_side endpoint) in
      if index < length (sr_connections registry) \<and>
         (let connection = sr_connections registry ! index in
            cs_occupied connection \<and> cs_generation connection = se_connection_generation endpoint \<and> side < 2 \<and>
            P connection side)
      then Some (index, side) else None)"

definition resolved_connection ::
    "socket_registry \<Rightarrow> socket_endpoint \<Rightarrow> u32 \<Rightarrow> (nat \<times> nat, socket_error) result" where
  "resolved_connection registry endpoint handle =
     (if se_state endpoint \<noteq> EsConnected then Err SkNotConnected
      else ok_or SkBadFileDescriptor (connection_of registry endpoint
        (\<lambda>connection side. cs_endpoint_handles connection ! side = handle \<and> cs_owners connection ! side = se_owner endpoint)))"

definition advance_generation :: "u64 \<Rightarrow> u64" where
  "advance_generation generation = (if generation + 1 = 0 then 1 else generation + 1)"

definition retire_endpoint :: "socket_endpoint \<Rightarrow> socket_endpoint" where
  "retire_endpoint endpoint = SOCKET_ENDPOINT_EMPTY\<lparr>se_generation := se_generation endpoint\<rparr>"

definition retire_connection :: "nat \<Rightarrow> connection_slot \<Rightarrow> transfer_token list \<times> connection_slot" where
  "retire_connection n connection =
     (case rights_drain n (cs_outgoing_rights connection ! 0) of (first, q0) \<Rightarrow>
      case rights_drain (n - length first) (cs_outgoing_rights connection ! 1) of (second, q1) \<Rightarrow>
        (first @ second, reset_preserving_generation (connection\<lparr>cs_outgoing_rights := [q0, q1]\<rparr>)))"

definition set_endpoint :: "nat \<Rightarrow> socket_endpoint \<Rightarrow> socket_registry \<Rightarrow> socket_registry" where
  "set_endpoint index endpoint registry = registry\<lparr>sr_endpoints := (sr_endpoints registry)[index := endpoint]\<rparr>"

definition set_connection :: "nat \<Rightarrow> connection_slot \<Rightarrow> socket_registry \<Rightarrow> socket_registry" where
  "set_connection index connection registry = registry\<lparr>sr_connections := (sr_connections registry)[index := connection]\<rparr>"

definition initialize_endpoint ::
    "nat \<Rightarrow> process_handle \<Rightarrow> socket_registry \<Rightarrow> (u32, socket_error) result \<times> socket_registry" where
  "initialize_endpoint index owner registry =
     (case next_endpoint_generation (se_generation (sr_endpoints registry ! index)) of None \<Rightarrow> (Err SkCapacity, registry)
      | Some generation \<Rightarrow>
     case socket_encode index generation of None \<Rightarrow> (Err SkCapacity, registry)
      | Some handle \<Rightarrow>
          (Ok handle, set_endpoint index
             (SOCKET_ENDPOINT_EMPTY\<lparr>se_occupied := True, se_generation := generation, se_owner := owner,
                se_readiness_generation := 1\<rparr>) registry))"

definition initialize_connected_endpoint ::
    "nat \<Rightarrow> process_handle \<Rightarrow> nat \<Rightarrow> u32 \<Rightarrow> nat \<Rightarrow> socket_registry \<Rightarrow> (u32, socket_error) result \<times> socket_registry" where
  "initialize_connected_endpoint index owner connection_index connection_generation side registry =
     (case initialize_endpoint index owner registry of (Err e, registry') \<Rightarrow> (Err e, registry')
      | (Ok handle, registry') \<Rightarrow>
          (Ok handle, set_endpoint index
             ((sr_endpoints registry' ! index)\<lparr>se_state := EsConnected, se_connection_index := of_nat connection_index,
                se_connection_generation := connection_generation, se_side := of_nat side\<rparr>) registry'))"

definition validate_create :: "u32 \<Rightarrow> u32 \<Rightarrow> u32 \<Rightarrow> (unit, socket_error) result" where
  "validate_create domain socket_type protocol =
     (if domain \<noteq> AF_UNIX then Err SkAddressFamilyNotSupported
      else if socket_type AND NOT (SOCKET_TYPE_MASK OR SOCKET_ALLOWED_FLAGS) \<noteq> 0 then Err SkInvalidArgument
      else if socket_type AND SOCKET_TYPE_MASK \<noteq> SOCK_STREAM \<or> protocol \<noteq> 0 then Err SkOperationNotSupported
      else Ok ())"

definition socket_create ::
    "process_handle \<Rightarrow> u32 \<Rightarrow> u32 \<Rightarrow> u32 \<Rightarrow> socket_registry \<Rightarrow> (u32, socket_error) result \<times> socket_registry" where
  "socket_create owner domain socket_type protocol registry =
     (if \<not> valid_owner owner then (Err SkInvalidArgument, registry)
      else case validate_create domain socket_type protocol of Err e \<Rightarrow> (Err e, registry)
      | Ok _ \<Rightarrow>
     case position (\<lambda>endpoint. \<not> se_occupied endpoint) (sr_endpoints registry) of None \<Rightarrow> (Err SkCapacity, registry)
      | Some index \<Rightarrow> initialize_endpoint index owner registry)"

definition socket_create_pair ::
    "process_handle \<Rightarrow> u32 \<Rightarrow> u32 \<Rightarrow> u32 \<Rightarrow> socket_registry \<Rightarrow> (u32 \<times> u32, socket_error) result \<times> socket_registry" where
  "socket_create_pair owner domain socket_type protocol registry =
     (if \<not> valid_owner owner then (Err SkInvalidArgument, registry)
      else case validate_create domain socket_type protocol of Err e \<Rightarrow> (Err e, registry)
      | Ok _ \<Rightarrow>
     case position (\<lambda>endpoint. \<not> se_occupied endpoint) (sr_endpoints registry) of None \<Rightarrow> (Err SkCapacity, registry)
      | Some first_index \<Rightarrow>
     case position_from (Suc first_index) (\<lambda>endpoint. \<not> se_occupied endpoint) (sr_endpoints registry) of
        None \<Rightarrow> (Err SkCapacity, registry)
      | Some second_index \<Rightarrow>
     case position (\<lambda>connection. \<not> cs_occupied connection) (sr_connections registry) of None \<Rightarrow> (Err SkCapacity, registry)
      | Some connection_index \<Rightarrow>
     case next_connection_generation (cs_generation (sr_connections registry ! connection_index)) of
        None \<Rightarrow> (Err SkCapacity, registry)
      | Some connection_generation \<Rightarrow>
     case initialize_connected_endpoint first_index owner connection_index connection_generation 0 registry of
        (Err e, r1) \<Rightarrow> (Err e, r1)
      | (Ok first, r1) \<Rightarrow>
     case initialize_connected_endpoint second_index owner connection_index connection_generation 1 r1 of
        (Err e, r2) \<Rightarrow> (Err e, set_endpoint first_index (retire_endpoint (sr_endpoints r2 ! first_index)) r2)
      | (Ok second, r2) \<Rightarrow>
          (Ok (first, second), set_connection connection_index
             (connection_initialize connection_generation first second owner owner UNNAMED UNNAMED
               (sr_connections r2 ! connection_index)) r2))"

definition socket_bind ::
    "process_handle \<Rightarrow> u32 \<Rightarrow> unix_address \<Rightarrow> socket_registry \<Rightarrow> (unit, socket_error) result \<times> socket_registry" where
  "socket_bind owner handle address registry =
     (if is_unnamed address then (Err SkInvalidArgument, registry)
      else case socket_resolve registry owner handle of Err e \<Rightarrow> (Err e, registry)
      | Ok (index, endpoint) \<Rightarrow>
          if se_state endpoint \<noteq> EsUnbound then (Err SkInvalidArgument, registry)
          else if list_ex (\<lambda>other_index. other_index \<noteq> index \<and>
              (let other = sr_endpoints registry ! other_index
               in se_occupied other \<and> \<not> is_unnamed (se_address other) \<and> se_address other = address))
            [0..<length (sr_endpoints registry)]
          then (Err SkAddressInUse, registry)
          else (Ok (), set_endpoint index ((sr_endpoints registry ! index)\<lparr>se_state := EsBound, se_address := address,
                  se_readiness_generation := advance_generation (se_readiness_generation (sr_endpoints registry ! index))\<rparr>) registry))"

definition socket_listen ::
    "process_handle \<Rightarrow> u32 \<Rightarrow> nat \<Rightarrow> socket_registry \<Rightarrow> (unit, socket_error) result \<times> socket_registry" where
  "socket_listen owner handle backlog registry =
     (case socket_resolve registry owner handle of Err e \<Rightarrow> (Err e, registry)
      | Ok (index, endpoint) \<Rightarrow>
          if se_state endpoint \<notin> {EsBound, EsListening} then (Err SkInvalidArgument, registry)
          else (Ok (), set_endpoint index ((sr_endpoints registry ! index)\<lparr>se_state := EsListening,
                  se_backlog := of_nat (min (max backlog 1) MAXIMUM_LISTEN_BACKLOG),
                  se_readiness_generation := advance_generation (se_readiness_generation (sr_endpoints registry ! index))\<rparr>) registry))"

text \<open>The last two stores of \<open>connect\<close>: the client endpoint and the listener's queue.\<close>

definition client_connected :: "nat \<Rightarrow> u32 \<Rightarrow> socket_endpoint \<Rightarrow> socket_endpoint" where
  "client_connected connection_index connection_generation client =
     client\<lparr>se_state := EsConnected, se_connection_index := of_nat connection_index,
       se_connection_generation := connection_generation, se_side := 0,
       se_readiness_generation := advance_generation (se_readiness_generation client)\<rparr>"

definition listener_queued :: "u32 \<Rightarrow> socket_endpoint \<Rightarrow> socket_endpoint" where
  "listener_queued server_handle listener =
     (let tail = (unat (se_pending_head listener) + unat (se_pending_length listener)) mod MAXIMUM_LISTEN_BACKLOG
      in listener\<lparr>se_pending := (se_pending listener)[tail := server_handle],
           se_pending_length := se_pending_length listener + 1,
           se_readiness_generation := advance_generation (se_readiness_generation listener)\<rparr>)"

definition socket_connect ::
    "process_handle \<Rightarrow> u32 \<Rightarrow> unix_address \<Rightarrow> socket_registry \<Rightarrow> (unit, socket_error) result \<times> socket_registry" where
  "socket_connect owner handle address registry =
     (if is_unnamed address then (Err SkInvalidArgument, registry)
      else case socket_resolve registry owner handle of Err e \<Rightarrow> (Err e, registry)
      | Ok (client_index, client) \<Rightarrow>
          if se_state client = EsConnected then (Err SkAlreadyConnected, registry)
          else if se_state client = EsListening then (Err SkInvalidArgument, registry)
          else case position (\<lambda>endpoint. se_occupied endpoint \<and> se_state endpoint = EsListening \<and> se_address endpoint = address)
              (sr_endpoints registry) of None \<Rightarrow> (Err SkConnectionRefused, registry)
          | Some listener_index \<Rightarrow>
              let listener = sr_endpoints registry ! listener_index in
              if unat (se_pending_length listener) \<ge> unat (se_backlog listener) then (Err SkWouldBlock, registry)
              else case position (\<lambda>endpoint. \<not> se_occupied endpoint) (sr_endpoints registry) of
                None \<Rightarrow> (Err SkCapacity, registry)
              | Some server_index \<Rightarrow>
              case position (\<lambda>connection. \<not> cs_occupied connection) (sr_connections registry) of
                None \<Rightarrow> (Err SkCapacity, registry)
              | Some connection_index \<Rightarrow>
              case next_connection_generation (cs_generation (sr_connections registry ! connection_index)) of
                None \<Rightarrow> (Err SkCapacity, registry)
              | Some connection_generation \<Rightarrow>
              case initialize_connected_endpoint server_index (se_owner listener) connection_index connection_generation 1 registry of
                (Err e, r1) \<Rightarrow> (Err e, r1)
              | (Ok server_handle, r1) \<Rightarrow>
                  let r2 = set_endpoint client_index
                        (client_connected connection_index connection_generation (sr_endpoints r1 ! client_index)) r1;
                      r3 = set_connection connection_index
                        (connection_initialize connection_generation handle server_handle owner (se_owner listener)
                          (se_address client) (se_address listener) (sr_connections r2 ! connection_index)) r2
                  in (Ok (), set_endpoint listener_index (listener_queued server_handle (sr_endpoints r3 ! listener_index)) r3))"

definition listener_dequeued :: "socket_endpoint \<Rightarrow> socket_endpoint" where
  "listener_dequeued listener =
     (let head = unat (se_pending_head listener)
      in listener\<lparr>se_pending := (se_pending listener)[head := 0],
           se_pending_head := of_nat ((head + 1) mod MAXIMUM_LISTEN_BACKLOG),
           se_pending_length := se_pending_length listener - 1,
           se_readiness_generation := advance_generation (se_readiness_generation listener)\<rparr>)"

definition socket_accept ::
    "process_handle \<Rightarrow> u32 \<Rightarrow> socket_registry \<Rightarrow> (u32 \<times> unix_address, socket_error) result \<times> socket_registry" where
  "socket_accept owner handle registry =
     (case socket_resolve registry owner handle of Err e \<Rightarrow> (Err e, registry)
      | Ok (listener_index, listener) \<Rightarrow>
          if se_state listener \<noteq> EsListening then (Err SkInvalidArgument, registry)
          else if se_pending_length listener = 0 then (Err SkWouldBlock, registry)
          else
            let accepted = se_pending listener ! unat (se_pending_head listener) in
            case socket_resolve registry owner accepted of Err e \<Rightarrow> (Err e, registry)
            | Ok (_, endpoint) \<Rightarrow>
            case resolved_connection registry endpoint accepted of Err e \<Rightarrow> (Err e, registry)
            | Ok (connection_index, side) \<Rightarrow>
                (Ok (accepted, cs_addresses (sr_connections registry ! connection_index) ! (1 - side)),
                 set_endpoint listener_index (listener_dequeued (sr_endpoints registry ! listener_index)) registry))"

text \<open>The copy loops of the byte ring, as the code runs them.\<close>

fun bq_take :: "nat \<Rightarrow> byte_queue \<Rightarrow> u8 list \<times> byte_queue" where
  "bq_take 0 q = ([], q)"
| "bq_take (Suc n) q =
     (let byte = bq_bytes q ! bq_head q;
          (rest, q') = bq_take n (q\<lparr>bq_head := (bq_head q + 1) mod SOCKET_BUFFER_BYTES\<rparr>)
      in (byte # rest, q'))"

definition bq_peek :: "nat \<Rightarrow> byte_queue \<Rightarrow> u8 list" where
  "bq_peek n q = map (\<lambda>offset. bq_bytes q ! ((bq_head q + offset) mod SOCKET_BUFFER_BYTES)) [0..<n]"

fun bq_append :: "u8 list \<Rightarrow> byte_queue \<Rightarrow> byte_queue" where
  "bq_append [] q = q"
| "bq_append (byte # input) q =
     (let tail = (bq_head q + bq_length q) mod SOCKET_BUFFER_BYTES
      in bq_append input (q\<lparr>bq_bytes := (bq_bytes q)[tail := byte], bq_length := bq_length q + 1\<rparr>))"

text \<open>What \<open>receive_message\<close> decides before it moves a byte: how many bytes, and whether the first
  transfer goes with them.\<close>

definition receive_plan ::
    "nat \<Rightarrow> u32 \<Rightarrow> nat \<Rightarrow> byte_queue \<Rightarrow> rights_queue \<Rightarrow> (nat \<times> bool, socket_error) result" where
  "receive_plan n flags rights_room queue rights =
     (let copied = min n (bq_length queue); head_sequence = bq_sequence queue in
      case rights_at rights 0 of None \<Rightarrow> Ok (copied, False)
      | Some first \<Rightarrow>
     case checked_add head_sequence (of_nat copied) of None \<Rightarrow> Err SkCapacity
      | Some initial_end \<Rightarrow>
          if rg_sequence first < head_sequence then Err SkBadFileDescriptor
          else case tail_sequence queue of None \<Rightarrow> Err SkCapacity
          | Some tail \<Rightarrow>
              if rg_sequence first \<ge> tail then Err SkBadFileDescriptor
              else
                let deliver = (rg_sequence first < initial_end \<and> flags AND MSG_PEEK = 0) in
                if deliver \<and> unat (rg_count first) > rights_room then Err SkCapacity
                else case rights_at rights 1 of
                  Some second \<Rightarrow>
                    if deliver \<and> rg_sequence second < initial_end
                    then Ok (unat (rg_sequence second - head_sequence), deliver) else Ok (copied, deliver)
                | None \<Rightarrow> Ok (copied, deliver))"

definition touch_connection :: "connection_slot \<Rightarrow> connection_slot" where
  "touch_connection c = c\<lparr>cs_readiness_generation := advance_generation (cs_readiness_generation c)\<rparr>"

text \<open>\<open>receive_message\<close> into slices of length \<open>n\<close> and \<open>rights_room\<close>: the bytes and the tokens.\<close>

definition socket_receive_message ::
    "process_handle \<Rightarrow> u32 \<Rightarrow> nat \<Rightarrow> u32 \<Rightarrow> nat \<Rightarrow> socket_registry \<Rightarrow>
      (u8 list \<times> transfer_token list, socket_error) result \<times> socket_registry" where
  "socket_receive_message owner handle n flags rights_room registry =
     (if flags AND NOT RECEIVE_FLAGS \<noteq> 0 then (Err SkOperationNotSupported, registry)
      else case socket_resolve registry owner handle of Err e \<Rightarrow> (Err e, registry)
      | Ok (_, endpoint) \<Rightarrow>
     case resolved_connection registry endpoint handle of Err e \<Rightarrow> (Err e, registry)
      | Ok (connection_index, side) \<Rightarrow>
          let c = sr_connections registry ! connection_index in
          if \<not> cs_read_open c ! side then (Ok ([], []), registry)
          else if n = 0 then (Ok ([], []), registry)
          else
            let incoming = 1 - side; queue = cs_outgoing c ! incoming; rights = cs_outgoing_rights c ! incoming in
            if bq_length queue = 0
            then (if cs_write_open c ! incoming then (Err SkWouldBlock, registry) else (Ok ([], []), registry))
            else case receive_plan n flags rights_room queue rights of Err e \<Rightarrow> (Err e, registry)
            | Ok (copied, deliver) \<Rightarrow>
                if flags AND MSG_PEEK \<noteq> 0 then (Ok (bq_peek copied queue, []), registry)
                else
                  let (output, q1) = bq_take copied queue; q2 = q1\<lparr>bq_length := bq_length q1 - copied\<rparr> in
                  case checked_add (bq_sequence q2) (of_nat copied) of
                    None \<Rightarrow> (Err SkCapacity,
                      set_connection connection_index (c\<lparr>cs_outgoing := (cs_outgoing c)[incoming := q2]\<rparr>) registry)
                  | Some sequence \<Rightarrow>
                      let (tokens, rights') = (if deliver then rights_pop rights_room rights else ([], rights))
                      in (Ok (output, tokens), set_connection connection_index
                            (touch_connection (c\<lparr>cs_outgoing := (cs_outgoing c)[incoming := q2\<lparr>bq_sequence := sequence\<rparr>],
                               cs_outgoing_rights := (cs_outgoing_rights c)[incoming := rights']\<rparr>)) registry))"

text \<open>\<open>send_message\<close>: the number of bytes taken, and the tokens left with the caller.\<close>

definition socket_send_message ::
    "process_handle \<Rightarrow> u32 \<Rightarrow> u8 list \<Rightarrow> u32 \<Rightarrow> transfer_token list \<Rightarrow> socket_registry \<Rightarrow>
      (nat, socket_error) result \<times> transfer_token list \<times> socket_registry" where
  "socket_send_message owner handle input flags tokens registry =
     (if flags AND NOT SEND_FLAGS \<noteq> 0 then (Err SkOperationNotSupported, tokens, registry)
      else case socket_resolve registry owner handle of Err e \<Rightarrow> (Err e, tokens, registry)
      | Ok (_, endpoint) \<Rightarrow>
     case resolved_connection registry endpoint handle of Err e \<Rightarrow> (Err e, tokens, registry)
      | Ok (connection_index, side) \<Rightarrow>
          let c = sr_connections registry ! connection_index; peer = 1 - side in
          if \<not> cs_write_open c ! side \<or> \<not> cs_read_open c ! peer then (Err SkBrokenPipe, tokens, registry)
          else if input = []
          then (if tokens = [] then (Ok 0, tokens, registry) else (Err SkInvalidArgument, tokens, registry))
          else
            let queue = cs_outgoing c ! side; available = SOCKET_BUFFER_BYTES - bq_length queue in
            if available = 0 then (Err SkWouldBlock, tokens, registry)
            else
              let copied = min (length input) available in
              case tail_sequence queue of None \<Rightarrow> (Err SkCapacity, tokens, registry)
              | Some rights_sequence \<Rightarrow>
              case (if tokens = [] then (Ok (), cs_outgoing_rights c ! side)
                    else rights_push rights_sequence tokens (cs_outgoing_rights c ! side)) of
                (Err e, _) \<Rightarrow> (Err e, tokens, registry)
              | (Ok _, rights) \<Rightarrow>
                  (Ok copied, [], set_connection connection_index
                     (touch_connection (c\<lparr>cs_outgoing := (cs_outgoing c)[side := bq_append (take copied input) queue],
                        cs_outgoing_rights := (cs_outgoing_rights c)[side := rights]\<rparr>)) registry))"

text \<open>\<open>shutdown\<close> up to the release of the transfers it discards.\<close>

definition socket_shutdown ::
    "process_handle \<Rightarrow> u32 \<Rightarrow> u32 \<Rightarrow> socket_registry \<Rightarrow> (transfer_token list, socket_error) result \<times> socket_registry" where
  "socket_shutdown owner handle how registry =
     (if how > SHUT_RDWR then (Err SkInvalidArgument, registry)
      else case socket_resolve registry owner handle of Err e \<Rightarrow> (Err e, registry)
      | Ok (_, endpoint) \<Rightarrow>
     case resolved_connection registry endpoint handle of Err e \<Rightarrow> (Err e, registry)
      | Ok (connection_index, side) \<Rightarrow>
          let c = sr_connections registry ! connection_index; incoming = 1 - side;
              (discarded, c1) = (if how = SHUT_RD \<or> how = SHUT_RDWR
                then (case rights_drain (MAXIMUM_RIGHTS_RECORDS * MAXIMUM_TRANSFER_DESCRIPTORS) (cs_outgoing_rights c ! incoming) of
                        (tokens, q) \<Rightarrow>
                          (tokens, c\<lparr>cs_read_open := (cs_read_open c)[side := False],
                             cs_outgoing := (cs_outgoing c)[incoming := bq_clear (cs_outgoing c ! incoming)],
                             cs_outgoing_rights := (cs_outgoing_rights c)[incoming := q]\<rparr>))
                else ([], c));
              c2 = (if how = SHUT_WR \<or> how = SHUT_RDWR then c1\<lparr>cs_write_open := (cs_write_open c1)[side := False]\<rparr> else c1)
          in (Ok discarded, set_connection connection_index (touch_connection c2) registry))"

definition socket_readiness :: "process_handle \<Rightarrow> u32 \<Rightarrow> socket_registry \<Rightarrow> (u32, socket_error) result" where
  "socket_readiness owner handle registry =
     (case socket_resolve registry owner handle of Err e \<Rightarrow> Err e
      | Ok (_, endpoint) \<Rightarrow>
          if se_state endpoint = EsListening then Ok (if se_pending_length endpoint = 0 then 0 else READY_IN)
          else case resolved_connection registry endpoint handle of Err e \<Rightarrow> Err e
          | Ok (connection_index, side) \<Rightarrow>
              let c = sr_connections registry ! connection_index; peer = 1 - side in
              Ok ((if bq_length (cs_outgoing c ! peer) \<noteq> 0 \<or> \<not> cs_write_open c ! peer then READY_IN else 0)
                OR (if cs_write_open c ! side \<and> cs_read_open c ! peer \<and> bq_length (cs_outgoing c ! side) < SOCKET_BUFFER_BYTES
                    then READY_OUT else 0)
                OR (if \<not> cs_read_open c ! peer then READY_ERR else 0)
                OR (if \<not> cs_write_open c ! peer then READY_HUP else 0)))"

definition socket_readiness_generation :: "process_handle \<Rightarrow> u32 \<Rightarrow> socket_registry \<Rightarrow> (u64, socket_error) result" where
  "socket_readiness_generation owner handle registry =
     (case socket_resolve registry owner handle of Err e \<Rightarrow> Err e
      | Ok (_, endpoint) \<Rightarrow>
          if se_state endpoint = EsListening then Ok (se_readiness_generation endpoint)
          else case resolved_connection registry endpoint handle of Err e \<Rightarrow> Err e
          | Ok (connection_index, _) \<Rightarrow> Ok (cs_readiness_generation (sr_connections registry ! connection_index)))"

definition socket_local_address :: "process_handle \<Rightarrow> u32 \<Rightarrow> socket_registry \<Rightarrow> (unix_address, socket_error) result" where
  "socket_local_address owner handle registry =
     (case socket_resolve registry owner handle of Err e \<Rightarrow> Err e
      | Ok (_, endpoint) \<Rightarrow>
          if se_state endpoint = EsConnected then
            (case resolved_connection registry endpoint handle of Err e \<Rightarrow> Err e
             | Ok (connection_index, side) \<Rightarrow> Ok (cs_addresses (sr_connections registry ! connection_index) ! side))
          else Ok (se_address endpoint))"

definition socket_peer_address :: "process_handle \<Rightarrow> u32 \<Rightarrow> socket_registry \<Rightarrow> (unix_address, socket_error) result" where
  "socket_peer_address owner handle registry =
     (case socket_resolve registry owner handle of Err e \<Rightarrow> Err e
      | Ok (_, endpoint) \<Rightarrow>
     case resolved_connection registry endpoint handle of Err e \<Rightarrow> Err e
      | Ok (connection_index, side) \<Rightarrow> Ok (cs_addresses (sr_connections registry ! connection_index) ! (1 - side)))"

definition socket_peer_credentials ::
    "process_handle \<Rightarrow> u32 \<Rightarrow> socket_registry \<Rightarrow> (peer_credentials_t, socket_error) result" where
  "socket_peer_credentials owner handle registry =
     (case socket_resolve registry owner handle of Err e \<Rightarrow> Err e
      | Ok (_, endpoint) \<Rightarrow>
     case resolved_connection registry endpoint handle of Err e \<Rightarrow> Err e
      | Ok (connection_index, side) \<Rightarrow>
          Ok \<lparr>pc_pid = ph_pid (cs_owners (sr_connections registry ! connection_index) ! (1 - side)), pc_uid = 0, pc_gid = 0\<rparr>)"

definition socket_is_listener :: "process_handle \<Rightarrow> u32 \<Rightarrow> socket_registry \<Rightarrow> (bool, socket_error) result" where
  "socket_is_listener owner handle registry =
     (case socket_resolve registry owner handle of Err e \<Rightarrow> Err e
      | Ok (_, endpoint) \<Rightarrow> Ok (se_state endpoint = EsListening))"

text \<open>One side of a connection goes away: what it had not read is discarded, and the connection
  is retired once both sides are gone. \<open>n\<close> is the room for discarded transfers.\<close>

definition connection_side_closed :: "nat \<Rightarrow> nat \<Rightarrow> connection_slot \<Rightarrow> transfer_token list \<times> connection_slot" where
  "connection_side_closed n side c =
     (let incoming = 1 - side in
      case rights_drain n (cs_outgoing_rights c ! incoming) of (tokens, q) \<Rightarrow>
        let c1 = touch_connection (c\<lparr>cs_endpoint_open := (cs_endpoint_open c)[side := False],
              cs_read_open := (cs_read_open c)[side := False], cs_write_open := (cs_write_open c)[side := False],
              cs_outgoing := (cs_outgoing c)[incoming := bq_clear (cs_outgoing c ! incoming)],
              cs_outgoing_rights := (cs_outgoing_rights c)[incoming := q]\<rparr>) in
        if \<not> cs_endpoint_open c1 ! 0 \<and> \<not> cs_endpoint_open c1 ! 1
        then (case retire_connection (n - length tokens) c1 of (rest, c2) \<Rightarrow> (tokens @ rest, c2))
        else (tokens, c1))"

definition close_connected_endpoint :: "nat \<Rightarrow> nat \<Rightarrow> socket_registry \<Rightarrow> transfer_token list \<times> socket_registry" where
  "close_connected_endpoint n index registry =
     (let endpoint = sr_endpoints registry ! index;
          (discarded, r1) =
            (case (if se_state endpoint = EsConnected then connection_of registry endpoint
                (\<lambda>connection side. cs_endpoint_handles connection ! side
                   = (case socket_encode index (se_generation endpoint) of None \<Rightarrow> 0 | Some handle \<Rightarrow> handle)) else None) of
               None \<Rightarrow> ([], registry)
             | Some (connection_index, side) \<Rightarrow>
                 (case connection_side_closed n side (sr_connections registry ! connection_index) of
                    (tokens, c) \<Rightarrow> (tokens, set_connection connection_index c registry)))
      in (discarded, set_endpoint index (retire_endpoint (sr_endpoints r1 ! index)) r1))"

abbreviation MAXIMUM_CLOSE_DISCARDS :: nat where
  "MAXIMUM_CLOSE_DISCARDS \<equiv> MAXIMUM_LISTEN_BACKLOG * MAXIMUM_RIGHTS_RECORDS * MAXIMUM_TRANSFER_DESCRIPTORS"

text \<open>The connections a closing listener had not handed out.\<close>

fun close_pending ::
    "process_handle \<Rightarrow> u32 list \<Rightarrow> nat \<Rightarrow> socket_registry \<Rightarrow> transfer_token list \<times> socket_registry" where
  "close_pending owner [] n registry = ([], registry)"
| "close_pending owner (pending_handle # handles) n registry =
     (case socket_decode pending_handle of None \<Rightarrow> close_pending owner handles n registry
      | Some (pending_index, generation) \<Rightarrow>
          let queued = sr_endpoints registry ! pending_index in
          if se_occupied queued \<and> se_generation queued = generation \<and> se_owner queued = owner \<and> se_state queued = EsConnected
          then (case close_connected_endpoint n pending_index registry of (tokens, r1) \<Rightarrow>
                 case close_pending owner handles (n - length tokens) r1 of (rest, r2) \<Rightarrow> (tokens @ rest, r2))
          else close_pending owner handles n registry)"

definition pending_handles :: "socket_endpoint \<Rightarrow> u32 list" where
  "pending_handles endpoint =
     map (\<lambda>offset. se_pending endpoint ! ((unat (se_pending_head endpoint) + offset) mod MAXIMUM_LISTEN_BACKLOG))
       [0..<unat (se_pending_length endpoint)]"

text \<open>\<open>close\<close> up to the release of the transfers it discards.\<close>

definition socket_close ::
    "process_handle \<Rightarrow> u32 \<Rightarrow> socket_registry \<Rightarrow> (transfer_token list, socket_error) result \<times> socket_registry" where
  "socket_close owner handle registry =
     (case socket_resolve registry owner handle of Err e \<Rightarrow> (Err e, registry)
      | Ok (index, endpoint) \<Rightarrow>
          if se_state endpoint = EsListening then
            (case close_pending owner (pending_handles endpoint) MAXIMUM_CLOSE_DISCARDS
                (set_endpoint index (retire_endpoint (sr_endpoints registry ! index)) registry) of
               (discarded, r) \<Rightarrow> (Ok discarded, r))
          else
            (case close_connected_endpoint MAXIMUM_CLOSE_DISCARDS index registry of (discarded, r) \<Rightarrow> (Ok discarded, r)))"

section \<open>Lemmas\<close>

interpretation skc: handle_codec socket_encode socket_decode MAXIMUM_SOCKET_ENDPOINTS
proof (rule tagged_codec_of [where k = SOCKET_INDEX_BITS])
  show "socket_encode i g = tagged_encode SOCKET_INDEX_BITS MAXIMUM_SOCKET_ENDPOINTS i g" for i g
    by (auto simp: socket_encode_def tagged_encode_def SOCKET_MAXIMUM_GENERATION_def word_less_nat_alt)
  show "socket_decode h = tagged_decode SOCKET_INDEX_BITS MAXIMUM_SOCKET_ENDPOINTS h" for h
    by (simp add: socket_decode_def tagged_decode_def SOCKET_INDEX_MASK_def mask_eq_exp_minus_1)
qed simp_all

lemma socket_resolve_Ok:
  "socket_resolve registry owner handle = Ok (i, e) \<longleftrightarrow>
    socket_decode handle = Some (i, se_generation e) \<and> e = sr_endpoints registry ! i \<and> se_occupied e \<and> se_owner e = owner"
  by (auto simp: socket_resolve_def Let_def split: rust_splits)

lemma connection_of_Some:
  "connection_of registry e P = Some (i, s) \<longleftrightarrow>
    i = unat (se_connection_index e) \<and> s = unat (se_side e) \<and> i < length (sr_connections registry) \<and> s < 2 \<and>
    cs_occupied (sr_connections registry ! i) \<and> cs_generation (sr_connections registry ! i) = se_connection_generation e \<and>
    P (sr_connections registry ! i) s"
  by (auto simp: connection_of_def Let_def split: if_splits)

lemma resolved_connection_Ok:
  "resolved_connection registry e handle = Ok (i, s) \<longleftrightarrow> se_state e = EsConnected \<and>
    connection_of registry e (\<lambda>c s. cs_endpoint_handles c ! s = handle \<and> cs_owners c ! s = se_owner e) = Some (i, s)"
  by (cases "connection_of registry e (\<lambda>c s. cs_endpoint_handles c ! s = handle \<and> cs_owners c ! s = se_owner e)")
    (auto simp: resolved_connection_def)

subsection \<open>Transfers in a queue\<close>

definition record_tokens :: "rights_record \<Rightarrow> transfer_token list" where
  "record_tokens r = take (unat (rg_count r)) (rg_tokens r)"

definition rights_line :: "rights_queue \<Rightarrow> rights_record list" where
  "rights_line q = ring_contents (unat (rq_head q)) (unat (rq_length q)) (rq_records q)"

definition queue_tokens :: "rights_queue \<Rightarrow> transfer_token multiset" where
  "queue_tokens q = mset (concat (map record_tokens (rights_line q)))"

definition record_ok :: "rights_record \<Rightarrow> bool" where
  "record_ok r \<longleftrightarrow> unat (rg_count r) \<le> MAXIMUM_TRANSFER_DESCRIPTORS \<and> length (rg_tokens r) = MAXIMUM_TRANSFER_DESCRIPTORS"

definition rights_ok :: "rights_queue \<Rightarrow> bool" where
  "rights_ok q \<longleftrightarrow> length (rq_records q) = MAXIMUM_RIGHTS_RECORDS \<and> unat (rq_head q) < MAXIMUM_RIGHTS_RECORDS \<and>
     unat (rq_length q) \<le> MAXIMUM_RIGHTS_RECORDS \<and> list_all record_ok (rq_records q)"

lemma length_rights_line [simp]: "length (rights_line q) = unat (rq_length q)"
  by (simp add: rights_line_def)

lemma record_empty_ok [simp]: "record_ok RIGHTS_RECORD_EMPTY" "record_tokens RIGHTS_RECORD_EMPTY = []"
  by (simp_all add: record_ok_def RIGHTS_RECORD_EMPTY_def record_tokens_def)

lemma rights_empty_ok [simp]: "rights_ok RIGHTS_QUEUE_EMPTY" "queue_tokens RIGHTS_QUEUE_EMPTY = {#}"
  by (simp_all add: rights_ok_def RIGHTS_QUEUE_EMPTY_def queue_tokens_def rights_line_def list_all_iff)

lemma rights_reset_ok [simp]: "rights_ok q \<Longrightarrow> rights_ok (rights_reset_empty q)" "queue_tokens (rights_reset_empty q) = {#}"
  by (simp_all add: rights_ok_def rights_reset_empty_def queue_tokens_def rights_line_def list_all_iff record_ok_def)

lemma rights_push_Ok:
  assumes "rights_ok q" "rights_push s tokens q = (Ok (), q')"
  shows "rights_ok q'" "\<exists>r. rights_line q' = rights_line q @ [r] \<and> rg_sequence r = s \<and> record_tokens r = tokens"
    "queue_tokens q' = queue_tokens q + mset tokens" "tokens \<noteq> []" "\<forall>t \<in> set tokens. token_occupied t"
proof -
  let ?r = "RIGHTS_RECORD_EMPTY\<lparr>rg_sequence := s, rg_count := of_nat (length tokens),
    rg_tokens := tokens @ drop (length tokens) (rg_tokens RIGHTS_RECORD_EMPTY)\<rparr>"
  let ?i = "(unat (rq_head q) + unat (rq_length q)) mod MAXIMUM_RIGHTS_RECORDS"
  from assms(2) have t: "tokens \<noteq> []" "length tokens \<le> 8" "unat (rq_length q) < 8" "\<forall>t \<in> set tokens. token_occupied t"
    and q': "q' = q\<lparr>rq_records := (rq_records q)[?i := ?r], rq_length := rq_length q + 1\<rparr>"
    by (auto simp: rights_push_def Let_def list_ex_iff split: if_splits)
  from t(2) have u: "unat (of_nat (length tokens) :: u8) = length tokens" by (simp add: unat_of_nat)
  have r: "record_ok ?r" "record_tokens ?r = tokens" "rg_sequence ?r = s"
    using u t(2) by (simp_all add: record_ok_def record_tokens_def RIGHTS_RECORD_EMPTY_def)
  have inc: "unat (rq_length q + 1) = Suc (unat (rq_length q))" using t(3) by (simp add: unat_word_ariths)
  have line: "rights_line q' = rights_line q @ [?r]"
    using ring_contents_push [of "unat (rq_length q)" "rq_records q" "unat (rq_head q)" ?r] assms(1) t(3) inc
    by (simp add: q' rights_line_def rights_ok_def)
  show "rights_ok q'" using assms(1) r(1) inc t(3) by (simp add: q' rights_ok_def list_all_update)
  show "\<exists>r. rights_line q' = rights_line q @ [r] \<and> rg_sequence r = s \<and> record_tokens r = tokens"
    using line r by blast
  show "queue_tokens q' = queue_tokens q + mset tokens" using line r by (simp add: queue_tokens_def)
  show "tokens \<noteq> []" "\<forall>t \<in> set tokens. token_occupied t" using t by simp_all
qed

lemma rights_pop_line:
  assumes "rights_ok q" "rq_length q \<noteq> 0" "rights_pop n q = (out, q')"
  shows "rights_ok q'" "\<exists>r. rights_line q = r # rights_line q' \<and> out = take n (record_tokens r) \<and> rights_at q 0 = Some r"
    "unat (rq_length q') = unat (rq_length q) - 1"
proof -
  let ?h = "unat (rq_head q)" and ?k = "unat (rq_length q) - 1"
  let ?r = "rq_records q ! ?h"
  have k: "unat (rq_length q - 1) = ?k" "unat (rq_length q) = Suc ?k"
    using assms(2) by (simp_all add: unat_dec_word unat_gt_0 Suc_diff_1)
  have h: "unat (of_nat ((?h + 1) mod 8) :: u8) = (?h + 1) mod 8"
    using mod_less_divisor [of 8 "?h + 1"] by (simp add: unat_of_nat del: mod_less_divisor)
  from assms(2,3) have o: "out = take (min (unat (rg_count ?r)) n) (rg_tokens ?r)"
    and q': "q' = q\<lparr>rq_records := (rq_records q)[?h := RIGHTS_RECORD_EMPTY], rq_head := of_nat ((?h + 1) mod 8), rq_length := rq_length q - 1\<rparr>"
    by (auto simp: rights_pop_def Let_def)
  show "rights_ok q'" using assms(1) k h by (auto simp: q' rights_ok_def intro!: list_all_update)
  have "rights_line q = ?r # rights_line q'"
    using assms(1) k h ring_contents_Suc [of ?h "rq_records q" ?k]
      ring_contents_update_head [of ?h "rq_records q" ?k RIGHTS_RECORD_EMPTY]
    by (simp add: q' rights_line_def rights_ok_def)
  moreover have "rights_at q 0 = Some ?r" using k(2) assms(1) by (simp add: rights_at_def rights_ok_def)
  ultimately show "\<exists>r. rights_line q = r # rights_line q' \<and> out = take n (record_tokens r) \<and> rights_at q 0 = Some r"
    using o by (auto simp: record_tokens_def min.commute)
  show "unat (rq_length q') = unat (rq_length q) - 1" using k by (simp add: q')
qed

lemma mset_take_subset: "mset (take n xs) \<subseteq># mset xs"
  by (metis append_take_drop_id mset_append mset_subset_eq_add_left)

lemma rights_pop_tokens:
  assumes "rights_ok q" "rights_pop n q = (out, q')"
  shows "rights_ok q'" "mset out + queue_tokens q' \<subseteq># queue_tokens q" "length out \<le> n"
    "MAXIMUM_TRANSFER_DESCRIPTORS \<le> n \<Longrightarrow> mset out + queue_tokens q' = queue_tokens q"
proof -
  have "rights_ok q' \<and> mset out + queue_tokens q' \<subseteq># queue_tokens q \<and> length out \<le> n \<and>
    (MAXIMUM_TRANSFER_DESCRIPTORS \<le> n \<longrightarrow> mset out + queue_tokens q' = queue_tokens q)"
  proof (cases "rq_length q = 0")
    case True
    with assms show ?thesis by (simp add: rights_pop_def)
  next
    case False
    from rights_pop_line [OF assms(1) False assms(2)] obtain r where
      r: "rights_line q = r # rights_line q'" "out = take n (record_tokens r)" and q': "rights_ok q'" by auto
    have "length (record_tokens r) \<le> MAXIMUM_TRANSFER_DESCRIPTORS"
    proof -
      have "r = rq_records q ! (unat (rq_head q))"
        using r(1) False assms(1) unfolding rights_line_def
        by (metis Suc_diff_1 list.inject ring_contents_Suc rights_ok_def unat_gt_0)
      then have "record_ok r" using assms(1) by (simp add: rights_ok_def list_all_length)
      then show ?thesis by (simp add: record_ok_def record_tokens_def)
    qed
    with r q' show ?thesis by (auto simp: queue_tokens_def mset_take_subset subset_mset.add_mono)
  qed
  then show "rights_ok q'" "mset out + queue_tokens q' \<subseteq># queue_tokens q" "length out \<le> n"
    "MAXIMUM_TRANSFER_DESCRIPTORS \<le> n \<Longrightarrow> mset out + queue_tokens q' = queue_tokens q" by simp_all
qed

lemma rights_drain_loop_tokens:
  assumes "rights_ok q" "rights_drain_loop n q = (out, q')"
  shows "rights_ok q' \<and> mset out \<subseteq># queue_tokens q \<and> length out \<le> n \<and> rq_length q' = 0 \<and>
    (MAXIMUM_TRANSFER_DESCRIPTORS * unat (rq_length q) \<le> n \<longrightarrow> mset out = queue_tokens q)"
  using assms
proof (induction n q arbitrary: out q' rule: rights_drain_loop.induct)
  case (1 n q)
  show ?case
  proof (cases "rq_length q = 0")
    case True
    with 1 show ?thesis by (auto simp: rights_drain_loop.simps [of n q] queue_tokens_def rights_line_def)
  next
    case False
    obtain tokens q1 where p: "rights_pop n q = (tokens, q1)" by fastforce
    obtain rest where d: "rights_drain_loop (n - length tokens) q1 = (rest, q')" and o: "out = tokens @ rest"
      using 1(3) False p by (auto simp: rights_drain_loop.simps [of n q] split: prod.splits)
    note t = rights_pop_tokens [OF 1(2) p] and l = rights_pop_line [OF 1(2) False p]
    from 1(1) [OF False p [symmetric] t(1) d]
    have ih: "rights_ok q'" "mset rest \<subseteq># queue_tokens q1" "length rest \<le> n - length tokens" "rq_length q' = 0"
      "8 * unat (rq_length q1) \<le> n - length tokens \<Longrightarrow> mset rest = queue_tokens q1" by auto
    have "mset out \<subseteq># queue_tokens q"
      using o ih(2) t(2) by (metis mset_append subset_mset.add_left_mono subset_mset.order_trans)
    moreover have "mset out = queue_tokens q" if "8 * unat (rq_length q) \<le> n"
    proof -
      have pos: "0 < unat (rq_length q)" using False by (simp add: unat_gt_0)
      with that have "8 \<le> n" by linarith
      have "length tokens \<le> 8"
        using 1(2) p False by (auto simp: rights_pop_def Let_def rights_ok_def list_all_length record_ok_def)
      with l(3) pos that have "8 * unat (rq_length q1) \<le> n - length tokens" by linarith
      with ih(5) t(4) [OF \<open>8 \<le> n\<close>] o show ?thesis by simp
    qed
    ultimately show ?thesis using ih o t(3) by auto
  qed
qed

lemma rights_drain_tokens:
  assumes "rights_ok q" "rights_drain n q = (out, q')"
  shows "rights_ok q'" "queue_tokens q' = {#}" "mset out \<subseteq># queue_tokens q" "length out \<le> n"
    "MAXIMUM_TRANSFER_DESCRIPTORS * MAXIMUM_RIGHTS_RECORDS \<le> n \<Longrightarrow> mset out = queue_tokens q"
proof -
  obtain q1 where d: "rights_drain_loop n q = (out, q1)" and q': "q' = q1\<lparr>rq_head := 0\<rparr>"
    using assms(2) by (auto simp: rights_drain_def split: prod.splits)
  note t = rights_drain_loop_tokens [OF assms(1) d]
  show "rights_ok q'" "queue_tokens q' = {#}" "mset out \<subseteq># queue_tokens q" "length out \<le> n"
    using t by (simp_all add: q' rights_ok_def queue_tokens_def rights_line_def)
  show "mset out = queue_tokens q" if "MAXIMUM_TRANSFER_DESCRIPTORS * MAXIMUM_RIGHTS_RECORDS \<le> n"
    using t that assms(1) by (simp add: rights_ok_def)
qed

subsection \<open>The bytes in a queue\<close>

definition bq_contents :: "byte_queue \<Rightarrow> u8 list" where
  "bq_contents q = ring_contents (bq_head q) (bq_length q) (bq_bytes q)"

definition bq_ring :: "byte_queue \<Rightarrow> bool" where
  "bq_ring q \<longleftrightarrow> length (bq_bytes q) = SOCKET_BUFFER_BYTES \<and> bq_head q < SOCKET_BUFFER_BYTES \<and> bq_length q \<le> SOCKET_BUFFER_BYTES"

definition bq_get :: "nat \<Rightarrow> byte_queue \<Rightarrow> u8 list \<times> byte_queue" where
  "bq_get n q = (let (output, q1) = bq_take n q in (output, q1\<lparr>bq_length := bq_length q1 - n\<rparr>))"

lemma length_bq_contents [simp]: "length (bq_contents q) = bq_length q"
  by (simp add: bq_contents_def)

lemma bq_take_ring:
  assumes "length (bq_bytes q) = SOCKET_BUFFER_BYTES" "bq_head q < SOCKET_BUFFER_BYTES"
  shows "bq_take n q = (ring_contents (bq_head q) n (bq_bytes q), q\<lparr>bq_head := (bq_head q + n) mod SOCKET_BUFFER_BYTES\<rparr>)"
  using assms
proof (induction n arbitrary: q)
  case (Suc n)
  then show ?case by (simp add: Let_def ring_contents_Suc mod_add_left_eq)
qed simp

lemma bq_get_ring:
  "bq_ring q \<Longrightarrow> bq_get n q = (ring_contents (bq_head q) n (bq_bytes q),
    q\<lparr>bq_head := (bq_head q + n) mod SOCKET_BUFFER_BYTES, bq_length := bq_length q - n\<rparr>)"
  by (simp add: bq_get_def bq_take_ring bq_ring_def)

lemma bq_append_ring:
  "bq_ring q \<Longrightarrow> bq_length q + length input \<le> SOCKET_BUFFER_BYTES \<Longrightarrow>
    bq_ring (bq_append input q) \<and> bq_contents (bq_append input q) = bq_contents q @ input \<and>
    bq_sequence (bq_append input q) = bq_sequence q"
proof (induction input arbitrary: q)
  case (Cons byte input)
  then show ?case
    using ring_contents_push [of "bq_length q" "bq_bytes q" "bq_head q" byte]
    by (simp add: Let_def bq_ring_def bq_contents_def)
qed simp

interpretation bqs: byte_stream bq_contents bq_ring SOCKET_BUFFER_BYTES bq_append bq_get
proof
  show "bq_ring q \<Longrightarrow> length (bq_contents q) \<le> SOCKET_BUFFER_BYTES" for q by (simp add: bq_ring_def)
  show "bq_contents (bq_append xs q) = bq_contents q @ xs" "bq_ring (bq_append xs q)"
    if "bq_ring q" "length (bq_contents q) + length xs \<le> SOCKET_BUFFER_BYTES" for q xs
    using bq_append_ring [of q xs] that by simp_all
  fix q n
  assume q: "bq_ring q" "n \<le> length (bq_contents q)"
  then show "fst (bq_get n q) = take n (bq_contents q)"
    by (simp add: bq_get_ring bq_contents_def ring_contents_take)
  have l: "length (bq_bytes q) = SOCKET_BUFFER_BYTES" using q(1) by (simp add: bq_ring_def)
  show "bq_contents (snd (bq_get n q)) = drop n (bq_contents q)"
    using q ring_contents_drop [of n "bq_length q" "bq_head q" "bq_bytes q"] l
    by (simp add: bq_get_ring bq_contents_def)
  show "bq_ring (snd (bq_get n q))" using q by (auto simp: bq_get_ring bq_ring_def)
qed

lemma bq_reset_ring [simp]: "bq_ring q \<Longrightarrow> bq_ring (bq_reset q)" "bq_contents (bq_reset q) = []"
  by (simp_all add: bq_ring_def bq_reset_def bq_contents_def)

lemma bq_clear_ring [simp]: "bq_ring q \<Longrightarrow> bq_ring (bq_clear q)" "bq_contents (bq_clear q) = []"
  by (simp_all add: bq_ring_def bq_clear_def bq_contents_def)

lemma bq_peek_contents: "bq_ring q \<Longrightarrow> n \<le> bq_length q \<Longrightarrow> bq_peek n q = take n (bq_contents q)"
  by (intro nth_equalityI) (auto simp: bq_peek_def bq_contents_def ring_contents_nth bq_ring_def)

subsection \<open>The registry\<close>

text \<open>The two queues of one direction: every transfer is attached to a byte that is still queued,
  and to a later byte than the transfer before it.\<close>

definition placed :: "byte_queue \<Rightarrow> rights_queue \<Rightarrow> bool" where
  "placed q rights \<longleftrightarrow> sorted_wrt (<) (map rg_sequence (rights_line rights)) \<and>
     (\<forall>r \<in> set (rights_line rights). bq_sequence q \<le> rg_sequence r \<and> unat (rg_sequence r) < unat (bq_sequence q) + bq_length q)"

definition chan_ok :: "byte_queue \<Rightarrow> rights_queue \<Rightarrow> bool" where
  "chan_ok q rights \<longleftrightarrow> bq_ring q \<and> rights_ok rights \<and> placed q rights"

lemma chan_empty [simp]: "chan_ok BYTE_QUEUE_EMPTY RIGHTS_QUEUE_EMPTY"
  by (simp add: chan_ok_def placed_def bq_ring_def BYTE_QUEUE_EMPTY_def rights_line_def RIGHTS_QUEUE_EMPTY_def
      rights_empty_ok [unfolded RIGHTS_QUEUE_EMPTY_def])

lemma chan_reset [simp]: "chan_ok q rights \<Longrightarrow> chan_ok (bq_reset q) (rights_reset_empty rights)"
  by (simp add: chan_ok_def placed_def) (simp add: rights_line_def rights_reset_empty_def)

lemma chan_no_rights: "bq_ring q \<Longrightarrow> rights_ok rights \<Longrightarrow> rights_line rights = [] \<Longrightarrow> chan_ok q rights"
  by (simp add: chan_ok_def placed_def)

definition conn_ok :: "connection_slot \<Rightarrow> bool" where
  "conn_ok c \<longleftrightarrow> length (cs_endpoint_open c) = 2 \<and> length (cs_read_open c) = 2 \<and> length (cs_write_open c) = 2 \<and>
     length (cs_outgoing c) = 2 \<and> length (cs_outgoing_rights c) = 2 \<and>
     list_all2 chan_ok (cs_outgoing c) (cs_outgoing_rights c)"

definition sockets_ok :: "socket_registry \<Rightarrow> bool" where
  "sockets_ok r \<longleftrightarrow> length (sr_endpoints r) = MAXIMUM_SOCKET_ENDPOINTS \<and> length (sr_connections r) = MAXIMUM_CONNECTIONS \<and>
     list_all conn_ok (sr_connections r)"

text \<open>The transfers that wait in the registry.\<close>

definition conn_tokens :: "connection_slot \<Rightarrow> transfer_token multiset" where
  "conn_tokens c = (\<Sum>q \<leftarrow> cs_outgoing_rights c. queue_tokens q)"

definition socket_tokens :: "socket_registry \<Rightarrow> transfer_token multiset" where
  "socket_tokens r = (\<Sum>c \<leftarrow> sr_connections r. conn_tokens c)"

lemma socket_simps [simp]:
  "sr_connections (set_endpoint i e r) = sr_connections r" "socket_tokens (set_endpoint i e r) = socket_tokens r"
  "sockets_ok (set_endpoint i e r) = sockets_ok r" "length (sr_endpoints (set_endpoint i e r)) = length (sr_endpoints r)"
  "sr_endpoints (set_connection i c r) = sr_endpoints r"
  by (simp_all add: set_endpoint_def set_connection_def socket_tokens_def sockets_ok_def)

lemma conn_ok_simps [simp]: "conn_ok (touch_connection c) = conn_ok c" "conn_tokens (touch_connection c) = conn_tokens c"
  "conn_ok CONNECTION_EMPTY" "conn_tokens CONNECTION_EMPTY = {#}"
  by (simp_all add: conn_ok_def conn_tokens_def touch_connection_def CONNECTION_EMPTY_def)

lemma sockets_ok_conn: "sockets_ok r \<Longrightarrow> i < length (sr_connections r) \<Longrightarrow> conn_ok (sr_connections r ! i)"
  by (simp add: sockets_ok_def list_all_length)

lemma sockets_ok_set: "sockets_ok r \<Longrightarrow> conn_ok c \<Longrightarrow> sockets_ok (set_connection i c r)"
  by (simp add: sockets_ok_def set_connection_def list_all_update)

text \<open>Replacing a connection by one that holds no more than \<open>out\<close> less keeps the registry's
  balance; \<open>in_tokens\<close> are new.\<close>

lemma socket_tokens_set:
  assumes "i < length (sr_connections r)" "out + conn_tokens c \<subseteq># conn_tokens (sr_connections r ! i) + in_tokens"
  shows "out + socket_tokens (set_connection i c r) \<subseteq># socket_tokens r + in_tokens"
proof -
  have "socket_tokens (set_connection i c r) + conn_tokens (sr_connections r ! i) = socket_tokens r + conn_tokens c"
    using sum_table_update [OF assms(1), of conn_tokens c] by (simp add: socket_tokens_def set_connection_def)
  then have "out + socket_tokens (set_connection i c r) + conn_tokens (sr_connections r ! i)
      = socket_tokens r + (out + conn_tokens c)" by (simp add: ac_simps)
  also have "\<dots> \<subseteq># socket_tokens r + (conn_tokens (sr_connections r ! i) + in_tokens)"
    using assms(2) by (rule subset_mset.add_left_mono)
  also have "\<dots> = socket_tokens r + in_tokens + conn_tokens (sr_connections r ! i)" by (simp add: ac_simps)
  finally show ?thesis by (rule mset_subset_eq_mono_add_right_cancel [THEN iffD1])
qed

lemma conn_tokens_set:
  assumes "conn_ok c" "s < 2"
  shows "conn_tokens (c\<lparr>cs_outgoing_rights := (cs_outgoing_rights c)[s := q]\<rparr>) + queue_tokens (cs_outgoing_rights c ! s)
    = conn_tokens c + queue_tokens q"
  using sum_table_update [of s "cs_outgoing_rights c" queue_tokens q] assms by (simp add: conn_tokens_def conn_ok_def)

subsection \<open>What each call does to the transfers\<close>

text \<open>\<open>transfer_law r inn out r'\<close>: the registry stays well formed, and what is handed out and what
  stays queued was queued before or handed in.\<close>

definition transfer_law ::
    "socket_registry \<Rightarrow> transfer_token list \<Rightarrow> transfer_token list \<Rightarrow> socket_registry \<Rightarrow> bool" where
  "transfer_law r inn out r' \<longleftrightarrow> sockets_ok r' \<and> mset out + socket_tokens r' \<subseteq># socket_tokens r + mset inn"

lemma transfer_law_refl [simp]: "sockets_ok r \<Longrightarrow> transfer_law r [] [] r"
  by (simp add: transfer_law_def)

lemma transfer_law_kept: "sockets_ok r \<Longrightarrow> transfer_law r inn inn r"
  by (simp add: transfer_law_def add.commute)

lemma transfer_law_endpoint [simp]: "transfer_law r inn out (set_endpoint i e r') = transfer_law r inn out r'"
  "transfer_law (set_endpoint i e r) inn out r' = transfer_law r inn out r'"
  by (simp_all add: transfer_law_def)

lemma transfer_law_trans:
  assumes "transfer_law r [] out1 r1" "transfer_law r1 [] out2 r2"
  shows "transfer_law r [] (out1 @ out2) r2"
proof -
  have "mset (out1 @ out2) + socket_tokens r2 = mset out1 + (mset out2 + socket_tokens r2)" by (simp add: ac_simps)
  also have "\<dots> \<subseteq># mset out1 + socket_tokens r1"
    using assms(2) by (intro subset_mset.add_left_mono) (simp add: transfer_law_def)
  also have "\<dots> \<subseteq># socket_tokens r" using assms(1) by (simp add: transfer_law_def)
  finally show ?thesis using assms(2) by (simp add: transfer_law_def)
qed

lemma transfer_law_set:
  assumes "sockets_ok r" "i < length (sr_connections r)" "conn_ok c"
    "mset out + conn_tokens c \<subseteq># conn_tokens (sr_connections r ! i) + mset inn"
  shows "transfer_law r inn out (set_connection i c r)"
  using assms by (simp add: transfer_law_def sockets_ok_set socket_tokens_set)

lemma initialize_endpoint_frame:
  "initialize_endpoint i owner r = (res, r') \<Longrightarrow> \<exists>e. r' = r \<or> r' = set_endpoint i e r"
  by (auto simp: initialize_endpoint_def split: option.splits)

lemma initialize_connected_frame:
  "initialize_connected_endpoint i owner ci g s r = (res, r') \<Longrightarrow>
    sr_connections r' = sr_connections r \<and> sockets_ok r' = sockets_ok r \<and> socket_tokens r' = socket_tokens r"
  by (auto simp: initialize_connected_endpoint_def split: prod.splits result.splits dest!: initialize_endpoint_frame)

lemma connection_initialize_ok:
  assumes "conn_ok c"
  shows "conn_ok (connection_initialize g a b o1 o2 a1 a2 c)" "conn_tokens (connection_initialize g a b o1 o2 a1 a2 c) = {#}"
proof -
  show "conn_ok (connection_initialize g a b o1 o2 a1 a2 c)"
    using assms by (simp add: conn_ok_def connection_initialize_def list_all2_conv_all_nth)
  have "(\<Sum>q \<leftarrow> map rights_reset_empty qs. queue_tokens q) = {#}" for qs by (induction qs) simp_all
  then show "conn_tokens (connection_initialize g a b o1 o2 a1 a2 c) = {#}"
    by (simp add: conn_tokens_def connection_initialize_def)
qed

lemma reset_connection_ok:
  assumes "conn_ok c"
  shows "conn_ok (reset_preserving_generation c)" "conn_tokens (reset_preserving_generation c) = {#}"
proof -
  show "conn_ok (reset_preserving_generation c)"
    using assms by (simp add: conn_ok_def reset_preserving_generation_def list_all2_conv_all_nth)
  have "(\<Sum>q \<leftarrow> map rights_reset_empty qs. queue_tokens q) = {#}" for qs by (induction qs) simp_all
  then show "conn_tokens (reset_preserving_generation c) = {#}"
    by (simp add: conn_tokens_def reset_preserving_generation_def)
qed

lemma socket_create_law: "sockets_ok r \<Longrightarrow> socket_create owner d t p r = (res, r') \<Longrightarrow> transfer_law r [] [] r'"
  unfolding socket_create_def
  by (auto split: if_splits result.splits option.splits dest!: initialize_endpoint_frame)

lemma fresh_connection_law:
  assumes "sockets_ok r" "sr_connections r1 = sr_connections r" "sockets_ok r1" "socket_tokens r1 = socket_tokens r"
    "i < length (sr_connections r)"
  shows "transfer_law r [] [] (set_connection i (connection_initialize g a b o1 o2 a1 a2 (sr_connections r ! i)) r1)"
proof -
  have "transfer_law r1 [] [] (set_connection i (connection_initialize g a b o1 o2 a1 a2 (sr_connections r ! i)) r1)"
    using assms sockets_ok_conn [OF assms(1,5)] by (intro transfer_law_set) (simp_all add: connection_initialize_ok)
  then show ?thesis using assms(4) by (simp add: transfer_law_def)
qed

lemma socket_create_pair_law:
  assumes "sockets_ok r" "socket_create_pair owner d t p r = (res, r')"
  shows "transfer_law r [] [] r'"
proof -
  consider "r' = r"
    | ci g i1 x r1 where "initialize_connected_endpoint i1 owner ci g 0 r = (x, r1)" "r' = r1"
    | ci g i1 x i2 r1 r2 e y where "initialize_connected_endpoint i1 owner ci g 0 r = (x, r1)"
        "initialize_connected_endpoint i2 owner ci g 1 r1 = (y, r2)" "r' = set_endpoint i1 e r2"
    | ci a b g i1 x i2 r1 r2 y where "initialize_connected_endpoint i1 owner ci g 0 r = (x, r1)"
        "initialize_connected_endpoint i2 owner ci g 1 r1 = (y, r2)" "ci < length (sr_connections r)"
        "r' = set_connection ci (connection_initialize g a b owner owner UNNAMED UNNAMED (sr_connections r2 ! ci)) r2"
    using assms(2) unfolding socket_create_pair_def
    by (auto split: if_splits result.splits option.splits prod.splits dest: position_length)
  then show ?thesis
  proof cases
    case 2
    then show ?thesis using assms(1) initialize_connected_frame [OF 2(1)] by (simp add: transfer_law_def)
  next
    case 3
    then show ?thesis using assms(1) initialize_connected_frame [OF 3(1)] initialize_connected_frame [OF 3(2)]
      by (simp add: transfer_law_def)
  next
    case 4
    then show ?thesis using assms(1) initialize_connected_frame [OF 4(1)] initialize_connected_frame [OF 4(2)]
      by (simp add: fresh_connection_law)
  qed (use assms(1) in simp)
qed

lemma socket_bind_law: "sockets_ok r \<Longrightarrow> socket_bind owner h a r = (res, r') \<Longrightarrow> transfer_law r [] [] r'"
  by (auto simp: socket_bind_def split: if_splits result.splits prod.splits)

lemma socket_listen_law: "sockets_ok r \<Longrightarrow> socket_listen owner h n r = (res, r') \<Longrightarrow> transfer_law r [] [] r'"
  by (auto simp: socket_listen_def split: if_splits result.splits prod.splits)

lemma socket_accept_law: "sockets_ok r \<Longrightarrow> socket_accept owner h r = (res, r') \<Longrightarrow> transfer_law r [] [] r'"
  by (auto simp: socket_accept_def Let_def split: if_splits result.splits prod.splits)

lemma socket_connect_law:
  assumes "sockets_ok r" "socket_connect owner h a r = (res, r')"
  shows "transfer_law r [] [] r'"
proof -
  consider "r' = r"
    | i o2 ci g x r1 where "initialize_connected_endpoint i o2 ci g 1 r = (x, r1)" "r' = r1"
    | i o2 ci g x r1 e e' k l a1 a2 h2 where "initialize_connected_endpoint i o2 ci g 1 r = (x, r1)" "ci < length (sr_connections r)"
        "r' = set_endpoint l e' (set_connection ci (connection_initialize g h h2 owner o2 a1 a2
           (sr_connections (set_endpoint k e r1) ! ci)) (set_endpoint k e r1))"
    using assms(2) unfolding socket_connect_def Let_def
    by (auto split: if_splits result.splits option.splits prod.splits dest: position_length)
  then show ?thesis
  proof cases
    case 2
    then show ?thesis using assms(1) initialize_connected_frame [OF 2(1)] by (simp add: transfer_law_def)
  next
    case 3
    then show ?thesis using assms(1) initialize_connected_frame [OF 3(1)]
      by (simp add: fresh_connection_law)
  qed (use assms(1) in simp)
qed

subsection \<open>One direction of a connection\<close>

lemma rights_at_line: "rights_ok q \<Longrightarrow> rights_at q k = (if k < length (rights_line q) then Some (rights_line q ! k) else None)"
  by (simp add: rights_at_def rights_line_def ring_contents_nth rights_ok_def)

lemma tail_sequence_Some: "tail_sequence q = Some t \<Longrightarrow> bq_ring q \<Longrightarrow> unat t = unat (bq_sequence q) + bq_length q"
  by (simp add: tail_sequence_def checked_add_Some_iff bq_ring_def unat_of_nat)

lemma chan_send:
  assumes "chan_ok q rights" "tail_sequence q = Some t" "input \<noteq> []" "bq_length q + length input \<le> SOCKET_BUFFER_BYTES"
    "(if tokens = [] then (Ok (), rights) else rights_push t tokens rights) = (Ok (), rights')"
  shows "chan_ok (bq_append input q) rights'" "bq_contents (bq_append input q) = bq_contents q @ input"
    "queue_tokens rights' = queue_tokens rights + mset tokens"
proof -
  from assms(1) have ok: "bq_ring q" "rights_ok rights" "placed q rights" by (simp_all add: chan_ok_def)
  note ap = bq_append_ring [OF ok(1) assms(4)]
  then show c: "bq_contents (bq_append input q) = bq_contents q @ input" by simp
  have len: "bq_length (bq_append input q) = bq_length q + length input"
    using c by (metis length_append length_bq_contents)
  have t: "unat t = unat (bq_sequence q) + bq_length q" using assms(2) ok(1) by (rule tail_sequence_Some)
  have "chan_ok (bq_append input q) rights' \<and> queue_tokens rights' = queue_tokens rights + mset tokens"
  proof (cases "tokens = []")
    case True
    with assms(5) ap ok len show ?thesis by (auto simp: chan_ok_def placed_def)
  next
    case False
    with assms(5) have push: "rights_push t tokens rights = (Ok (), rights')" by simp
    note p = rights_push_Ok [OF ok(2) push]
    from p(2) obtain r where r: "rights_line rights' = rights_line rights @ [r]" "rg_sequence r = t" by auto
    have "0 < length input" using assms(3) by simp
    moreover have "x < t" if "x \<in> rg_sequence ` set (rights_line rights)" for x
      using that ok(3) t by (auto simp: placed_def word_less_nat_alt)
    ultimately have "placed (bq_append input q) rights'"
      using ok(3) ap len t r by (auto simp: placed_def sorted_wrt_append word_le_nat_alt)
    with ap p show ?thesis by (simp add: chan_ok_def)
  qed
  then show "chan_ok (bq_append input q) rights'" "queue_tokens rights' = queue_tokens rights + mset tokens" by simp_all
qed

lemma bq_small: "bq_ring q \<Longrightarrow> k \<le> bq_length q \<Longrightarrow> unat (of_nat k :: u64) = k"
  by (simp add: bq_ring_def unat_of_nat)

text \<open>The plan of a receive: it stays within the bytes queued and the room given, and it cuts the
  stream so that at most the first transfer belongs to what is read.\<close>

definition plan_fits :: "nat \<Rightarrow> u32 \<Rightarrow> nat \<Rightarrow> byte_queue \<Rightarrow> rights_queue \<Rightarrow> nat \<Rightarrow> bool \<Rightarrow> bool" where
  "plan_fits n flags room q rights copied deliver \<longleftrightarrow> copied \<le> n \<and> copied \<le> bq_length q \<and>
     (deliver \<longrightarrow> rights_line rights \<noteq> [] \<and> length (record_tokens (hd (rights_line rights))) \<le> room) \<and>
     (flags AND MSG_PEEK = 0 \<longrightarrow> (\<forall>r \<in> set (if deliver then tl (rights_line rights) else rights_line rights).
        unat (bq_sequence q) + copied \<le> unat (rg_sequence r)))"

lemma receive_plan_later:
  fixes e :: u64
  assumes "chan_ok q rights" "rights_line rights = first # rest" "unat e = unat (bq_sequence q) + copied"
    "receive_plan n flags room q rights = Ok (copied', deliver)" "copied = min n (bq_length q)"
  shows "plan_fits n flags room q rights copied' deliver"
proof -
  from assms(1) have ok: "bq_ring q" "rights_ok rights" "placed q rights" by (simp_all add: chan_ok_def)
  have small: "unat (of_nat copied :: u64) = copied"
    using ok(1) bq_small [of q copied] assms(5) by (simp add: min.cobounded2)
  have add: "checked_add (bq_sequence q) (of_nat copied) = Some e"
    using assms(3) small by (simp add: checked_add_Some_iff)
  have at: "rights_at rights 0 = Some first" "rights_at rights 1 = (case rest of [] \<Rightarrow> None | second # _ \<Rightarrow> Some second)"
    using ok(2) assms(2) by (auto simp: rights_at_line split: list.splits)
  have tok: "length (record_tokens first) \<le> unat (rg_count first)" by (simp add: record_tokens_def)
  have low: "\<forall>r \<in> set (first # rest). unat (bq_sequence q) \<le> unat (rg_sequence r)"
    "\<forall>r \<in> set rest. rg_sequence first < rg_sequence r" "sorted_wrt (<) (map rg_sequence rest)"
    using ok(3) assms(2) by (auto simp: placed_def word_le_nat_alt)
  have deliver: "deliver = (rg_sequence first < e \<and> flags AND MSG_PEEK = 0)"
    and room: "deliver \<Longrightarrow> unat (rg_count first) \<le> room"
    and copied': "copied' = (case rest of [] \<Rightarrow> copied
       | second # _ \<Rightarrow> if deliver \<and> rg_sequence second < e then unat (rg_sequence second - bq_sequence q) else copied)"
    using assms(4) at add unfolding receive_plan_def Let_def assms(5)
    by (auto split: option.splits if_splits list.splits)
  show ?thesis
  proof (cases rest)
    case Nil
    with assms(2,3,5) deliver room copied' tok low show ?thesis
      by (auto simp: plan_fits_def word_less_nat_alt)
  next
    case (Cons second others)
    have later: "\<forall>r \<in> set rest. rg_sequence second \<le> rg_sequence r" using low(3) Cons by (auto simp: less_imp_le)
    have cut: "unat (rg_sequence second - bq_sequence q) = unat (rg_sequence second) - unat (bq_sequence q)"
      using low(1) Cons by (simp add: unat_sub word_le_nat_alt)
    show ?thesis
    proof (cases "deliver \<and> rg_sequence second < e")
      case True
      with copied' cut Cons have "copied' = unat (rg_sequence second) - unat (bq_sequence q)" by simp
      with True assms(2,3,5) room tok low(1) later Cons show ?thesis
        by (auto simp: plan_fits_def word_less_nat_alt word_le_nat_alt)
    next
      case False
      with copied' Cons have c: "copied' = copied" by simp
      have "e \<le> rg_sequence r" if "flags AND MSG_PEEK = 0" "r \<in> set (if deliver then rest else first # rest)" for r
        using that False deliver low(2) later by (cases deliver) (auto intro: order_trans less_imp_le)
      then have "unat (bq_sequence q) + copied' \<le> unat (rg_sequence r)"
        if "flags AND MSG_PEEK = 0" "r \<in> set (if deliver then rest else first # rest)" for r
        using that assms(3) c by (simp add: word_le_nat_alt)
      moreover have "length (record_tokens first) \<le> room" if deliver using room [OF that] tok by simp
      ultimately show ?thesis using assms(2,5) c by (simp add: plan_fits_def)
    qed
  qed
qed

lemma receive_plan_fits:
  assumes "chan_ok q rights" "receive_plan n flags room q rights = Ok (copied, deliver)"
  shows "plan_fits n flags room q rights copied deliver"
proof (cases "rights_line rights")
  case Nil
  with assms show ?thesis by (auto simp: receive_plan_def plan_fits_def chan_ok_def rights_at_line Let_def)
next
  case (Cons first rest)
  then have "rights_at rights 0 = Some first" using assms(1) by (simp add: chan_ok_def rights_at_line)
  with assms(2) obtain e where "checked_add (bq_sequence q) (of_nat (min n (bq_length q))) = Some e"
    by (auto simp: receive_plan_def Let_def split: option.splits)
  then have "unat e = unat (bq_sequence q) + min n (bq_length q)"
    using assms(1) bq_small [of q "min n (bq_length q)"] by (simp add: checked_add_Some_iff chan_ok_def)
  then show ?thesis using assms Cons by (intro receive_plan_later) simp_all
qed

lemma chan_receive:
  assumes "chan_ok q rights" "plan_fits n flags room q rights copied deliver" "flags AND MSG_PEEK = 0"
    "bq_take copied q = (out, q1)" "checked_add (bq_sequence q1) (of_nat copied) = Some seq"
    "(tokens, rights') = (if deliver then rights_pop room rights else ([], rights))"
  shows "chan_ok (q1\<lparr>bq_length := bq_length q1 - copied, bq_sequence := seq\<rparr>) rights'"
    "out = take copied (bq_contents q)"
    "bq_contents (q1\<lparr>bq_length := bq_length q1 - copied, bq_sequence := seq\<rparr>) = drop copied (bq_contents q)"
    "mset tokens + queue_tokens rights' = queue_tokens rights"
proof -
  from assms(1) have ok: "bq_ring q" "rights_ok rights" "placed q rights" by (simp_all add: chan_ok_def)
  from assms(2) have le: "copied \<le> bq_length q" by (simp add: plan_fits_def)
  have q1: "q1 = q\<lparr>bq_head := (bq_head q + copied) mod SOCKET_BUFFER_BYTES\<rparr>"
    using assms(4) bq_take_ring [of q copied] ok(1) by (simp add: bq_ring_def)
  have get: "bq_get copied q = (out, q1\<lparr>bq_length := bq_length q1 - copied\<rparr>)" using assms(4) by (simp add: bq_get_def)
  have g: "fst (bq_get copied q) = take copied (bq_contents q)" "bq_contents (snd (bq_get copied q)) = drop copied (bq_contents q)"
    "bq_ring (snd (bq_get copied q))"
    using bqs.get_bytes [OF ok(1), of copied] bqs.get_contents [OF ok(1), of copied] bqs.get_invar [OF ok(1), of copied] le by simp_all
  then show "out = take copied (bq_contents q)"
    "bq_contents (q1\<lparr>bq_length := bq_length q1 - copied, bq_sequence := seq\<rparr>) = drop copied (bq_contents q)"
    using get by (simp_all add: bq_contents_def)
  have seq: "unat seq = unat (bq_sequence q) + copied"
    using assms(5) bq_small [OF ok(1) le] by (simp add: checked_add_Some_iff q1)
  have "rights_ok rights' \<and> rights_line rights' = (if deliver then tl (rights_line rights) else rights_line rights) \<and>
    mset tokens + queue_tokens rights' = queue_tokens rights"
  proof (cases deliver)
    case True
    with assms(2) have r: "rights_line rights \<noteq> []" "length (record_tokens (hd (rights_line rights))) \<le> room"
      by (simp_all add: plan_fits_def)
    then have "rq_length rights \<noteq> 0" using length_rights_line [of rights] by (metis length_0_conv unat_0)
    from rights_pop_line [OF ok(2) this, of room tokens rights'] True assms(6) r(2) show ?thesis
      by (auto simp: queue_tokens_def)
  qed (use assms(6) ok(2) in auto)
  moreover from this have "placed (q1\<lparr>bq_length := bq_length q1 - copied, bq_sequence := seq\<rparr>) rights'"
    using ok(3) assms(2,3) seq le
    by (cases "rights_line rights") (auto simp: placed_def plan_fits_def q1 word_le_nat_alt)
  ultimately show "chan_ok (q1\<lparr>bq_length := bq_length q1 - copied, bq_sequence := seq\<rparr>) rights'"
    "mset tokens + queue_tokens rights' = queue_tokens rights"
    using g(3) get by (simp_all add: chan_ok_def bq_ring_def)
qed

text \<open>The sequence number can only run out on a stream without transfers: with one queued, the plan
  has already refused.\<close>

lemma chan_overflow:
  assumes "chan_ok q rights" "receive_plan n flags room q rights = Ok (copied, deliver)" "bq_take copied q = (out, q1)"
    "checked_add (bq_sequence q1) (of_nat copied) = None"
  shows "chan_ok (q1\<lparr>bq_length := bq_length q1 - copied\<rparr>) rights"
proof -
  from assms(1) have ok: "bq_ring q" "rights_ok rights" by (simp_all add: chan_ok_def)
  have q1: "q1 = q\<lparr>bq_head := (bq_head q + copied) mod SOCKET_BUFFER_BYTES\<rparr>"
    using assms(3) bq_take_ring [of q copied] ok(1) by (simp add: bq_ring_def)
  have le: "copied \<le> min n (bq_length q)" using receive_plan_fits [OF assms(1,2)] by (simp add: plan_fits_def)
  have "rights_line rights = []"
  proof (rule ccontr)
    assume "rights_line rights \<noteq> []"
    then have "rights_at rights 0 \<noteq> None" using ok(2) by (simp add: rights_at_line del: length_rights_line)
    with assms(2) obtain e where "checked_add (bq_sequence q) (of_nat (min n (bq_length q))) = Some e"
      by (auto simp: receive_plan_def Let_def split: option.splits)
    then have "unat (bq_sequence q) + min n (bq_length q) < 2 ^ 64"
      using bq_small [OF ok(1), of "min n (bq_length q)"]
      by (simp add: checked_add_def min.cobounded2 split: if_splits)
    moreover have "unat (of_nat copied :: u64) = copied" using bq_small [OF ok(1), of copied] le by simp
    ultimately show False using assms(4) le by (simp add: checked_add_def q1 split: if_splits)
  qed
  with ok show ?thesis by (intro chan_no_rights) (auto simp: q1 bq_ring_def)
qed

lemma socket_receive_unfold:
  assumes "socket_resolve r owner h = Ok (i, e)" "resolved_connection r e h = Ok (ci, s)" "c = sr_connections r ! ci"
    "q = cs_outgoing c ! (1 - s)" "rights = cs_outgoing_rights c ! (1 - s)" "receive_plan n flags room q rights = Ok (copied, deliver)"
    "bq_take copied q = (out, q1)" "(if deliver then rights_pop room rights else ([], rights)) = (tokens, rights')"
  shows "socket_receive_message owner h n flags room r =
    (if flags AND NOT RECEIVE_FLAGS \<noteq> 0 then (Err SkOperationNotSupported, r)
     else if \<not> cs_read_open c ! s \<or> n = 0 then (Ok ([], []), r)
     else if bq_length q = 0 then (if cs_write_open c ! (1 - s) then Err SkWouldBlock else Ok ([], []), r)
     else if flags AND MSG_PEEK \<noteq> 0 then (Ok (bq_peek copied q, []), r)
     else case checked_add (bq_sequence q1) (of_nat copied) of
       None \<Rightarrow> (Err SkCapacity, set_connection ci (c\<lparr>cs_outgoing := (cs_outgoing c)[1 - s := q1\<lparr>bq_length := bq_length q1 - copied\<rparr>]\<rparr>) r)
     | Some seq \<Rightarrow> (Ok (out, tokens), set_connection ci (touch_connection
         (c\<lparr>cs_outgoing := (cs_outgoing c)[1 - s := q1\<lparr>bq_length := bq_length q1 - copied, bq_sequence := seq\<rparr>],
            cs_outgoing_rights := (cs_outgoing_rights c)[1 - s := rights']\<rparr>)) r))"
  unfolding socket_receive_message_def Let_def assms(1,2) result.case prod.case assms(3) [symmetric] assms(4,5) [symmetric]
    assms(6-8)
  by (simp split: option.split)

text \<open>One direction of one connection replaced, whatever else of the connection changes: the
  registry's transfers move with that direction's.\<close>

lemma conn_chan:
  assumes "conn_ok c" "s < 2"
  shows "chan_ok (cs_outgoing c ! s) (cs_outgoing_rights c ! s)"
  using assms by (simp add: conn_ok_def list_all2_conv_all_nth)

definition chan_put :: "nat \<Rightarrow> byte_queue \<Rightarrow> rights_queue \<Rightarrow> connection_slot \<Rightarrow> connection_slot" where
  "chan_put s q rights c = c\<lparr>cs_outgoing := (cs_outgoing c)[s := q], cs_outgoing_rights := (cs_outgoing_rights c)[s := rights]\<rparr>"

lemma chan_put_ok: "conn_ok c \<Longrightarrow> chan_ok q rights \<Longrightarrow> conn_ok (chan_put s q rights c)"
  by (simp add: conn_ok_def chan_put_def list_all2_update_cong)

lemma chan_put_tokens:
  assumes "conn_ok c" "s < 2" "out + queue_tokens rights = queue_tokens (cs_outgoing_rights c ! s) + inn"
  shows "out + conn_tokens (chan_put s q rights c) = conn_tokens c + inn"
proof -
  have "conn_tokens (chan_put s q rights c) = conn_tokens (c\<lparr>cs_outgoing_rights := (cs_outgoing_rights c)[s := rights]\<rparr>)"
    by (simp add: conn_tokens_def chan_put_def)
  with conn_tokens_set [OF assms(1,2), of rights]
  have "conn_tokens (chan_put s q rights c) + queue_tokens (cs_outgoing_rights c ! s) = conn_tokens c + queue_tokens rights"
    by simp
  then have "out + conn_tokens (chan_put s q rights c) + queue_tokens (cs_outgoing_rights c ! s)
      = conn_tokens c + inn + queue_tokens (cs_outgoing_rights c ! s)"
    using assms(3) by (metis (no_types, lifting) add.assoc add.commute)
  then show ?thesis by simp
qed

definition transfer_exact ::
    "socket_registry \<Rightarrow> transfer_token list \<Rightarrow> transfer_token list \<Rightarrow> socket_registry \<Rightarrow> bool" where
  "transfer_exact r inn out r' \<longleftrightarrow> sockets_ok r' \<and> mset out + socket_tokens r' = socket_tokens r + mset inn"

lemma transfer_exact_law: "transfer_exact r inn out r' \<Longrightarrow> transfer_law r inn out r'"
  by (simp add: transfer_exact_def transfer_law_def)

lemma transfer_exact_set:
  assumes "sockets_ok r" "i < length (sr_connections r)" "conn_ok c"
    "mset out + conn_tokens c = conn_tokens (sr_connections r ! i) + mset inn"
  shows "transfer_exact r inn out (set_connection i c r)"
proof -
  have "socket_tokens (set_connection i c r) + conn_tokens (sr_connections r ! i) = socket_tokens r + conn_tokens c"
    using sum_table_update [OF assms(2), of conn_tokens c] by (simp add: socket_tokens_def set_connection_def)
  then have "mset out + socket_tokens (set_connection i c r) + conn_tokens (sr_connections r ! i)
      = socket_tokens r + mset inn + conn_tokens (sr_connections r ! i)"
    using assms(4) by (metis (no_types, lifting) add.assoc add.commute)
  then show ?thesis using assms(1,3) by (simp add: transfer_exact_def sockets_ok_set)
qed

lemma socket_receive_cases:
  assumes "sockets_ok r" "socket_receive_message owner h n flags room r = (res, r')"
  obtains (idle) "r' = r" "\<forall>out tokens. res = Ok (out, tokens) \<longrightarrow> tokens = [] \<and> (flags AND MSG_PEEK = 0 \<longrightarrow> out = [])"
  | (taken) i e ci s c copied q' rights' tokens where
      "socket_resolve r owner h = Ok (i, e)" "resolved_connection r e h = Ok (ci, s)" "c = sr_connections r ! ci"
      "copied \<le> n" "copied \<le> bq_length (cs_outgoing c ! (1 - s))"
      "res = Ok (take copied (bq_contents (cs_outgoing c ! (1 - s))), tokens)"
      "chan_ok q' rights'" "bq_contents q' = drop copied (bq_contents (cs_outgoing c ! (1 - s)))"
      "mset tokens + queue_tokens rights' = queue_tokens (cs_outgoing_rights c ! (1 - s))"
      "r' = set_connection ci (touch_connection (chan_put (1 - s) q' rights' c)) r"
  | (overflow) i e ci s c q' where
      "socket_resolve r owner h = Ok (i, e)" "resolved_connection r e h = Ok (ci, s)" "c = sr_connections r ! ci"
      "res = Err SkCapacity" "chan_ok q' (cs_outgoing_rights c ! (1 - s))"
      "r' = set_connection ci (chan_put (1 - s) q' (cs_outgoing_rights c ! (1 - s)) c) r"
proof (cases "socket_resolve r owner h")
  case (Err e)
  with assms show ?thesis by (intro idle) (auto simp: socket_receive_message_def split: if_splits)
next
  case (Ok p)
  then obtain i e where p: "socket_resolve r owner h = Ok (i, e)" by (cases p) auto
  show ?thesis
  proof (cases "resolved_connection r e h")
    case (Err x)
    with assms p show ?thesis by (intro idle) (auto simp: socket_receive_message_def split: if_splits)
  next
    case (Ok y)
    then obtain ci s where y: "resolved_connection r e h = Ok (ci, s)" by (cases y) auto
    define c where "c = sr_connections r ! ci"
    let ?q = "cs_outgoing c ! (1 - s)" and ?rights = "cs_outgoing_rights c ! (1 - s)"
    have "conn_ok c" using sockets_ok_conn [OF assms(1)] y by (simp add: c_def resolved_connection_Ok connection_of_Some)
    then have ok: "chan_ok ?q ?rights" using conn_chan [of c "1 - s"] by simp
    show ?thesis
    proof (cases "receive_plan n flags room ?q ?rights")
      case (Err x)
      with assms p y show ?thesis
        by (intro idle) (auto simp: socket_receive_message_def Let_def c_def split: if_splits)
    next
      case (Ok z)
      then obtain copied deliver where z: "receive_plan n flags room ?q ?rights = Ok (copied, deliver)" by (cases z) auto
      obtain out q1 where t: "bq_take copied ?q = (out, q1)" by fastforce
      obtain tokens rights' where k: "(if deliver then rights_pop room ?rights else ([], ?rights)) = (tokens, rights')"
        by (metis surj_pair)
      note fits = receive_plan_fits [OF ok z]
      note eq = assms(2) [unfolded socket_receive_unfold [OF p y c_def refl refl z t k]]
      consider "r' = r" "\<forall>out tokens. res = Ok (out, tokens) \<longrightarrow> tokens = [] \<and> (flags AND MSG_PEEK = 0 \<longrightarrow> out = [])"
        | "checked_add (bq_sequence q1) (of_nat copied) = None" "res = Err SkCapacity"
            "r' = set_connection ci (c\<lparr>cs_outgoing := (cs_outgoing c)[1 - s := q1\<lparr>bq_length := bq_length q1 - copied\<rparr>]\<rparr>) r"
        | seq where "flags AND MSG_PEEK = 0" "checked_add (bq_sequence q1) (of_nat copied) = Some seq" "res = Ok (out, tokens)"
            "r' = set_connection ci (touch_connection (chan_put (1 - s) (q1\<lparr>bq_length := bq_length q1 - copied, bq_sequence := seq\<rparr>) rights' c)) r"
        using eq by (auto simp: chan_put_def split: if_splits option.splits)
      then show ?thesis
      proof cases
        case 1
        then show ?thesis by (rule idle)
      next
        case 2
        have "chan_put (1 - s) q' ?rights c = c\<lparr>cs_outgoing := (cs_outgoing c)[1 - s := q']\<rparr>" for q'
          by (simp add: chan_put_def)
        with 2 show ?thesis by (intro overflow [OF p y c_def 2(2) chan_overflow [OF ok z t 2(1)]]) simp
      next
        case 3
        note ch = chan_receive [OF ok fits 3(1) t 3(2) k [symmetric]]
        show ?thesis using 3 fits ch by (intro taken [OF p y c_def _ _ _ ch(1,3,4)]) (simp_all add: plan_fits_def)
      qed
    qed
  qed
qed

lemma connected_conn:
  assumes "sockets_ok r" "resolved_connection r e h = Ok (ci, s)"
  shows "ci < length (sr_connections r)" "s < 2" "1 - s < 2" "conn_ok (sr_connections r ! ci)"
  using assms sockets_ok_conn [OF assms(1)] by (auto simp: resolved_connection_Ok connection_of_Some)

lemma transfer_exact_chan:
  assumes "sockets_ok r" "resolved_connection r e h = Ok (ci, s)" "c = sr_connections r ! ci" "k < 2" "chan_ok q' rights'"
    "mset out + queue_tokens rights' = queue_tokens (cs_outgoing_rights c ! k) + mset inn"
  shows "transfer_exact r inn out (set_connection ci (chan_put k q' rights' c) r)"
    "transfer_exact r inn out (set_connection ci (touch_connection (chan_put k q' rights' c)) r)"
  using assms connected_conn [OF assms(1,2)] by (auto intro!: transfer_exact_set chan_put_ok chan_put_tokens)

lemma transfer_exact_refl [simp]: "sockets_ok r \<Longrightarrow> transfer_exact r inn inn r"
  by (simp add: transfer_exact_def add.commute)

lemma socket_receive_law:
  assumes "sockets_ok r" "socket_receive_message owner h n flags room r = (res, r')"
  shows "transfer_exact r [] (case res of Ok (_, tokens) \<Rightarrow> tokens | Err _ \<Rightarrow> []) r'"
  using assms
proof (cases rule: socket_receive_cases)
  case idle
  then have "(case res of Ok (_, tokens) \<Rightarrow> tokens | Err _ \<Rightarrow> []) = []" by (auto split: result.splits)
  with idle assms(1) show ?thesis by simp
next
  case (taken i e ci s c copied q' rights' tokens)
  then show ?thesis using transfer_exact_chan(2) [OF assms(1) taken(2,3) _ taken(7), of "1 - s" tokens "[]"] by simp
next
  case (overflow i e ci s c q')
  then show ?thesis using transfer_exact_chan(1) [OF assms(1) overflow(2,3) _ overflow(5), of "1 - s" "[]" "[]"] by simp
qed

lemma socket_send_unfold:
  assumes "socket_resolve r owner h = Ok (i, e)" "resolved_connection r e h = Ok (ci, s)" "c = sr_connections r ! ci"
    "q = cs_outgoing c ! s" "tail_sequence q = Some t" "copied = min (length input) (SOCKET_BUFFER_BYTES - bq_length q)"
    "(if tokens = [] then (Ok (), cs_outgoing_rights c ! s) else rights_push t tokens (cs_outgoing_rights c ! s)) = (pushed, rights')"
  shows "socket_send_message owner h input flags tokens r =
    (if flags AND NOT SEND_FLAGS \<noteq> 0 then (Err SkOperationNotSupported, tokens, r)
     else if \<not> cs_write_open c ! s \<or> \<not> cs_read_open c ! (1 - s) then (Err SkBrokenPipe, tokens, r)
     else if input = [] then (if tokens = [] then (Ok 0, tokens, r) else (Err SkInvalidArgument, tokens, r))
     else if SOCKET_BUFFER_BYTES - bq_length q = 0 then (Err SkWouldBlock, tokens, r)
     else case pushed of Err e \<Rightarrow> (Err e, tokens, r)
     | Ok _ \<Rightarrow> (Ok copied, [], set_connection ci (touch_connection (chan_put s (bq_append (take copied input) q) rights' c)) r))"
  unfolding socket_send_message_def Let_def assms(1,2) result.case prod.case assms(3) [symmetric] assms(4) [symmetric]
    assms(5,7) option.case assms(6) [symmetric] chan_put_def
  by (simp split: result.split)

lemma socket_send_cases:
  assumes "sockets_ok r" "socket_send_message owner h input flags tokens r = (res, left, r')"
  obtains (refused) "r' = r" "left = tokens" "\<forall>n. res = Ok n \<longrightarrow> n = 0 \<and> input = [] \<and> tokens = []"
  | (sent) i e ci s c copied q' rights' where
      "socket_resolve r owner h = Ok (i, e)" "resolved_connection r e h = Ok (ci, s)" "c = sr_connections r ! ci"
      "copied = min (length input) (SOCKET_BUFFER_BYTES - bq_length (cs_outgoing c ! s))" "0 < copied"
      "res = Ok copied" "left = []" "chan_ok q' rights'"
      "bq_contents q' = bq_contents (cs_outgoing c ! s) @ take copied input"
      "queue_tokens rights' = queue_tokens (cs_outgoing_rights c ! s) + mset tokens"
      "r' = set_connection ci (touch_connection (chan_put s q' rights' c)) r"
proof (cases "socket_resolve r owner h")
  case (Err e)
  with assms show ?thesis by (intro refused) (auto simp: socket_send_message_def split: if_splits)
next
  case (Ok p)
  then obtain i e where p: "socket_resolve r owner h = Ok (i, e)" by (cases p) auto
  show ?thesis
  proof (cases "resolved_connection r e h")
    case (Err x)
    with assms p show ?thesis by (intro refused) (auto simp: socket_send_message_def split: if_splits)
  next
    case (Ok y)
    then obtain ci s where y: "resolved_connection r e h = Ok (ci, s)" by (cases y) auto
    define c where "c = sr_connections r ! ci"
    let ?q = "cs_outgoing c ! s" and ?rights = "cs_outgoing_rights c ! s"
    let ?n = "min (length input) (SOCKET_BUFFER_BYTES - bq_length ?q)"
    have ok: "chan_ok ?q ?rights" using connected_conn [OF assms(1) y] by (simp add: c_def conn_chan)
    show ?thesis
    proof (cases "tail_sequence ?q")
      case None
      with assms p y show ?thesis
        by (intro refused) (auto simp: socket_send_message_def Let_def c_def split: if_splits)
    next
      case (Some t)
      obtain pushed rights' where k: "(if tokens = [] then (Ok (), ?rights) else rights_push t tokens ?rights) = (pushed, rights')"
        by (metis surj_pair)
      note eq = assms(2) [unfolded socket_send_unfold [OF p y c_def refl Some refl k]]
      consider "r' = r" "left = tokens" "\<forall>n. res = Ok n \<longrightarrow> n = 0 \<and> input = [] \<and> tokens = []"
        | "input \<noteq> []" "0 < ?n" "pushed = Ok ()" "res = Ok ?n" "left = []"
          "r' = set_connection ci (touch_connection (chan_put s (bq_append (take ?n input) ?q) rights' c)) r"
        using eq by (auto split: if_splits result.splits)
      then show ?thesis
      proof cases
        case 1
        then show ?thesis by (rule refused)
      next
        case 2
        then have "take ?n input \<noteq> []" "bq_length ?q + length (take ?n input) \<le> SOCKET_BUFFER_BYTES" by auto
        note ch = chan_send [OF ok Some this, of tokens rights']
        show ?thesis using 2 ch k by (intro sent [OF p y c_def refl 2(2,4,5)]) simp_all
      qed
    qed
  qed
qed

lemma socket_send_law:
  assumes "sockets_ok r" "socket_send_message owner h input flags tokens r = (res, left, r')"
  shows "transfer_exact r tokens left r'"
  using assms
proof (cases rule: socket_send_cases)
  case refused
  with assms(1) show ?thesis by simp
next
  case (sent i e ci s c copied q' rights')
  then show ?thesis
    using transfer_exact_chan(2) [OF assms(1) sent(2,3) _ sent(8), of s "[]" tokens] connected_conn [OF assms(1) sent(2)] by simp
qed

subsection \<open>Shutdown and close\<close>

lemma rights_drain_line: "rights_ok q \<Longrightarrow> rights_drain n q = (out, q') \<Longrightarrow> rights_line q' = []"
  using rights_drain_loop_tokens by (fastforce simp: rights_drain_def rights_line_def split: prod.splits)

lemma conn_ok_flags:
  "conn_ok c \<Longrightarrow> conn_ok (c\<lparr>cs_read_open := (cs_read_open c)[s := b]\<rparr>)"
  "conn_ok c \<Longrightarrow> conn_ok (c\<lparr>cs_write_open := (cs_write_open c)[s := b]\<rparr>)"
  "conn_ok c \<Longrightarrow> conn_ok (c\<lparr>cs_endpoint_open := (cs_endpoint_open c)[s := b]\<rparr>)"
  "conn_tokens (c\<lparr>cs_read_open := xs\<rparr>) = conn_tokens c" "conn_tokens (c\<lparr>cs_write_open := xs\<rparr>) = conn_tokens c"
  "conn_tokens (c\<lparr>cs_endpoint_open := xs\<rparr>) = conn_tokens c"
  by (simp_all add: conn_ok_def conn_tokens_def)

text \<open>Discarding what one side has not read, with room for a whole queue.\<close>

lemma chan_drain:
  assumes "conn_ok c" "s < 2" "rights_drain n (cs_outgoing_rights c ! s) = (tokens, q)"
  shows "conn_ok (chan_put s (bq_clear (cs_outgoing c ! s)) q c)"
    "mset tokens + conn_tokens (chan_put s (bq_clear (cs_outgoing c ! s)) q c) \<subseteq># conn_tokens c" "length tokens \<le> n"
    "64 \<le> n \<Longrightarrow> mset tokens + conn_tokens (chan_put s (bq_clear (cs_outgoing c ! s)) q c) = conn_tokens c"
proof -
  have ch: "bq_ring (cs_outgoing c ! s)" "rights_ok (cs_outgoing_rights c ! s)"
    using conn_chan [OF assms(1,2)] by (simp_all add: chan_ok_def)
  note d = rights_drain_tokens [OF ch(2) assms(3)] and l = rights_drain_line [OF ch(2) assms(3)]
  show "conn_ok (chan_put s (bq_clear (cs_outgoing c ! s)) q c)"
    using assms(1) ch(1) d(1) l by (intro chan_put_ok chan_no_rights) simp_all
  let ?rest = "queue_tokens (cs_outgoing_rights c ! s) - mset tokens"
  have "queue_tokens (cs_outgoing_rights c ! s) + queue_tokens q = queue_tokens (cs_outgoing_rights c ! s) + {#}"
    using d(2) by simp
  from chan_put_tokens [OF assms(1,2) this]
  have all: "queue_tokens (cs_outgoing_rights c ! s) + conn_tokens (chan_put s (bq_clear (cs_outgoing c ! s)) q c) = conn_tokens c"
    by simp
  then show "mset tokens + conn_tokens (chan_put s (bq_clear (cs_outgoing c ! s)) q c) \<subseteq># conn_tokens c"
    using d(3) by (metis subset_mset.add_right_mono)
  show "length tokens \<le> n" by (rule d(4))
  show "mset tokens + conn_tokens (chan_put s (bq_clear (cs_outgoing c ! s)) q c) = conn_tokens c" if "64 \<le> n"
    using d(5) that all by simp
qed

lemma socket_shutdown_law:
  assumes "sockets_ok r" "socket_shutdown owner h how r = (res, r')"
  shows "transfer_exact r [] (case res of Ok discarded \<Rightarrow> discarded | Err _ \<Rightarrow> []) r'"
proof (cases res)
  case (Err x)
  with assms show ?thesis by (auto simp: socket_shutdown_def Let_def split: rust_splits)
next
  case (Ok discarded)
  with assms(2) obtain i e ci s where p: "socket_resolve r owner h = Ok (i, e)" "resolved_connection r e h = Ok (ci, s)"
    by (auto simp: socket_shutdown_def split: rust_splits)
  define c where "c = sr_connections r ! ci"
  note cc = connected_conn [OF assms(1) p(2), folded c_def]
  obtain tokens q where d: "rights_drain 64 (cs_outgoing_rights c ! (1 - s)) = (tokens, q)" by fastforce
  define c0 where "c0 = c\<lparr>cs_read_open := (cs_read_open c)[s := False]\<rparr>"
  have "conn_ok c0" "rights_drain 64 (cs_outgoing_rights c0 ! (1 - s)) = (tokens, q)" "conn_tokens c0 = conn_tokens c"
    using conn_ok_flags(1) [OF cc(4)] d by (simp_all add: c0_def conn_ok_flags)
  note dr = chan_drain [OF this(1) cc(3) this(2)] this(3)
  let ?c1 = "chan_put (1 - s) (bq_clear (cs_outgoing c0 ! (1 - s))) q c0"
  obtain c2 where c2: "r' = set_connection ci (touch_connection c2) r"
    "conn_ok c2 \<and> mset discarded + conn_tokens c2 = conn_tokens c"
  proof (cases "how = SHUT_RD \<or> how = SHUT_RDWR")
    case True
    with assms(2) Ok p d dr conn_ok_flags(2) [OF dr(1), of s False] show ?thesis
      by (intro that [of "if how = SHUT_WR \<or> how = SHUT_RDWR then ?c1\<lparr>cs_write_open := (cs_write_open ?c1)[s := False]\<rparr> else ?c1"])
        (auto simp: socket_shutdown_def Let_def c0_def c_def chan_put_def conn_ok_flags split: if_splits)
  next
    case False
    with assms(2) Ok p cc conn_ok_flags(2) [OF cc(4), of s False] show ?thesis
      by (intro that [of "if how = SHUT_WR \<or> how = SHUT_RDWR then c\<lparr>cs_write_open := (cs_write_open c)[s := False]\<rparr> else c"])
        (auto simp: socket_shutdown_def Let_def c_def conn_ok_flags split: if_splits)
  qed
  with assms(1) cc(1) Ok show ?thesis by (auto simp: c_def intro!: transfer_exact_set)
qed

lemma retire_connection_tokens:
  assumes "conn_ok c" "retire_connection n c = (tokens, c')"
  shows "conn_ok c'" "conn_tokens c' = {#}" "mset tokens \<subseteq># conn_tokens c" "length tokens \<le> n"
    "128 \<le> n \<Longrightarrow> mset tokens = conn_tokens c"
proof -
  obtain first q0 second q1 where d: "rights_drain n (cs_outgoing_rights c ! 0) = (first, q0)"
    "rights_drain (n - length first) (cs_outgoing_rights c ! 1) = (second, q1)"
    and t: "tokens = first @ second" and c': "c' = reset_preserving_generation (c\<lparr>cs_outgoing_rights := [q0, q1]\<rparr>)"
    using assms(2) by (auto simp: retire_connection_def split: prod.splits)
  have ok: "rights_ok (cs_outgoing_rights c ! 0)" "rights_ok (cs_outgoing_rights c ! 1)"
    "bq_ring (cs_outgoing c ! 0)" "bq_ring (cs_outgoing c ! 1)"
    using conn_chan [OF assms(1), of 0] conn_chan [OF assms(1), of 1] by (simp_all add: chan_ok_def)
  note d0 = rights_drain_tokens [OF ok(1) d(1)] and d1 = rights_drain_tokens [OF ok(2) d(2)]
  have two: "\<exists>a b. xs = [a, b]" if "length xs = 2" for xs :: "'a list"
    using that by (auto simp: numeral_2_eq_2 length_Suc_conv)
  have "conn_ok (c\<lparr>cs_outgoing_rights := [q0, q1]\<rparr>)"
    using assms(1) two [of "cs_outgoing c"] ok d0(1) d1(1) rights_drain_line [OF ok(1) d(1)] rights_drain_line [OF ok(2) d(2)]
    by (auto simp: conn_ok_def intro: chan_no_rights)
  from reset_connection_ok [OF this] c' show "conn_ok c'" "conn_tokens c' = {#}" by simp_all
  have all: "conn_tokens c = queue_tokens (cs_outgoing_rights c ! 0) + queue_tokens (cs_outgoing_rights c ! 1)"
    using assms(1) two [of "cs_outgoing_rights c"] by (auto simp: conn_ok_def conn_tokens_def)
  show "mset tokens \<subseteq># conn_tokens c" using d0(3) d1(3) by (simp add: t all subset_mset.add_mono)
  show "length tokens \<le> n" using d0(4) d1(4) by (simp add: t)
  show "mset tokens = conn_tokens c" if "128 \<le> n"
  proof -
    have "length first \<le> 64"
    proof -
      have "mset first = queue_tokens (cs_outgoing_rights c ! 0)" using d0(5) that by simp
      moreover have "mset (fst (rights_drain 64 (cs_outgoing_rights c ! 0))) = queue_tokens (cs_outgoing_rights c ! 0)"
        "length (fst (rights_drain 64 (cs_outgoing_rights c ! 0))) \<le> 64"
        using rights_drain_tokens(4,5) [OF ok(1) surjective_pairing, of 64] by simp_all
      ultimately show ?thesis by (metis size_mset)
    qed
    then show ?thesis using d0(5) d1(5) that by (simp add: t all)
  qed
qed

lemma connection_side_closed_tokens:
  assumes "conn_ok c" "s < 2" "connection_side_closed n s c = (tokens, c')"
  shows "conn_ok c'" "mset tokens + conn_tokens c' \<subseteq># conn_tokens c" "length tokens \<le> n"
proof -
  define c0 where "c0 = c\<lparr>cs_endpoint_open := (cs_endpoint_open c)[s := False], cs_read_open := (cs_read_open c)[s := False],
    cs_write_open := (cs_write_open c)[s := False]\<rparr>"
  have c0: "conn_ok c0" "conn_tokens c0 = conn_tokens c" using assms(1) by (simp_all add: c0_def conn_ok_def conn_tokens_def)
  obtain first q where d: "rights_drain n (cs_outgoing_rights c0 ! (1 - s)) = (first, q)" by fastforce
  have "1 - s < 2" by linarith
  note dr = chan_drain [OF c0(1) this d]
  let ?c1 = "touch_connection (chan_put (1 - s) (bq_clear (cs_outgoing c0 ! (1 - s))) q c0)"
  have eq: "(tokens, c') = (if \<not> cs_endpoint_open ?c1 ! 0 \<and> \<not> cs_endpoint_open ?c1 ! 1
      then (case retire_connection (n - length first) ?c1 of (rest, c2) \<Rightarrow> (first @ rest, c2)) else (first, ?c1))"
  proof -
    have "rights_drain n (cs_outgoing_rights c ! (1 - s)) = (first, q)" using d by (simp add: c0_def)
    then show ?thesis
      unfolding assms(3) [symmetric] connection_side_closed_def Let_def by (simp add: c0_def chan_put_def)
  qed
  have "conn_ok c' \<and> mset tokens + conn_tokens c' \<subseteq># conn_tokens c \<and> length tokens \<le> n"
  proof (cases "\<not> cs_endpoint_open ?c1 ! 0 \<and> \<not> cs_endpoint_open ?c1 ! 1")
    case True
    with eq obtain rest where r: "retire_connection (n - length first) ?c1 = (rest, c')" "tokens = first @ rest"
      by (auto split: prod.splits)
    have ok1: "conn_ok ?c1" using dr(1) by simp
    note rt = retire_connection_tokens [OF ok1 r(1)]
    have "mset rest \<subseteq># conn_tokens ?c1" by (rule rt(3))
    then have "mset tokens + conn_tokens c' \<subseteq># mset first + conn_tokens ?c1" using r(2) rt(2) by simp
    also have "\<dots> \<subseteq># conn_tokens c" using dr(2) c0(2) by simp
    finally show ?thesis using rt(1,4) dr(3) r(2) by simp
  next
    case False
    from eq [unfolded if_not_P [OF False]] have "tokens = first" "c' = ?c1" by simp_all
    then show ?thesis using dr c0(2) by simp
  qed
  then show "conn_ok c'" "mset tokens + conn_tokens c' \<subseteq># conn_tokens c" "length tokens \<le> n" by simp_all
qed

lemma close_connected_endpoint_law:
  assumes "sockets_ok r" "close_connected_endpoint n i r = (tokens, r')"
  shows "transfer_law r [] tokens r'"
proof -
  obtain c0 where c0: "(case c0 of None \<Rightarrow> tokens = [] \<and> r' = set_endpoint i (retire_endpoint (sr_endpoints r ! i)) r
     | Some (ci, s) \<Rightarrow> ci < length (sr_connections r) \<and> s < 2 \<and> (\<exists>c'. connection_side_closed n s (sr_connections r ! ci) = (tokens, c') \<and>
         r' = set_endpoint i (retire_endpoint (sr_endpoints r ! i)) (set_connection ci c' r)))"
    using assms(2) that unfolding close_connected_endpoint_def Let_def
    by (fastforce simp: connection_of_Some split: option.splits prod.splits if_splits)
  show ?thesis
  proof (cases c0)
    case None
    with c0 assms(1) show ?thesis by simp
  next
    case (Some p)
    with c0 obtain ci s c' where p: "ci < length (sr_connections r)" "s < 2"
      "connection_side_closed n s (sr_connections r ! ci) = (tokens, c')"
      "r' = set_endpoint i (retire_endpoint (sr_endpoints r ! i)) (set_connection ci c' r)" by (cases p) auto
    from connection_side_closed_tokens [OF sockets_ok_conn [OF assms(1) p(1)] p(2,3)] assms(1) p(1)
    show ?thesis by (simp add: p(4) transfer_law_set)
  qed
qed

lemma close_pending_law:
  "sockets_ok r \<Longrightarrow> close_pending owner handles n r = (tokens, r') \<Longrightarrow> transfer_law r [] tokens r'"
proof (induction handles arbitrary: n r tokens r')
  case Nil
  then show ?case by simp
next
  case (Cons h handles)
  show ?case
  proof (cases "close_pending owner (h # handles) n r = close_pending owner handles n r")
    case True
    with Cons show ?thesis by metis
  next
    case False
    with Cons.prems(2) obtain i k r1 rest where step: "close_connected_endpoint n i r = (k, r1)"
      "close_pending owner handles (n - length k) r1 = (rest, r')" "tokens = k @ rest"
      by (auto simp: Let_def split: option.splits if_splits prod.splits)
    from close_connected_endpoint_law [OF Cons.prems(1) step(1)] have l: "transfer_law r [] k r1" .
    then have "sockets_ok r1" by (simp add: transfer_law_def)
    from transfer_law_trans [OF l Cons.IH [OF this step(2)]] step(3) show ?thesis by simp
  qed
qed

lemma socket_close_law:
  assumes "sockets_ok r" "socket_close owner h r = (res, r')"
  shows "transfer_law r [] (case res of Ok discarded \<Rightarrow> discarded | Err _ \<Rightarrow> []) r'"
proof (cases res)
  case (Err x)
  with assms show ?thesis by (auto simp: socket_close_def split: rust_splits)
next
  case (Ok discarded)
  with assms(2) consider
    i hs where "close_pending owner hs MAXIMUM_CLOSE_DISCARDS (set_endpoint i (retire_endpoint (sr_endpoints r ! i)) r) = (discarded, r')"
  | i where "close_connected_endpoint MAXIMUM_CLOSE_DISCARDS i r = (discarded, r')"
    by (auto simp: socket_close_def split: rust_splits)
  then show ?thesis
  proof cases
    case 1
    with close_pending_law [OF _ 1] assms(1) Ok show ?thesis by simp
  next
    case 2
    with close_connected_endpoint_law [OF assms(1) 2] Ok show ?thesis by simp
  qed
qed

section \<open>The registry as a machine\<close>

inductive socket_step :: "socket_registry \<Rightarrow> socket_registry \<Rightarrow> bool" where
  "socket_create owner d t p r = (c, r') \<Longrightarrow> socket_step r r'"
| "socket_create_pair owner d t p r = (cp, r') \<Longrightarrow> socket_step r r'"
| "socket_bind owner h a r = (b, r') \<Longrightarrow> socket_step r r'"
| "socket_listen owner h n r = (l, r') \<Longrightarrow> socket_step r r'"
| "socket_connect owner h a r = (k, r') \<Longrightarrow> socket_step r r'"
| "socket_accept owner h r = (ac, r') \<Longrightarrow> socket_step r r'"
| "socket_send_message owner h input flags tokens r = (s, left, r') \<Longrightarrow> socket_step r r'"
| "socket_receive_message owner h n flags room r = (v, r') \<Longrightarrow> socket_step r r'"
| "socket_shutdown owner h how r = (x, r') \<Longrightarrow> socket_step r r'"
| "socket_close owner h r = (x, r') \<Longrightarrow> socket_step r r'"

lemma transfer_law_ok: "transfer_law r inn out r' \<Longrightarrow> sockets_ok r'" "transfer_exact r inn out r' \<Longrightarrow> sockets_ok r'"
  by (simp_all add: transfer_law_def transfer_exact_def)

lemma socket_step_ok:
  assumes "sockets_ok r" "socket_step r r'"
  shows "sockets_ok r'"
  using assms(2)
proof cases
  case 1
  then show ?thesis by (rule transfer_law_ok(1) [OF socket_create_law [OF assms(1)]])
next
  case 2
  then show ?thesis by (rule transfer_law_ok(1) [OF socket_create_pair_law [OF assms(1)]])
next
  case 3
  then show ?thesis by (rule transfer_law_ok(1) [OF socket_bind_law [OF assms(1)]])
next
  case 4
  then show ?thesis by (rule transfer_law_ok(1) [OF socket_listen_law [OF assms(1)]])
next
  case 5
  then show ?thesis by (rule transfer_law_ok(1) [OF socket_connect_law [OF assms(1)]])
next
  case 6
  then show ?thesis by (rule transfer_law_ok(1) [OF socket_accept_law [OF assms(1)]])
next
  case 7
  then show ?thesis by (rule transfer_law_ok(2) [OF socket_send_law [OF assms(1)]])
next
  case 8
  then show ?thesis by (rule transfer_law_ok(2) [OF socket_receive_law [OF assms(1)]])
next
  case 9
  then show ?thesis by (rule transfer_law_ok(2) [OF socket_shutdown_law [OF assms(1)]])
next
  case 10
  then show ?thesis by (rule transfer_law_ok(1) [OF socket_close_law [OF assms(1)]])
qed

interpretation skm: invariant_machine "\<lambda>r. r = socket_registry_new" socket_step sockets_ok
proof
  show "r = socket_registry_new \<Longrightarrow> sockets_ok r" for r
    by (simp add: sockets_ok_def socket_registry_new_def list_all_iff)
qed (rule socket_step_ok)

text \<open>The bytes in flight from side \<open>s\<close> of connection \<open>ci\<close>, and the side a socket is.\<close>

definition stream_bytes :: "socket_registry \<Rightarrow> nat \<Rightarrow> nat \<Rightarrow> u8 list" where
  "stream_bytes r ci s = bq_contents (cs_outgoing (sr_connections r ! ci) ! s)"

definition socket_side :: "socket_registry \<Rightarrow> process_handle \<Rightarrow> u32 \<Rightarrow> (nat \<times> nat) option" where
  "socket_side r owner h =
     (case socket_resolve r owner h of Err _ \<Rightarrow> None
      | Ok (_, e) \<Rightarrow> (case resolved_connection r e h of Err _ \<Rightarrow> None | Ok p \<Rightarrow> Some p))"

lemma stream_bytes_put:
  assumes "sockets_ok r" "resolved_connection r e h = Ok (ci, s)" "k < 2"
  shows "stream_bytes (set_connection ci (touch_connection (chan_put k q' rights' (sr_connections r ! ci))) r) ci' s' =
    (if ci' = ci \<and> s' = k then bq_contents q' else stream_bytes r ci' s')"
proof -
  note cc = connected_conn [OF assms(1,2)]
  from cc(4) have "length (cs_outgoing (sr_connections r ! ci)) = 2" by (simp add: conn_ok_def)
  with cc(1) assms(3) show ?thesis
    by (cases "ci' = ci"; cases "s' = k") (simp_all add: stream_bytes_def set_connection_def touch_connection_def chan_put_def)
qed

lemma socket_send_effect:
  assumes "sockets_ok r" "socket_send_message owner h input flags tokens r = (Ok k, left, r')" "input \<noteq> []"
  shows "left = [] \<and> 0 < k \<and> k \<le> length input \<and> (\<exists>ci s. socket_side r owner h = Some (ci, s) \<and>
    (\<forall>ci' s'. stream_bytes r' ci' s' = stream_bytes r ci' s' @ (if ci' = ci \<and> s' = s then take k input else [])))"
  using assms(1,2)
proof (cases rule: socket_send_cases)
  case refused
  with assms(3) show ?thesis by simp
next
  case (sent i e ci s c copied q' rights')
  note cc = connected_conn [OF assms(1) sent(2)]
  have "socket_side r owner h = Some (ci, s)" using sent(1,2) by (simp add: socket_side_def)
  moreover have "stream_bytes r' ci' s' = stream_bytes r ci' s' @ (if ci' = ci \<and> s' = s then take k input else [])" for ci' s'
    using stream_bytes_put [OF assms(1) sent(2) cc(2), of q' rights' ci' s'] sent(3,6,9,11) by (simp add: stream_bytes_def)
  ultimately show ?thesis using sent(4-7) by auto
qed

lemma socket_receive_effect:
  assumes "sockets_ok r" "socket_receive_message owner h n flags room r = (Ok (out, given), r')" "flags AND MSG_PEEK = 0"
  shows "length out \<le> n \<and> (out = [] \<and> given = [] \<and> r' = r \<or> (\<exists>ci s. socket_side r owner h = Some (ci, s) \<and>
    (\<forall>ci' s'. stream_bytes r ci' s' = (if ci' = ci \<and> s' = 1 - s then out else []) @ stream_bytes r' ci' s')))"
  using assms(1,2)
proof (cases rule: socket_receive_cases)
  case idle
  with assms(3) show ?thesis by simp
next
  case (taken i e ci s c copied q' rights' tokens)
  note cc = connected_conn [OF assms(1) taken(2)]
  have "socket_side r owner h = Some (ci, s)" using taken(1,2) by (simp add: socket_side_def)
  moreover have "stream_bytes r ci' s' = (if ci' = ci \<and> s' = 1 - s then out else []) @ stream_bytes r' ci' s'" for ci' s'
    using stream_bytes_put [OF assms(1) taken(2) cc(3), of q' rights' ci' s'] taken(3,6,8,10) by (simp add: stream_bytes_def)
  ultimately show ?thesis using taken(4,6) by auto
qed simp

lemma socket_send_refused:
  assumes "sockets_ok r" "socket_send_message owner h input flags tokens r = (Err x, left, r')"
  shows "left = tokens \<and> r' = r"
  using assms by (cases rule: socket_send_cases) simp_all

text \<open>C7. Stream sockets carry every byte once, in order, and lose no descriptor in flight. In every
  registry the calls can reach: a send that takes \<open>k\<close> bytes of a non-empty input appends exactly the
  first \<open>k\<close> of them to the sender's direction of its connection and touches no other stream; the
  attached transfers are then queued, and after a refused send they are all back with the caller. A
  receive that is not a peek takes a prefix of the peer's direction and leaves the rest, or takes
  nothing at all. The multiset of transfers is balanced exactly: those handed out and those still
  queued are those queued before and those handed in, also across a shutdown.\<close>

theorem sockets_carry_streams_and_transfers:
  assumes "socket_step\<^sup>*\<^sup>* socket_registry_new r"
  shows "(\<forall>owner h input flags tokens res left r'. socket_send_message owner h input flags tokens r = (res, left, r') \<longrightarrow>
      mset left + socket_tokens r' = socket_tokens r + mset tokens \<and>
      (\<forall>k. res = Ok k \<longrightarrow> input \<noteq> [] \<longrightarrow> left = [] \<and> 0 < k \<and> k \<le> length input \<and>
        (\<exists>ci s. socket_side r owner h = Some (ci, s) \<and>
         (\<forall>ci' s'. stream_bytes r' ci' s' = stream_bytes r ci' s' @ (if ci' = ci \<and> s' = s then take k input else [])))) \<and>
      (\<forall>x. res = Err x \<longrightarrow> left = tokens \<and> r' = r)) \<and>
    (\<forall>owner h n flags room res r'. socket_receive_message owner h n flags room r = (res, r') \<longrightarrow>
      mset (case res of Ok (_, given) \<Rightarrow> given | Err _ \<Rightarrow> []) + socket_tokens r' = socket_tokens r \<and>
      (\<forall>out given. res = Ok (out, given) \<longrightarrow> flags AND MSG_PEEK = 0 \<longrightarrow> length out \<le> n \<and>
         (out = [] \<and> given = [] \<and> r' = r \<or> (\<exists>ci s. socket_side r owner h = Some (ci, s) \<and>
           (\<forall>ci' s'. stream_bytes r ci' s' = (if ci' = ci \<and> s' = 1 - s then out else []) @ stream_bytes r' ci' s'))))) \<and>
    (\<forall>owner h how res r'. socket_shutdown owner h how r = (res, r') \<longrightarrow>
      mset (case res of Ok discarded \<Rightarrow> discarded | Err _ \<Rightarrow> []) + socket_tokens r' = socket_tokens r)"
proof -
  from skm.inv_reachable [OF refl assms] have ok: "sockets_ok r" .
  show ?thesis
    using socket_send_law [OF ok] socket_receive_law [OF ok] socket_shutdown_law [OF ok]
      socket_send_effect [OF ok] socket_send_refused [OF ok] socket_receive_effect [OF ok]
    by (intro conjI allI impI) (simp_all add: transfer_exact_def)
qed

text \<open>A pair of sockets in a fresh registry.\<close>

definition demo_pair_owner :: process_handle where "demo_pair_owner = \<lparr>ph_pid = 5, ph_generation = 1\<rparr>"

abbreviation demo_pair_connection :: connection_slot where
  "demo_pair_connection \<equiv> connection_initialize 1 0x101 0x102 demo_pair_owner demo_pair_owner UNNAMED UNNAMED CONNECTION_EMPTY"

definition demo_pair_end :: "u8 \<Rightarrow> socket_endpoint" where
  "demo_pair_end side = SOCKET_ENDPOINT_EMPTY\<lparr>se_occupied := True, se_generation := 1, se_owner := demo_pair_owner,
     se_readiness_generation := 1, se_state := EsConnected, se_connection_index := 0, se_connection_generation := 1, se_side := side\<rparr>"

definition demo_pair :: socket_registry where
  "demo_pair = \<lparr>sr_endpoints = demo_pair_end 0 # demo_pair_end 1 # replicate 62 SOCKET_ENDPOINT_EMPTY,
     sr_connections = demo_pair_connection # replicate 31 CONNECTION_EMPTY\<rparr>"

lemma demo_pair_facts:
  "socket_decode 0x101 = Some (0, 1)" "socket_encode 0 1 = Some 0x101" "socket_encode 1 1 = Some 0x102"
  "next_endpoint_generation 0 = Some 1" "next_connection_generation 0 = Some 1" "validate_create AF_UNIX SOCK_STREAM 0 = Ok ()"
  "valid_owner demo_pair_owner"
  by code_simp+

lemma socket_registry_new_cons:
  "socket_registry_new = \<lparr>sr_endpoints = SOCKET_ENDPOINT_EMPTY # SOCKET_ENDPOINT_EMPTY # replicate 62 SOCKET_ENDPOINT_EMPTY,
     sr_connections = CONNECTION_EMPTY # replicate 31 CONNECTION_EMPTY\<rparr>"
  by (simp add: socket_registry_new_def numeral_eq_Suc)

lemma demo_pair_created: "socket_create_pair demo_pair_owner AF_UNIX SOCK_STREAM 0 socket_registry_new = (Ok (0x101, 0x102), demo_pair)"
proof -
  have e: "\<not> se_occupied SOCKET_ENDPOINT_EMPTY" "se_generation SOCKET_ENDPOINT_EMPTY = 0" "\<not> cs_occupied CONNECTION_EMPTY"
    "cs_generation CONNECTION_EMPTY = 0"
    by (simp_all add: SOCKET_ENDPOINT_EMPTY_def CONNECTION_EMPTY_def)
  show ?thesis
    by (simp add: socket_create_pair_def demo_pair_facts [simplified] demo_pair_facts(6) socket_registry_new_cons e position_from_def
        initialize_connected_endpoint_def initialize_endpoint_def set_endpoint_def set_connection_def demo_pair_def demo_pair_end_def)
qed

theorem sockets_carry_streams_and_transfers_witness:
  "socket_step\<^sup>*\<^sup>* socket_registry_new demo_pair \<and>
   fst (socket_send_message demo_pair_owner 0x101 [7, 8] 0 [] demo_pair) = Ok 2 \<and>
   stream_bytes (snd (snd (socket_send_message demo_pair_owner 0x101 [7, 8] 0 [] demo_pair))) 0 0 = [7, 8]"
proof -
  let ?c = demo_pair_connection
  have reach: "socket_step\<^sup>*\<^sup>* socket_registry_new demo_pair"
    by (rule r_into_rtranclp [where r = socket_step, OF socket_step.intros(2) [OF demo_pair_created]])
  have c: "sr_connections demo_pair ! 0 = ?c" "cs_outgoing ?c = [bq_reset BYTE_QUEUE_EMPTY, bq_reset BYTE_QUEUE_EMPTY]"
    "cs_write_open ?c = [True, True]" "cs_read_open ?c = [True, True]"
    by (simp_all add: demo_pair_def connection_initialize_def CONNECTION_EMPTY_def)
  have q: "bq_length (bq_reset BYTE_QUEUE_EMPTY) = 0" "tail_sequence (bq_reset BYTE_QUEUE_EMPTY) = Some 0"
    "bq_contents (bq_reset BYTE_QUEUE_EMPTY) = []"
    by (simp_all add: bq_reset_def tail_sequence_def checked_add_def bq_contents_def)
  have p: "socket_resolve demo_pair demo_pair_owner 0x101 = Ok (0, demo_pair_end 0)"
    using demo_pair_facts(1) by (simp add: socket_resolve_Ok demo_pair_def demo_pair_end_def)
  have y: "resolved_connection demo_pair (demo_pair_end 0) 0x101 = Ok (0, 0)"
    by (simp add: resolved_connection_Ok connection_of_Some) (simp add: demo_pair_def demo_pair_end_def connection_initialize_def)
  have side: "socket_side demo_pair demo_pair_owner 0x101 = Some (0, 0)" using p y by (simp add: socket_side_def)
  obtain r' where s: "socket_send_message demo_pair_owner 0x101 [7, 8] 0 [] demo_pair = (Ok 2, [], r')"
    using socket_send_unfold [OF p y c(1) [symmetric] refl, of 0 _ "[7, 8]" "[]" "Ok ()" _ 0, OF _ refl] c q by simp
  have "stream_bytes demo_pair 0 0 = []" by (simp add: stream_bytes_def c q)
  with conjunct1 [OF sockets_carry_streams_and_transfers [OF reach], rule_format, OF s] side
  have "stream_bytes r' 0 0 = [7, 8]" by auto
  with reach s show ?thesis by simp
qed

end
