(* ===== verification/FdRegistry.thy ===== *)
theory FdRegistry
  imports ObjectKey Lifecycle
begin

unbundle bit_operations_syntax

text \<open>
  The descriptor registry of \<^verbatim>\<open>src/src/linux_fd.rs\<close>: 64 descriptor spaces of 128
  descriptors over 8192 open objects. An object counts the descriptors and transfers that name it,
  the epoll watches on it, and the operations that run on it. Every definition here is one section
  under the registry lock; a section that takes the last reference returns the object to finalize,
  which the module then does outside the lock.
\<close>

section \<open>State\<close>

abbreviation MAXIMUM_FILE_DESCRIPTORS :: nat where "MAXIMUM_FILE_DESCRIPTORS \<equiv> 128"
abbreviation MAXIMUM_DESCRIPTOR_SPACES :: nat where "MAXIMUM_DESCRIPTOR_SPACES \<equiv> MAXIMUM_PROCESSES"
abbreviation MAXIMUM_OPEN_OBJECTS :: nat where "MAXIMUM_OPEN_OBJECTS \<equiv> 8192"
definition FD_CLOEXEC :: u32 where "FD_CLOEXEC = 1"

definition O_RDONLY :: u32 where "O_RDONLY = 0"
definition O_WRONLY :: u32 where "O_WRONLY = 1"
definition O_NONBLOCK :: u32 where "O_NONBLOCK = 0x800"

datatype vfs_error =
  VfsNotFound | VfsAlreadyExists | VfsPermissionDenied | VfsNotDirectory | VfsNotFile | VfsDirectoryNotEmpty
  | VfsInvalidPath | VfsInvalidHandle | VfsCapacity | VfsFileTooLarge | VfsBusy | VfsUnsupported | VfsInvalidSeek

datatype file_error = FileInvalidArgument | FileBadFileDescriptor | FileCapacity | FileVfs vfs_error

datatype descriptor_error =
  FdInvalidArgument | FdBadFileDescriptor | FdCapacity | FdWouldBlock | FdBrokenPipe | FdIllegalSeek
  | FdAlreadyExists | FdNotFound | FdAddressFamilyNotSupported | FdAddressInUse | FdConnectionRefused
  | FdAlreadyConnected | FdNotConnected | FdNotSocket | FdOperationNotSupported | FdOperationNotPermitted
  | FdPermissionDenied | FdIo | FdFile file_error

datatype open_object_kind =
  KindEmpty | ConsoleInput | ConsoleOutput | ConsoleError | KindFile u32 | KindMemFd u32 | KindEventFd u32
  | KindTimerFd u32 | KindSignalFd u32 | KindEpoll u32 | KindPipeRead u32 | KindPipeWrite u32
  | KindUnixSocket u32 | KindUnixDatagram u32

definition kind_occupied :: "open_object_kind \<Rightarrow> bool" where
  "kind_occupied kind \<longleftrightarrow> kind \<noteq> KindEmpty"

record open_object =
  oo_generation :: u32
  oo_owner :: process_handle
  oo_references :: u16
  oo_descriptor_references :: u16
  oo_active_operations :: u16
  oo_closing :: bool
  oo_status_flags :: u32
  oo_kind :: open_object_kind

definition OBJECT_EMPTY :: open_object where
  "OBJECT_EMPTY = \<lparr>oo_generation = 0, oo_owner = no_handle, oo_references = 0, oo_descriptor_references = 0,
     oo_active_operations = 0, oo_closing = False, oo_status_flags = 0, oo_kind = KindEmpty\<rparr>"

record final_object =
  fo_owner :: process_handle
  fo_kind :: open_object_kind

text \<open>\<open>take\<close>: what is left to finalize, and the emptied slot.\<close>

definition object_take :: "open_object \<Rightarrow> final_object \<times> open_object" where
  "object_take object =
     (\<lparr>fo_owner = oo_owner object, fo_kind = oo_kind object\<rparr>, OBJECT_EMPTY\<lparr>oo_generation := oo_generation object\<rparr>)"

record descriptor_slot =
  ds_object :: u16
  ds_flags :: u8

definition DESCRIPTOR_EMPTY :: descriptor_slot where
  "DESCRIPTOR_EMPTY = \<lparr>ds_object = 0, ds_flags = 0\<rparr>"

definition descriptor_occupied :: "descriptor_slot \<Rightarrow> bool" where
  "descriptor_occupied slot \<longleftrightarrow> ds_object slot \<noteq> 0"

definition descriptor_new :: "nat \<Rightarrow> u8 \<Rightarrow> descriptor_slot" where
  "descriptor_new object_index flags = \<lparr>ds_object = of_nat object_index + 1, ds_flags = flags\<rparr>"

definition descriptor_object_index :: "descriptor_slot \<Rightarrow> nat option" where
  "descriptor_object_index slot = (if descriptor_occupied slot then Some (unat (ds_object slot) - 1) else None)"

record descriptor_space =
  sp_owner :: process_handle
  sp_descriptors :: "descriptor_slot list"

definition SPACE_EMPTY :: descriptor_space where
  "SPACE_EMPTY = \<lparr>sp_owner = no_handle, sp_descriptors = replicate MAXIMUM_FILE_DESCRIPTORS DESCRIPTOR_EMPTY\<rparr>"

definition space_occupied :: "descriptor_space \<Rightarrow> bool" where
  "space_occupied space \<longleftrightarrow> ph_pid (sp_owner space) \<noteq> 0 \<and> ph_generation (sp_owner space) \<noteq> 0"

record descriptor_registry =
  dr_spaces :: "descriptor_space list"
  dr_objects :: "open_object list"

definition REGISTRY_EMPTY :: descriptor_registry where
  "REGISTRY_EMPTY = \<lparr>dr_spaces = replicate MAXIMUM_DESCRIPTOR_SPACES SPACE_EMPTY,
     dr_objects = replicate MAXIMUM_OPEN_OBJECTS OBJECT_EMPTY\<rparr>"

record object_lease =
  ol_key :: object_key
  ol_owner :: process_handle
  ol_kind :: open_object_kind
  ol_status_flags :: u32

abbreviation set_object :: "nat \<Rightarrow> open_object \<Rightarrow> descriptor_registry \<Rightarrow> descriptor_registry" where
  "set_object i object registry \<equiv> registry\<lparr>dr_objects := (dr_objects registry)[i := object]\<rparr>"

definition set_descriptor :: "nat \<Rightarrow> nat \<Rightarrow> descriptor_slot \<Rightarrow> descriptor_registry \<Rightarrow> descriptor_registry" where
  "set_descriptor space fd slot registry = registry\<lparr>dr_spaces := (dr_spaces registry)[space :=
     (dr_spaces registry ! space)\<lparr>sp_descriptors := (sp_descriptors (dr_spaces registry ! space))[fd := slot]\<rparr>]\<rparr>"

definition set_space_owner :: "nat \<Rightarrow> process_handle \<Rightarrow> descriptor_registry \<Rightarrow> descriptor_registry" where
  "set_space_owner space owner registry = registry\<lparr>dr_spaces := (dr_spaces registry)[space :=
     (dr_spaces registry ! space)\<lparr>sp_owner := owner\<rparr>]\<rparr>"

section \<open>Spaces and installation\<close>

definition find_space :: "descriptor_space list \<Rightarrow> process_handle \<Rightarrow> nat option" where
  "find_space spaces owner = position (\<lambda>space. space_occupied space \<and> sp_owner space = owner) spaces"

definition next_object_generation :: "u32 \<Rightarrow> u32 option" where
  "next_object_generation current =
     (case checked_add current 1 of None \<Rightarrow> None
      | Some generation \<Rightarrow> if generation \<noteq> 0 then Some generation else None)"

definition object_new :: "u32 \<Rightarrow> process_handle \<Rightarrow> u16 \<Rightarrow> u32 \<Rightarrow> open_object_kind \<Rightarrow> open_object" where
  "object_new generation owner references status_flags kind =
     \<lparr>oo_generation = generation, oo_owner = owner, oo_references = references, oo_descriptor_references = references,
      oo_active_operations = 0, oo_closing = False, oo_status_flags = status_flags, oo_kind = kind\<rparr>"

definition allocate_object ::
    "process_handle \<Rightarrow> open_object_kind \<Rightarrow> u32 \<Rightarrow> open_object list \<Rightarrow> (nat, descriptor_error) result \<times> open_object list" where
  "allocate_object owner kind status_flags objects =
     (case position (\<lambda>object. \<not> kind_occupied (oo_kind object)) objects of None \<Rightarrow> (Err FdCapacity, objects)
      | Some index \<Rightarrow>
     case next_object_generation (oo_generation (objects ! index)) of None \<Rightarrow> (Err FdCapacity, objects)
      | Some generation \<Rightarrow> (Ok index, objects[index := object_new generation owner 0 status_flags kind]))"

text \<open>A fresh object with one descriptor.\<close>

definition bind_descriptor :: "nat \<Rightarrow> nat \<Rightarrow> nat \<Rightarrow> u8 \<Rightarrow> descriptor_registry \<Rightarrow> descriptor_registry" where
  "bind_descriptor space fd object_index flags registry =
     set_descriptor space fd (descriptor_new object_index flags)
       (set_object object_index ((dr_objects registry ! object_index)\<lparr>oo_references := 1, oo_descriptor_references := 1\<rparr>) registry)"

text \<open>The undoing of the first descriptors when the table of objects is full.\<close>

definition undo_standard :: "nat \<Rightarrow> nat \<Rightarrow> descriptor_registry \<Rightarrow> descriptor_registry" where
  "undo_standard space fd registry =
     fold (\<lambda>n registry.
         let object_index = the (descriptor_object_index (sp_descriptors (dr_spaces registry ! space) ! n)) in
         set_object object_index (snd (object_take (dr_objects registry ! object_index)))
           (set_descriptor space n DESCRIPTOR_EMPTY registry)) [0..<fd] registry"

fun initialize_standard_loop ::
    "nat \<Rightarrow> nat \<Rightarrow> (open_object_kind \<times> u32) list \<Rightarrow> descriptor_registry \<Rightarrow> (unit, descriptor_error) result \<times> descriptor_registry" where
  "initialize_standard_loop space fd [] registry = (Ok (), registry)"
| "initialize_standard_loop space fd ((kind, status_flags) # rest) registry =
     (case allocate_object (sp_owner (dr_spaces registry ! space)) kind status_flags (dr_objects registry) of
        (Err e, _) \<Rightarrow> (Err e, undo_standard space fd registry)
      | (Ok object_index, objects) \<Rightarrow>
          initialize_standard_loop space (Suc fd) rest
            (bind_descriptor space fd object_index 0 (registry\<lparr>dr_objects := objects\<rparr>)))"

definition initialize_standard_descriptors ::
    "nat \<Rightarrow> descriptor_registry \<Rightarrow> (unit, descriptor_error) result \<times> descriptor_registry" where
  "initialize_standard_descriptors space =
     initialize_standard_loop space 0 [(ConsoleInput, O_RDONLY), (ConsoleOutput, O_WRONLY), (ConsoleError, O_WRONLY)]"

definition ensure_space ::
    "process_handle \<Rightarrow> descriptor_registry \<Rightarrow> (nat, descriptor_error) result \<times> descriptor_registry" where
  "ensure_space owner registry =
     (if \<not> valid_owner owner then (Err FdPermissionDenied, registry)
      else case find_space (dr_spaces registry) owner of Some index \<Rightarrow> (Ok index, registry)
      | None \<Rightarrow>
     case position (\<lambda>space. \<not> space_occupied space) (dr_spaces registry) of None \<Rightarrow> (Err FdCapacity, registry)
      | Some index \<Rightarrow>
     case initialize_standard_descriptors index (set_space_owner index owner registry) of
        (Err _, registry') \<Rightarrow> (Err FdCapacity, set_space_owner index no_handle registry')
      | (Ok _, registry') \<Rightarrow> (Ok index, registry'))"

abbreviation cloexec_flag :: "bool \<Rightarrow> u8" where
  "cloexec_flag close_on_exec \<equiv> (if close_on_exec then 1 else 0)"

definition install_backend_object ::
    "process_handle \<Rightarrow> process_handle \<Rightarrow> open_object_kind \<Rightarrow> u32 \<Rightarrow> bool \<Rightarrow> descriptor_registry \<Rightarrow>
      (u32, descriptor_error) result \<times> descriptor_registry" where
  "install_backend_object descriptor_owner backend_owner kind status_flags close_on_exec registry =
     (case ensure_space descriptor_owner registry of (Err e, r) \<Rightarrow> (Err e, r)
      | (Ok space, r) \<Rightarrow>
     case position (\<lambda>slot. \<not> descriptor_occupied slot) (sp_descriptors (dr_spaces r ! space)) of None \<Rightarrow> (Err FdCapacity, r)
      | Some fd \<Rightarrow>
     case allocate_object backend_owner kind status_flags (dr_objects r) of (Err e, _) \<Rightarrow> (Err e, r)
      | (Ok object_index, objects) \<Rightarrow>
          (Ok (of_nat fd), bind_descriptor space fd object_index (cloexec_flag close_on_exec) (r\<lparr>dr_objects := objects\<rparr>)))"

definition install_object ::
    "process_handle \<Rightarrow> open_object_kind \<Rightarrow> u32 \<Rightarrow> bool \<Rightarrow> descriptor_registry \<Rightarrow>
      (u32, descriptor_error) result \<times> descriptor_registry" where
  "install_object owner = install_backend_object owner owner"

text \<open>The first two places a predicate holds at, as the code's two calls of \<open>next\<close> on a filter.\<close>

definition first_two :: "('a \<Rightarrow> bool) \<Rightarrow> 'a list \<Rightarrow> (nat \<times> nat) option" where
  "first_two P xs =
     (case position P xs of None \<Rightarrow> None
      | Some i \<Rightarrow> (case position_from (Suc i) P xs of None \<Rightarrow> None | Some j \<Rightarrow> Some (i, j)))"

definition install_object_pair ::
    "process_handle \<Rightarrow> open_object_kind \<Rightarrow> u32 \<Rightarrow> open_object_kind \<Rightarrow> u32 \<Rightarrow> bool \<Rightarrow> descriptor_registry \<Rightarrow>
      (u32 \<times> u32, descriptor_error) result \<times> descriptor_registry" where
  "install_object_pair owner first_kind first_flags second_kind second_flags close_on_exec registry =
     (case ensure_space owner registry of (Err e, r) \<Rightarrow> (Err e, r)
      | (Ok space, r) \<Rightarrow>
     case first_two (\<lambda>slot. \<not> descriptor_occupied slot) (sp_descriptors (dr_spaces r ! space)) of None \<Rightarrow> (Err FdCapacity, r)
      | Some (first_fd, second_fd) \<Rightarrow>
     case first_two (\<lambda>object. \<not> kind_occupied (oo_kind object)) (dr_objects r) of None \<Rightarrow> (Err FdCapacity, r)
      | Some (first_object, second_object) \<Rightarrow>
     case next_object_generation (oo_generation (dr_objects r ! first_object)) of None \<Rightarrow> (Err FdCapacity, r)
      | Some first_generation \<Rightarrow>
     case next_object_generation (oo_generation (dr_objects r ! second_object)) of None \<Rightarrow> (Err FdCapacity, r)
      | Some second_generation \<Rightarrow>
          let r1 = set_object first_object (object_new first_generation owner 1 first_flags first_kind) r;
              r2 = set_object second_object (object_new second_generation owner 1 second_flags second_kind) r1;
              r3 = set_descriptor space first_fd (descriptor_new first_object (cloexec_flag close_on_exec)) r2
          in (Ok (of_nat first_fd, of_nat second_fd),
              set_descriptor space second_fd (descriptor_new second_object (cloexec_flag close_on_exec)) r3))"

section \<open>Leases and references\<close>

text \<open>The descriptor a number names, and the objects a lock section reads.\<close>

definition descriptor_at :: "descriptor_registry \<Rightarrow> nat \<Rightarrow> u32 \<Rightarrow> (descriptor_slot, descriptor_error) result" where
  "descriptor_at registry space fd =
     (let descriptors = sp_descriptors (dr_spaces registry ! space) in
      if unat fd < length descriptors \<and> descriptor_occupied (descriptors ! unat fd)
      then Ok (descriptors ! unat fd) else Err FdBadFileDescriptor)"

definition lease_of :: "object_key \<Rightarrow> open_object \<Rightarrow> object_lease" where
  "lease_of key object = \<lparr>ol_key = key, ol_owner = oo_owner object, ol_kind = oo_kind object, ol_status_flags = oo_status_flags object\<rparr>"

definition lease_object ::
    "nat \<Rightarrow> (open_object \<Rightarrow> bool) \<Rightarrow> descriptor_registry \<Rightarrow> (object_lease, descriptor_error) result \<times> descriptor_registry" where
  "lease_object object_index live registry =
     (if object_index < length (dr_objects registry) \<and> live (dr_objects registry ! object_index) then
        (let object = dr_objects registry ! object_index in
         case checked_add (oo_active_operations object) 1 of None \<Rightarrow> (Err FdCapacity, registry)
         | Some active \<Rightarrow>
             (Ok (lease_of (key_new object_index (oo_generation object)) object),
              set_object object_index (object\<lparr>oo_active_operations := active\<rparr>) registry))
      else (Err FdBadFileDescriptor, registry))"

definition acquire_descriptor ::
    "process_handle \<Rightarrow> u32 \<Rightarrow> descriptor_registry \<Rightarrow> (object_lease, descriptor_error) result \<times> descriptor_registry" where
  "acquire_descriptor owner fd registry =
     (case ensure_space owner registry of (Err e, r) \<Rightarrow> (Err e, r)
      | (Ok space, r) \<Rightarrow>
     case descriptor_at r space fd of Err e \<Rightarrow> (Err e, r)
      | Ok slot \<Rightarrow>
          lease_object (the (descriptor_object_index slot)) (\<lambda>object. kind_occupied (oo_kind object) \<and> \<not> oo_closing object) r)"

definition acquire_key ::
    "object_key \<Rightarrow> descriptor_registry \<Rightarrow> (object_lease, descriptor_error) result \<times> descriptor_registry" where
  "acquire_key key registry =
     (case key_index key of None \<Rightarrow> (Err FdBadFileDescriptor, registry)
      | Some object_index \<Rightarrow>
          lease_object object_index (\<lambda>object. kind_occupied (oo_kind object) \<and> oo_generation object = ok_generation key
            \<and> \<not> oo_closing object) registry)"

definition maybe_take_closing :: "open_object \<Rightarrow> final_object option \<times> open_object" where
  "maybe_take_closing object =
     (if oo_closing object \<and> oo_references object = 0 \<and> oo_active_operations object = 0
      then (case object_take object of (pending, object') \<Rightarrow> (Some pending, object'))
      else (None, object))"

text \<open>Storing an object back, taken if nothing refers to it any more.\<close>

definition settle_object :: "nat \<Rightarrow> open_object \<Rightarrow> descriptor_registry \<Rightarrow> final_object option \<times> descriptor_registry" where
  "settle_object i object registry =
     (case maybe_take_closing object of (pending, object') \<Rightarrow> (pending, set_object i object' registry))"

text \<open>The locked part of \<open>release_lease\<close>.\<close>

definition release_lease_locked :: "object_lease \<Rightarrow> descriptor_registry \<Rightarrow> final_object option \<times> descriptor_registry" where
  "release_lease_locked lease registry =
     (case key_index (ol_key lease) of None \<Rightarrow> (None, registry)
      | Some object_index \<Rightarrow>
          let object = dr_objects registry ! object_index in
          if oo_generation object \<noteq> ok_generation (ol_key lease) \<or> oo_active_operations object = 0 then (None, registry)
          else settle_object object_index (object\<lparr>oo_active_operations := oo_active_operations object - 1\<rparr>) registry)"

definition retain_key :: "object_key \<Rightarrow> descriptor_registry \<Rightarrow> (unit, descriptor_error) result \<times> descriptor_registry" where
  "retain_key key registry =
     (case key_index key of None \<Rightarrow> (Err FdBadFileDescriptor, registry)
      | Some object_index \<Rightarrow>
          if object_index < length (dr_objects registry) \<and>
             (let object = dr_objects registry ! object_index in
              kind_occupied (oo_kind object) \<and> oo_generation object = ok_generation key
              \<and> oo_descriptor_references object \<noteq> 0 \<and> \<not> oo_closing object)
          then
            (let object = dr_objects registry ! object_index in
             case checked_add (oo_references object) 1 of None \<Rightarrow> (Err FdCapacity, registry)
             | Some references \<Rightarrow> (Ok (), set_object object_index (object\<lparr>oo_references := references\<rparr>) registry))
          else (Err FdBadFileDescriptor, registry))"

text \<open>The locked part of \<open>drop_key_reference\<close>.\<close>

definition drop_key_locked :: "object_key \<Rightarrow> descriptor_registry \<Rightarrow> final_object option \<times> descriptor_registry" where
  "drop_key_locked key registry =
     (case key_index key of None \<Rightarrow> (None, registry)
      | Some object_index \<Rightarrow>
          let object = dr_objects registry ! object_index in
          if oo_generation object \<noteq> ok_generation key \<or> oo_references object = 0 then (None, registry)
          else
            let object1 = object\<lparr>oo_references := oo_references object - 1\<rparr>;
                object2 = (if oo_references object1 = 0 then object1\<lparr>oo_closing := True\<rparr> else object1)
            in settle_object object_index object2 registry)"

section \<open>Descriptors\<close>

text \<open>An object loses one descriptor or transfer: what is to be finalized, whether its watches are to
  be detached, and the object.\<close>

definition drop_descriptor_reference :: "nat \<Rightarrow> descriptor_registry \<Rightarrow>
    final_object option \<times> object_key option \<times> descriptor_registry" where
  "drop_descriptor_reference i registry =
     (let object = dr_objects registry ! i;
          object1 = object\<lparr>oo_references := oo_references object - 1,
            oo_descriptor_references := oo_descriptor_references object - 1\<rparr>;
          last = (oo_descriptor_references object1 = 0);
          object2 = (if last then object1\<lparr>oo_closing := True\<rparr> else object1)
      in case settle_object i object2 registry of (pending, registry') \<Rightarrow>
           (pending, if last then Some (key_new i (oo_generation object)) else None, registry'))"

text \<open>The locked part of \<open>close\<close>.\<close>

definition close_locked :: "process_handle \<Rightarrow> u32 \<Rightarrow> descriptor_registry \<Rightarrow>
    (final_object option \<times> object_key option, descriptor_error) result \<times> descriptor_registry" where
  "close_locked owner fd registry =
     (case ensure_space owner registry of (Err e, r) \<Rightarrow> (Err e, r)
      | (Ok space, r) \<Rightarrow>
     case descriptor_at r space fd of Err e \<Rightarrow> (Err e, r)
      | Ok slot \<Rightarrow>
          let object_index = the (descriptor_object_index slot);
              object = dr_objects r ! object_index in
          if oo_references object = 0 \<or> oo_descriptor_references object = 0 then (Err FdBadFileDescriptor, r)
          else (case drop_descriptor_reference object_index (set_descriptor space (unat fd) DESCRIPTOR_EMPTY r) of
                  (pending, detached, r') \<Rightarrow> (Ok (pending, detached), r')))"

text \<open>One more descriptor or transfer of an object.\<close>

definition add_descriptor_reference :: "nat \<Rightarrow> descriptor_registry \<Rightarrow> (unit, descriptor_error) result \<times> descriptor_registry" where
  "add_descriptor_reference i registry =
     (let object = dr_objects registry ! i in
      case checked_add (oo_references object) 1 of None \<Rightarrow> (Err FdCapacity, registry)
      | Some references \<Rightarrow>
     case checked_add (oo_descriptor_references object) 1 of None \<Rightarrow> (Err FdCapacity, registry)
      | Some descriptor_references \<Rightarrow>
          (Ok (), set_object i (object\<lparr>oo_references := references, oo_descriptor_references := descriptor_references\<rparr>) registry))"

definition duplicate :: "process_handle \<Rightarrow> u32 \<Rightarrow> u32 \<Rightarrow> bool \<Rightarrow> descriptor_registry \<Rightarrow>
    (u32, descriptor_error) result \<times> descriptor_registry" where
  "duplicate owner old_fd minimum close_on_exec registry =
     (if unat minimum \<ge> MAXIMUM_FILE_DESCRIPTORS then (Err FdInvalidArgument, registry)
      else case ensure_space owner registry of (Err e, r) \<Rightarrow> (Err e, r)
      | (Ok space, r) \<Rightarrow>
     case descriptor_at r space old_fd of Err e \<Rightarrow> (Err e, r)
      | Ok slot \<Rightarrow>
     case position_from (unat minimum) (\<lambda>slot. \<not> descriptor_occupied slot) (sp_descriptors (dr_spaces r ! space)) of
        None \<Rightarrow> (Err FdCapacity, r)
      | Some target \<Rightarrow>
          let object_index = the (descriptor_object_index slot);
              object = dr_objects r ! object_index in
          if \<not> kind_occupied (oo_kind object) \<or> oo_closing object then (Err FdBadFileDescriptor, r)
          else case add_descriptor_reference object_index r of (Err e, _) \<Rightarrow> (Err e, r)
          | (Ok _, r') \<Rightarrow>
              (Ok (of_nat target), set_descriptor space target (descriptor_new object_index (cloexec_flag close_on_exec)) r'))"

text \<open>The locked part of \<open>duplicate_to\<close>, for two different numbers.\<close>

definition duplicate_to_locked :: "process_handle \<Rightarrow> u32 \<Rightarrow> u32 \<Rightarrow> bool \<Rightarrow> descriptor_registry \<Rightarrow>
    (final_object option \<times> object_key option, descriptor_error) result \<times> descriptor_registry" where
  "duplicate_to_locked owner old_fd new_fd close_on_exec registry =
     (case ensure_space owner registry of (Err e, r) \<Rightarrow> (Err e, r)
      | (Ok space, r) \<Rightarrow>
     case descriptor_at r space old_fd of Err e \<Rightarrow> (Err e, r)
      | Ok source \<Rightarrow>
          let source_index = the (descriptor_object_index source);
              place = set_descriptor space (unat new_fd) (descriptor_new source_index (cloexec_flag close_on_exec)) in
          if \<not> kind_occupied (oo_kind (dr_objects r ! source_index)) \<or> oo_closing (dr_objects r ! source_index)
          then (Err FdBadFileDescriptor, r)
          else case descriptor_object_index (sp_descriptors (dr_spaces r ! space) ! unat new_fd) of
            None \<Rightarrow>
              (case add_descriptor_reference source_index r of (Err e, _) \<Rightarrow> (Err e, r)
               | (Ok _, r1) \<Rightarrow> (Ok (None, None), place r1))
          | Some existing_index \<Rightarrow>
              if existing_index = source_index then (Ok (None, None), place r)
              else if oo_references (dr_objects r ! existing_index) = 0
                \<or> oo_descriptor_references (dr_objects r ! existing_index) = 0 then (Err FdBadFileDescriptor, r)
              else (case add_descriptor_reference source_index r of (Err e, _) \<Rightarrow> (Err e, r)
                | (Ok _, r1) \<Rightarrow>
                    (case drop_descriptor_reference existing_index r1 of (pending, detached, r2) \<Rightarrow>
                       (Ok (pending, detached), place r2))))"

section \<open>Transfers\<close>

text \<open>The keys of the descriptors to capture; each object must have room for all its reservations.\<close>

fun capture_keys :: "descriptor_registry \<Rightarrow> nat \<Rightarrow> u32 list \<Rightarrow> object_key list \<Rightarrow> (object_key list, descriptor_error) result" where
  "capture_keys registry space [] keys = Ok keys"
| "capture_keys registry space (fd # fds) keys =
     (case descriptor_at registry space fd of Err e \<Rightarrow> Err e
      | Ok slot \<Rightarrow>
          let object_index = the (descriptor_object_index slot);
              object = dr_objects registry ! object_index in
          if \<not> kind_occupied (oo_kind object) \<or> oo_closing object then Err FdBadFileDescriptor
          else if (case oo_kind object of KindUnixSocket _ \<Rightarrow> True | KindEpoll _ \<Rightarrow> True | _ \<Rightarrow> False)
          then Err FdOperationNotSupported
          else
            let key = key_new object_index (oo_generation object);
                reservations = of_nat (length (filter (\<lambda>existing. existing = key) keys) + 1) in
            case checked_add (oo_references object) reservations of None \<Rightarrow> Err FdCapacity
            | Some _ \<Rightarrow>
            case checked_add (oo_descriptor_references object) reservations of None \<Rightarrow> Err FdCapacity
            | Some _ \<Rightarrow> capture_keys registry space fds (keys @ [key]))"

definition capture_reference :: "object_key \<Rightarrow> descriptor_registry \<Rightarrow> descriptor_registry" where
  "capture_reference key registry =
     (let object = dr_objects registry ! the (key_index key) in
      set_object (the (key_index key))
        (object\<lparr>oo_references := oo_references object + 1, oo_descriptor_references := oo_descriptor_references object + 1\<rparr>) registry)"

text \<open>\<open>room\<close> is the length of the caller's slice of tokens.\<close>

definition capture_transfers :: "process_handle \<Rightarrow> u32 list \<Rightarrow> nat \<Rightarrow> descriptor_registry \<Rightarrow>
    (transfer_token list, descriptor_error) result \<times> descriptor_registry" where
  "capture_transfers owner descriptors room registry =
     (if length descriptors > MAXIMUM_TRANSFER_DESCRIPTORS \<or> length descriptors > room then (Err FdInvalidArgument, registry)
      else case ensure_space owner registry of (Err e, r) \<Rightarrow> (Err e, r)
      | (Ok space, r) \<Rightarrow>
     case capture_keys r space descriptors [] of Err e \<Rightarrow> (Err e, r)
      | Ok keys \<Rightarrow> (Ok (map (\<lambda>key. \<lparr>tt_key = key\<rparr>) keys), fold capture_reference keys r))"

definition free_descriptors :: "descriptor_registry \<Rightarrow> nat \<Rightarrow> nat list" where
  "free_descriptors registry space =
     filter (\<lambda>fd. \<not> descriptor_occupied (sp_descriptors (dr_spaces registry ! space) ! fd))
       [0..<length (sp_descriptors (dr_spaces registry ! space))]"

fun check_tokens :: "descriptor_registry \<Rightarrow> transfer_token list \<Rightarrow> (unit, descriptor_error) result" where
  "check_tokens registry [] = Ok ()"
| "check_tokens registry (token # tokens) =
     (case key_index (tt_key token) of None \<Rightarrow> Err FdBadFileDescriptor
      | Some object_index \<Rightarrow>
          let object = dr_objects registry ! object_index in
          if \<not> kind_occupied (oo_kind object) \<or> oo_generation object \<noteq> ok_generation (tt_key token)
             \<or> oo_references object = 0 \<or> oo_descriptor_references object = 0 \<or> oo_closing object
          then Err FdBadFileDescriptor else check_tokens registry tokens)"

text \<open>A success consumes the tokens; after an error the caller still has them all. \<open>room\<close> is the length of
  the caller's slice of descriptor numbers.\<close>

definition install_transfers :: "process_handle \<Rightarrow> transfer_token list \<Rightarrow> bool \<Rightarrow> nat \<Rightarrow> descriptor_registry \<Rightarrow>
    (u32 list, descriptor_error) result \<times> descriptor_registry" where
  "install_transfers owner tokens close_on_exec room registry =
     (if length tokens > MAXIMUM_TRANSFER_DESCRIPTORS \<or> length tokens > room then (Err FdInvalidArgument, registry)
      else case ensure_space owner registry of (Err e, r) \<Rightarrow> (Err e, r)
      | (Ok space, r) \<Rightarrow>
          let targets = take (length tokens) (free_descriptors r space) in
          if length targets \<noteq> length tokens then (Err FdCapacity, r)
          else case check_tokens r tokens of Err e \<Rightarrow> (Err e, r)
          | Ok _ \<Rightarrow>
              (Ok (map of_nat targets),
               fold (\<lambda>(target, token). set_descriptor space target
                   (descriptor_new (the (key_index (tt_key token))) (cloexec_flag close_on_exec)))
                 (zip targets tokens) r))"

text \<open>The locked part of \<open>release_transfers\<close> for one token.\<close>

definition release_transfer_locked :: "transfer_token \<Rightarrow> descriptor_registry \<Rightarrow>
    final_object option \<times> object_key option \<times> descriptor_registry" where
  "release_transfer_locked token registry =
     (if \<not> token_occupied token then (None, None, registry)
      else case key_index (tt_key token) of None \<Rightarrow> (None, None, registry)
      | Some object_index \<Rightarrow>
          let object = dr_objects registry ! object_index in
          if oo_generation object \<noteq> ok_generation (tt_key token) \<or> oo_references object = 0
             \<or> oo_descriptor_references object = 0
          then (None, None, registry) else drop_descriptor_reference object_index registry)"

section \<open>Flags\<close>

definition descriptor_flags :: "process_handle \<Rightarrow> u32 \<Rightarrow> descriptor_registry \<Rightarrow> (u32, descriptor_error) result \<times> descriptor_registry" where
  "descriptor_flags owner fd registry =
     (case ensure_space owner registry of (Err e, r) \<Rightarrow> (Err e, r)
      | (Ok space, r) \<Rightarrow>
     case descriptor_at r space fd of Err e \<Rightarrow> (Err e, r)
      | Ok slot \<Rightarrow> (Ok (if ds_flags slot AND 1 \<noteq> 0 then FD_CLOEXEC else 0), r))"

definition set_descriptor_flags :: "process_handle \<Rightarrow> u32 \<Rightarrow> u32 \<Rightarrow> descriptor_registry \<Rightarrow>
    (unit, descriptor_error) result \<times> descriptor_registry" where
  "set_descriptor_flags owner fd flags registry =
     (if flags AND NOT FD_CLOEXEC \<noteq> 0 then (Err FdInvalidArgument, registry)
      else case ensure_space owner registry of (Err e, r) \<Rightarrow> (Err e, r)
      | (Ok space, r) \<Rightarrow>
     case descriptor_at r space fd of Err e \<Rightarrow> (Err e, r)
      | Ok slot \<Rightarrow> (Ok (), set_descriptor space (unat fd) (slot\<lparr>ds_flags := cloexec_flag (flags AND FD_CLOEXEC \<noteq> 0)\<rparr>) r))"

definition set_status_flags :: "process_handle \<Rightarrow> u32 \<Rightarrow> u32 \<Rightarrow> descriptor_registry \<Rightarrow>
    (unit, descriptor_error) result \<times> descriptor_registry" where
  "set_status_flags owner fd requested registry =
     (case ensure_space owner registry of (Err e, r) \<Rightarrow> (Err e, r)
      | (Ok space, r) \<Rightarrow>
     case descriptor_at r space fd of Err e \<Rightarrow> (Err e, r)
      | Ok slot \<Rightarrow>
          let i = the (descriptor_object_index slot); object = dr_objects r ! i in
          (Ok (), set_object i
             (object\<lparr>oo_status_flags := (oo_status_flags object AND NOT O_NONBLOCK) OR (requested AND O_NONBLOCK)\<rparr>) r))"

section \<open>Process exit and exec\<close>

definition close_matching_object :: "nat \<Rightarrow> descriptor_registry \<Rightarrow> final_object option \<times> object_key option \<times> descriptor_registry" where
  "close_matching_object i registry =
     (let object = dr_objects registry ! i;
          object1 = object\<lparr>oo_references := saturating_sub (oo_references object) 1,
            oo_descriptor_references := saturating_sub (oo_descriptor_references object) 1\<rparr>;
          last = (oo_descriptor_references object1 = 0);
          object2 = (if last then object1\<lparr>oo_closing := True\<rparr> else object1)
      in case settle_object i object2 registry of (pending, registry') \<Rightarrow>
           (pending, if last then Some (key_new i (oo_generation object)) else None, registry'))"

abbreviation of_option :: "'a option \<Rightarrow> 'a list" where
  "of_option x \<equiv> (case x of None \<Rightarrow> [] | Some y \<Rightarrow> [y])"

text \<open>The number closed, the objects to finalize and the keys to detach, in order.\<close>

fun close_matching_loop :: "nat \<Rightarrow> bool \<Rightarrow> nat list \<Rightarrow> descriptor_registry \<Rightarrow>
    (nat \<times> final_object list \<times> object_key list) \<times> descriptor_registry" where
  "close_matching_loop space only_close_on_exec [] registry = ((0, [], []), registry)"
| "close_matching_loop space only_close_on_exec (fd # fds) registry =
     (let slot = sp_descriptors (dr_spaces registry ! space) ! fd in
      if \<not> descriptor_occupied slot \<or> only_close_on_exec \<and> ds_flags slot AND ucast FD_CLOEXEC = 0
      then close_matching_loop space only_close_on_exec fds registry
      else
        case close_matching_object (the (descriptor_object_index slot)) (set_descriptor space fd DESCRIPTOR_EMPTY registry) of
          (pending, detached, r1) \<Rightarrow>
        case close_matching_loop space only_close_on_exec fds r1 of ((closed, ps, ds), r2) \<Rightarrow>
          ((Suc closed, of_option pending @ ps, of_option detached @ ds), r2))"

definition close_matching_locked :: "process_handle \<Rightarrow> bool \<Rightarrow> descriptor_registry \<Rightarrow>
    (nat \<times> final_object list \<times> object_key list) \<times> descriptor_registry" where
  "close_matching_locked owner only_close_on_exec registry =
     (case find_space (dr_spaces registry) owner of None \<Rightarrow> ((0, [], []), registry)
      | Some space \<Rightarrow>
          (case close_matching_loop space only_close_on_exec [0..<length (sp_descriptors (dr_spaces registry ! space))] registry of
             (out, r) \<Rightarrow> (out, if only_close_on_exec then r else set_space_owner space no_handle r)))"

end
