(* ===== verification/FdReferences.thy ===== *)
theory FdReferences
  imports FdRegistry "HOL-Library.Multiset"
begin

unbundle bit_operations_syntax

text \<open>
  What the counters of an open object mean: the invariant that relates the descriptor registry to the
  multisets of transfers in flight, epoll watches and leases, and the lemma, for every lock section
  of \<open>FdRegistry\<close>, that the section keeps them in step. A section that returns an object to finalize
  has removed the last thing that named it.
\<close>

section \<open>What the counters mean\<close>

text \<open>The objects that descriptors name, with multiplicity.\<close>

definition slot_refs :: "descriptor_slot \<Rightarrow> nat multiset" where
  "slot_refs slot = (case descriptor_object_index slot of None \<Rightarrow> {#} | Some i \<Rightarrow> {#i#})"

definition space_refs :: "descriptor_space \<Rightarrow> nat multiset" where
  "space_refs space = (\<Sum>slot \<leftarrow> sp_descriptors space. slot_refs slot)"

definition named :: "descriptor_registry \<Rightarrow> nat multiset" where
  "named r = (\<Sum>space \<leftarrow> dr_spaces r. space_refs space)"

definition space_ok :: "descriptor_space \<Rightarrow> bool" where
  "space_ok space \<longleftrightarrow> length (sp_descriptors space) = MAXIMUM_FILE_DESCRIPTORS \<and>
     (space_occupied space \<or> list_all (\<lambda>slot. \<not> descriptor_occupied slot) (sp_descriptors space))"

definition spaces_ok :: "descriptor_registry \<Rightarrow> bool" where
  "spaces_ok r \<longleftrightarrow> length (dr_spaces r) = MAXIMUM_DESCRIPTOR_SPACES \<and> list_all space_ok (dr_spaces r)"

abbreviation object_key_at :: "descriptor_registry \<Rightarrow> nat \<Rightarrow> object_key" where
  "object_key_at r i \<equiv> key_new i (oo_generation (dr_objects r ! i))"

text \<open>The counters of an object with \<open>n\<close> descriptors and transfers, \<open>w\<close> watches and \<open>l\<close> leases.\<close>

definition object_ok :: "open_object \<Rightarrow> nat \<Rightarrow> nat \<Rightarrow> nat \<Rightarrow> bool" where
  "object_ok object n w l \<longleftrightarrow> unat (oo_descriptor_references object) = n \<and> unat (oo_references object) = n + w \<and>
     unat (oo_active_operations object) = l \<and>
     (if kind_occupied (oo_kind object)
      then (oo_closing object \<longleftrightarrow> n = 0) \<and> 0 < n + w + l \<and> oo_generation object \<noteq> 0
      else \<not> oo_closing object \<and> n + w + l = 0)"

definition live_key :: "descriptor_registry \<Rightarrow> object_key \<Rightarrow> bool" where
  "live_key r k \<longleftrightarrow> (\<exists>i < MAXIMUM_OPEN_OBJECTS. k = object_key_at r i \<and> kind_occupied (oo_kind (dr_objects r ! i)))"

text \<open>The registry against everything that names an object: \<open>T\<close> the keys of transfers in flight, \<open>W\<close>
  the keys of epoll watches, \<open>L\<close> the keys of leases held by running operations.\<close>

definition fd_inv :: "object_key multiset \<Rightarrow> object_key multiset \<Rightarrow> object_key multiset \<Rightarrow> descriptor_registry \<Rightarrow> bool" where
  "fd_inv T W L r \<longleftrightarrow> spaces_ok r \<and> length (dr_objects r) = MAXIMUM_OPEN_OBJECTS \<and>
     (\<forall>i < MAXIMUM_OPEN_OBJECTS. object_ok (dr_objects r ! i) (count (named r) i + count T (object_key_at r i))
        (count W (object_key_at r i)) (count L (object_key_at r i))) \<and>
     (\<forall>i \<in># named r. i < MAXIMUM_OPEN_OBJECTS) \<and> (\<forall>k \<in># T + W + L. live_key r k)"

lemma key_new_inject:
  "i < MAXIMUM_OPEN_OBJECTS \<Longrightarrow> j < MAXIMUM_OPEN_OBJECTS \<Longrightarrow> key_new i g = key_new j g' \<longleftrightarrow> i = j \<and> g = g'"
  by (auto simp: key_new_def dest: arg_cong [where f = unat] simp: unat_of_nat)

lemma fd_invD:
  assumes "fd_inv T W L r"
  shows "spaces_ok r" "length (dr_objects r) = MAXIMUM_OPEN_OBJECTS"
    "\<And>i. i < MAXIMUM_OPEN_OBJECTS \<Longrightarrow> object_ok (dr_objects r ! i) (count (named r) i + count T (object_key_at r i))
        (count W (object_key_at r i)) (count L (object_key_at r i))"
    "\<And>i. i \<in># named r \<Longrightarrow> i < MAXIMUM_OPEN_OBJECTS" "\<And>k. k \<in># T + W + L \<Longrightarrow> live_key r k"
  using assms unfolding fd_inv_def by blast+

text \<open>The master step: one object changes, and what names the other objects only moves between
  descriptors and transfers.\<close>

lemma fd_inv_change:
  assumes inv: "fd_inv T W L r" and i: "i < MAXIMUM_OPEN_OBJECTS"
    and r': "dr_objects r' = (dr_objects r)[i := object']" "spaces_ok r'"
    and named: "\<And>j. j < MAXIMUM_OPEN_OBJECTS \<Longrightarrow> j \<noteq> i \<Longrightarrow>
      count (named r') j + count T' (object_key_at r j) = count (named r) j + count T (object_key_at r j)"
    "\<And>j. j \<in># named r' \<Longrightarrow> j < MAXIMUM_OPEN_OBJECTS"
    and others: "\<And>k. k \<noteq> key_new i (oo_generation object') \<Longrightarrow> count W' k = count W k \<and> count L' k = count L k \<and>
      (k \<in># T' \<longrightarrow> k \<in># T)"
    and gen: "oo_generation object' = oo_generation (dr_objects r ! i) \<or> \<not> kind_occupied (oo_kind (dr_objects r ! i))"
    and ok: "object_ok object' (count (named r') i + count T' (key_new i (oo_generation object')))
      (count W' (key_new i (oo_generation object'))) (count L' (key_new i (oo_generation object')))"
  shows "fd_inv T' W' L' r'"
proof -
  note d = fd_invD [OF inv]
  let ?k = "key_new i (oo_generation object')"
  have at: "object_key_at r' i = ?k" "dr_objects r' ! i = object'" using r'(1) i d(2) by simp_all
  have other: "dr_objects r' ! j = dr_objects r ! j" "object_key_at r j \<noteq> ?k" if "j < MAXIMUM_OPEN_OBJECTS" "j \<noteq> i" for j
    using that i r'(1) by (simp_all add: key_new_inject)
  have "object_ok (dr_objects r' ! j) (count (named r') j + count T' (object_key_at r' j))
      (count W' (object_key_at r' j)) (count L' (object_key_at r' j))" if "j < MAXIMUM_OPEN_OBJECTS" for j
  proof (cases "j = i")
    case True
    then show ?thesis using ok at by simp
  next
    case False
    with other [OF that False] named(1) [OF that False] others [of "object_key_at r j"] d(3) [OF that] show ?thesis by simp
  qed
  moreover have "live_key r' k" if "k \<in># T' + W' + L'" for k
  proof (cases "k = ?k")
    case True
    with that have "count T' ?k + count W' ?k + count L' ?k \<noteq> 0" by (auto simp: count_eq_zero_iff)
    with ok have "kind_occupied (oo_kind object')" by (metis object_ok_def add_eq_0_iff_both_eq_0)
    with True i at show ?thesis by (auto simp: live_key_def)
  next
    case False
    with others [OF False] that have "k \<in># T + W + L" by (auto simp: in_multiset_in_set) (metis count_greater_zero_iff)+
    from d(5) [OF this] obtain j where j: "j < MAXIMUM_OPEN_OBJECTS" "k = object_key_at r j" "kind_occupied (oo_kind (dr_objects r ! j))"
      by (auto simp: live_key_def)
    with False gen have "j \<noteq> i" by auto
    with j other [OF j(1)] show ?thesis by (auto simp: live_key_def)
  qed
  ultimately show ?thesis using r' d(2) named(2) by (simp add: fd_inv_def)
qed

lemma fd_inv_move:
  assumes inv: "fd_inv T W L r" and r': "dr_objects r' = dr_objects r" "spaces_ok r'"
    and named: "\<And>j. j < MAXIMUM_OPEN_OBJECTS \<Longrightarrow>
      count (named r') j + count T' (object_key_at r j) = count (named r) j + count T (object_key_at r j)"
    "\<And>j. j \<in># named r' \<Longrightarrow> j < MAXIMUM_OPEN_OBJECTS"
    and others: "\<And>k. k \<in># T' \<Longrightarrow> k \<in># T"
  shows "fd_inv T' W L r'"
proof -
  note d = fd_invD [OF inv]
  have z: "(0::nat) < MAXIMUM_OPEN_OBJECTS" by simp
  show ?thesis
    using named(1) [OF z] d(3) [OF z] r' named others
    by (intro fd_inv_change [where i = 0 and object' = "dr_objects r ! 0", OF inv]) simp_all
qed

subsection \<open>Descriptors and what they name\<close>

lemma slot_refs_simps [simp]:
  "slot_refs DESCRIPTOR_EMPTY = {#}" "\<not> descriptor_occupied DESCRIPTOR_EMPTY"
  "\<not> descriptor_occupied slot \<Longrightarrow> slot_refs slot = {#}" "slot_refs (slot\<lparr>ds_flags := f\<rparr>) = slot_refs slot"
  "descriptor_occupied (slot\<lparr>ds_flags := f\<rparr>) = descriptor_occupied slot"
  by (simp_all add: slot_refs_def descriptor_object_index_def descriptor_occupied_def DESCRIPTOR_EMPTY_def)

lemma slot_refs_Some: "descriptor_object_index slot = Some i \<Longrightarrow> slot_refs slot = {#i#}"
  by (simp add: slot_refs_def)

lemma descriptor_new_index [simp]:
  assumes "i < MAXIMUM_OPEN_OBJECTS"
  shows "descriptor_object_index (descriptor_new i f) = Some i" "slot_refs (descriptor_new i f) = {#i#}"
    "descriptor_occupied (descriptor_new i f)"
proof -
  have "unat (of_nat i + 1 :: u16) = i + 1"
    using assms by (simp add: unat_word_ariths unat_of_nat)
  then have "unat (ds_object (descriptor_new i f)) = i + 1" by (simp add: descriptor_new_def)
  moreover from this have "ds_object (descriptor_new i f) \<noteq> 0" by auto
  ultimately show "descriptor_object_index (descriptor_new i f) = Some i" "slot_refs (descriptor_new i f) = {#i#}"
    "descriptor_occupied (descriptor_new i f)"
    by (simp_all add: slot_refs_def descriptor_object_index_def descriptor_occupied_def)
qed

lemma spaces_okD:
  assumes "spaces_ok r" "s < MAXIMUM_DESCRIPTOR_SPACES"
  shows "length (dr_spaces r) = MAXIMUM_DESCRIPTOR_SPACES" "length (sp_descriptors (dr_spaces r ! s)) = MAXIMUM_FILE_DESCRIPTORS"
    "\<And>fd. \<not> space_occupied (dr_spaces r ! s) \<Longrightarrow> fd < MAXIMUM_FILE_DESCRIPTORS \<Longrightarrow>
      \<not> descriptor_occupied (sp_descriptors (dr_spaces r ! s) ! fd)"
  using assms by (auto simp: spaces_ok_def space_ok_def list_all_length)

lemma set_descriptor_simps [simp]:
  "dr_objects (set_descriptor s fd slot r) = dr_objects r" "dr_objects (set_space_owner s owner r) = dr_objects r"
  "length (dr_spaces (set_descriptor s fd slot r)) = length (dr_spaces r)"
  "(set_descriptor s fd slot r)\<lparr>dr_objects := objects\<rparr> = set_descriptor s fd slot (r\<lparr>dr_objects := objects\<rparr>)"
  "named (r\<lparr>dr_objects := objects\<rparr>) = named r" "spaces_ok (r\<lparr>dr_objects := objects\<rparr>) = spaces_ok r"
  by (simp_all add: set_descriptor_def set_space_owner_def named_def spaces_ok_def)

lemma set_descriptor_objects [simp]:
  "named (set_descriptor s fd slot (r\<lparr>dr_objects := objects\<rparr>)) = named (set_descriptor s fd slot r)"
  "spaces_ok (set_descriptor s fd slot (r\<lparr>dr_objects := objects\<rparr>)) = spaces_ok (set_descriptor s fd slot r)"
  by (simp_all add: named_def spaces_ok_def set_descriptor_def)

lemma set_descriptor_space:
  assumes "spaces_ok r" "s < MAXIMUM_DESCRIPTOR_SPACES"
  shows "dr_spaces (set_descriptor s fd slot r) ! s' =
    (if s' = s then (dr_spaces r ! s)\<lparr>sp_descriptors := (sp_descriptors (dr_spaces r ! s))[fd := slot]\<rparr> else dr_spaces r ! s')"
  using assms by (auto simp: set_descriptor_def spaces_ok_def)

lemma spaces_ok_set_descriptor:
  assumes "spaces_ok r" "s < MAXIMUM_DESCRIPTOR_SPACES" "space_occupied (dr_spaces r ! s) \<or> \<not> descriptor_occupied slot"
  shows "spaces_ok (set_descriptor s fd slot r)"
proof -
  from assms(1,2) have "space_ok (dr_spaces r ! s)" by (simp add: spaces_ok_def list_all_length)
  with assms(3) have "space_ok ((dr_spaces r ! s)\<lparr>sp_descriptors := (sp_descriptors (dr_spaces r ! s))[fd := slot]\<rparr>)"
    by (auto simp: space_ok_def space_occupied_def intro: list_all_update)
  with assms(1) show ?thesis by (simp add: spaces_ok_def set_descriptor_def list_all_update)
qed

lemma named_set_descriptor:
  assumes "spaces_ok r" "s < MAXIMUM_DESCRIPTOR_SPACES" "fd < MAXIMUM_FILE_DESCRIPTORS"
  shows "named (set_descriptor s fd slot r) + slot_refs (sp_descriptors (dr_spaces r ! s) ! fd) = named r + slot_refs slot"
proof -
  let ?sp = "dr_spaces r ! s"
  let ?sp' = "?sp\<lparr>sp_descriptors := (sp_descriptors ?sp)[fd := slot]\<rparr>"
  note d = spaces_okD [OF assms(1,2)]
  have a: "named (set_descriptor s fd slot r) + space_refs ?sp = named r + space_refs ?sp'"
    using sum_table_update [of s "dr_spaces r" space_refs ?sp'] assms(2) d(1) by (simp add: named_def set_descriptor_def)
  have b: "space_refs ?sp' + slot_refs (sp_descriptors ?sp ! fd) = space_refs ?sp + slot_refs slot"
    using sum_table_update [of fd "sp_descriptors ?sp" slot_refs slot] assms(3) d(2) by (simp add: space_refs_def)
  have "named (set_descriptor s fd slot r) + slot_refs (sp_descriptors ?sp ! fd) + space_refs ?sp
      = (named (set_descriptor s fd slot r) + space_refs ?sp) + slot_refs (sp_descriptors ?sp ! fd)"
    by (simp only: ac_simps)
  also have "\<dots> = named r + (space_refs ?sp' + slot_refs (sp_descriptors ?sp ! fd))" by (simp only: a add.assoc)
  also have "\<dots> = named r + slot_refs slot + space_refs ?sp" by (subst b) (simp only: ac_simps)
  finally show ?thesis by simp
qed

lemma named_member:
  assumes "spaces_ok r" "s < MAXIMUM_DESCRIPTOR_SPACES" "fd < MAXIMUM_FILE_DESCRIPTORS"
    "descriptor_object_index (sp_descriptors (dr_spaces r ! s) ! fd) = Some i"
  shows "i \<in># named r"
proof -
  have "named (set_descriptor s fd DESCRIPTOR_EMPTY r) + {#i#} = named r"
    using named_set_descriptor [OF assms(1-3), of DESCRIPTOR_EMPTY] slot_refs_Some [OF assms(4)] by simp
  then show ?thesis by (metis union_single_eq_member add.commute add_mset_add_single)
qed

subsection \<open>Installation and spaces\<close>

lemma next_object_generation_Some: "next_object_generation g = Some g' \<Longrightarrow> g' \<noteq> 0 \<and> g < g'"
  by (auto simp: next_object_generation_def split: option.splits if_splits dest: checked_add_one_less)

lemma object_ok_vacant: "object_ok object n w l \<Longrightarrow> \<not> kind_occupied (oo_kind object) \<Longrightarrow> n = 0 \<and> w = 0 \<and> l = 0"
  by (simp add: object_ok_def)

text \<open>A fresh object in a vacant place, named by one free descriptor.\<close>

lemma install_step:
  assumes inv: "fd_inv T W L r" and s: "s < MAXIMUM_DESCRIPTOR_SPACES" "space_occupied (dr_spaces r ! s)"
    and fd: "fd < MAXIMUM_FILE_DESCRIPTORS" "\<not> descriptor_occupied (sp_descriptors (dr_spaces r ! s) ! fd)"
    and i: "i < MAXIMUM_OPEN_OBJECTS" "\<not> kind_occupied (oo_kind (dr_objects r ! i))"
    and g: "next_object_generation (oo_generation (dr_objects r ! i)) = Some g" and kind: "kind_occupied kind"
  shows "fd_inv T W L (set_descriptor s fd (descriptor_new i f) (set_object i (object_new g owner 1 flags kind) r))"
proof -
  note d = fd_invD [OF inv]
  have n: "named (set_descriptor s fd (descriptor_new i f) r) = named r + {#i#}"
    using named_set_descriptor [OF d(1) s(1) fd(1), of "descriptor_new i f"] fd(2) i(1) by simp
  have z: "count (named r) i = 0" using object_ok_vacant [OF d(3) [OF i(1)] i(2)] by simp
  have fresh: "key_new i g \<notin># T + W + L"
  proof
    assume "key_new i g \<in># T + W + L"
    from d(5) [OF this] obtain j where "j < MAXIMUM_OPEN_OBJECTS" "key_new i g = object_key_at r j"
      "kind_occupied (oo_kind (dr_objects r ! j))" by (auto simp: live_key_def)
    with i show False by (auto simp: key_new_inject)
  qed
  then have c: "count T (key_new i g) = 0" "count W (key_new i g) = 0" "count L (key_new i g) = 0"
    by (simp_all add: count_eq_zero_iff)
  let ?r = "set_descriptor s fd (descriptor_new i f) (set_object i (object_new g owner 1 flags kind) r)"
  have nr: "named ?r = named r + {#i#}" using n by simp
  have "spaces_ok (set_descriptor s fd (descriptor_new i f) r)" using d(1) s by (intro spaces_ok_set_descriptor) simp_all
  then have sp: "spaces_ok ?r" by simp
  show ?thesis
  proof (rule fd_inv_change [OF inv i(1), where object' = "object_new g owner 1 flags kind"])
    show "object_ok (object_new g owner 1 flags kind) (count (named ?r) i + count T (key_new i (oo_generation (object_new g owner 1 flags kind))))
      (count W (key_new i (oo_generation (object_new g owner 1 flags kind))))
      (count L (key_new i (oo_generation (object_new g owner 1 flags kind))))"
      using z c nr kind next_object_generation_Some [OF g] by (simp add: object_ok_def object_new_def)
    show "\<And>j. j \<in># named ?r \<Longrightarrow> j < MAXIMUM_OPEN_OBJECTS" using nr d(4) i(1) by auto
  qed (use nr sp i in simp_all)
qed

lemma allocate_object_Ok:
  assumes "allocate_object owner kind flags objects = (Ok i, objects')"
  shows "i < length objects" "\<not> kind_occupied (oo_kind (objects ! i))"
    "\<exists>g. next_object_generation (oo_generation (objects ! i)) = Some g \<and> objects' = objects[i := object_new g owner 0 flags kind]"
  using assms by (auto simp: allocate_object_def split: option.splits dest: position_length position_sat)

lemma allocate_bind:
  assumes "fd_inv T W L r" "allocate_object owner kind flags (dr_objects r) = (Ok i, objects')"
    "s < MAXIMUM_DESCRIPTOR_SPACES" "space_occupied (dr_spaces r ! s)" "fd < MAXIMUM_FILE_DESCRIPTORS"
    "\<not> descriptor_occupied (sp_descriptors (dr_spaces r ! s) ! fd)" "kind_occupied kind"
  obtains g where "next_object_generation (oo_generation (dr_objects r ! i)) = Some g" "i < MAXIMUM_OPEN_OBJECTS"
    "\<not> kind_occupied (oo_kind (dr_objects r ! i))"
    "bind_descriptor s fd i f (r\<lparr>dr_objects := objects'\<rparr>) =
      set_descriptor s fd (descriptor_new i f) (set_object i (object_new g owner 1 flags kind) r)"
    "fd_inv T W L (bind_descriptor s fd i f (r\<lparr>dr_objects := objects'\<rparr>))"
proof -
  note d = fd_invD [OF assms(1)] and a = allocate_object_Ok [OF assms(2)]
  from a(3) obtain g where g: "next_object_generation (oo_generation (dr_objects r ! i)) = Some g"
    "objects' = (dr_objects r)[i := object_new g owner 0 flags kind]" by auto
  have eq: "bind_descriptor s fd i f (r\<lparr>dr_objects := objects'\<rparr>) =
      set_descriptor s fd (descriptor_new i f) (set_object i (object_new g owner 1 flags kind) r)"
    using a(1) g(2) by (simp add: bind_descriptor_def object_new_def)
  show ?thesis
    using a(1,2) d(2) install_step [OF assms(1,3,4,5,6) _ a(2) g(1) assms(7), of f owner flags] eq
    by (intro that [OF g(1) _ a(2)]) simp_all
qed

subsection \<open>The last reference\<close>

definition object_counts :: "open_object \<Rightarrow> nat \<Rightarrow> nat \<Rightarrow> nat \<Rightarrow> bool" where
  "object_counts object n w l \<longleftrightarrow> unat (oo_descriptor_references object) = n \<and> unat (oo_references object) = n + w \<and>
     unat (oo_active_operations object) = l \<and> kind_occupied (oo_kind object) \<and> (oo_closing object \<longleftrightarrow> n = 0) \<and>
     oo_generation object \<noteq> 0"

lemma object_ok_counts: "object_ok object n w l \<Longrightarrow> kind_occupied (oo_kind object) \<Longrightarrow> object_counts object n w l"
  "object_counts object n w l \<Longrightarrow> 0 < n + w + l \<Longrightarrow> object_ok object n w l"
  by (simp_all add: object_ok_def object_counts_def)

abbreviation final_of :: "open_object \<Rightarrow> final_object" where
  "final_of object \<equiv> \<lparr>fo_owner = oo_owner object, fo_kind = oo_kind object\<rparr>"

lemma maybe_take_counts:
  assumes "object_counts object n w l" "maybe_take_closing object = (pending, object')"
  shows "object_ok object' n w l" "oo_generation object' = oo_generation object"
    "pending = (if n + w + l = 0 then Some (final_of object) else None)" "pending = None \<Longrightarrow> object' = object"
proof -
  have "oo_references object = 0 \<longleftrightarrow> n + w = 0" "oo_active_operations object = 0 \<longleftrightarrow> l = 0"
    using assms(1) by (auto simp: object_counts_def unat_eq_0)
  then have t: "oo_closing object \<and> oo_references object = 0 \<and> oo_active_operations object = 0 \<longleftrightarrow> n + w + l = 0"
    using assms(1) by (auto simp: object_counts_def)
  show "object_ok object' n w l" "oo_generation object' = oo_generation object"
    "pending = (if n + w + l = 0 then Some (final_of object) else None)" "pending = None \<Longrightarrow> object' = object"
    using assms t object_ok_counts(2) [OF assms(1)]
    by (auto simp: maybe_take_closing_def object_take_def object_ok_def OBJECT_EMPTY_def kind_occupied_def split: if_splits)
qed

lemma settle_inv:
  assumes inv: "fd_inv T W L r" and i: "i < MAXIMUM_OPEN_OBJECTS"
    and counts: "object_counts object (count (named r1) i + count T' (object_key_at r i))
      (count W' (object_key_at r i)) (count L' (object_key_at r i))" "oo_generation object = oo_generation (dr_objects r ! i)"
    and r1: "dr_objects r1 = dr_objects r" "spaces_ok r1"
    and named: "\<And>j. j < MAXIMUM_OPEN_OBJECTS \<Longrightarrow> j \<noteq> i \<Longrightarrow>
      count (named r1) j + count T' (object_key_at r j) = count (named r) j + count T (object_key_at r j)"
    "\<And>j. j \<in># named r1 \<Longrightarrow> j < MAXIMUM_OPEN_OBJECTS"
    and others: "\<And>k. k \<noteq> object_key_at r i \<Longrightarrow> count W' k = count W k \<and> count L' k = count L k \<and> (k \<in># T' \<longrightarrow> k \<in># T)"
    and settle: "settle_object i object r1 = (pending, r')"
  shows "fd_inv T' W' L' r'"
    "pending = (if object_key_at r i \<in># T' + W' + L' \<or> i \<in># named r' then None else Some (final_of object))"
    "named r' = named r1" "dr_spaces r' = dr_spaces r1"
proof -
  obtain object' where m: "maybe_take_closing object = (pending, object')" and r': "r' = set_object i object' r1"
    using settle by (auto simp: settle_object_def split: prod.splits)
  note t = maybe_take_counts [OF counts(1) m]
  show n: "named r' = named r1" "dr_spaces r' = dr_spaces r1" by (simp_all add: r')
  show "fd_inv T' W' L' r'"
    using t r1 named others counts(2) n
    by (intro fd_inv_change [OF inv i, where object' = object']) (simp_all add: r')
  show "pending = (if object_key_at r i \<in># T' + W' + L' \<or> i \<in># named r' then None else Some (final_of object))"
    unfolding t(3) n by (auto simp: count_eq_zero_iff)
qed

text \<open>The case that only the watches or the leases of the object change.\<close>

lemma settle_held:
  assumes inv: "fd_inv T W L r" and i: "i < MAXIMUM_OPEN_OBJECTS"
    and counts: "object_counts object (count (named r) i + count T (object_key_at r i))
      (count W' (object_key_at r i)) (count L' (object_key_at r i))" "oo_generation object = oo_generation (dr_objects r ! i)"
    and others: "\<And>k. k \<noteq> object_key_at r i \<Longrightarrow> count W' k = count W k \<and> count L' k = count L k"
    and settle: "settle_object i object r = (pending, r')"
  shows "fd_inv T W' L' r'" "named r' = named r" "dr_spaces r' = dr_spaces r"
    "pending \<noteq> None \<Longrightarrow> object_key_at r i \<notin># T + W' + L' \<and> i \<notin># named r' \<and> pending = Some (final_of object)"
proof -
  note d = fd_invD [OF inv]
  have o: "count W' k = count W k \<and> count L' k = count L k \<and> (k \<in># T \<longrightarrow> k \<in># T)" if "k \<noteq> object_key_at r i" for k
    using others [OF that] by simp
  note st = settle_inv [OF inv i counts refl d(1) refl d(4) o settle]
  show "fd_inv T W' L' r'" "named r' = named r" "dr_spaces r' = dr_spaces r" using st(1,3,4) by blast+
  show "pending \<noteq> None \<Longrightarrow> object_key_at r i \<notin># T + W' + L' \<and> i \<notin># named r' \<and> pending = Some (final_of object)"
    using st(2) by (auto split: if_splits)
qed

subsection \<open>Leases, watches and transfers\<close>

lemma held_key:
  assumes "fd_inv T W L r" "k \<in># T + W + L"
  obtains i where "i < MAXIMUM_OPEN_OBJECTS" "k = object_key_at r i" "key_index k = Some i"
    "kind_occupied (oo_kind (dr_objects r ! i))" "ok_generation k = oo_generation (dr_objects r ! i)"
    "object_counts (dr_objects r ! i) (count (named r) i + count T k) (count W k) (count L k)"
proof -
  note d = fd_invD [OF assms(1)]
  from d(5) [OF assms(2)] obtain i where i: "i < MAXIMUM_OPEN_OBJECTS" "k = object_key_at r i" "kind_occupied (oo_kind (dr_objects r ! i))"
    by (auto simp: live_key_def)
  from object_ok_counts(1) [OF d(3) [OF i(1)] i(3)] i(2) have c: "object_counts (dr_objects r ! i) (count (named r) i + count T k) (count W k) (count L k)"
    by simp
  then have "oo_generation (dr_objects r ! i) \<noteq> 0" by (simp add: object_counts_def)
  with i(1,2) have "key_index k = Some i" by (simp add: key_index_new)
  with i c that show ?thesis by (simp add: key_new_def)
qed

lemma count_Suc:
  assumes "k \<in># M"
  obtains m where "count M k = Suc m"
  using assms by (metis count_greater_zero_iff gr0_implies_Suc)

lemma lease_object_inv:
  assumes "fd_inv T W L r" "i < MAXIMUM_OPEN_OBJECTS" "\<And>object. live object \<Longrightarrow> kind_occupied (oo_kind object)"
    "lease_object i live r = (res, r')"
  shows "case res of Err _ \<Rightarrow> r' = r
    | Ok lease \<Rightarrow> fd_inv T W (add_mset (ol_key lease) L) r' \<and> lease = lease_of (object_key_at r i) (dr_objects r ! i) \<and>
        live (dr_objects r ! i) \<and> dr_spaces r' = dr_spaces r"
proof (cases res)
  case (Err e)
  with assms(4) show ?thesis by (auto simp: lease_object_def Let_def split: if_splits option.splits)
next
  case (Ok lease)
  note d = fd_invD [OF assms(1)]
  let ?o = "dr_objects r ! i"
  from assms(4) Ok obtain a where a: "live ?o" "checked_add (oo_active_operations ?o) 1 = Some a"
    "lease = lease_of (object_key_at r i) ?o" "r' = set_object i (?o\<lparr>oo_active_operations := a\<rparr>) r"
    by (auto simp: lease_object_def Let_def split: if_splits option.splits)
  have occ: "kind_occupied (oo_kind ?o)" using assms(3) a(1) by blast
  have "unat a = unat (oo_active_operations ?o) + 1" using a(2) by (simp add: checked_add_Some_iff)
  with d(3) [OF assms(2)] occ have "object_ok (?o\<lparr>oo_active_operations := a\<rparr>) (count (named r) i + count T (object_key_at r i))
      (count W (object_key_at r i)) (count (add_mset (ol_key lease) L) (object_key_at r i))"
    by (auto simp: object_ok_def a(3) lease_of_def)
  then have "fd_inv T W (add_mset (ol_key lease) L) r'"
    using d(1,4) a(3,4)
    by (intro fd_inv_change [OF assms(1,2), where object' = "?o\<lparr>oo_active_operations := a\<rparr>"]) (simp_all add: lease_of_def)
  with Ok a show ?thesis by simp
qed

lemma release_lease_inv:
  assumes "fd_inv T W L r" "ol_key lease \<in># L" "release_lease_locked lease r = (pending, r')"
  shows "fd_inv T W (L - {#ol_key lease#}) r'" "dr_spaces r' = dr_spaces r" "named r' = named r"
    "pending \<noteq> None \<Longrightarrow> ol_key lease \<notin># T + W + (L - {#ol_key lease#})"
proof -
  let ?k = "ol_key lease"
  from assms(2) have "?k \<in># T + W + L" by simp
  from held_key [OF assms(1) this] obtain i where i: "i < MAXIMUM_OPEN_OBJECTS" "?k = object_key_at r i" "key_index ?k = Some i"
    "kind_occupied (oo_kind (dr_objects r ! i))" "ok_generation ?k = oo_generation (dr_objects r ! i)"
    "object_counts (dr_objects r ! i) (count (named r) i + count T ?k) (count W ?k) (count L ?k)" .
  let ?o = "dr_objects r ! i"
  have pos: "oo_active_operations ?o \<noteq> 0" using i(6) assms(2) by (auto simp: object_counts_def simp flip: count_greater_zero_iff)
  then have s: "settle_object i (?o\<lparr>oo_active_operations := oo_active_operations ?o - 1\<rparr>) r = (pending, r')"
    using assms(3) i(3,5) by (simp add: release_lease_locked_def Let_def)
  have c: "object_counts (?o\<lparr>oo_active_operations := oo_active_operations ?o - 1\<rparr>) (count (named r) i + count T (object_key_at r i))
      (count W (object_key_at r i)) (count (L - {#?k#}) (object_key_at r i))"
    using i(2,6) pos by (auto simp: object_counts_def unat_dec_word)
  have o: "count W x = count W x \<and> count (L - {#?k#}) x = count L x" if "x \<noteq> object_key_at r i" for x using that i(2) by simp
  note st = settle_held [OF assms(1) i(1) c _ o s]
  from st show "fd_inv T W (L - {#?k#}) r'" "dr_spaces r' = dr_spaces r" "named r' = named r" by simp_all
  show "pending \<noteq> None \<Longrightarrow> ?k \<notin># T + W + (L - {#?k#})" using st(4) i(2) by simp
qed

lemma retain_key_inv:
  assumes "fd_inv T W L r" "retain_key k r = (res, r')"
  shows "if is_Ok res then fd_inv T (add_mset k W) L r' \<and> dr_spaces r' = dr_spaces r else r' = r"
proof (cases "is_Ok res")
  case False
  have "is_Ok (fst (retain_key k r)) \<or> snd (retain_key k r) = r" by (simp add: retain_key_def Let_def split: option.split)
  with False assms(2) show ?thesis by simp
next
  case True
  note d = fd_invD [OF assms(1)]
  from True assms(2) obtain i where i: "key_index k = Some i" by (cases "key_index k") (auto simp: retain_key_def)
  let ?o = "dr_objects r ! i"
  let ?live = "i < length (dr_objects r) \<and> kind_occupied (oo_kind ?o) \<and> oo_generation ?o = ok_generation k \<and>
    oo_descriptor_references ?o \<noteq> 0 \<and> \<not> oo_closing ?o"
  from True assms(2) i have live: ?live by (cases ?live) (auto simp: retain_key_def Let_def)
  with True assms(2) i obtain n where n: "checked_add (oo_references ?o) 1 = Some n"
    by (cases "checked_add (oo_references ?o) 1") (auto simp: retain_key_def Let_def)
  from live assms(2) i n have r': "r' = set_object i (?o\<lparr>oo_references := n\<rparr>) r" by (simp add: retain_key_def Let_def)
  from live d(2) have i': "i < MAXIMUM_OPEN_OBJECTS" and g: "oo_generation ?o = ok_generation k" "kind_occupied (oo_kind ?o)"
    by simp_all
  note i = i i' and n = n r'
  have k: "k = object_key_at r i" using key_index_Some [OF i(1)] g(1) by simp
  have "unat n = unat (oo_references ?o) + 1" using n(1) by (simp add: checked_add_Some_iff)
  with d(3) [OF i(2)] g(2) k have "object_ok (?o\<lparr>oo_references := n\<rparr>) (count (named r) i + count T (object_key_at r i))
      (count (add_mset k W) (object_key_at r i)) (count L (object_key_at r i))"
    by (auto simp: object_ok_def)
  then have "fd_inv T (add_mset k W) L r'"
    using d(1,4) n(2) k by (intro fd_inv_change [OF assms(1) i(2), where object' = "?o\<lparr>oo_references := n\<rparr>"]) simp_all
  with True n(2) show ?thesis by simp
qed

lemma drop_key_inv:
  assumes "fd_inv T W L r" "k \<in># W" "drop_key_locked k r = (pending, r')"
  shows "fd_inv T (W - {#k#}) L r'" "dr_spaces r' = dr_spaces r" "named r' = named r"
    "pending \<noteq> None \<Longrightarrow> k \<notin># T + (W - {#k#}) + L"
proof -
  from assms(2) have "k \<in># T + W + L" by simp
  from held_key [OF assms(1) this] obtain i where i: "i < MAXIMUM_OPEN_OBJECTS" "k = object_key_at r i" "key_index k = Some i"
    "kind_occupied (oo_kind (dr_objects r ! i))" "ok_generation k = oo_generation (dr_objects r ! i)"
    "object_counts (dr_objects r ! i) (count (named r) i + count T k) (count W k) (count L k)" .
  let ?o = "dr_objects r ! i"
  let ?o1 = "?o\<lparr>oo_references := oo_references ?o - 1\<rparr>"
  let ?o2 = "if oo_references ?o1 = 0 then ?o1\<lparr>oo_closing := True\<rparr> else ?o1"
  obtain m where w: "count W k = Suc m" using assms(2) by (rule count_Suc)
  then have pos: "oo_references ?o \<noteq> 0" using i(6) by (auto simp: object_counts_def)
  then have s: "settle_object i ?o2 r = (pending, r')"
    using assms(3) i(3,5) by (simp add: drop_key_locked_def Let_def)
  have u: "unat (oo_references ?o - 1) = unat (oo_references ?o) - 1" using pos by (simp add: unat_dec_word)
  have z: "oo_references ?o - 1 = 0 \<Longrightarrow> count (named r) i + count T k = 0"
    using u i(6) w by (auto simp: object_counts_def)
  have c: "object_counts ?o2 (count (named r) i + count T (object_key_at r i))
      (count (W - {#k#}) (object_key_at r i)) (count L (object_key_at r i))"
    using i(2,6) u w z by (auto simp: object_counts_def)
  have o: "count (W - {#k#}) x = count W x \<and> count L x = count L x" if "x \<noteq> object_key_at r i" for x using that i(2) by simp
  have "oo_generation ?o2 = oo_generation ?o" by simp
  note st = settle_held [OF assms(1) i(1) c this o s]
  from st show "fd_inv T (W - {#k#}) L r'" "dr_spaces r' = dr_spaces r" "named r' = named r" by simp_all
  show "pending \<noteq> None \<Longrightarrow> k \<notin># T + (W - {#k#}) + L" using st(4) i(2) by simp
qed

text \<open>One descriptor or transfer fewer. The place it is taken from is \<open>r1\<close>, with \<open>T'\<close>; the other
  objects' shares only move.\<close>

lemma drop_descriptor_inv:
  assumes inv: "fd_inv T W L r" and i: "i < MAXIMUM_OPEN_OBJECTS"
    and less: "Suc (count (named r1) i + count T' (object_key_at r i)) = count (named r) i + count T (object_key_at r i)"
    and r1: "dr_objects r1 = dr_objects r" "spaces_ok r1"
    and named: "\<And>j. j < MAXIMUM_OPEN_OBJECTS \<Longrightarrow> j \<noteq> i \<Longrightarrow>
      count (named r1) j + count T' (object_key_at r j) = count (named r) j + count T (object_key_at r j)"
    "\<And>j. j \<in># named r1 \<Longrightarrow> j < MAXIMUM_OPEN_OBJECTS" and T': "\<And>k. k \<in># T' \<Longrightarrow> k \<in># T"
    and drop: "drop_descriptor_reference i r1 = (pending, detached, r')"
  shows "fd_inv T' W L r'" "dr_spaces r' = dr_spaces r1" "named r' = named r1"
    "detached = (if count (named r1) i + count T' (object_key_at r i) = 0 then Some (object_key_at r i) else None)"
    "pending \<noteq> None \<Longrightarrow> i \<notin># named r' \<and> object_key_at r i \<notin># T' + W + L \<and> detached = Some (object_key_at r i)"
proof -
  note d = fd_invD [OF inv]
  let ?o = "dr_objects r ! i" and ?n = "count (named r1) i + count T' (object_key_at r i)"
  have ok: "object_ok ?o (Suc ?n) (count W (object_key_at r i)) (count L (object_key_at r i))" using d(3) [OF i] less by simp
  then have occ: "kind_occupied (oo_kind ?o)" by (auto simp: object_ok_def split: if_splits)
  from object_ok_counts(1) [OF ok occ] have oc: "object_counts ?o (Suc ?n) (count W (object_key_at r i)) (count L (object_key_at r i))" .
  let ?o1 = "?o\<lparr>oo_references := oo_references ?o - 1, oo_descriptor_references := oo_descriptor_references ?o - 1\<rparr>"
  let ?o2 = "if oo_descriptor_references ?o1 = 0 then ?o1\<lparr>oo_closing := True\<rparr> else ?o1"
  have nz: "oo_references ?o \<noteq> 0" "oo_descriptor_references ?o \<noteq> 0" using oc by (auto simp: object_counts_def)
  have u: "unat (oo_references ?o - 1) = ?n + count W (object_key_at r i)" "unat (oo_descriptor_references ?o - 1) = ?n"
    using oc nz by (simp_all add: object_counts_def unat_dec_word)
  have z: "oo_descriptor_references ?o - 1 = 0 \<longleftrightarrow> ?n = 0" using u(2) by (metis unat_eq_0)
  have c: "object_counts ?o2 ?n (count W (object_key_at r i)) (count L (object_key_at r i))"
    using oc u z by (auto simp: object_counts_def)
  obtain p q where pq: "settle_object i ?o2 r1 = (p, q)" by fastforce
  have "(pending, detached, r') = (p, if oo_descriptor_references ?o1 = 0 then Some (object_key_at r i) else None, q)"
    using drop unfolding drop_descriptor_reference_def Let_def r1(1) pq prod.case by (rule sym)
  then have s: "settle_object i ?o2 r1 = (pending, r')"
    and det: "detached = (if ?n = 0 then Some (object_key_at r i) else None)"
    using pq z by simp_all
  have o: "count W k = count W k \<and> count L k = count L k \<and> (k \<in># T' \<longrightarrow> k \<in># T)" if "k \<noteq> object_key_at r i" for k
    using T' by simp
  have "oo_generation ?o2 = oo_generation ?o" by simp
  note st = settle_inv [OF inv i c this r1 named o s]
  show "fd_inv T' W L r'" "dr_spaces r' = dr_spaces r1" "named r' = named r1" using st(1,3,4) by blast+
  show "detached = (if ?n = 0 then Some (object_key_at r i) else None)" by (rule det)
  show "pending \<noteq> None \<Longrightarrow> i \<notin># named r' \<and> object_key_at r i \<notin># T' + W + L \<and> detached = Some (object_key_at r i)"
    using st(2,3) det by (auto simp: count_eq_zero_iff split: if_splits)
qed

lemma add_descriptor_inv:
  assumes inv: "fd_inv T W L r" and i: "i < MAXIMUM_OPEN_OBJECTS"
    and live: "kind_occupied (oo_kind (dr_objects r ! i))" "\<not> oo_closing (dr_objects r ! i)"
    and add: "add_descriptor_reference i r = (Ok (), r')"
  shows "fd_inv (add_mset (object_key_at r i) T) W L r'" "dr_spaces r' = dr_spaces r" "named r' = named r"
    "\<And>j. object_key_at r' j = object_key_at r j"
proof -
  note d = fd_invD [OF inv]
  let ?o = "dr_objects r ! i"
  from add obtain a b where a: "checked_add (oo_references ?o) 1 = Some a" "checked_add (oo_descriptor_references ?o) 1 = Some b"
    and r': "r' = set_object i (?o\<lparr>oo_references := a, oo_descriptor_references := b\<rparr>) r"
    by (auto simp: add_descriptor_reference_def Let_def split: option.splits)
  from a have u: "unat a = unat (oo_references ?o) + 1" "unat b = unat (oo_descriptor_references ?o) + 1"
    by (simp_all add: checked_add_Some_iff)
  with d(3) [OF i] live have "object_ok (?o\<lparr>oo_references := a, oo_descriptor_references := b\<rparr>)
      (count (named r) i + count (add_mset (object_key_at r i) T) (object_key_at r i)) (count W (object_key_at r i)) (count L (object_key_at r i))"
    by (simp add: object_ok_def)
  moreover have "count (add_mset (object_key_at r i) T) (object_key_at r j) = count T (object_key_at r j)"
    if "j < MAXIMUM_OPEN_OBJECTS" "j \<noteq> i" for j using that i by (simp add: key_new_inject)
  ultimately show "fd_inv (add_mset (object_key_at r i) T) W L r'"
    using d(1,4) r'
    by (intro fd_inv_change [OF inv i, where object' = "?o\<lparr>oo_references := a, oo_descriptor_references := b\<rparr>"]) simp_all
  show "dr_spaces r' = dr_spaces r" "named r' = named r" using r' by simp_all
  show "object_key_at r' j = object_key_at r j" for j
    using r' by (cases "j = i \<and> i < length (dr_objects r)") (auto simp: nth_update)
qed

subsection \<open>The standard descriptors\<close>

abbreviation fd_slot :: "descriptor_registry \<Rightarrow> nat \<Rightarrow> nat \<Rightarrow> descriptor_slot" where
  "fd_slot r s fd \<equiv> sp_descriptors (dr_spaces r ! s) ! fd"

definition sole_owner :: "descriptor_registry \<Rightarrow> nat \<Rightarrow> nat \<Rightarrow> bool" where
  "sole_owner r s fd \<longleftrightarrow> (\<exists>i. descriptor_object_index (fd_slot r s fd) = Some i \<and> oo_references (dr_objects r ! i) = 1 \<and>
     oo_descriptor_references (dr_objects r ! i) = 1 \<and> oo_active_operations (dr_objects r ! i) = 0)"

definition undo_one :: "nat \<Rightarrow> nat \<Rightarrow> descriptor_registry \<Rightarrow> descriptor_registry" where
  "undo_one s n r = (let i = the (descriptor_object_index (fd_slot r s n)) in
     set_object i (snd (object_take (dr_objects r ! i))) (set_descriptor s n DESCRIPTOR_EMPTY r))"

lemma fd_slot_set:
  assumes "spaces_ok r" "s < MAXIMUM_DESCRIPTOR_SPACES" "fd < MAXIMUM_FILE_DESCRIPTORS"
  shows "fd_slot (set_descriptor s fd slot r) s' n = (if s' = s \<and> n = fd then slot else fd_slot r s' n)"
  using spaces_okD [OF assms(1,2)] assms(2,3) by (auto simp: set_descriptor_def nth_update)

lemma space_occupied_set [simp]:
  "space_occupied (dr_spaces (set_descriptor s fd slot r) ! s') = space_occupied (dr_spaces r ! s')"
  "sp_owner (dr_spaces (set_descriptor s fd slot r) ! s') = sp_owner (dr_spaces r ! s')"
  by (auto simp: set_descriptor_def space_occupied_def nth_update)

lemma undo_one_inv:
  assumes "fd_inv T W L r" "s < MAXIMUM_DESCRIPTOR_SPACES" "n < MAXIMUM_FILE_DESCRIPTORS" "sole_owner r s n"
  shows "fd_inv T W L (undo_one s n r)"
    "\<And>m. m < MAXIMUM_FILE_DESCRIPTORS \<Longrightarrow> m \<noteq> n \<Longrightarrow> sole_owner r s m \<Longrightarrow> sole_owner (undo_one s n r) s m"
    "\<And>m. fd_slot (undo_one s n r) s m = (if m = n then DESCRIPTOR_EMPTY else fd_slot r s m)"
proof -
  note d = fd_invD [OF assms(1)]
  from assms(4) obtain i where i: "descriptor_object_index (fd_slot r s n) = Some i" "oo_references (dr_objects r ! i) = 1"
    "oo_descriptor_references (dr_objects r ! i) = 1" "oo_active_operations (dr_objects r ! i) = 0" by (auto simp: sole_owner_def)
  have mem: "i \<in># named r" using named_member [OF d(1) assms(2,3) i(1)] .
  have lt: "i < MAXIMUM_OPEN_OBJECTS" using d(4) [OF mem] .
  have nm: "named (set_descriptor s n DESCRIPTOR_EMPTY r) + {#i#} = named r"
    using named_set_descriptor [OF d(1) assms(2,3), of DESCRIPTOR_EMPTY] slot_refs_Some [OF i(1)] by simp
  let ?o' = "OBJECT_EMPTY\<lparr>oo_generation := oo_generation (dr_objects r ! i)\<rparr>"
  have u: "undo_one s n r = set_descriptor s n DESCRIPTOR_EMPTY (set_object i ?o' r)"
    using i(1) by (simp add: undo_one_def object_take_def)
  have nm': "named (undo_one s n r) = named r - {#i#}" using nm by (simp add: u) (metis add_mset_remove_trivial)
  have ok: "object_ok (dr_objects r ! i) (count (named r) i + count T (object_key_at r i)) (count W (object_key_at r i)) (count L (object_key_at r i))"
    by (rule d(3) [OF lt])
  obtain m where m: "count (named r) i = Suc m" using mem by (rule count_Suc)
  have z: "count (named r) i = 1" "count T (object_key_at r i) = 0" "count W (object_key_at r i) = 0" "count L (object_key_at r i) = 0"
    using ok i m by (simp_all add: object_ok_def)
  have sp: "spaces_ok (undo_one s n r)"
    using spaces_ok_set_descriptor [OF d(1) assms(2), of DESCRIPTOR_EMPTY n] by (simp add: u)
  have ob: "dr_objects (undo_one s n r) = (dr_objects r)[i := ?o']" by (simp add: u)
  show inv: "fd_inv T W L (undo_one s n r)"
  proof (rule fd_inv_change [OF assms(1) lt, where object' = ?o'])
    show "object_ok ?o' (count (named (undo_one s n r)) i + count T (key_new i (oo_generation ?o')))
      (count W (key_new i (oo_generation ?o'))) (count L (key_new i (oo_generation ?o')))"
      using z by (simp add: nm' object_ok_def OBJECT_EMPTY_def kind_occupied_def)
    show "\<And>j. j \<in># named (undo_one s n r) \<Longrightarrow> j < MAXIMUM_OPEN_OBJECTS" using nm' d(4) in_diffD by metis
  qed (use sp ob in \<open>simp_all add: nm'\<close>)
  show slot: "fd_slot (undo_one s n r) s m = (if m = n then DESCRIPTOR_EMPTY else fd_slot r s m)" for m
    using fd_slot_set [OF _ assms(2,3), of "set_object i ?o' r" DESCRIPTOR_EMPTY s m] d(1) by (simp add: u)
  show "sole_owner (undo_one s n r) s m" if m: "m < MAXIMUM_FILE_DESCRIPTORS" "m \<noteq> n" "sole_owner r s m" for m
  proof -
    from m(3) obtain j where j: "descriptor_object_index (fd_slot r s m) = Some j" "oo_references (dr_objects r ! j) = 1"
      "oo_descriptor_references (dr_objects r ! j) = 1" "oo_active_operations (dr_objects r ! j) = 0" by (auto simp: sole_owner_def)
    have "j \<in># named (undo_one s n r)"
      using named_member [OF fd_invD(1) [OF inv] assms(2) m(1)] j(1) slot m(2) by simp
    moreover have "count (named (undo_one s n r)) i = 0" using z(1) by (simp add: nm')
    ultimately have "j \<noteq> i" by (auto simp: count_eq_zero_iff)
    with j slot m(2) show ?thesis by (auto simp: sole_owner_def u)
  qed
qed

lemma undo_standard_inv:
  assumes "distinct ns" "\<forall>n \<in> set ns. n < MAXIMUM_FILE_DESCRIPTORS \<and> sole_owner r s n" "fd_inv T W L r" "s < MAXIMUM_DESCRIPTOR_SPACES"
  shows "fd_inv T W L (fold (undo_one s) ns r) \<and>
    (\<forall>m. fd_slot (fold (undo_one s) ns r) s m = (if m \<in> set ns then DESCRIPTOR_EMPTY else fd_slot r s m)) \<and>
    sp_owner (dr_spaces (fold (undo_one s) ns r) ! s) = sp_owner (dr_spaces r ! s)"
  using assms
proof (induction ns arbitrary: r)
  case (Cons n ns)
  then have n: "n < MAXIMUM_FILE_DESCRIPTORS" "sole_owner r s n" by simp_all
  note u = undo_one_inv [OF Cons.prems(3,4) n]
  have ow: "sp_owner (dr_spaces (undo_one s n r) ! s) = sp_owner (dr_spaces r ! s)" by (simp add: undo_one_def Let_def)
  have rest: "distinct ns" "\<forall>m \<in> set ns. m < MAXIMUM_FILE_DESCRIPTORS \<and> sole_owner (undo_one s n r) s m"
    using Cons.prems(1,2) u(2) by auto
  from Cons.IH [OF rest u(1) Cons.prems(4)] Cons.prems(1) u(3) ow show ?case by auto
qed simp

lemma undo_standard_fold: "undo_standard s fd r = fold (undo_one s) [0..<fd] r"
proof -
  have "(\<lambda>n registry. let object_index = the (descriptor_object_index (fd_slot registry s n)) in
         set_object object_index (snd (object_take (dr_objects registry ! object_index)))
           (set_descriptor s n DESCRIPTOR_EMPTY registry)) = undo_one s"
    by (intro ext) (simp add: undo_one_def Let_def)
  then show ?thesis by (simp add: undo_standard_def)
qed

lemma initialize_standard_inv:
  assumes "fd_inv T W L r" "s < MAXIMUM_DESCRIPTOR_SPACES" "space_occupied (dr_spaces r ! s)"
    "fd + length kinds \<le> MAXIMUM_FILE_DESCRIPTORS" "\<forall>(kind, flags) \<in> set kinds. kind_occupied kind" "\<forall>n < fd. sole_owner r s n"
    "\<forall>n. fd \<le> n \<and> n < MAXIMUM_FILE_DESCRIPTORS \<longrightarrow> \<not> descriptor_occupied (fd_slot r s n)"
    "initialize_standard_loop s fd kinds r = (res, r')"
  shows "fd_inv T W L r' \<and> sp_owner (dr_spaces r' ! s) = sp_owner (dr_spaces r ! s) \<and>
    (\<not> is_Ok res \<longrightarrow> (\<forall>n < MAXIMUM_FILE_DESCRIPTORS. \<not> descriptor_occupied (fd_slot r' s n)))"
  using assms
proof (induction kinds arbitrary: fd r)
  case (Cons p kinds)
  obtain kind flags where p: "p = (kind, flags)" by fastforce
  obtain a objects where al: "allocate_object (sp_owner (dr_spaces r ! s)) kind flags (dr_objects r) = (a, objects)" by fastforce
  show ?case
  proof (cases a)
    case (Err e)
    with Cons.prems(8) al p have e: "r' = fold (undo_one s) [0..<fd] r" "res = Err e" by (simp_all add: undo_standard_fold)
    have "\<forall>n \<in> set [0..<fd]. n < MAXIMUM_FILE_DESCRIPTORS \<and> sole_owner r s n" using Cons.prems(4,6) by auto
    from undo_standard_inv [OF distinct_upt this Cons.prems(1,2)] Cons.prems(7) e show ?thesis by auto
  next
    case (Ok i)
    have fd: "fd < MAXIMUM_FILE_DESCRIPTORS" "\<not> descriptor_occupied (fd_slot r s fd)" using Cons.prems(4,7) by auto
    have ko: "kind_occupied kind" using Cons.prems(5) p by auto
    let ?r1 = "bind_descriptor s fd i 0 (r\<lparr>dr_objects := objects\<rparr>)"
    note d = fd_invD [OF Cons.prems(1)]
    from allocate_bind [OF Cons.prems(1) al [unfolded Ok] Cons.prems(2,3) fd ko]
    obtain g where g: "i < MAXIMUM_OPEN_OBJECTS" "\<not> kind_occupied (oo_kind (dr_objects r ! i))"
      "?r1 = set_descriptor s fd (descriptor_new i 0) (set_object i (object_new g (sp_owner (dr_spaces r ! s)) 1 flags kind) r)"
      "fd_inv T W L ?r1" by metis
    have slot: "fd_slot ?r1 s n = (if n = fd then descriptor_new i 0 else fd_slot r s n)" for n
      using fd_slot_set [OF _ Cons.prems(2) fd(1), of "set_object i (object_new g (sp_owner (dr_spaces r ! s)) 1 flags kind) r" _ s n] d(1)
      by (simp add: g(3))
    have so: "sole_owner ?r1 s n" if n: "n < Suc fd" for n
    proof (cases "n = fd")
      case True
      then show ?thesis using g(1) d(2) unfolding sole_owner_def slot by (simp add: g(3) object_new_def)
    next
      case False
      with n have "n < fd" by simp
      with Cons.prems(6) obtain j where j: "descriptor_object_index (fd_slot r s n) = Some j" "oo_references (dr_objects r ! j) = 1"
        "oo_descriptor_references (dr_objects r ! j) = 1" "oo_active_operations (dr_objects r ! j) = 0" by (auto simp: sole_owner_def)
      have "j \<in># named r" using named_member [OF d(1) Cons.prems(2) _ j(1)] n fd(1) by simp
      then have "j \<noteq> i" using object_ok_vacant [OF d(3) [OF g(1)] g(2)] by (auto simp: count_eq_zero_iff)
      with j False show ?thesis unfolding sole_owner_def slot by (simp add: g(3))
    qed
    have step: "initialize_standard_loop s (Suc fd) kinds ?r1 = (res, r')" using Cons.prems(8) al Ok p by simp
    have own: "sp_owner (dr_spaces ?r1 ! s) = sp_owner (dr_spaces r ! s)" "space_occupied (dr_spaces ?r1 ! s)"
      using Cons.prems(3) by (simp_all add: g(3))
    have "fd_inv T W L r' \<and> sp_owner (dr_spaces r' ! s) = sp_owner (dr_spaces ?r1 ! s) \<and>
        (\<not> is_Ok res \<longrightarrow> (\<forall>n < MAXIMUM_FILE_DESCRIPTORS. \<not> descriptor_occupied (fd_slot r' s n)))"
    proof (rule Cons.IH [OF g(4) Cons.prems(2) own(2) _ _ _ _ step])
      show "\<forall>n. Suc fd \<le> n \<and> n < MAXIMUM_FILE_DESCRIPTORS \<longrightarrow> \<not> descriptor_occupied (fd_slot ?r1 s n)"
        using Cons.prems(7) unfolding slot by auto
    qed (use Cons.prems(4,5) so in auto)
    with own(1) show ?thesis by simp
  qed
qed auto

lemma set_space_owner_inv:
  assumes "fd_inv T W L r" "s < MAXIMUM_DESCRIPTOR_SPACES"
    "valid_owner owner \<or> (\<forall>n < MAXIMUM_FILE_DESCRIPTORS. \<not> descriptor_occupied (fd_slot r s n))"
  shows "fd_inv T W L (set_space_owner s owner r)"
proof -
  note d = fd_invD [OF assms(1)] and sp = spaces_okD [OF fd_invD(1) [OF assms(1)] assms(2)]
  let ?sp = "(dr_spaces r ! s)\<lparr>sp_owner := owner\<rparr>"
  have "named (set_space_owner s owner r) + space_refs (dr_spaces r ! s) = named r + space_refs ?sp"
    using sum_table_update [of s "dr_spaces r" space_refs ?sp] assms(2) sp(1) by (simp add: named_def set_space_owner_def)
  then have n: "named (set_space_owner s owner r) = named r" by (simp add: space_refs_def)
  have "space_ok ?sp" using assms(3) sp(2) by (auto simp: space_ok_def space_occupied_def valid_owner_def list_all_length)
  then have "spaces_ok (set_space_owner s owner r)" using d(1) by (simp add: spaces_ok_def set_space_owner_def list_all_update)
  then show ?thesis using n d(4) by (intro fd_inv_move [OF assms(1)]) simp_all
qed

lemma fd_slot_owner [simp]: "fd_slot (set_space_owner s owner r) s' n = fd_slot r s' n"
  by (simp add: set_space_owner_def nth_update)

lemma ensure_space_inv:
  assumes "fd_inv T W L r" "ensure_space owner r = (res, r')"
  shows "fd_inv T W L r'" "\<And>s. res = Ok s \<Longrightarrow> s < MAXIMUM_DESCRIPTOR_SPACES \<and> space_occupied (dr_spaces r' ! s) \<and> sp_owner (dr_spaces r' ! s) = owner"
proof -
  note d = fd_invD [OF assms(1)]
  have len: "length (dr_spaces r) = MAXIMUM_DESCRIPTOR_SPACES" using d(1) by (simp add: spaces_ok_def)
  have "fd_inv T W L r' \<and> (\<forall>s. res = Ok s \<longrightarrow> s < MAXIMUM_DESCRIPTOR_SPACES \<and> space_occupied (dr_spaces r' ! s) \<and> sp_owner (dr_spaces r' ! s) = owner)"
  proof (cases "valid_owner owner \<and> find_space (dr_spaces r) owner = None \<and> position (\<lambda>space. \<not> space_occupied space) (dr_spaces r) \<noteq> None")
    case False
    then consider "\<not> valid_owner owner" | s where "valid_owner owner" "find_space (dr_spaces r) owner = Some s"
      | "valid_owner owner" "find_space (dr_spaces r) owner = None" "position (\<lambda>space. \<not> space_occupied space) (dr_spaces r) = None"
      by auto
    then show ?thesis
    proof cases
      case 2
      then have "s < length (dr_spaces r)" "space_occupied (dr_spaces r ! s) \<and> sp_owner (dr_spaces r ! s) = owner"
        unfolding find_space_def by (blast dest: position_length, blast dest: position_sat)
      with 2 assms len show ?thesis by (auto simp: ensure_space_def)
    qed (use assms in \<open>auto simp: ensure_space_def\<close>)
  next
    case True
    then obtain s where v: "valid_owner owner" "find_space (dr_spaces r) owner = None"
      and s: "position (\<lambda>space. \<not> space_occupied space) (dr_spaces r) = Some s" by auto
    have lt: "s < MAXIMUM_DESCRIPTOR_SPACES" "\<not> space_occupied (dr_spaces r ! s)"
      using position_length [OF s] position_sat [OF s] len by simp_all
    let ?r1 = "set_space_owner s owner r"
    have i1: "fd_inv T W L ?r1" using set_space_owner_inv [OF assms(1) lt(1)] v(1) by simp
    have o1: "sp_owner (dr_spaces ?r1 ! s) = owner" "space_occupied (dr_spaces ?r1 ! s)"
      using lt(1) len v(1) by (simp_all add: set_space_owner_def space_occupied_def valid_owner_def)
    obtain b r2 where st: "initialize_standard_descriptors s ?r1 = (b, r2)" by fastforce
    have "fd_inv T W L r2 \<and> sp_owner (dr_spaces r2 ! s) = sp_owner (dr_spaces ?r1 ! s) \<and>
        (\<not> is_Ok b \<longrightarrow> (\<forall>n < MAXIMUM_FILE_DESCRIPTORS. \<not> descriptor_occupied (fd_slot r2 s n)))"
      using spaces_okD(3) [OF d(1) lt]
      by (intro initialize_standard_inv [OF i1 lt(1) o1(2) _ _ _ _ st [unfolded initialize_standard_descriptors_def]])
        (auto simp: kind_occupied_def)
    then have k: "fd_inv T W L r2" "sp_owner (dr_spaces r2 ! s) = owner"
      "\<not> is_Ok b \<Longrightarrow> \<forall>n < MAXIMUM_FILE_DESCRIPTORS. \<not> descriptor_occupied (fd_slot r2 s n)"
      using o1(1) by auto
    show ?thesis
    proof (cases b)
      case (Ok u)
      with assms(2) v s st k lt(1) show ?thesis by (auto simp: ensure_space_def space_occupied_def valid_owner_def)
    next
      case (Err e)
      with k(3) set_space_owner_inv [OF k(1) lt(1), of no_handle] have "fd_inv T W L (set_space_owner s no_handle r2)" by simp
      with assms(2) v s st Err show ?thesis by (auto simp: ensure_space_def)
    qed
  qed
  then show "fd_inv T W L r'" "\<And>s. res = Ok s \<Longrightarrow> s < MAXIMUM_DESCRIPTOR_SPACES \<and> space_occupied (dr_spaces r' ! s) \<and> sp_owner (dr_spaces r' ! s) = owner"
    by simp_all
qed

subsection \<open>Each lock section\<close>

lemma named_live:
  assumes "fd_inv T W L r" "i \<in># named r"
  shows "i < MAXIMUM_OPEN_OBJECTS" "kind_occupied (oo_kind (dr_objects r ! i))" "\<not> oo_closing (dr_objects r ! i)"
    "oo_references (dr_objects r ! i) \<noteq> 0" "oo_descriptor_references (dr_objects r ! i) \<noteq> 0"
proof -
  note d = fd_invD [OF assms(1)]
  show lt: "i < MAXIMUM_OPEN_OBJECTS" using d(4) [OF assms(2)] .
  obtain m where m: "count (named r) i = Suc m" using assms(2) by (rule count_Suc)
  with d(3) [OF lt] show "kind_occupied (oo_kind (dr_objects r ! i))" "\<not> oo_closing (dr_objects r ! i)"
    "oo_references (dr_objects r ! i) \<noteq> 0" "oo_descriptor_references (dr_objects r ! i) \<noteq> 0"
    by (auto simp: object_ok_def split: if_splits)
qed

lemma descriptor_at_Ok:
  assumes "fd_inv T W L r" "s < MAXIMUM_DESCRIPTOR_SPACES" "descriptor_at r s fd = Ok slot"
  obtains i where "unat fd < MAXIMUM_FILE_DESCRIPTORS" "slot = fd_slot r s (unat fd)" "descriptor_object_index slot = Some i"
    "i \<in># named r" "i < MAXIMUM_OPEN_OBJECTS"
proof -
  note d = fd_invD [OF assms(1)]
  have lt: "unat fd < MAXIMUM_FILE_DESCRIPTORS" and slot: "slot = fd_slot r s (unat fd)" "descriptor_occupied slot"
    using assms(3) spaces_okD(2) [OF d(1) assms(2)] by (auto simp: descriptor_at_def Let_def split: if_splits)
  then obtain i where i: "descriptor_object_index slot = Some i" by (auto simp: descriptor_object_index_def)
  have "i \<in># named r" using named_member [OF d(1) assms(2) lt] i slot(1) by simp
  with lt slot(1) i that d(4) show ?thesis by blast
qed

lemma install_backend_inv:
  assumes "fd_inv T W L r" "kind_occupied kind" "install_backend_object owner backend_owner kind flags cloexec r = (res, r')"
  shows "fd_inv T W L r'"
proof -
  obtain a r1 where e: "ensure_space owner r = (a, r1)" by fastforce
  note es = ensure_space_inv [OF assms(1) e]
  show ?thesis
  proof (cases a)
    case (Err x)
    with assms(3) e es show ?thesis by (simp add: install_backend_object_def)
  next
    case (Ok s)
    note s = es(2) [OF Ok]
    have len: "length (sp_descriptors (dr_spaces r1 ! s)) = MAXIMUM_FILE_DESCRIPTORS" using spaces_okD(2) fd_invD(1) es(1) s by blast
    show ?thesis
    proof (cases "position (\<lambda>slot. \<not> descriptor_occupied slot) (sp_descriptors (dr_spaces r1 ! s))")
      case None
      with assms(3) e es Ok show ?thesis by (simp add: install_backend_object_def)
    next
      case (Some fd)
      obtain b objects where al: "allocate_object backend_owner kind flags (dr_objects r1) = (b, objects)" by fastforce
      show ?thesis
      proof (cases b)
        case (Err x)
        with assms(3) e es Ok Some al show ?thesis by (simp add: install_backend_object_def)
      next
        case (Ok i)
        have "fd < MAXIMUM_FILE_DESCRIPTORS" "\<not> descriptor_occupied (fd_slot r1 s fd)"
          using position_length [OF Some] position_sat [OF Some] len by simp_all
        then have "fd_inv T W L (bind_descriptor s fd i (cloexec_flag cloexec) (r1\<lparr>dr_objects := objects\<rparr>))"
          using allocate_bind [OF es(1) al [unfolded Ok] _ _ _ _ assms(2)] s by metis
        with assms(3) e \<open>a = Ok s\<close> Some al Ok show ?thesis by (auto simp: install_backend_object_def)
      qed
    qed
  qed
qed

lemma first_two_Some:
  assumes "first_two P xs = Some (i, j)"
  shows "i < j" "j < length xs" "P (xs ! i)" "P (xs ! j)"
proof -
  from assms obtain p: "position P xs = Some i" and q: "position_from (Suc i) P xs = Some j"
    by (auto simp: first_two_def split: option.splits)
  show "P (xs ! i)" using position_sat [OF p] .
  from position_from_Some [OF q] show "i < j" "j < length xs" "P (xs ! j)" by auto
qed

lemma install_pair_steps:
  assumes "fd_inv T W L r" "s < MAXIMUM_DESCRIPTOR_SPACES" "space_occupied (dr_spaces r ! s)" "d1 < d2" "d2 < MAXIMUM_FILE_DESCRIPTORS"
    "\<not> descriptor_occupied (fd_slot r s d1)" "\<not> descriptor_occupied (fd_slot r s d2)" "o1 < o2" "o2 < MAXIMUM_OPEN_OBJECTS"
    "\<not> kind_occupied (oo_kind (dr_objects r ! o1))" "\<not> kind_occupied (oo_kind (dr_objects r ! o2))"
    "next_object_generation (oo_generation (dr_objects r ! o1)) = Some g1"
    "next_object_generation (oo_generation (dr_objects r ! o2)) = Some g2" "kind_occupied k1" "kind_occupied k2"
  shows "fd_inv T W L (set_descriptor s d2 (descriptor_new o2 c) (set_descriptor s d1 (descriptor_new o1 c)
    (set_object o2 (object_new g2 owner 1 f2 k2) (set_object o1 (object_new g1 owner 1 f1 k1) r))))"
proof -
  note d = fd_invD [OF assms(1)]
  let ?r2 = "set_descriptor s d1 (descriptor_new o1 c) (set_object o1 (object_new g1 owner 1 f1 k1) r)"
  have i2: "fd_inv T W L ?r2" using assms by (intro install_step [OF assms(1)]) simp_all
  have slot: "fd_slot ?r2 s d2 = fd_slot r s d2"
    using fd_slot_set [of "set_object o1 (object_new g1 owner 1 f1 k1) r" s d1 _ s d2] d(1) assms(2,4,5) by simp
  have "fd_inv T W L (set_descriptor s d2 (descriptor_new o2 c) (set_object o2 (object_new g2 owner 1 f2 k2) ?r2))"
    using assms slot by (intro install_step [OF i2]) simp_all
  then show ?thesis by simp
qed

lemma install_pair_inv:
  assumes "fd_inv T W L r" "kind_occupied k1" "kind_occupied k2" "install_object_pair owner k1 f1 k2 f2 cloexec r = (res, r')"
  shows "fd_inv T W L r'"
proof -
  obtain a r1 where e: "ensure_space owner r = (a, r1)" by fastforce
  note es = ensure_space_inv [OF assms(1) e]
  show ?thesis
  proof (cases a)
    case (Err x)
    with assms(4) e es show ?thesis by (simp add: install_object_pair_def)
  next
    case a: (Ok s)
    note eq = assms(4) [unfolded install_object_pair_def e prod.case a result.case]
    show ?thesis
    proof (cases "first_two (\<lambda>slot. \<not> descriptor_occupied slot) (sp_descriptors (dr_spaces r1 ! s))")
      case None
      with eq es show ?thesis by simp
    next
      case (Some p)
      then obtain d1 d2 where ds: "first_two (\<lambda>slot. \<not> descriptor_occupied slot) (sp_descriptors (dr_spaces r1 ! s)) = Some (d1, d2)"
        by (cases p) auto
      note eq = eq [unfolded ds option.case prod.case]
      show ?thesis
      proof (cases "first_two (\<lambda>object. \<not> kind_occupied (oo_kind object)) (dr_objects r1)")
        case None
        with eq es show ?thesis by simp
      next
        case (Some p)
        then obtain o1 o2 where os: "first_two (\<lambda>object. \<not> kind_occupied (oo_kind object)) (dr_objects r1) = Some (o1, o2)"
          by (cases p) auto
        note eq = eq [unfolded os option.case prod.case]
        show ?thesis
        proof (cases "next_object_generation (oo_generation (dr_objects r1 ! o1)) = None \<or> next_object_generation (oo_generation (dr_objects r1 ! o2)) = None")
          case True
          with eq es show ?thesis by (auto split: option.splits)
        next
          case False
          then obtain g1 g2 where g: "next_object_generation (oo_generation (dr_objects r1 ! o1)) = Some g1"
            "next_object_generation (oo_generation (dr_objects r1 ! o2)) = Some g2" by auto
          note s = es(2) [OF a] and d = fd_invD [OF es(1)]
          have len: "length (sp_descriptors (dr_spaces r1 ! s)) = MAXIMUM_FILE_DESCRIPTORS" using spaces_okD(2) [OF d(1)] s by blast
          note dd = first_two_Some [OF ds] and oo = first_two_Some [OF os]
          let ?c = "cloexec_flag cloexec"
          have r': "r' = set_descriptor s d2 (descriptor_new o2 ?c) (set_descriptor s d1 (descriptor_new o1 ?c)
              (set_object o2 (object_new g2 owner 1 f2 k2) (set_object o1 (object_new g1 owner 1 f1 k1) r1)))"
            using eq g by (simp add: Let_def)
          from install_pair_steps [OF es(1) s [THEN conjunct1] s [THEN conjunct2, THEN conjunct1] dd(1,2) [unfolded len] dd(3,4)
              oo(1,2) [unfolded d(2)] oo(3,4) g assms(2,3)] show ?thesis by (simp add: r')
        qed
      qed
    qed
  qed
qed

text \<open>The calls that begin with \<open>ensure_space\<close> and a descriptor share this case analysis.\<close>

lemma with_descriptor:
  assumes "fd_inv T W L r" "ensure_space owner r = (a, r1)"
  obtains (no_space) e where "a = Err e" "fd_inv T W L r1"
  | (no_descriptor) s e where "a = Ok s" "descriptor_at r1 s fd = Err e" "fd_inv T W L r1" "s < MAXIMUM_DESCRIPTOR_SPACES"
  | (found) s i where "a = Ok s" "s < MAXIMUM_DESCRIPTOR_SPACES" "space_occupied (dr_spaces r1 ! s)" "fd_inv T W L r1"
      "descriptor_at r1 s fd = Ok (fd_slot r1 s (unat fd))" "unat fd < MAXIMUM_FILE_DESCRIPTORS"
      "descriptor_object_index (fd_slot r1 s (unat fd)) = Some i" "i \<in># named r1" "i < MAXIMUM_OPEN_OBJECTS"
proof (cases a)
  case (Err e)
  then show ?thesis using ensure_space_inv(1) [OF assms] by (rule no_space)
next
  case (Ok s)
  note es = ensure_space_inv(1) [OF assms] ensure_space_inv(2) [OF assms Ok]
  show ?thesis
  proof (cases "descriptor_at r1 s fd")
    case (Err e)
    with es show ?thesis by (intro no_descriptor [OF Ok Err]) simp_all
  next
    case slot: (Ok slot)
    from es(2) have "s < MAXIMUM_DESCRIPTOR_SPACES" by simp
    from descriptor_at_Ok [OF es(1) this slot] obtain i where "unat fd < MAXIMUM_FILE_DESCRIPTORS" "slot = fd_slot r1 s (unat fd)"
      "descriptor_object_index slot = Some i" "i \<in># named r1" "i < MAXIMUM_OPEN_OBJECTS" .
    with es slot show ?thesis by (intro found [OF Ok, of i]) simp_all
  qed
qed

lemma acquire_descriptor_inv:
  assumes "fd_inv T W L r" "acquire_descriptor owner fd r = (res, r')"
  shows "case res of Err _ \<Rightarrow> fd_inv T W L r' | Ok lease \<Rightarrow> fd_inv T W (add_mset (ol_key lease) L) r'"
proof -
  obtain a r1 where e: "ensure_space owner r = (a, r1)" by fastforce
  from assms(1) e show ?thesis
  proof (cases rule: with_descriptor [where fd = fd])
    case (found s i)
    let ?live = "\<lambda>object. kind_occupied (oo_kind object) \<and> \<not> oo_closing object"
    have "lease_object i ?live r1 = (res, r')" using assms(2) e found by (simp add: acquire_descriptor_def)
    from lease_object_inv [OF found(4,9) _ this] found(4) show ?thesis by (auto split: result.splits)
  qed (use assms(2) e in \<open>auto simp: acquire_descriptor_def\<close>)
qed

lemma acquire_key_inv:
  assumes "fd_inv T W L r" "acquire_key k r = (res, r')"
  shows "case res of Err _ \<Rightarrow> r' = r | Ok lease \<Rightarrow> fd_inv T W (add_mset (ol_key lease) L) r' \<and> ol_key lease = k"
proof (cases "key_index k")
  case None
  with assms show ?thesis by (auto simp: acquire_key_def)
next
  case (Some i)
  let ?live = "\<lambda>object. kind_occupied (oo_kind object) \<and> oo_generation object = ok_generation k \<and> \<not> oo_closing object"
  have l: "lease_object i ?live r = (res, r')" using assms(2) Some by (simp add: acquire_key_def)
  show ?thesis
  proof (cases "i < MAXIMUM_OPEN_OBJECTS")
    case True
    from lease_object_inv [OF assms(1) True _ l] key_index_Some [OF Some] show ?thesis
      by (auto simp: lease_of_def split: result.splits)
  next
    case False
    with l fd_invD(2) [OF assms(1)] show ?thesis by (auto simp: lease_object_def)
  qed
qed

text \<open>Emptying a descriptor that names \<open>i\<close>.\<close>

lemma empty_descriptor:
  assumes "fd_inv T W L r" "s < MAXIMUM_DESCRIPTOR_SPACES" "fd < MAXIMUM_FILE_DESCRIPTORS" "descriptor_object_index (fd_slot r s fd) = Some i"
  shows "spaces_ok (set_descriptor s fd DESCRIPTOR_EMPTY r)" "add_mset i (named (set_descriptor s fd DESCRIPTOR_EMPTY r)) = named r"
proof -
  note d = fd_invD [OF assms(1)]
  show "spaces_ok (set_descriptor s fd DESCRIPTOR_EMPTY r)" using d(1) assms(2) by (intro spaces_ok_set_descriptor) simp_all
  show "add_mset i (named (set_descriptor s fd DESCRIPTOR_EMPTY r)) = named r"
    using named_set_descriptor [OF d(1) assms(2,3), of DESCRIPTOR_EMPTY] slot_refs_Some [OF assms(4)] by simp
qed

lemma drop_emptied_descriptor:
  assumes "fd_inv T W L r" "s < MAXIMUM_DESCRIPTOR_SPACES" "fd < MAXIMUM_FILE_DESCRIPTORS" "descriptor_object_index (fd_slot r s fd) = Some i"
    "drop_descriptor_reference i (set_descriptor s fd DESCRIPTOR_EMPTY r) = (pending, detached, r')"
  shows "fd_inv T W L r'" "named r = add_mset i (named r')" "dr_spaces r' = dr_spaces (set_descriptor s fd DESCRIPTOR_EMPTY r)"
    "detached = (if count (named r') i + count T (object_key_at r i) = 0 then Some (object_key_at r i) else None)"
    "pending \<noteq> None \<Longrightarrow> i \<notin># named r' \<and> object_key_at r i \<notin># T + W + L \<and> detached = Some (object_key_at r i)"
proof -
  note d = fd_invD [OF assms(1)] and e = empty_descriptor [OF assms(1-4)]
  let ?r1 = "set_descriptor s fd DESCRIPTOR_EMPTY r"
  have i: "i < MAXIMUM_OPEN_OBJECTS" using d(4) e(2) by (metis union_single_eq_member)
  have c: "Suc (count (named ?r1) i + count T (object_key_at r i)) = count (named r) i + count T (object_key_at r i)"
    "\<And>j. j \<noteq> i \<Longrightarrow> count (named ?r1) j = count (named r) j" "\<And>j. j \<in># named ?r1 \<Longrightarrow> j < MAXIMUM_OPEN_OBJECTS"
    using d(4) by (auto simp flip: e(2))
  note dr = drop_descriptor_inv [OF assms(1) i c(1) _ e(1) _ c(3) _ assms(5)]
  from dr c(2) show "fd_inv T W L r'" by simp
  have nr: "named r' = named ?r1" using dr(3) c(2) by simp
  then show "named r = add_mset i (named r')" using e(2) by simp
  show "dr_spaces r' = dr_spaces ?r1" using dr(2) c(2) by simp
  show "detached = (if count (named r') i + count T (object_key_at r i) = 0 then Some (object_key_at r i) else None)"
    using dr(4) c(2) nr by simp
  show "pending \<noteq> None \<Longrightarrow> i \<notin># named r' \<and> object_key_at r i \<notin># T + W + L \<and> detached = Some (object_key_at r i)"
    using dr(5) c(2) by simp
qed

lemma close_locked_inv:
  assumes "fd_inv T W L r" "close_locked owner fd r = (res, r')"
  shows "fd_inv T W L r'"
proof -
  obtain a r1 where e: "ensure_space owner r = (a, r1)" by fastforce
  from assms(1) e show ?thesis
  proof (cases rule: with_descriptor [where fd = fd])
    case (found s i)
    obtain pending detached r2 where dr: "drop_descriptor_reference i (set_descriptor s (unat fd) DESCRIPTOR_EMPTY r1) = (pending, detached, r2)"
      by (metis surj_pair)
    from drop_emptied_descriptor(1) [OF found(4,2,6,7) dr] assms(2) e found named_live(4,5) [OF found(4,8)] dr show ?thesis
      by (simp add: close_locked_def Let_def)
  qed (use assms(2) e in \<open>auto simp: close_locked_def\<close>)
qed

text \<open>A transfer becomes a descriptor.\<close>

lemma place_token:
  assumes "fd_inv (add_mset (object_key_at r i) T) W L r" "i < MAXIMUM_OPEN_OBJECTS" "s < MAXIMUM_DESCRIPTOR_SPACES"
    "space_occupied (dr_spaces r ! s)" "fd < MAXIMUM_FILE_DESCRIPTORS" "\<not> descriptor_occupied (fd_slot r s fd)"
  shows "fd_inv T W L (set_descriptor s fd (descriptor_new i f) r)"
proof -
  note d = fd_invD [OF assms(1)]
  have n: "named (set_descriptor s fd (descriptor_new i f) r) = add_mset i (named r)"
    using named_set_descriptor [OF d(1) assms(3,5), of "descriptor_new i f"] assms(2,6) by simp
  show ?thesis
  proof (rule fd_inv_move [OF assms(1)])
    show "spaces_ok (set_descriptor s fd (descriptor_new i f) r)" using d(1) assms(3,4) by (intro spaces_ok_set_descriptor) simp_all
    show "count (named (set_descriptor s fd (descriptor_new i f) r)) j + count T (object_key_at r j) =
        count (named r) j + count (add_mset (object_key_at r i) T) (object_key_at r j)" if "j < MAXIMUM_OPEN_OBJECTS" for j
      using that assms(2) by (auto simp: n key_new_inject)
  qed (use n assms(2) d(4) in auto)
qed

lemma duplicate_inv:
  assumes "fd_inv T W L r" "duplicate owner old minimum cloexec r = (res, r')"
  shows "fd_inv T W L r'"
proof (cases "unat minimum \<ge> MAXIMUM_FILE_DESCRIPTORS")
  case True
  with assms show ?thesis by (simp add: duplicate_def)
next
  case False
  obtain a r1 where e: "ensure_space owner r = (a, r1)" by fastforce
  from assms(1) e show ?thesis
  proof (cases rule: with_descriptor [where fd = old])
    case (found s i)
    show ?thesis
    proof (cases "position_from (unat minimum) (\<lambda>slot. \<not> descriptor_occupied slot) (sp_descriptors (dr_spaces r1 ! s))")
      case None
      with assms(2) e found False show ?thesis by (simp add: duplicate_def)
    next
      case (Some target)
      note live = named_live [OF found(4,8)]
      have t: "target < MAXIMUM_FILE_DESCRIPTORS" "\<not> descriptor_occupied (fd_slot r1 s target)"
        using position_from_Some [OF Some] spaces_okD(2) [OF fd_invD(1) [OF found(4)] found(2)] by auto
      obtain b r2 where ad: "add_descriptor_reference i r1 = (b, r2)" by fastforce
      show ?thesis
      proof (cases b)
        case (Err x)
        with assms(2) e found False Some live ad show ?thesis by (simp add: duplicate_def Let_def)
      next
        case (Ok u)
        note av = add_descriptor_inv [OF found(4,9) live(2,3)] 
        from ad Ok have ad': "add_descriptor_reference i r1 = (Ok (), r2)" by simp
        note av = av [OF ad']
        have "fd_inv T W L (set_descriptor s target (descriptor_new i (cloexec_flag cloexec)) r2)"
          using av found t by (intro place_token) simp_all
        with assms(2) e found False Some live ad Ok show ?thesis by (simp add: duplicate_def Let_def)
      qed
    qed
  qed (use assms(2) e False in \<open>auto simp: duplicate_def\<close>)
qed

lemma drop_descriptor_commute:
  "drop_descriptor_reference i (set_descriptor s fd slot r) =
    (case drop_descriptor_reference i r of (p, d, r') \<Rightarrow> (p, d, set_descriptor s fd slot r'))"
  by (simp add: drop_descriptor_reference_def settle_object_def Let_def split: prod.split)

text \<open>A descriptor moves from one object to another that already counts it.\<close>

lemma replace_descriptor:
  assumes "fd_inv (add_mset (object_key_at r i) T) W L r" "s < MAXIMUM_DESCRIPTOR_SPACES" "space_occupied (dr_spaces r ! s)"
    "fd < MAXIMUM_FILE_DESCRIPTORS" "descriptor_object_index (fd_slot r s fd) = Some j" "j \<noteq> i" "i < MAXIMUM_OPEN_OBJECTS"
    "j < MAXIMUM_OPEN_OBJECTS" "drop_descriptor_reference j r = (p, q, r')"
  shows "fd_inv T W L (set_descriptor s fd (descriptor_new i f) r')"
proof -
  note d = fd_invD [OF assms(1)]
  let ?r1 = "set_descriptor s fd (descriptor_new i f) r"
  have dr: "drop_descriptor_reference j ?r1 = (p, q, set_descriptor s fd (descriptor_new i f) r')"
    by (simp add: drop_descriptor_commute assms(9))
  have n: "add_mset j (named ?r1) = add_mset i (named r)"
    using named_set_descriptor [OF d(1) assms(2,4), of "descriptor_new i f"] slot_refs_Some [OF assms(5)] assms(7) by simp
  have c: "count (named ?r1) x + (if x = j then 1 else 0) = count (named r) x + (if x = i then 1 else 0)" for x
    using arg_cong [OF n, of "\<lambda>m. count m x"] by (auto split: if_splits)
  show ?thesis
  proof (rule drop_descriptor_inv(1) [OF assms(1,8) _ _ _ _ _ _ dr])
    show "Suc (count (named ?r1) j + count T (object_key_at r j)) =
        count (named r) j + count (add_mset (object_key_at r i) T) (object_key_at r j)"
      using c [of j] assms(6-8) by (simp add: key_new_inject)
    show "spaces_ok ?r1" using d(1) assms(2,3) by (intro spaces_ok_set_descriptor) simp_all
    show "count (named ?r1) x + count T (object_key_at r x) = count (named r) x + count (add_mset (object_key_at r i) T) (object_key_at r x)"
      if "x < MAXIMUM_OPEN_OBJECTS" "x \<noteq> j" for x
      using c [of x] that assms(7) by (auto simp: key_new_inject)
    show "x < MAXIMUM_OPEN_OBJECTS" if "x \<in># named ?r1" for x
    proof -
      from that have "x \<in># add_mset i (named r)" unfolding n [symmetric] by simp
      then show ?thesis using d(4) assms(7) by auto
    qed
  qed simp_all
qed

lemma duplicate_to_inv:
  assumes "fd_inv T W L r" "unat new < MAXIMUM_FILE_DESCRIPTORS" "duplicate_to_locked owner old new cloexec r = (res, r')"
  shows "fd_inv T W L r'"
proof -
  obtain a r1 where e: "ensure_space owner r = (a, r1)" by fastforce
  from assms(1) e show ?thesis
  proof (cases rule: with_descriptor [where fd = old])
    case (found s i)
    let ?new = "descriptor_new i (cloexec_flag cloexec)"
    note live = named_live [OF found(4,8)] and d = fd_invD [OF found(4)]
    note eq = assms(3) [unfolded duplicate_to_locked_def e prod.case found(1) result.case found(5) found(7) option.sel Let_def]
    obtain b r2 where ad: "add_descriptor_reference i r1 = (b, r2)" by fastforce
    have av: "fd_inv (add_mset (object_key_at r1 i) T) W L r2" "dr_spaces r2 = dr_spaces r1" "named r2 = named r1"
      "\<And>j. object_key_at r2 j = object_key_at r1 j" if "b = Ok ()"
      using add_descriptor_inv [OF found(4,9) live(2,3) ad [unfolded that]] by simp_all
    show ?thesis
    proof (cases "descriptor_object_index (fd_slot r1 s (unat new))")
      case None
      then have free: "\<not> descriptor_occupied (fd_slot r1 s (unat new))" by (simp add: descriptor_object_index_def split: if_splits)
      show ?thesis
      proof (cases b)
        case (Err x)
        with eq None live ad found(4) show ?thesis by simp
      next
        case (Ok u)
        then have "fd_inv T W L (set_descriptor s (unat new) ?new r2)"
          using av found free assms(2) by (intro place_token) simp_all
        with eq None live ad Ok show ?thesis by simp
      qed
    next
      case (Some j)
      show ?thesis
      proof (cases "j = i")
        case True
        have n: "named (set_descriptor s (unat new) ?new r1) = named r1"
          using named_set_descriptor [OF d(1) found(2) assms(2), of ?new] slot_refs_Some [OF Some] True found(9) by simp
        have "fd_inv T W L (set_descriptor s (unat new) ?new r1)"
          using n d(1,4) found(2,3) by (intro fd_inv_move [OF found(4)]) (auto intro!: spaces_ok_set_descriptor)
        with eq Some True live show ?thesis by simp
      next
        case False
        have jn: "j \<in># named r1" using named_member [OF d(1) found(2) assms(2) Some] .
        note jl = named_live [OF found(4) jn]
        show ?thesis
        proof (cases b)
          case (Err x)
          with eq Some False live jl ad found(4) show ?thesis by simp
        next
          case (Ok u)
          then have av: "fd_inv (add_mset (object_key_at r1 i) T) W L r2" "dr_spaces r2 = dr_spaces r1" "named r2 = named r1"
            "\<And>j. object_key_at r2 j = object_key_at r1 j" using av by simp_all
          obtain p q r4 where dr: "drop_descriptor_reference j r2 = (p, q, r4)" by (metis surj_pair)
          from replace_descriptor [of i r2 T W L s "unat new" j p q r4] av found(2,3,9) assms(2) Some False jl(1) dr
          have "fd_inv T W L (set_descriptor s (unat new) ?new r4)" by simp
          with eq Some False live jl ad Ok dr show ?thesis by simp
        qed
      qed
    qed
  qed (use assms(3) e in \<open>auto simp: duplicate_to_locked_def\<close>)
qed

subsection \<open>Transfers\<close>

abbreviation token_keys :: "transfer_token list \<Rightarrow> object_key multiset" where
  "token_keys tokens \<equiv> mset (map tt_key tokens)"

definition capturable :: "descriptor_registry \<Rightarrow> object_key list \<Rightarrow> object_key \<Rightarrow> bool" where
  "capturable r keys k \<longleftrightarrow> (\<exists>i. i \<in># named r \<and> k = object_key_at r i \<and>
     unat (oo_references (dr_objects r ! i)) + count (mset keys) k < 2 ^ 16)"

lemma count_mset_filter: "length (filter (\<lambda>x. x = k) xs) = count (mset xs) k"
  by (induction xs) auto

lemma capture_keys_Ok:
  assumes "fd_inv T W L r" "s < MAXIMUM_DESCRIPTOR_SPACES" "capture_keys r s fds acc = Ok keys" "length acc + length fds \<le> 8"
  shows "\<exists>new. keys = acc @ new \<and> length new = length fds \<and> (\<forall>k \<in> set new. capturable r keys k)"
  using assms(3,4)
proof (induction fds arbitrary: acc)
  case (Cons fd fds)
  then obtain slot where at: "descriptor_at r s fd = Ok slot" by (auto split: result.splits)
  from descriptor_at_Ok [OF assms(1,2) at] obtain i where i: "descriptor_object_index slot = Some i" "i \<in># named r" .
  let ?o = "dr_objects r ! i" and ?k = "object_key_at r i"
  let ?n = "count (mset acc) ?k + 1"
  from Cons.prems(1) at i(1) obtain x where x: "checked_add (oo_references ?o) (of_nat ?n) = Some x"
    and rest: "capture_keys r s fds (acc @ [?k]) = Ok keys"
    by (auto simp: Let_def count_mset_filter split: if_splits option.splits)
  from Cons.IH [OF rest] Cons.prems(2) obtain new where new: "keys = acc @ ?k # new" "length new = length fds"
    "\<forall>k \<in> set new. capturable r keys k" by auto
  have "?n \<le> Suc (length acc)" using count_le_length [of acc ?k] by (simp add: count_mset)
  with Cons.prems(2) have "?n \<le> 8" by simp
  moreover have "m \<le> 8 \<Longrightarrow> unat (of_nat m :: u16) = m" for m by (simp add: unat_of_nat)
  ultimately have "unat (of_nat ?n :: u16) = ?n" by blast
  with x have lt: "unat (oo_references ?o) + ?n < 2 ^ 16" by (simp add: checked_add_def split: if_splits)
  have "capturable r keys ?k"
  proof (cases "?k \<in> set new")
    case False
    then have "count (mset keys) ?k = ?n" by (simp add: new(1) count_mset)
    with lt i(2) show ?thesis unfolding capturable_def by metis
  qed (use new(3) in blast)
  with new show ?case by auto
qed auto

lemma capture_one:
  assumes "fd_inv T W L r" "capturable r (k # ks) k"
  shows "fd_inv (add_mset k T) W L (capture_reference k r)" "named (capture_reference k r) = named r"
    "\<And>k'. k' \<in> set ks \<Longrightarrow> capturable r (k # ks) k' \<Longrightarrow> capturable (capture_reference k r) ks k'"
proof -
  from assms(2) obtain i where i: "i \<in># named r" "k = object_key_at r i" "unat (oo_references (dr_objects r ! i)) + Suc (count (mset ks) k) < 2 ^ 16"
    by (auto simp: capturable_def)
  note live = named_live [OF assms(1) i(1)] and d = fd_invD [OF assms(1)]
  let ?o = "dr_objects r ! i"
  have ok: "object_counts ?o (count (named r) i + count T k) (count W k) (count L k)"
    using object_ok_counts(1) [OF d(3) [OF live(1)] live(2)] i(2) by simp
  then have ix: "key_index k = Some i" using live(1) i(2) by (simp add: object_counts_def key_index_new)
  have "unat (oo_descriptor_references ?o) \<le> unat (oo_references ?o)" using ok by (simp add: object_counts_def)
  with i(3) have add: "checked_add (oo_references ?o) 1 = Some (oo_references ?o + 1)"
    "checked_add (oo_descriptor_references ?o) 1 = Some (oo_descriptor_references ?o + 1)"
    by (simp_all add: checked_add_def)
  then have "add_descriptor_reference i r = (Ok (), capture_reference k r)"
    using ix by (simp add: add_descriptor_reference_def capture_reference_def Let_def)
  note av = add_descriptor_inv [OF assms(1) live(1-3) this]
  from av(1) i(2) show "fd_inv (add_mset k T) W L (capture_reference k r)" by simp
  show n: "named (capture_reference k r) = named r" by (rule av(3))
  show "capturable (capture_reference k r) ks k'" if k': "k' \<in> set ks" "capturable r (k # ks) k'" for k'
  proof -
    from k'(2) obtain j where j: "j \<in># named r" "k' = object_key_at r j"
      "unat (oo_references (dr_objects r ! j)) + count (mset (k # ks)) k' < 2 ^ 16" by (auto simp: capturable_def)
    have u: "unat (oo_references ?o + 1) = unat (oo_references ?o) + 1" using add(1) by (simp add: checked_add_Some_iff)
    have "unat (oo_references (dr_objects (capture_reference k r) ! j)) + count (mset ks) k' < 2 ^ 16"
    proof (cases "j = i")
      case True
      with j i(2) u ix d(2) live(1) show ?thesis by (simp add: capture_reference_def Let_def)
    next
      case False
      then have "k \<noteq> k'" using j(1,2) i(2) live(1) d(4) by (simp add: key_new_inject)
      with False j ix show ?thesis by (simp add: capture_reference_def Let_def)
    qed
    with j(1,2) av(4) n show ?thesis unfolding capturable_def by metis
  qed
qed

lemma capture_fold:
  assumes "fd_inv T W L r" "\<forall>k \<in> set keys. capturable r keys k"
  shows "fd_inv (T + mset keys) W L (fold capture_reference keys r)"
  using assms
proof (induction keys arbitrary: T r)
  case (Cons k keys)
  from Cons.prems(2) have "capturable r (k # keys) k" by simp
  note c = capture_one [OF Cons.prems(1) this]
  from Cons.IH [OF c(1)] c(3) Cons.prems(2) show ?case by simp
qed simp

lemma capture_transfers_inv:
  assumes "fd_inv T W L r" "capture_transfers owner fds room r = (res, r')"
  shows "fd_inv (T + (case res of Ok tokens \<Rightarrow> token_keys tokens | Err _ \<Rightarrow> {#})) W L r'"
proof (cases "length fds > MAXIMUM_TRANSFER_DESCRIPTORS \<or> length fds > room")
  case True
  with assms show ?thesis by (auto simp: capture_transfers_def)
next
  case False
  obtain a r1 where e: "ensure_space owner r = (a, r1)" by fastforce
  note es = ensure_space_inv [OF assms(1) e]
  show ?thesis
  proof (cases a)
    case (Err x)
    with assms(2) e False es(1) show ?thesis by (auto simp: capture_transfers_def)
  next
    case s: (Ok s)
    show ?thesis
    proof (cases "capture_keys r1 s fds []")
      case (Err x)
      with assms(2) e s False es(1) show ?thesis by (auto simp: capture_transfers_def)
    next
      case (Ok keys)
      with capture_keys_Ok [OF es(1) _ Ok] es(2) [OF s] False have "\<forall>k \<in> set keys. capturable r1 keys k" by simp
      from capture_fold [OF es(1) this] assms(2) e s False Ok show ?thesis by (auto simp: capture_transfers_def comp_def)
    qed
  qed
qed

lemma place_tokens:
  assumes "fd_inv (token_keys tokens + T) W L r" "s < MAXIMUM_DESCRIPTOR_SPACES" "space_occupied (dr_spaces r ! s)"
    "length targets = length tokens" "distinct targets"
    "\<forall>fd \<in> set targets. fd < MAXIMUM_FILE_DESCRIPTORS \<and> \<not> descriptor_occupied (fd_slot r s fd)"
  shows "fd_inv T W L (fold (\<lambda>(target, token). set_descriptor s target (descriptor_new (the (key_index (tt_key token))) f)) (zip targets tokens) r)"
  using assms(4,1,3,5,6)
proof (induction targets tokens arbitrary: r rule: list_induct2)
  case (Cons target targets token tokens)
  let ?T = "token_keys tokens + T"
  have inv: "fd_inv (add_mset (tt_key token) ?T) W L r" using Cons.prems(1) by simp
  then obtain i where i: "i < MAXIMUM_OPEN_OBJECTS" "tt_key token = object_key_at r i" "key_index (tt_key token) = Some i"
    using held_key [OF inv, of "tt_key token"] by auto
  let ?r1 = "set_descriptor s target (descriptor_new i f) r"
  have t: "target < MAXIMUM_FILE_DESCRIPTORS" "\<not> descriptor_occupied (fd_slot r s target)" using Cons.prems(4) by simp_all
  have i1: "fd_inv ?T W L ?r1" using inv i assms(2) Cons.prems(2) t by (intro place_token) simp_all
  have "\<forall>fd \<in> set targets. fd < MAXIMUM_FILE_DESCRIPTORS \<and> \<not> descriptor_occupied (fd_slot ?r1 s fd)"
    using Cons.prems(3,4) fd_slot_set [OF fd_invD(1) [OF inv] assms(2) t(1), of "descriptor_new i f" s] by auto
  from Cons.IH [OF i1 _ _ this] Cons.prems(2,3) i(3) show ?case by simp
qed simp

lemma install_transfers_inv:
  assumes "fd_inv (token_keys tokens + T) W L r" "install_transfers owner tokens cloexec room r = (res, r')"
  shows "fd_inv ((if is_Ok res then {#} else token_keys tokens) + T) W L r'"
proof (cases "length tokens > MAXIMUM_TRANSFER_DESCRIPTORS \<or> length tokens > room")
  case True
  with assms show ?thesis by (auto simp: install_transfers_def)
next
  case False
  obtain a r1 where e: "ensure_space owner r = (a, r1)" by fastforce
  note es = ensure_space_inv [OF assms(1) e]
  show ?thesis
  proof (cases a)
    case (Err x)
    with assms(2) e False es(1) show ?thesis by (auto simp: install_transfers_def)
  next
    case s: (Ok s)
    let ?targets = "take (length tokens) (free_descriptors r1 s)"
    have sp: "s < MAXIMUM_DESCRIPTOR_SPACES" "space_occupied (dr_spaces r1 ! s)" using es(2) [OF s] by simp_all
    have tg: "distinct ?targets" "\<forall>fd \<in> set ?targets. fd < MAXIMUM_FILE_DESCRIPTORS \<and> \<not> descriptor_occupied (fd_slot r1 s fd)"
      using spaces_okD(2) [OF fd_invD(1) [OF es(1)] sp(1)] by (auto simp: free_descriptors_def dest!: in_set_takeD)
    show ?thesis
    proof (cases "length ?targets = length tokens \<and> check_tokens r1 tokens = Ok ()")
      case True
      from place_tokens [OF es(1) sp _ tg] True assms(2) e s False show ?thesis
        by (auto simp: install_transfers_def Let_def)
    next
      case bad: False
      with assms(2) e s False es(1) show ?thesis by (auto simp: install_transfers_def Let_def split: result.splits if_splits)
    qed
  qed
qed

lemma release_transfer_inv:
  assumes "fd_inv (add_mset (tt_key token) T) W L r" "release_transfer_locked token r = (pending, detached, r')"
  shows "fd_inv T W L r'" "detached = None \<or> detached = Some (tt_key token)"
    "pending \<noteq> None \<Longrightarrow> tt_key token \<notin># T + W + L \<and> detached = Some (tt_key token)"
proof -
  let ?k = "tt_key token"
  note d = fd_invD [OF assms(1)]
  from held_key [OF assms(1), of ?k] obtain i where i: "i < MAXIMUM_OPEN_OBJECTS" "?k = object_key_at r i" "key_index ?k = Some i"
    "ok_generation ?k = oo_generation (dr_objects r ! i)"
    "object_counts (dr_objects r ! i) (count (named r) i + count (add_mset ?k T) ?k) (count W ?k) (count L ?k)" by auto
  have nz: "oo_references (dr_objects r ! i) \<noteq> 0" "oo_descriptor_references (dr_objects r ! i) \<noteq> 0"
    using i(5) by (auto simp: object_counts_def)
  have occ: "token_occupied token" using i(3) key_index_None_iff [of ?k] by (simp add: token_occupied_def)
  have dr: "drop_descriptor_reference i r = (pending, detached, r')"
    using assms(2) occ nz i(3,4) by (simp add: release_transfer_locked_def Let_def)
  have less: "Suc (count (named r) i + count T (object_key_at r i)) = count (named r) i + count (add_mset ?k T) (object_key_at r i)"
    and others: "\<And>j. j < MAXIMUM_OPEN_OBJECTS \<Longrightarrow> j \<noteq> i \<Longrightarrow>
      count (named r) j + count T (object_key_at r j) = count (named r) j + count (add_mset ?k T) (object_key_at r j)"
    using i(1,2) by (simp_all add: key_new_inject)
  have T': "\<And>k. k \<in># T \<Longrightarrow> k \<in># add_mset ?k T" by simp
  note ds = drop_descriptor_inv [OF assms(1) i(1) less refl d(1) others d(4) T' dr]
  show "fd_inv T W L r'" by (rule ds(1))
  show "detached = None \<or> detached = Some ?k" using ds(4) i(2) by simp
  show "pending \<noteq> None \<Longrightarrow> ?k \<notin># T + W + L \<and> detached = Some ?k" using ds(5) i(2) by simp
qed

subsection \<open>Flags\<close>

lemma set_descriptor_flags_inv:
  assumes "fd_inv T W L r" "set_descriptor_flags owner fd flags r = (res, r')"
  shows "fd_inv T W L r'"
proof (cases "flags AND NOT FD_CLOEXEC = 0")
  case False
  with assms show ?thesis by (simp add: set_descriptor_flags_def)
next
  case True
  obtain a r1 where e: "ensure_space owner r = (a, r1)" by fastforce
  from assms(1) e show ?thesis
  proof (cases rule: with_descriptor [where fd = fd])
    case (found s i)
    note d = fd_invD [OF found(4)]
    let ?slot = "(fd_slot r1 s (unat fd))\<lparr>ds_flags := cloexec_flag (flags AND FD_CLOEXEC \<noteq> 0)\<rparr>"
    have n: "named (set_descriptor s (unat fd) ?slot r1) = named r1"
      using named_set_descriptor [OF d(1) found(2,6), of ?slot] by simp
    have "fd_inv T W L (set_descriptor s (unat fd) ?slot r1)"
      using n d(1,4) found(2,3) by (intro fd_inv_move [OF found(4)]) (auto intro!: spaces_ok_set_descriptor)
    with assms(2) e found True show ?thesis by (simp add: set_descriptor_flags_def)
  qed (use assms(2) e True in \<open>auto simp: set_descriptor_flags_def\<close>)
qed

lemma object_ok_status: "object_ok (object\<lparr>oo_status_flags := f\<rparr>) n w l = object_ok object n w l"
  by (simp add: object_ok_def)

lemma set_status_flags_inv:
  assumes "fd_inv T W L r" "set_status_flags owner fd requested r = (res, r')"
  shows "fd_inv T W L r'"
proof -
  obtain a r1 where e: "ensure_space owner r = (a, r1)" by fastforce
  from assms(1) e show ?thesis
  proof (cases rule: with_descriptor [where fd = fd])
    case (found s i)
    note d = fd_invD [OF found(4)]
    let ?o = "(dr_objects r1 ! i)\<lparr>oo_status_flags := (oo_status_flags (dr_objects r1 ! i) AND NOT O_NONBLOCK) OR (requested AND O_NONBLOCK)\<rparr>"
    have "object_ok ?o (count (named r1) i + count T (object_key_at r1 i)) (count W (object_key_at r1 i)) (count L (object_key_at r1 i))"
      using d(3) [OF found(9)] by (simp only: object_ok_status)
    then have "fd_inv T W L (set_object i ?o r1)"
      using d(1,4) by (intro fd_inv_change [OF found(4,9), where object' = ?o]) simp_all
    with assms(2) e found show ?thesis by (auto simp: set_status_flags_def Let_def)
  qed (use assms(2) e in \<open>auto simp: set_status_flags_def\<close>)
qed

lemma descriptor_flags_inv:
  assumes "fd_inv T W L r" "descriptor_flags owner fd r = (res, r')"
  shows "fd_inv T W L r'"
proof -
  obtain a r1 where e: "ensure_space owner r = (a, r1)" by fastforce
  from assms(1) e show ?thesis
    by (cases rule: with_descriptor [where fd = fd]) (use assms(2) e in \<open>auto simp: descriptor_flags_def\<close>)
qed

subsection \<open>Exit and exec\<close>

lemma close_matching_object_drop:
  assumes "oo_references (dr_objects r ! i) \<noteq> 0" "oo_descriptor_references (dr_objects r ! i) \<noteq> 0"
  shows "close_matching_object i r = drop_descriptor_reference i r"
proof -
  have "saturating_sub x 1 = x - 1" if "x \<noteq> 0" for x :: u16
  proof -
    have "1 \<le> unat x" using that by (simp add: Suc_le_eq unat_gt_0)
    then show ?thesis by (simp add: saturating_sub_def word_le_nat_alt)
  qed
  with assms show ?thesis by (simp add: close_matching_object_def drop_descriptor_reference_def)
qed

text \<open>What the exit loop leaves: which descriptors are gone, and that every key it reports is one
  whose last descriptor or transfer went.\<close>

lemma close_matching_loop_inv:
  assumes "fd_inv T W L r" "s < MAXIMUM_DESCRIPTOR_SPACES" "distinct fds" "\<forall>fd \<in> set fds. fd < MAXIMUM_FILE_DESCRIPTORS"
    "close_matching_loop s only fds r = ((closed, ps, ks), r')"
  shows "fd_inv T W L r' \<and> (\<forall>fd. fd \<notin> set fds \<longrightarrow> fd_slot r' s fd = fd_slot r s fd) \<and>
    (\<not> only \<longrightarrow> (\<forall>fd \<in> set fds. \<not> descriptor_occupied (fd_slot r' s fd))) \<and>
    sp_owner (dr_spaces r' ! s) = sp_owner (dr_spaces r ! s)"
  using assms
proof (induction fds arbitrary: r closed ps ks)
  case (Cons fd fds)
  let ?slot = "fd_slot r s fd"
  have fd: "fd < MAXIMUM_FILE_DESCRIPTORS" using Cons.prems(4) by simp
  show ?case
  proof (cases "\<not> descriptor_occupied ?slot \<or> only \<and> ds_flags ?slot AND ucast FD_CLOEXEC = 0")
    case True
    then have "close_matching_loop s only fds r = ((closed, ps, ks), r')" using Cons.prems(5) by (auto simp: Let_def)
    from Cons.IH [OF Cons.prems(1,2) _ _ this] Cons.prems(3,4) True show ?thesis by auto
  next
    case False
    then obtain i where i: "descriptor_object_index ?slot = Some i" by (auto simp: descriptor_object_index_def)
    note d = fd_invD [OF Cons.prems(1)]
    have mem: "i \<in># named r" using named_member [OF d(1) Cons.prems(2) fd i] .
    note live = named_live [OF Cons.prems(1) mem]
    let ?r0 = "set_descriptor s fd DESCRIPTOR_EMPTY r"
    obtain p q r1 where dr: "drop_descriptor_reference i ?r0 = (p, q, r1)" by (metis surj_pair)
    have cm: "close_matching_object i ?r0 = (p, q, r1)" using dr live by (simp add: close_matching_object_drop)
    note dp = drop_emptied_descriptor [OF Cons.prems(1,2) fd i dr]
    obtain c2 ps2 ks2 where l: "close_matching_loop s only fds r1 = ((c2, ps2, ks2), r')"
      using Cons.prems(5) False i cm by (auto simp: Let_def split: prod.splits)
    have slot: "fd_slot r1 s n = (if n = fd then DESCRIPTOR_EMPTY else fd_slot r s n)" for n
      using dp(3) fd_slot_set [OF d(1) Cons.prems(2) fd, of DESCRIPTOR_EMPTY s n] by simp
    have own: "sp_owner (dr_spaces r1 ! s) = sp_owner (dr_spaces r ! s)" using dp(3) by simp
    from Cons.IH [OF dp(1) Cons.prems(2) _ _ l] Cons.prems(3,4) slot own show ?thesis by auto
  qed
qed simp

lemma close_matching_inv:
  assumes "fd_inv T W L r" "close_matching_locked owner only r = (out, r')"
  shows "fd_inv T W L r'"
proof (cases "find_space (dr_spaces r) owner")
  case None
  with assms show ?thesis by (simp add: close_matching_locked_def)
next
  case (Some s)
  note d = fd_invD [OF assms(1)]
  have s: "s < MAXIMUM_DESCRIPTOR_SPACES" using position_length [OF Some [unfolded find_space_def]] d(1) by (simp add: spaces_ok_def)
  note len = spaces_okD(2) [OF d(1) s]
  obtain closed ps ks r1 where l: "close_matching_loop s only [0..<MAXIMUM_FILE_DESCRIPTORS] r = ((closed, ps, ks), r1)" by (metis surj_pair)
  have cl: "fd_inv T W L r1 \<and> (\<not> only \<longrightarrow> (\<forall>fd < MAXIMUM_FILE_DESCRIPTORS. \<not> descriptor_occupied (fd_slot r1 s fd)))"
    using close_matching_loop_inv [OF assms(1) s distinct_upt _ l] by auto
  then have "fd_inv T W L (if only then r1 else set_space_owner s no_handle r1)"
    using set_space_owner_inv [OF _ s, of T W L r1 no_handle] by simp
  with assms(2) Some l len show ?thesis by (simp add: close_matching_locked_def)
qed

end
