(* ===== verification/FdMachine.thy ===== *)
theory FdMachine
  imports FdReferences EventFd
begin

unbundle bit_operations_syntax

text \<open>
  The descriptor registry as a machine: its lock sections, interleaved in any order by any number of
  processes, together with what the processes, the epoll instances and the sockets hold of it at each
  moment. The machine implements \<open>invariant_machine\<close> with the reference invariant and
  \<open>generation_lifetime\<close> with the generations of the open objects.
\<close>

section \<open>Generations\<close>

text \<open>What becomes of each object: its generation never falls, a vacant place is only taken with a new
  generation, and an object of the same generation is the same object.\<close>

definition object_kept :: "open_object \<Rightarrow> open_object \<Rightarrow> bool" where
  "object_kept x y \<longleftrightarrow> oo_generation x < oo_generation y \<or>
     oo_generation x = oo_generation y \<and>
       (kind_occupied (oo_kind y) \<longrightarrow> oo_kind y = oo_kind x \<and> oo_owner y = oo_owner x)"

definition object_life :: "descriptor_registry \<Rightarrow> descriptor_registry \<Rightarrow> bool" where
  "object_life r r' \<longleftrightarrow> (\<forall>i. object_kept (dr_objects r ! i) (dr_objects r' ! i))"

lemma kept_refl [simp]: "object_kept x x"
  by (simp add: object_kept_def)

lemma kept_trans: "object_kept x y \<Longrightarrow> object_kept y z \<Longrightarrow> object_kept x z"
  by (auto simp: object_kept_def)

lemma life_refl [simp]: "object_life r r"
  by (simp add: object_life_def)

lemma life_trans: "object_life r r1 \<Longrightarrow> object_life r1 r2 \<Longrightarrow> object_life r r2"
  by (auto simp: object_life_def intro: kept_trans)

lemma life_spaces [simp]:
  "object_life r (set_descriptor s fd slot r') = object_life r r'" "object_life r (set_space_owner s owner r') = object_life r r'"
  "object_life (set_descriptor s fd slot r) r' = object_life r r'" "object_life (set_space_owner s owner r) r' = object_life r r'"
  by (simp_all add: object_life_def)

lemma life_set:
  assumes "object_kept (dr_objects r ! i) object"
  shows "object_life r (set_object i object r)"
  using assms by (simp add: object_life_def nth_update)

lemma life_alloc:
  assumes "allocate_object owner kind flags (dr_objects r) = (res, objects)"
  shows "object_life r (r\<lparr>dr_objects := objects\<rparr>)"
proof (cases res)
  case (Err e)
  with assms show ?thesis by (auto simp: allocate_object_def split: option.splits)
next
  case (Ok i)
  with allocate_object_Ok(3) assms obtain g where "next_object_generation (oo_generation (dr_objects r ! i)) = Some g"
    "objects = (dr_objects r)[i := object_new g owner 0 flags kind]" by blast
  then show ?thesis using next_object_generation_Some by (auto simp: object_new_def object_kept_def intro!: life_set)
qed

lemma kept_take: "object_kept object (snd (object_take object))"
  by (simp add: object_kept_def object_take_def OBJECT_EMPTY_def kind_occupied_def)

lemma life_settle:
  assumes "settle_object i object r = (p, r')" "object_kept (dr_objects r ! i) object"
  shows "object_life r r'"
proof -
  have "object_kept object (snd (maybe_take_closing object))"
    using kept_take [of object] by (auto simp: maybe_take_closing_def split: prod.splits)
  with assms(2) have "object_life r (set_object i (snd (maybe_take_closing object)) r)" by (intro life_set) (rule kept_trans)
  with assms(1) show ?thesis by (simp add: settle_object_def split: prod.splits)
qed

lemma life_bind: "object_life r (bind_descriptor s fd i f r)"
  unfolding bind_descriptor_def life_spaces by (intro life_set) (simp add: object_kept_def)

lemma life_undo: "object_life r (undo_standard s fd r)"
proof -
  have "object_life r (undo_one s n r)" for n r
  proof -
    have "undo_one s n r = set_descriptor s n DESCRIPTOR_EMPTY (set_object (the (descriptor_object_index (fd_slot r s n)))
        (snd (object_take (dr_objects r ! the (descriptor_object_index (fd_slot r s n))))) r)"
      by (simp add: undo_one_def Let_def)
    then show ?thesis by (simp add: life_set kept_take)
  qed
  then have "object_life r (fold (undo_one s) ns r)" for ns
    by (induction ns arbitrary: r) (auto intro: life_trans)
  then show ?thesis by (simp add: undo_standard_fold)
qed

lemma life_standard: "initialize_standard_loop s fd kinds r = (res, r') \<Longrightarrow> object_life r r'"
proof (induction kinds arbitrary: fd r)
  case (Cons p kinds)
  obtain kind flags where p: "p = (kind, flags)" by fastforce
  obtain a objects where al: "allocate_object (sp_owner (dr_spaces r ! s)) kind flags (dr_objects r) = (a, objects)" by fastforce
  show ?case
  proof (cases a)
    case (Err e)
    with Cons.prems al p show ?thesis using life_undo by auto
  next
    case (Ok i)
    let ?r1 = "bind_descriptor s fd i 0 (r\<lparr>dr_objects := objects\<rparr>)"
    have "object_life r ?r1" using life_trans [OF life_alloc [OF al] life_bind] .
    moreover have "object_life ?r1 r'" using Cons.prems al p Ok by (intro Cons.IH) simp
    ultimately show ?thesis by (rule life_trans)
  qed
qed simp

lemma life_initialize: "initialize_standard_descriptors s r = (res, r') \<Longrightarrow> object_life r r'"
  unfolding initialize_standard_descriptors_def by (rule life_standard)

lemma life_ensure: "ensure_space owner r = (res, r') \<Longrightarrow> object_life r r'"
  by (auto simp: ensure_space_def split: rust_splits dest!: life_initialize)

lemma life_lease: "lease_object i live r = (res, r') \<Longrightarrow> object_life r r'"
  by (auto simp: lease_object_def Let_def split: if_splits option.splits intro!: life_set simp: object_kept_def)

lemma life_drop: "drop_descriptor_reference i r = (p, q, r') \<Longrightarrow> object_life r r'"
  by (auto simp: drop_descriptor_reference_def Let_def split: prod.splits if_splits elim!: life_settle simp: object_kept_def)

lemma life_add: "add_descriptor_reference i r = (res, r') \<Longrightarrow> object_life r r'"
  by (auto simp: add_descriptor_reference_def Let_def split: option.splits intro!: life_set simp: object_kept_def)

lemma life_install: "install_backend_object owner bo kind flags c r = (res, r') \<Longrightarrow> object_life r r'"
  by (auto simp: install_backend_object_def split: rust_splits dest!: life_ensure life_alloc
      intro: life_trans [OF _ life_trans [OF _ life_bind]])

lemma life_new:
  assumes "next_object_generation (oo_generation (dr_objects r ! i)) = Some g"
  shows "object_life r (set_object i (object_new g owner n flags kind) r)"
  using next_object_generation_Some [OF assms] by (auto simp: object_new_def object_kept_def intro!: life_set)

lemma life_pair:
  assumes "install_object_pair owner k1 f1 k2 f2 c r = (res, r')"
  shows "object_life r r'"
proof -
  obtain a r1 where e: "ensure_space owner r = (a, r1)" by fastforce
  have two: "object_life r1 (set_object o2 (object_new g2 owner 1 f2 k2) (set_object o1 (object_new g1 owner 1 f1 k1) r1))"
    if "first_two P (dr_objects r1) = Some (o1, o2)" "next_object_generation (oo_generation (dr_objects r1 ! o1)) = Some g1"
      "next_object_generation (oo_generation (dr_objects r1 ! o2)) = Some g2" for P o1 o2 g1 g2
  proof -
    let ?r2 = "set_object o1 (object_new g1 owner 1 f1 k1) r1"
    have "next_object_generation (oo_generation (dr_objects ?r2 ! o2)) = Some g2"
      using first_two_Some(1) [OF that(1)] that(3) by simp
    then show ?thesis using life_trans [OF life_new [OF that(2)] life_new] by blast
  qed
  have "object_life r1 r'"
    using assms e two [unfolded object_life_def]
    by (auto simp: install_object_pair_def Let_def object_life_def split: rust_splits)
  with life_ensure [OF e] show ?thesis by (rule life_trans)
qed

lemma life_acquire: "acquire_descriptor owner fd r = (res, r') \<Longrightarrow> object_life r r'"
  by (auto simp: acquire_descriptor_def split: rust_splits dest!: life_ensure life_lease intro: life_trans)

lemma life_acquire_key: "acquire_key k r = (res, r') \<Longrightarrow> object_life r r'"
  by (auto simp: acquire_key_def split: rust_splits dest!: life_lease)

lemma life_release: "release_lease_locked lease r = (p, r') \<Longrightarrow> object_life r r'"
  by (auto simp: release_lease_locked_def Let_def split: option.splits if_splits elim!: life_settle simp: object_kept_def)

lemma life_retain: "retain_key k r = (res, r') \<Longrightarrow> object_life r r'"
proof -
  have "object_life r (snd (retain_key k r))"
    by (auto simp: retain_key_def Let_def split: option.split intro!: life_set simp: object_kept_def)
  then show "retain_key k r = (res, r') \<Longrightarrow> object_life r r'" by simp
qed

lemma life_drop_key: "drop_key_locked k r = (p, r') \<Longrightarrow> object_life r r'"
  by (auto simp: drop_key_locked_def Let_def split: option.splits if_splits elim!: life_settle simp: object_kept_def)

lemma life_close:
  assumes "close_locked owner fd r = (res, r')"
  shows "object_life r r'"
proof -
  obtain a r1 where e: "ensure_space owner r = (a, r1)" by fastforce
  have "object_life r1 r'"
    using assms e by (auto simp: close_locked_def Let_def split: rust_splits dest!: life_drop)
  with life_ensure [OF e] show ?thesis by (rule life_trans)
qed

lemma life_duplicate:
  assumes "duplicate owner old minimum c r = (res, r')"
  shows "object_life r r'"
proof -
  obtain a r1 where e: "ensure_space owner r = (a, r1)" by fastforce
  have "object_life r r1" by (rule life_ensure [OF e])
  moreover have "r' = r \<or> object_life r1 r'"
    using assms e by (auto simp: duplicate_def Let_def split: rust_splits dest!: life_add)
  ultimately show ?thesis by (auto intro: life_trans)
qed

lemma life_duplicate_to:
  assumes "duplicate_to_locked owner old new c r = (res, r')"
  shows "object_life r r'"
proof -
  obtain a r1 where e: "ensure_space owner r = (a, r1)" by fastforce
  have "object_life r1 r'"
    using assms e
    by (auto simp: duplicate_to_locked_def Let_def split: rust_splits if_splits dest!: life_add life_drop intro: life_trans)
  with life_ensure [OF e] show ?thesis by (rule life_trans)
qed

lemma life_capture:
  assumes "capture_transfers owner fds room r = (res, r')"
  shows "object_life r r'"
proof -
  obtain a r1 where e: "ensure_space owner r = (a, r1)" by fastforce
  have one: "object_life r (capture_reference k r)" for k r
    by (auto simp: capture_reference_def Let_def intro!: life_set simp: object_kept_def)
  have all: "object_life r (fold capture_reference ks r)" for ks r
    by (induction ks arbitrary: r) (auto intro: life_trans one)
  have "object_life r r1" by (rule life_ensure [OF e])
  moreover have "r' = r \<or> object_life r1 r'"
    using assms e all by (auto simp: capture_transfers_def split: rust_splits)
  ultimately show ?thesis by (auto intro: life_trans)
qed

lemma life_install_transfers:
  assumes "install_transfers owner tokens c room r = (res, r')"
  shows "object_life r r'"
proof -
  obtain a r1 where e: "ensure_space owner r = (a, r1)" by fastforce
  have "dr_objects (fold (\<lambda>(target, token). set_descriptor s target (descriptor_new (the (key_index (tt_key token))) f)) ps r) = dr_objects r"
    for s f and ps :: "(nat \<times> transfer_token) list" and r :: descriptor_registry
    by (induction ps arbitrary: r) (auto split: prod.split)
  then have all: "object_life r (fold (\<lambda>(target, token). set_descriptor s target (descriptor_new (the (key_index (tt_key token))) f)) ps r)"
    for s f and ps :: "(nat \<times> transfer_token) list" and r :: descriptor_registry
    by (simp add: object_life_def)
  have "object_life r r1" by (rule life_ensure [OF e])
  moreover have "r' = r \<or> object_life r1 r'"
    using assms e all by (auto simp: install_transfers_def Let_def split: rust_splits)
  ultimately show ?thesis by (auto intro: life_trans)
qed

lemma life_release_transfer: "release_transfer_locked token r = (p, q, r') \<Longrightarrow> object_life r r'"
  by (auto simp: release_transfer_locked_def Let_def split: option.splits if_splits dest!: life_drop)

lemma life_descriptor_flags: "descriptor_flags owner fd r = (res, r') \<Longrightarrow> object_life r r'"
  by (auto simp: descriptor_flags_def split: rust_splits dest!: life_ensure)

lemma life_set_descriptor_flags: "set_descriptor_flags owner fd flags r = (res, r') \<Longrightarrow> object_life r r'"
  by (auto simp: set_descriptor_flags_def split: rust_splits dest!: life_ensure)

lemma life_set_status_flags:
  assumes "set_status_flags owner fd flags r = (res, r')"
  shows "object_life r r'"
proof -
  obtain a r1 where e: "ensure_space owner r = (a, r1)" by fastforce
  have "object_life r1 r'"
    using assms e by (auto simp: set_status_flags_def Let_def split: rust_splits intro!: life_set simp: object_kept_def)
  with life_ensure [OF e] show ?thesis by (rule life_trans)
qed

lemma life_close_matching_object: "close_matching_object i r = (p, q, r') \<Longrightarrow> object_life r r'"
  by (auto simp: close_matching_object_def Let_def split: prod.splits if_splits elim!: life_settle simp: object_kept_def)

lemma life_close_matching_loop: "close_matching_loop s only fds r = (out, r') \<Longrightarrow> object_life r r'"
proof (induction fds arbitrary: r out)
  case (Cons fd fds)
  let ?slot = "fd_slot r s fd"
  show ?case
  proof (cases "\<not> descriptor_occupied ?slot \<or> only \<and> ds_flags ?slot AND ucast FD_CLOEXEC = 0")
    case True
    then have "close_matching_loop s only fds r = (out, r')" using Cons.prems by (auto simp: Let_def)
    then show ?thesis by (rule Cons.IH)
  next
    case False
    obtain p q r1 where c: "close_matching_object (the (descriptor_object_index ?slot)) (set_descriptor s fd DESCRIPTOR_EMPTY r) = (p, q, r1)"
      by (metis surj_pair)
    obtain out' where l: "close_matching_loop s only fds r1 = (out', r')"
      using Cons.prems False c by (auto simp: Let_def split: prod.splits)
    from life_close_matching_object [OF c] Cons.IH [OF l] show ?thesis by (auto intro: life_trans)
  qed
qed simp

lemma life_close_matching: "close_matching_locked owner only r = (out, r') \<Longrightarrow> object_life r r'"
  by (auto simp: close_matching_locked_def split: option.splits prod.splits dest!: life_close_matching_loop)

section \<open>The machine\<close>

text \<open>The registry and what is held of it: the keys of transfers, of watches and of leases.\<close>

record fd_state =
  fs_registry :: descriptor_registry
  fs_transfers :: "object_key multiset"
  fs_watches :: "object_key multiset"
  fs_leases :: "object_key multiset"

definition fd_start :: fd_state where
  "fd_start = \<lparr>fs_registry = REGISTRY_EMPTY, fs_transfers = {#}, fs_watches = {#}, fs_leases = {#}\<rparr>"

inductive fd_step :: "fd_state \<Rightarrow> fd_state \<Rightarrow> bool" where
  install: "install_backend_object owner bo kind flags c (fs_registry s) = (x, r) \<Longrightarrow> kind_occupied kind \<Longrightarrow>
    fd_step s (s\<lparr>fs_registry := r\<rparr>)"
| pair: "install_object_pair owner k1 f1 k2 f2 c (fs_registry s) = (xp, r) \<Longrightarrow> kind_occupied k1 \<Longrightarrow> kind_occupied k2 \<Longrightarrow>
    fd_step s (s\<lparr>fs_registry := r\<rparr>)"
| lease: "acquire_descriptor owner fd (fs_registry s) = (Ok lease, r) \<Longrightarrow>
    fd_step s (s\<lparr>fs_registry := r, fs_leases := add_mset (ol_key lease) (fs_leases s)\<rparr>)"
| lease_refused: "acquire_descriptor owner fd (fs_registry s) = (Err e, r) \<Longrightarrow> fd_step s (s\<lparr>fs_registry := r\<rparr>)"
| lease_key: "acquire_key k (fs_registry s) = (Ok lease, r) \<Longrightarrow>
    fd_step s (s\<lparr>fs_registry := r, fs_leases := add_mset (ol_key lease) (fs_leases s)\<rparr>)"
| release: "ol_key lease \<in># fs_leases s \<Longrightarrow> release_lease_locked lease (fs_registry s) = (p, r) \<Longrightarrow>
    fd_step s (s\<lparr>fs_registry := r, fs_leases := fs_leases s - {#ol_key lease#}\<rparr>)"
| watch: "retain_key k (fs_registry s) = (Ok (), r) \<Longrightarrow> fd_step s (s\<lparr>fs_registry := r, fs_watches := add_mset k (fs_watches s)\<rparr>)"
| unwatch: "k \<in># fs_watches s \<Longrightarrow> drop_key_locked k (fs_registry s) = (p, r) \<Longrightarrow>
    fd_step s (s\<lparr>fs_registry := r, fs_watches := fs_watches s - {#k#}\<rparr>)"
| close: "close_locked owner fd (fs_registry s) = (xc, r) \<Longrightarrow> fd_step s (s\<lparr>fs_registry := r\<rparr>)"
| duplicate: "duplicate owner old minimum c (fs_registry s) = (x, r) \<Longrightarrow> fd_step s (s\<lparr>fs_registry := r\<rparr>)"
| duplicate_to: "unat new < MAXIMUM_FILE_DESCRIPTORS \<Longrightarrow> duplicate_to_locked owner old new c (fs_registry s) = (xc, r) \<Longrightarrow>
    fd_step s (s\<lparr>fs_registry := r\<rparr>)"
| capture: "capture_transfers owner fds room (fs_registry s) = (xt, r) \<Longrightarrow>
    fd_step s (s\<lparr>fs_registry := r,
      fs_transfers := fs_transfers s + (case xt of Ok tokens \<Rightarrow> token_keys tokens | Err _ \<Rightarrow> {#})\<rparr>)"
| receive: "token_keys tokens \<subseteq># fs_transfers s \<Longrightarrow> install_transfers owner tokens c room (fs_registry s) = (xs, r) \<Longrightarrow>
    fd_step s (s\<lparr>fs_registry := r, fs_transfers := fs_transfers s - (if is_Ok xs then token_keys tokens else {#})\<rparr>)"
| discard: "tt_key token \<in># fs_transfers s \<Longrightarrow> release_transfer_locked token (fs_registry s) = (p, q, r) \<Longrightarrow>
    fd_step s (s\<lparr>fs_registry := r, fs_transfers := fs_transfers s - {#tt_key token#}\<rparr>)"
| get_flags: "descriptor_flags owner fd (fs_registry s) = (x, r) \<Longrightarrow> fd_step s (s\<lparr>fs_registry := r\<rparr>)"
| set_flags: "set_descriptor_flags owner fd flags (fs_registry s) = (xu, r) \<Longrightarrow> fd_step s (s\<lparr>fs_registry := r\<rparr>)"
| set_status: "set_status_flags owner fd flags (fs_registry s) = (xu, r) \<Longrightarrow> fd_step s (s\<lparr>fs_registry := r\<rparr>)"
| leave: "close_matching_locked owner only (fs_registry s) = (out, r) \<Longrightarrow> fd_step s (s\<lparr>fs_registry := r\<rparr>)"

definition fd_state_inv :: "fd_state \<Rightarrow> bool" where
  "fd_state_inv s \<longleftrightarrow> fd_inv (fs_transfers s) (fs_watches s) (fs_leases s) (fs_registry s)"

lemma fd_start_inv: "fd_state_inv fd_start"
proof -
  have rep: "sum_list (replicate n {#}) = {#}" for n by (induction n) simp_all
  have z: "space_refs SPACE_EMPTY = {#}" by (simp add: space_refs_def SPACE_EMPTY_def rep)
  have "named REGISTRY_EMPTY = {#}" by (simp add: named_def REGISTRY_EMPTY_def rep z)
  moreover have "object_ok OBJECT_EMPTY 0 0 0" by (simp add: object_ok_def OBJECT_EMPTY_def kind_occupied_def)
  moreover have "spaces_ok REGISTRY_EMPTY"
    by (simp add: spaces_ok_def REGISTRY_EMPTY_def space_ok_def SPACE_EMPTY_def list_all_iff)
  ultimately show ?thesis
    by (simp add: fd_state_inv_def fd_start_def fd_inv_def) (simp add: REGISTRY_EMPTY_def)
qed

lemma fd_step_inv:
  assumes "fd_state_inv s" "fd_step s t"
  shows "fd_state_inv t"
  using assms(2)
proof cases
  case install
  then show ?thesis using install_backend_inv assms(1) unfolding fd_state_inv_def by simp
next
  case pair
  then show ?thesis using install_pair_inv assms(1) unfolding fd_state_inv_def by simp
next
  case (lease owner fd l r)
  then show ?thesis using acquire_descriptor_inv [OF _ lease(2)] assms(1) unfolding fd_state_inv_def by simp
next
  case (lease_refused owner fd e r)
  then show ?thesis using acquire_descriptor_inv [OF _ lease_refused(2)] assms(1) unfolding fd_state_inv_def by simp
next
  case (lease_key k l r)
  from acquire_key_inv [OF assms(1) [unfolded fd_state_inv_def] lease_key(2)] lease_key(1) show ?thesis
    by (auto simp: fd_state_inv_def)
next
  case release
  then show ?thesis using release_lease_inv(1) assms(1) unfolding fd_state_inv_def by simp
next
  case (watch k r)
  then show ?thesis using retain_key_inv [OF _ watch(2)] assms(1) unfolding fd_state_inv_def by simp
next
  case unwatch
  then show ?thesis using drop_key_inv(1) assms(1) unfolding fd_state_inv_def by simp
next
  case close
  then show ?thesis using close_locked_inv assms(1) unfolding fd_state_inv_def by simp
next
  case duplicate
  then show ?thesis using duplicate_inv assms(1) unfolding fd_state_inv_def by simp
next
  case duplicate_to
  then show ?thesis using duplicate_to_inv assms(1) unfolding fd_state_inv_def by simp
next
  case capture
  then show ?thesis using capture_transfers_inv assms(1) unfolding fd_state_inv_def by simp
next
  case (receive tokens owner c room xs r)
  obtain T where T: "fs_transfers s = token_keys tokens + T" using receive(2) by (metis subset_mset.le_iff_add)
  from install_transfers_inv [OF assms(1) [unfolded fd_state_inv_def T] receive(3)] receive(1) T show ?thesis
    by (cases "is_Ok xs") (simp_all add: fd_state_inv_def)
next
  case (discard token p q r)
  obtain T where T: "fs_transfers s = add_mset (tt_key token) T" using mset_add [OF discard(2)] .
  from release_transfer_inv(1) [OF assms(1) [unfolded fd_state_inv_def T] discard(3)] discard(1) T show ?thesis
    by (simp add: fd_state_inv_def)
next
  case get_flags
  then show ?thesis using descriptor_flags_inv assms(1) unfolding fd_state_inv_def by simp
next
  case set_flags
  then show ?thesis using set_descriptor_flags_inv assms(1) unfolding fd_state_inv_def by simp
next
  case set_status
  then show ?thesis using set_status_flags_inv assms(1) unfolding fd_state_inv_def by simp
next
  case leave
  then show ?thesis using close_matching_inv assms(1) unfolding fd_state_inv_def by simp
qed

lemma fd_step_life: "fd_step s t \<Longrightarrow> object_life (fs_registry s) (fs_registry t)"
  by (induction rule: fd_step.induct)
    (simp_all add: life_install life_pair life_acquire life_acquire_key life_release life_retain life_drop_key life_close
      life_duplicate life_duplicate_to life_capture life_install_transfers life_release_transfer life_descriptor_flags
      life_set_descriptor_flags life_set_status_flags life_close_matching)

interpretation fdm: invariant_machine "\<lambda>s. s = fd_start" fd_step fd_state_inv
  using fd_start_inv fd_step_inv by unfold_locales auto

interpretation fdl: generation_lifetime fd_step
  "\<lambda>s i. kind_occupied (oo_kind (dr_objects (fs_registry s) ! i))" "\<lambda>s i. oo_generation (dr_objects (fs_registry s) ! i)"
proof
  fix s t i
  assume "fd_step s t"
  from fd_step_life [OF this] have k: "object_kept (dr_objects (fs_registry s) ! i) (dr_objects (fs_registry t) ! i)"
    by (simp add: object_life_def)
  then show "oo_generation (dr_objects (fs_registry s) ! i) \<le> oo_generation (dr_objects (fs_registry t) ! i)"
    by (auto simp: object_kept_def)
  show "\<not> kind_occupied (oo_kind (dr_objects (fs_registry s) ! i)) \<Longrightarrow> kind_occupied (oo_kind (dr_objects (fs_registry t) ! i)) \<Longrightarrow>
      oo_generation (dr_objects (fs_registry s) ! i) < oo_generation (dr_objects (fs_registry t) ! i)"
    using k by (auto simp: object_kept_def)
qed

section \<open>Pending input\<close>

text \<open>\<open>fionread\<close>. The readiness of the leased object is the argument \<open>ready_for\<close>, as it comes from the
  object's own module and leaves the registry alone.\<close>

definition fionread :: "(object_lease \<Rightarrow> (u32, descriptor_error) result) \<Rightarrow> process_handle \<Rightarrow> u32 \<Rightarrow> descriptor_registry \<Rightarrow>
    (nat, descriptor_error) result \<times> descriptor_registry" where
  "fionread ready_for owner fd registry =
     (case acquire_descriptor owner fd registry of (Err e, r) \<Rightarrow> (Err e, r)
      | (Ok lease, r) \<Rightarrow>
     case ready_for lease of Err e \<Rightarrow> (Err e, r)
      | Ok ready \<Rightarrow> (Ok (if ready AND READY_IN \<noteq> 0 then 1 else 0), r))"

section \<open>Properties\<close>

lemma object_ok_exact:
  "object_ok object n w l \<Longrightarrow> unat (oo_descriptor_references object) = n \<and> unat (oo_references object) = n + w \<and>
     unat (oo_active_operations object) = l \<and> (kind_occupied (oo_kind object) \<longleftrightarrow> 0 < n + w + l) \<and>
     (kind_occupied (oo_kind object) \<longrightarrow> (oo_closing object \<longleftrightarrow> n = 0))"
  unfolding object_ok_def by (cases "kind_occupied (oo_kind object)") simp_all


text \<open>C17. A key outlives its object harmlessly. Once the place of an object is vacant, in a reachable state,
  its key never again leases or watches anything, whatever is installed in that place later, and nothing
  holds it: a recycled descriptor or table entry cannot revive an old epoll watch or transfer.\<close>

theorem released_key_stays_dead:
  assumes "fd_step\<^sup>*\<^sup>* fd_start s" "i < MAXIMUM_OPEN_OBJECTS" "\<not> kind_occupied (oo_kind (dr_objects (fs_registry s) ! i))"
    "fd_step\<^sup>*\<^sup>* s t"
  shows "acquire_key (object_key_at (fs_registry s) i) (fs_registry t) = (Err FdBadFileDescriptor, fs_registry t) \<and>
    retain_key (object_key_at (fs_registry s) i) (fs_registry t) = (Err FdBadFileDescriptor, fs_registry t) \<and>
    object_key_at (fs_registry s) i \<notin># fs_transfers t + fs_watches t + fs_leases t"
proof -
  let ?k = "object_key_at (fs_registry s) i" and ?r = "fs_registry t"
  have inv: "fd_inv (fs_transfers t) (fs_watches t) (fs_leases t) ?r"
    using fdm.inv_reachable [OF refl rtranclp_trans [OF assms(1,4)]] by (simp add: fd_state_inv_def)
  have dead: "\<not> (kind_occupied (oo_kind (dr_objects ?r ! i)) \<and> oo_generation (dr_objects ?r ! i) = oo_generation (dr_objects (fs_registry s) ! i))"
    by (rule fdl.dead_generation [OF assms(4,3)])
  have ix: "key_index ?k = None \<or> key_index ?k = Some i"
    using assms(2) key_index_new [of i] by (cases "oo_generation (dr_objects (fs_registry s) ! i) = 0") (auto simp: key_index_def key_new_def)
  have gk: "ok_generation ?k = oo_generation (dr_objects (fs_registry s) ! i)" by (simp add: key_new_def)
  have "?k \<notin># fs_transfers t + fs_watches t + fs_leases t"
  proof
    assume "?k \<in># fs_transfers t + fs_watches t + fs_leases t"
    from held_key [OF inv this] obtain j where "j < MAXIMUM_OPEN_OBJECTS" "?k = object_key_at ?r j" "kind_occupied (oo_kind (dr_objects ?r ! j))" .
    with assms(2) dead show False by (auto simp: key_new_inject)
  qed
  moreover have "acquire_key ?k ?r = (Err FdBadFileDescriptor, ?r)" "retain_key ?k ?r = (Err FdBadFileDescriptor, ?r)"
    using ix dead gk by (auto simp: acquire_key_def lease_object_def retain_key_def Let_def)
  ultimately show ?thesis by simp
qed

lemma ensure_space_found:
  "valid_owner owner \<Longrightarrow> find_space (dr_spaces r) owner = Some space \<Longrightarrow> ensure_space owner r = (Ok space, r)"
  by (simp add: ensure_space_def)

lemma fionread_registry: "snd (fionread ready_for owner fd r) = snd (acquire_descriptor owner fd r)"
  by (simp add: fionread_def split: rust_splits)


lemma unat_one_unless_zero: "unat (x :: u16) \<le> unat (1 :: u16) \<Longrightarrow> x \<noteq> 0 \<Longrightarrow> x = 1"
  by (metis le_antisym unat_1 unat_eq_0 unat_gt_0 less_one linorder_not_less word_unat_eq_iff)

text \<open>The closing of the only descriptor of an object.\<close>

lemma close_only_descriptor:
  assumes "ensure_space owner r = (Ok space, r)" "descriptor_at r space fd = Ok slot" "descriptor_object_index slot = Some i"
    "oo_references (dr_objects r ! i) = 1" "oo_descriptor_references (dr_objects r ! i) = 1"
  shows "close_locked owner fd r =
    (case settle_object i ((dr_objects r ! i)\<lparr>oo_references := 0, oo_descriptor_references := 0, oo_closing := True\<rparr>)
        (set_descriptor space (unat fd) DESCRIPTOR_EMPTY r) of
      (pending, r') \<Rightarrow> (Ok (pending, Some (object_key_at r i)), r'))"
  using assms by (simp add: close_locked_def drop_descriptor_reference_def Let_def set_descriptor_def split: prod.splits)

text \<open>C36. A defect: \<open>fionread\<close> takes the lease of a running operation and never gives it back. Closing the
  only descriptor of an idle object hands the object over to be finalized; after one \<open>fionread\<close> on that
  descriptor, whatever the readiness and whether or not it could be determined, the same close hands over
  nothing, and leaves an open, unreferenced object with one active operation that no caller holds.\<close>

theorem fionread_keeps_object_open:
  assumes "fd_step\<^sup>*\<^sup>* fd_start s" "valid_owner owner" "find_space (dr_spaces (fs_registry s)) owner = Some space"
    "descriptor_at (fs_registry s) space fd = Ok slot" "descriptor_object_index slot = Some i"
    "oo_references (dr_objects (fs_registry s) ! i) = 1" "oo_active_operations (dr_objects (fs_registry s) ! i) = 0"
  shows "(\<exists>final. fst (close_locked owner fd (fs_registry s)) = Ok (Some final, Some (object_key_at (fs_registry s) i))) \<and>
    (case close_locked owner fd (snd (fionread ready_for owner fd (fs_registry s))) of (out, r) \<Rightarrow>
       out = Ok (None, Some (object_key_at (fs_registry s) i)) \<and> kind_occupied (oo_kind (dr_objects r ! i)) \<and>
       oo_references (dr_objects r ! i) = 0 \<and> oo_active_operations (dr_objects r ! i) = 1)"
proof -
  let ?r = "fs_registry s" and ?o = "dr_objects (fs_registry s) ! i"
  have inv: "fd_inv (fs_transfers s) (fs_watches s) (fs_leases s) ?r"
    using fdm.inv_reachable [OF refl assms(1)] by (simp add: fd_state_inv_def)
  note d = fd_invD [OF inv]
  have es: "ensure_space owner ?r = (Ok space, ?r)" by (rule ensure_space_found [OF assms(2,3)])
  have sp: "space < MAXIMUM_DESCRIPTOR_SPACES" using ensure_space_inv(2) [OF inv es refl] by simp
  obtain j where "descriptor_object_index slot = Some j" "j \<in># named ?r" "j < MAXIMUM_OPEN_OBJECTS"
    by (rule descriptor_at_Ok [OF inv sp assms(4)])
  with assms(5) have i: "i < MAXIMUM_OPEN_OBJECTS" "i \<in># named ?r" by simp_all
  note live = named_live [OF inv i(2)]
  have dr: "oo_descriptor_references ?o = 1"
    using object_ok_exact [OF d(3) [OF i(1)]] live(5) assms(6) by (intro unat_one_unless_zero) simp_all
  let ?leased = "set_object i (?o\<lparr>oo_active_operations := 1\<rparr>) ?r"
  have "acquire_descriptor owner fd ?r = (Ok (lease_of (object_key_at ?r i) ?o), ?leased)"
    using es assms(4,5,7) live(2,3) i(1) d(2) by (simp add: acquire_descriptor_def lease_object_def Let_def checked_add_def)
  then have q: "snd (fionread ready_for owner fd ?r) = ?leased" by (simp add: fionread_registry)
  have es': "ensure_space owner ?leased = (Ok space, ?leased)"
    using assms(3) by (intro ensure_space_found [OF assms(2)]) simp
  have at': "descriptor_at ?leased space fd = Ok slot" using assms(4) by (simp add: descriptor_at_def)
  have "fst (close_locked owner fd ?r) = Ok (Some (fst (object_take ?o)), Some (object_key_at ?r i))"
    using close_only_descriptor [OF es assms(4,5,6) dr] assms(7)
    by (simp add: settle_object_def maybe_take_closing_def object_take_def)
  moreover have "close_locked owner fd ?leased =
      (Ok (None, Some (object_key_at ?r i)), set_object i (?o\<lparr>oo_active_operations := 1, oo_references := 0, oo_descriptor_references := 0, oo_closing := True\<rparr>)
         (set_descriptor space (unat fd) DESCRIPTOR_EMPTY ?leased))"
    using close_only_descriptor [OF es' at' assms(5)] assms(6) dr i(1) d(2)
    by (simp add: settle_object_def maybe_take_closing_def set_descriptor_def)
  ultimately show ?thesis using live(2) i(1) d(2) by (simp add: q set_descriptor_def)
qed


section \<open>A small run\<close>

text \<open>Process (7, 1) asks for the flags of its descriptor 0, which gives it its three console descriptors,
  closes that descriptor, and gets an eventfd in the place of the console object.\<close>

definition fd_demo_owner :: process_handle where
  "fd_demo_owner = \<lparr>ph_pid = 7, ph_generation = 1\<rparr>"

definition demo_console :: "open_object_kind \<Rightarrow> u32 \<Rightarrow> open_object" where
  "demo_console kind flags = \<lparr>oo_generation = 1, oo_owner = fd_demo_owner, oo_references = 1, oo_descriptor_references = 1,
     oo_active_operations = 0, oo_closing = False, oo_status_flags = flags, oo_kind = kind\<rparr>"

definition demo_registry :: descriptor_registry where
  "demo_registry = \<lparr>dr_spaces = \<lparr>sp_owner = fd_demo_owner, sp_descriptors =
       descriptor_new 0 0 # descriptor_new 1 0 # descriptor_new 2 0 # replicate 125 DESCRIPTOR_EMPTY\<rparr> # replicate 63 SPACE_EMPTY,
     dr_objects = demo_console ConsoleInput O_RDONLY # demo_console ConsoleOutput O_WRONLY # demo_console ConsoleError O_WRONLY #
       replicate 8189 OBJECT_EMPTY\<rparr>"

lemma replicate_Cons: "0 < n \<Longrightarrow> replicate n x = x # replicate (n - 1) x"
  by (cases n) simp_all

lemma demo_tables:
  "replicate 8192 OBJECT_EMPTY = OBJECT_EMPTY # OBJECT_EMPTY # OBJECT_EMPTY # replicate 8189 OBJECT_EMPTY"
  "replicate 128 DESCRIPTOR_EMPTY = DESCRIPTOR_EMPTY # DESCRIPTOR_EMPTY # DESCRIPTOR_EMPTY # replicate 125 DESCRIPTOR_EMPTY"
  "replicate 64 SPACE_EMPTY = SPACE_EMPTY # replicate 63 SPACE_EMPTY"
  "replicate 8189 OBJECT_EMPTY = OBJECT_EMPTY # replicate 8188 OBJECT_EMPTY"
  by (simp_all add: replicate_Cons [of 8192] replicate_Cons [of 8191] replicate_Cons [of 8190] replicate_Cons [of 8189]
      replicate_Cons [of 128] replicate_Cons [of 127] replicate_Cons [of 126] replicate_Cons [of 64])

lemma demo_ensure: "ensure_space fd_demo_owner REGISTRY_EMPTY = (Ok 0, demo_registry)"
  supply two = arg_cong [OF numeral_2_eq_2 [symmetric], of descriptor_new]
  unfolding REGISTRY_EMPTY_def demo_registry_def demo_tables(1,3)
  by (simp add: SPACE_EMPTY_def demo_tables(2) kind_occupied_def two
      ensure_space_def valid_owner_def fd_demo_owner_def find_space_def position_replicate space_occupied_def
      no_handle_def set_space_owner_def initialize_standard_descriptors_def allocate_object_def OBJECT_EMPTY_def 
      next_object_generation_def checked_add_def object_new_def bind_descriptor_def set_descriptor_def demo_console_def)


definition demo_opened :: fd_state where
  "demo_opened = fd_start\<lparr>fs_registry := demo_registry\<rparr>"

definition demo_closed :: fd_state where
  "demo_closed = demo_opened\<lparr>fs_registry := snd (close_locked fd_demo_owner 0 demo_registry)\<rparr>"

definition demo_reused :: fd_state where
  "demo_reused = demo_closed\<lparr>fs_registry :=
     snd (install_backend_object fd_demo_owner fd_demo_owner (KindEventFd 1) 0 False (fs_registry demo_closed))\<rparr>"

lemma demo_space: "find_space (dr_spaces demo_registry) fd_demo_owner = Some 0"
  by (simp add: demo_registry_def find_space_def fd_demo_owner_def space_occupied_def)

lemma demo_slot:
  "descriptor_at demo_registry 0 0 = Ok (descriptor_new 0 0)" "descriptor_object_index (descriptor_new 0 0) = Some 0"
  by (simp_all add: demo_registry_def descriptor_at_def descriptor_new_def descriptor_occupied_def descriptor_object_index_def)

lemma demo_object: "dr_objects demo_registry ! 0 = demo_console ConsoleInput O_RDONLY"
  by (simp add: demo_registry_def)

lemma demo_run: "fd_step fd_start demo_opened" "fd_step demo_opened demo_closed" "fd_step demo_closed demo_reused"
proof -
  have "descriptor_flags fd_demo_owner 0 (fs_registry fd_start) = (Ok 0, demo_registry)"
    by (simp add: descriptor_flags_def fd_start_def demo_ensure demo_slot(1)) (simp add: descriptor_new_def)
  then show "fd_step fd_start demo_opened" unfolding demo_opened_def by (rule fd_step.get_flags)
  have "close_locked fd_demo_owner 0 (fs_registry demo_opened) =
      (fst (close_locked fd_demo_owner 0 demo_registry), snd (close_locked fd_demo_owner 0 demo_registry))"
    by (simp add: demo_opened_def)
  then show "fd_step demo_opened demo_closed" unfolding demo_closed_def by (rule fd_step.close)
  show "fd_step demo_closed demo_reused" unfolding demo_reused_def by (rule fd_step.install [OF surjective_pairing]) (simp add: kind_occupied_def)
qed

lemma demo_vacated: "dr_objects (fs_registry demo_closed) ! 0 = OBJECT_EMPTY\<lparr>oo_generation := 1\<rparr>"
proof -
  have es: "ensure_space fd_demo_owner demo_registry = (Ok 0, demo_registry)"
    by (rule ensure_space_found [OF _ demo_space]) (simp add: fd_demo_owner_def valid_owner_def)
  show ?thesis
    using close_only_descriptor [OF es demo_slot]
    by (simp add: demo_closed_def demo_object demo_console_def settle_object_def maybe_take_closing_def object_take_def
        set_descriptor_def demo_registry_def)
qed


theorem released_key_stays_dead_witness:
  "fd_step\<^sup>*\<^sup>* fd_start demo_closed \<and> fd_step\<^sup>*\<^sup>* demo_closed demo_reused \<and>
   acquire_key (key_new 0 1) (fs_registry demo_reused) = (Err FdBadFileDescriptor, fs_registry demo_reused)"
proof -
  have r: "fd_step\<^sup>*\<^sup>* fd_start demo_closed" "fd_step\<^sup>*\<^sup>* demo_closed demo_reused"
    using demo_run by (meson r_into_rtranclp rtranclp.rtrancl_into_rtrancl)+
  have "\<not> kind_occupied (oo_kind (dr_objects (fs_registry demo_closed) ! 0))"
    by (simp add: demo_vacated OBJECT_EMPTY_def kind_occupied_def)
  from released_key_stays_dead [OF r(1) _ this r(2)] r show ?thesis by (simp add: demo_vacated)
qed

theorem fionread_keeps_object_open_witness:
  "(\<exists>final. fst (close_locked fd_demo_owner 0 demo_registry) = Ok (Some final, Some (key_new 0 1))) \<and>
   (case close_locked fd_demo_owner 0 (snd (fionread (\<lambda>_. Ok 0) fd_demo_owner 0 demo_registry)) of (out, r) \<Rightarrow>
      out = Ok (None, Some (key_new 0 1)) \<and> oo_active_operations (dr_objects r ! 0) = 1)"
proof -
  have r: "fd_step\<^sup>*\<^sup>* fd_start demo_opened" using demo_run(1) by blast
  have f: "fs_registry demo_opened = demo_registry" by (simp add: demo_opened_def)
  have v: "valid_owner fd_demo_owner" by (simp add: fd_demo_owner_def valid_owner_def)
  have o: "oo_references (dr_objects demo_registry ! 0) = 1" "oo_active_operations (dr_objects demo_registry ! 0) = 0"
    "oo_generation (dr_objects demo_registry ! 0) = 1"
    by (simp_all only: demo_object) (simp_all add: demo_console_def)
  show ?thesis
    using fionread_keeps_object_open [OF r v, unfolded f, OF demo_space demo_slot o(1,2), of "\<lambda>_. Ok 0"]
    unfolding o(3) by (auto split: prod.splits)
qed

end
