(* ===== verification/FdTables.thy ===== *)
theory FdTables
  imports FdMachine
begin

unbundle bit_operations_syntax

text \<open>
  The contract of the descriptor numbers. To a process, the registry is a finite map from numbers to open
  objects with a close-on-exec flag each, and no other process's map is in reach. The lock sections of
  \<open>FdRegistry\<close> refine the operations on that map.
\<close>

section \<open>The map of a process\<close>

definition slot_view :: "descriptor_slot \<Rightarrow> (nat \<times> bool) option" where
  "slot_view slot = map_option (\<lambda>i. (i, ds_flags slot AND 1 \<noteq> 0)) (descriptor_object_index slot)"

definition fd_view :: "descriptor_registry \<Rightarrow> process_handle \<Rightarrow> nat \<Rightarrow> (nat \<times> bool) option" where
  "fd_view r owner n =
     (case find_space (dr_spaces r) owner of None \<Rightarrow> None
      | Some space \<Rightarrow> if n < MAXIMUM_FILE_DESCRIPTORS then slot_view (fd_slot r space n) else None)"

text \<open>The lowest free number from \<open>minimum\<close> on.\<close>

definition lowest_free :: "(nat \<Rightarrow> (nat \<times> bool) option) \<Rightarrow> nat \<Rightarrow> nat \<Rightarrow> bool" where
  "lowest_free table minimum n \<longleftrightarrow> minimum \<le> n \<and> n < MAXIMUM_FILE_DESCRIPTORS \<and> table n = None \<and>
     (\<forall>k. minimum \<le> k \<longrightarrow> k < n \<longrightarrow> table k \<noteq> None)"

lemma slot_view_None [simp]: "slot_view slot = None \<longleftrightarrow> \<not> descriptor_occupied slot"
  by (simp add: slot_view_def descriptor_object_index_def)

lemma slot_view_new [simp]:
  "i < MAXIMUM_OPEN_OBJECTS \<Longrightarrow> slot_view (descriptor_new i (cloexec_flag c)) = Some (i, c)"
  by (simp add: slot_view_def) (simp add: descriptor_new_def)

lemma slot_view_object: "descriptor_object_index slot = Some i \<Longrightarrow> \<exists>c. slot_view slot = Some (i, c)"
  by (simp add: slot_view_def)

lemma position_update_same:
  "s < length xs \<Longrightarrow> P x = P (xs ! s) \<Longrightarrow> position P (xs[s := x]) = position P xs"
proof (induction xs arbitrary: s)
  case (Cons y xs)
  then show ?case by (cases s) auto
qed simp

lemma fd_view_spaces: "dr_spaces r' = dr_spaces r \<Longrightarrow> fd_view r' = fd_view r"
  by (intro ext) (simp add: fd_view_def split: option.split)

lemma find_space_SomeD:
  assumes "find_space (dr_spaces r) owner = Some s" "spaces_ok r"
  shows "s < MAXIMUM_DESCRIPTOR_SPACES" "sp_owner (dr_spaces r ! s) = owner" "space_occupied (dr_spaces r ! s)"
  using assms by (auto simp: find_space_def position_Some_iff spaces_ok_def)

lemma find_space_set_descriptor [simp]:
  "find_space (dr_spaces (set_descriptor s n slot r)) owner = find_space (dr_spaces r) owner"
proof (cases "s < length (dr_spaces r)")
  case True
  then show ?thesis by (simp add: set_descriptor_def find_space_def position_update_same space_occupied_def)
qed (simp add: set_descriptor_def list_update_beyond)

lemma fd_view_set:
  assumes "spaces_ok r" "find_space (dr_spaces r) owner = Some s" "n < MAXIMUM_FILE_DESCRIPTORS"
  shows "fd_view (set_descriptor s n slot r) = (fd_view r)(owner := (fd_view r owner)(n := slot_view slot))"
proof (intro ext)
  fix other k
  note s = find_space_SomeD [OF assms(2,1)]
  show "fd_view (set_descriptor s n slot r) other k = ((fd_view r)(owner := (fd_view r owner)(n := slot_view slot))) other k"
  proof (cases "find_space (dr_spaces r) other")
    case None
    with assms(2) show ?thesis by (auto simp: fd_view_def)
  next
    case (Some t)
    show ?thesis
    proof (cases "other = owner")
      case True
      with assms(2,3) set_descriptor_space [OF assms(1) s(1), of n slot s] spaces_okD(2) [OF assms(1) s(1)] show ?thesis
        by (simp add: fd_view_def nth_list_update)
    next
      case False
      with find_space_SomeD(2) [OF Some assms(1)] s(2) have "t \<noteq> s" by blast
      with False Some set_descriptor_space [OF assms(1) s(1), of n slot t] show ?thesis by (simp add: fd_view_def)
    qed
  qed
qed


section \<open>The operations on the map\<close>

lemma drop_descriptor_spaces: "drop_descriptor_reference i r = (p, q, r') \<Longrightarrow> dr_spaces r' = dr_spaces r"
  by (auto simp: drop_descriptor_reference_def settle_object_def Let_def split: prod.splits)

lemma add_descriptor_spaces: "add_descriptor_reference i r = (x, r') \<Longrightarrow> dr_spaces r' = dr_spaces r"
  by (auto simp: add_descriptor_reference_def Let_def split: option.splits)

text \<open>What a number names, for an owner with a table.\<close>

lemma descriptor_view:
  assumes "fd_inv T W L r" "find_space (dr_spaces r) owner = Some s"
  shows "case descriptor_at r s fd of Err e \<Rightarrow> e = FdBadFileDescriptor \<and> fd_view r owner (unat fd) = None
    | Ok slot \<Rightarrow> unat fd < MAXIMUM_FILE_DESCRIPTORS \<and> (\<exists>i c. descriptor_object_index slot = Some i \<and> i < MAXIMUM_OPEN_OBJECTS \<and>
        i \<in># named r \<and> fd_view r owner (unat fd) = Some (i, c))"
proof -
  note d = fd_invD [OF assms(1)]
  note s = find_space_SomeD [OF assms(2) d(1)]
  show ?thesis
  proof (cases "descriptor_at r s fd")
    case (Ok slot)
    then obtain i where "unat fd < MAXIMUM_FILE_DESCRIPTORS" "slot = fd_slot r s (unat fd)" "descriptor_object_index slot = Some i"
      "i \<in># named r" "i < MAXIMUM_OPEN_OBJECTS" by (rule descriptor_at_Ok [OF assms(1) s(1)])
    with Ok assms(2) slot_view_object [of slot i] show ?thesis by (auto simp: fd_view_def)
  next
    case (Err e)
    with assms(2) spaces_okD(2) [OF d(1) s(1)] show ?thesis by (auto simp: descriptor_at_def fd_view_def Let_def split: if_splits)
  qed
qed

lemma close_view:
  assumes "fd_inv T W L r" "valid_owner owner" "find_space (dr_spaces r) owner = Some s" "close_locked owner fd r = (out, r')"
  shows "if fd_view r owner (unat fd) = None then out = Err FdBadFileDescriptor \<and> r' = r
    else is_Ok out \<and> fd_view r' = (fd_view r)(owner := (fd_view r owner)(unat fd := None))"
proof -
  note es = ensure_space_found [OF assms(2,3)] and v = descriptor_view [OF assms(1,3), of fd]
  show ?thesis
  proof (cases "descriptor_at r s fd")
    case (Err e)
    with assms(4) es v show ?thesis by (simp add: close_locked_def)
  next
    case (Ok slot)
    with v obtain i c where i: "descriptor_object_index slot = Some i" "i \<in># named r" "unat fd < MAXIMUM_FILE_DESCRIPTORS"
      "fd_view r owner (unat fd) = Some (i, c)" by auto
    obtain p q r1 where dr: "drop_descriptor_reference i (set_descriptor s (unat fd) DESCRIPTOR_EMPTY r) = (p, q, r1)"
      by (metis surj_pair)
    have "out = Ok (p, q)" "r' = r1"
      using assms(4) es Ok i(1) dr named_live(4,5) [OF assms(1) i(2)] by (simp_all add: close_locked_def Let_def)
    with i(4) fd_view_spaces [OF drop_descriptor_spaces [OF dr]] fd_view_set [OF fd_invD(1) [OF assms(1)] assms(3) i(3), of DESCRIPTOR_EMPTY]
    show ?thesis by (simp add: DESCRIPTOR_EMPTY_def slot_view_def descriptor_object_index_def descriptor_occupied_def)
  qed
qed

lemma lowest_free_position:
  assumes "fd_inv T W L r" "find_space (dr_spaces r) owner = Some s"
    "position_from minimum (\<lambda>slot. \<not> descriptor_occupied slot) (sp_descriptors (dr_spaces r ! s)) = Some n"
  shows "lowest_free (fd_view r owner) minimum n"
  using position_from_Some [OF assms(3)] assms(2) spaces_okD(2) [OF fd_invD(1) [OF assms(1)] find_space_SomeD(1) [OF assms(2) fd_invD(1) [OF assms(1)]]]
  by (auto simp: lowest_free_def fd_view_def)

lemma duplicate_view:
  assumes "fd_inv T W L r" "valid_owner owner" "find_space (dr_spaces r) owner = Some s" "duplicate owner old minimum c r = (out, r')"
  shows "case out of Err _ \<Rightarrow> r' = r
    | Ok new \<Rightarrow> \<exists>i f. fd_view r owner (unat old) = Some (i, f) \<and> lowest_free (fd_view r owner) (unat minimum) (unat new) \<and>
        fd_view r' = (fd_view r)(owner := (fd_view r owner)(unat new \<mapsto> (i, c)))"
proof (cases out)
  case (Err e)
  with assms(4) ensure_space_found [OF assms(2,3)] show ?thesis
    by (auto simp: duplicate_def Let_def split: rust_splits)
next
  case (Ok new)
  note es = ensure_space_found [OF assms(2,3)] and v = descriptor_view [OF assms(1,3), of old]
  from assms(4) Ok es obtain slot n r1 where n: "descriptor_at r s old = Ok slot"
    "position_from (unat minimum) (\<lambda>slot. \<not> descriptor_occupied slot) (sp_descriptors (dr_spaces r ! s)) = Some n"
    "add_descriptor_reference (the (descriptor_object_index slot)) r = (Ok (), r1)" "new = of_nat n"
    "r' = set_descriptor s n (descriptor_new (the (descriptor_object_index slot)) (cloexec_flag c)) r1"
    by (auto simp: duplicate_def Let_def split: rust_splits)
  from v n(1) obtain i f where i: "descriptor_object_index slot = Some i" "i < MAXIMUM_OPEN_OBJECTS" "fd_view r owner (unat old) = Some (i, f)" by auto
  have lf: "lowest_free (fd_view r owner) (unat minimum) n" by (rule lowest_free_position [OF assms(1,3) n(2)])
  then have lt: "n < MAXIMUM_FILE_DESCRIPTORS" by (simp add: lowest_free_def)
  then have un: "unat new = n" using n(4) by (simp add: unat_of_nat)
  note sp = add_descriptor_spaces [OF n(3)]
  have "spaces_ok r1" using fd_invD(1) [OF assms(1)] sp by (simp add: spaces_ok_def)
  then have "fd_view r' = (fd_view r1)(owner := (fd_view r1 owner)(n \<mapsto> (i, c)))"
    using fd_view_set [of r1 owner s n] assms(3) sp lt n(5) i(1,2) by simp
  with lf un i(3) Ok fd_view_spaces [OF sp] show ?thesis by auto
qed


lemma duplicate_to_view:
  assumes "fd_inv T W L r" "valid_owner owner" "find_space (dr_spaces r) owner = Some s" "unat new < MAXIMUM_FILE_DESCRIPTORS"
    "duplicate_to_locked owner old new c r = (out, r')"
  shows "case out of Err _ \<Rightarrow> r' = r
    | Ok _ \<Rightarrow> \<exists>i f. fd_view r owner (unat old) = Some (i, f) \<and>
        fd_view r' = (fd_view r)(owner := (fd_view r owner)(unat new \<mapsto> (i, c)))"
proof (cases out)
  case (Err e)
  with assms(5) ensure_space_found [OF assms(2,3)] show ?thesis
    by (auto simp: duplicate_to_locked_def Let_def split: rust_splits)
next
  case (Ok x)
  note es = ensure_space_found [OF assms(2,3)] and v = descriptor_view [OF assms(1,3), of old]
  from assms(5) Ok es obtain slot r1 where n: "descriptor_at r s old = Ok slot" "dr_spaces r1 = dr_spaces r"
    "r' = set_descriptor s (unat new) (descriptor_new (the (descriptor_object_index slot)) (cloexec_flag c)) r1"
    by (auto simp: duplicate_to_locked_def Let_def split: rust_splits dest!: add_descriptor_spaces drop_descriptor_spaces)
  from v n(1) obtain i f where i: "descriptor_object_index slot = Some i" "i < MAXIMUM_OPEN_OBJECTS" "fd_view r owner (unat old) = Some (i, f)" by auto
  have "spaces_ok r1" using fd_invD(1) [OF assms(1)] n(2) by (simp add: spaces_ok_def)
  then have "fd_view r' = (fd_view r1)(owner := (fd_view r1 owner)(unat new \<mapsto> (i, c)))"
    using fd_view_set [of r1 owner s "unat new"] assms(3,4) n(2,3) i(1,2) by simp
  with i(3) Ok fd_view_spaces [OF n(2)] show ?thesis by auto
qed

lemma position_from_0: "position_from 0 P xs = position P xs"
  by (simp add: position_from_def option.map_ident)

lemma install_view:
  assumes "fd_inv T W L r" "valid_owner owner" "find_space (dr_spaces r) owner = Some s"
    "install_backend_object owner backend kind flags c r = (out, r')"
  shows "case out of Err _ \<Rightarrow> r' = r
    | Ok new \<Rightarrow> \<exists>i < MAXIMUM_OPEN_OBJECTS. \<not> kind_occupied (oo_kind (dr_objects r ! i)) \<and> lowest_free (fd_view r owner) 0 (unat new) \<and>
        fd_view r' = (fd_view r)(owner := (fd_view r owner)(unat new \<mapsto> (i, c))) \<and>
        oo_kind (dr_objects r' ! i) = kind \<and> oo_owner (dr_objects r' ! i) = backend \<and> oo_status_flags (dr_objects r' ! i) = flags"
proof (cases out)
  case (Err e)
  with assms(4) ensure_space_found [OF assms(2,3)] show ?thesis
    by (auto simp: install_backend_object_def Let_def split: rust_splits)
next
  case (Ok new)
  note es = ensure_space_found [OF assms(2,3)] and d = fd_invD [OF assms(1)]
  from assms(4) Ok es obtain n i objects where n: "position (\<lambda>slot. \<not> descriptor_occupied slot) (sp_descriptors (dr_spaces r ! s)) = Some n"
    "allocate_object backend kind flags (dr_objects r) = (Ok i, objects)" "new = of_nat n"
    "r' = bind_descriptor s n i (cloexec_flag c) (r\<lparr>dr_objects := objects\<rparr>)"
    by (auto simp: install_backend_object_def split: rust_splits)
  from n(2) obtain g where g: "position (\<lambda>object. \<not> kind_occupied (oo_kind object)) (dr_objects r) = Some i"
    "objects = (dr_objects r)[i := object_new g backend 0 flags kind]"
    by (auto simp: allocate_object_def split: rust_splits)
  from position_length [OF g(1)] position_sat [OF g(1)] d(2)
  have i: "i < MAXIMUM_OPEN_OBJECTS" "\<not> kind_occupied (oo_kind (dr_objects r ! i))" by simp_all
  have lf: "lowest_free (fd_view r owner) 0 n"
    by (rule lowest_free_position [OF assms(1,3)]) (simp add: position_from_0 n(1))
  then have lt: "n < MAXIMUM_FILE_DESCRIPTORS" by (simp add: lowest_free_def)
  then have un: "unat new = n" using n(3) by (simp add: unat_of_nat)
  let ?r1 = "r\<lparr>dr_objects := dr_objects r'\<rparr>"
  have r': "r' = set_descriptor s n (descriptor_new i (cloexec_flag c)) ?r1"
    using n(4) by (simp add: bind_descriptor_def)
  have "fd_view r' = (fd_view ?r1)(owner := (fd_view ?r1 owner)(n \<mapsto> (i, c)))"
    by (subst r', subst fd_view_set) (use d(1) assms(3) lt i(1) in simp_all)
  moreover have "oo_kind (dr_objects r' ! i) = kind" "oo_owner (dr_objects r' ! i) = backend" "oo_status_flags (dr_objects r' ! i) = flags"
    using n(4) g(2) i(1) d(2) by (simp_all add: bind_descriptor_def object_new_def)
  ultimately show ?thesis using lf un i Ok fd_view_spaces [of ?r1 r] by auto
qed


text \<open>The descriptors a table loses on \<open>exec\<close>.\<close>

lemma close_matching_spaces: "close_matching_object i r = (p, q, r') \<Longrightarrow> dr_spaces r' = dr_spaces r"
  by (auto simp: close_matching_object_def settle_object_def Let_def split: prod.splits)

lemma exec_loop_view:
  assumes "spaces_ok r" "find_space (dr_spaces r) owner = Some s" "\<forall>fd \<in> set fds. fd < MAXIMUM_FILE_DESCRIPTORS"
    "close_matching_loop s True fds r = (out, r')"
  shows "fd_view r' = (fd_view r)(owner := \<lambda>n. if n \<in> set fds \<and> (\<exists>i. fd_view r owner n = Some (i, True)) then None else fd_view r owner n)"
  using assms
proof (induction fds arbitrary: r out r')
  case Nil
  then show ?case by simp
next
  case (Cons fd fds)
  let ?slot = "fd_slot r s fd"
  have lt: "fd < MAXIMUM_FILE_DESCRIPTORS" and rest: "\<forall>fd \<in> set fds. fd < MAXIMUM_FILE_DESCRIPTORS" using Cons.prems(3) by simp_all
  have view: "fd_view r owner fd = slot_view ?slot" using Cons.prems(2) lt by (simp add: fd_view_def)
  have marked: "(\<exists>i. slot_view ?slot = Some (i, True)) \<longleftrightarrow> descriptor_occupied ?slot \<and> ds_flags ?slot AND 1 \<noteq> 0"
    by (auto simp: slot_view_def descriptor_object_index_def)
  show ?case
  proof (cases "\<exists>i. slot_view ?slot = Some (i, True)")
    case False
    then have "close_matching_loop s True fds r = (out, r')"
      using Cons.prems(4) marked by (auto simp: Let_def FD_CLOEXEC_def)
    from Cons.IH [OF Cons.prems(1,2) rest this] False view show ?thesis by (auto simp: fun_eq_iff)
  next
    case True
    obtain p q r1 where one: "close_matching_object (the (descriptor_object_index ?slot)) (set_descriptor s fd DESCRIPTOR_EMPTY r) = (p, q, r1)"
      by (metis surj_pair)
    obtain out2 r2 where loop: "close_matching_loop s True fds r1 = (out2, r2)" by fastforce
    have r': "r' = r2" using Cons.prems(4) True marked one loop by (auto simp: Let_def FD_CLOEXEC_def split: prod.splits)
    have sp: "dr_spaces r1 = dr_spaces (set_descriptor s fd DESCRIPTOR_EMPTY r)" by (rule close_matching_spaces [OF one])
    have ok: "spaces_ok r1"
      using spaces_ok_set_descriptor [OF Cons.prems(1) find_space_SomeD(1) [OF Cons.prems(2,1)], of DESCRIPTOR_EMPTY fd] sp
      by (simp add: spaces_ok_def descriptor_occupied_def DESCRIPTOR_EMPTY_def)
    have v1: "fd_view r1 = (fd_view r)(owner := (fd_view r owner)(fd := None))"
      using fd_view_spaces [OF sp] fd_view_set [OF Cons.prems(1,2) lt, of DESCRIPTOR_EMPTY]
      by (simp add: slot_view_def descriptor_object_index_def descriptor_occupied_def DESCRIPTOR_EMPTY_def)
    have "find_space (dr_spaces r1) owner = Some s" using sp Cons.prems(2) by simp
    from Cons.IH [OF ok this rest loop] True view v1 r' show ?thesis by (auto simp: fun_eq_iff)
  qed
qed

lemma exec_view:
  assumes "fd_inv T W L r" "close_matching_locked owner True r = (out, r')"
  shows "fd_view r' = (fd_view r)(owner := \<lambda>n. if \<exists>i. fd_view r owner n = Some (i, True) then None else fd_view r owner n)"
proof (cases "find_space (dr_spaces r) owner")
  case None
  then have "fd_view r owner = (\<lambda>n. None)" by (simp add: fd_view_def fun_eq_iff)
  with None assms(2) show ?thesis by (auto simp: close_matching_locked_def fun_eq_iff)
next
  case (Some s)
  note d = fd_invD [OF assms(1)]
  have len: "length (sp_descriptors (dr_spaces r ! s)) = MAXIMUM_FILE_DESCRIPTORS"
    by (rule spaces_okD(2) [OF d(1) find_space_SomeD(1) [OF Some d(1)]])
  obtain out2 where "close_matching_loop s True [0..<MAXIMUM_FILE_DESCRIPTORS] r = (out2, r')"
    using assms(2) Some len by (auto simp: close_matching_locked_def split: prod.splits)
  from exec_loop_view [OF d(1) Some _ this]
  have "fd_view r' = (fd_view r)(owner := \<lambda>n. if n \<in> set [0..<MAXIMUM_FILE_DESCRIPTORS] \<and> (\<exists>i. fd_view r owner n = Some (i, True)) then None else fd_view r owner n)"
    by simp
  moreover have "n \<in> set [0..<MAXIMUM_FILE_DESCRIPTORS]" if "fd_view r owner n = Some x" for n x
    using that Some by (simp add: fd_view_def split: if_splits)
  ultimately show ?thesis by (auto simp: fun_eq_iff)
qed


text \<open>Descriptors received with a message.\<close>

abbreviation place_transfer :: "nat \<Rightarrow> bool \<Rightarrow> nat \<times> transfer_token \<Rightarrow> descriptor_registry \<Rightarrow> descriptor_registry" where
  "place_transfer s c \<equiv> (\<lambda>(target, token). set_descriptor s target (descriptor_new (the (key_index (tt_key token))) (cloexec_flag c)))"

lemma place_transfers_view:
  assumes "spaces_ok r" "find_space (dr_spaces r) owner = Some s" "length targets = length tokens"
    "\<forall>n \<in> set targets. n < MAXIMUM_FILE_DESCRIPTORS" "\<forall>token \<in> set tokens. the (key_index (tt_key token)) < MAXIMUM_OPEN_OBJECTS"
  shows "fd_view (fold (place_transfer s c) (zip targets tokens) r) =
    (fd_view r)(owner := (fd_view r owner)(targets [\<mapsto>] map (\<lambda>token. (the (key_index (tt_key token)), c)) tokens))"
  using assms(3,1,2,4,5)
proof (induction targets tokens arbitrary: r rule: list_induct2)
  case Nil
  then show ?case by simp
next
  case (Cons n targets token tokens)
  let ?r = "set_descriptor s n (descriptor_new (the (key_index (tt_key token))) (cloexec_flag c)) r"
  have s: "s < MAXIMUM_DESCRIPTOR_SPACES" "space_occupied (dr_spaces r ! s)" using find_space_SomeD [OF Cons.prems(2,1)] by simp_all
  have "spaces_ok ?r" using spaces_ok_set_descriptor [OF Cons.prems(1) s(1)] s(2) by blast
  with Cons.prems have ih: "fd_view (fold (place_transfer s c) (zip targets tokens) ?r) =
      (fd_view ?r)(owner := (fd_view ?r owner)(targets [\<mapsto>] map (\<lambda>token. (the (key_index (tt_key token)), c)) tokens))"
    by (intro Cons.IH) simp_all
  have "fd_view ?r = (fd_view r)(owner := (fd_view r owner)(n \<mapsto> (the (key_index (tt_key token)), c)))"
    using fd_view_set [OF Cons.prems(1,2), of n] Cons.prems(3,4) by simp
  then show ?case using ih by (simp only: zip_Cons_Cons fold_Cons comp_apply prod.case list.map map_upds_Cons fun_upd_upd fun_upd_same)
qed

lemma install_transfers_view:
  assumes "fd_inv T W L r" "valid_owner owner" "find_space (dr_spaces r) owner = Some s" "token_keys tokens \<subseteq># T"
    "install_transfers owner tokens c room r = (out, r')"
  shows "case out of Err _ \<Rightarrow> r' = r
    | Ok fds \<Rightarrow> length fds = length tokens \<and> distinct fds \<and> (\<forall>fd \<in> set fds. unat fd < MAXIMUM_FILE_DESCRIPTORS \<and> fd_view r owner (unat fd) = None) \<and>
        fd_view r' = (fd_view r)(owner := (fd_view r owner)(map unat fds [\<mapsto>] map (\<lambda>token. (the (key_index (tt_key token)), c)) tokens))"
proof (cases out)
  case (Err e)
  with assms(5) ensure_space_found [OF assms(2,3)] show ?thesis
    by (auto simp: install_transfers_def Let_def split: rust_splits)
next
  case (Ok fds)
  note es = ensure_space_found [OF assms(2,3)] and d = fd_invD [OF assms(1)]
  define targets where "targets = take (length tokens) (free_descriptors r s)"
  have n: "length targets = length tokens" "fds = map of_nat targets" "r' = fold (place_transfer s c) (zip targets tokens) r"
    using assms(5) Ok es unfolding targets_def by (auto simp: install_transfers_def Let_def split: rust_splits)
  have len: "length (sp_descriptors (dr_spaces r ! s)) = MAXIMUM_FILE_DESCRIPTORS"
    by (rule spaces_okD(2) [OF d(1) find_space_SomeD(1) [OF assms(3) d(1)]])
  have t: "distinct targets" "\<forall>n \<in> set targets. n < MAXIMUM_FILE_DESCRIPTORS \<and> fd_view r owner n = None"
    using len assms(3) by (auto simp: targets_def free_descriptors_def fd_view_def dest!: in_set_takeD)
  have k: "the (key_index (tt_key token)) < MAXIMUM_OPEN_OBJECTS" if "token \<in> set tokens" for token
  proof -
    have "tt_key token \<in># token_keys tokens" using that by simp
    from mset_subset_eqD [OF assms(4) this] have "tt_key token \<in># T + W + L" by simp
    then obtain i where "i < MAXIMUM_OPEN_OBJECTS" "key_index (tt_key token) = Some i" by (rule held_key [OF assms(1)])
    then show ?thesis by simp
  qed
  have un: "unat (of_nat n :: u32) = n" if "n \<in> set targets" for n
  proof -
    have "n < MAXIMUM_FILE_DESCRIPTORS" using that t(2) by blast
    then show ?thesis by (simp add: unat_of_nat)
  qed
  have "map unat fds = targets" using un n(2) by (simp add: map_idI)
  moreover from this t(1) have "distinct fds" using distinct_map [of unat fds] by simp
  moreover have "fd_view r' = (fd_view r)(owner := (fd_view r owner)(targets [\<mapsto>] map (\<lambda>token. (the (key_index (tt_key token)), c)) tokens))"
    unfolding n(3) using place_transfers_view [OF d(1) assms(3) n(1)] t(2) k by blast
  ultimately show ?thesis using Ok n(1,2) t(2) un by auto
qed


section \<open>Properties\<close>




end
