(* ===== verification/Spec2Isabelle.thy ===== *)
theory Spec2Isabelle
  imports Pipe EventFd TimerFd SignalFd ExitCleanup Memfd Dgram Epoll Socket FdTables
begin

text \<open>
  \<^bold>\<open>The Linux personality of the Arach kernel.\<close>

  The kernel under \<^verbatim>\<open>src/src\<close> runs Linux programs. This development models the part of it that such a
  program can observe and attack: the process table and scheduler, the return to user mode, the copies
  between kernel and user memory, signals, futexes, and the descriptors with the objects behind them.

  \<^bold>\<open>The program and how its parts interact.\<close>
  A system call enters through \<^verbatim>\<open>syscalls.rs\<close>, which copies its arguments from user memory by walking the
  page tables, and calls one of the \<^verbatim>\<open>linux_*.rs\<close> modules. Each module owns a fixed-size table behind a spin
  lock. \<^verbatim>\<open>process/lifecycle.rs\<close> owns the table of processes: it admits, blocks, wakes, schedules, ends and
  reaps them, and issues the authority a return to user mode presents; \<^verbatim>\<open>process/context.rs\<close> validates the
  register image of that return. \<^verbatim>\<open>linux_futex.rs\<close> blocks and wakes processes through it. An exiting thread
  gives up its futex wait, its robust list (\<^verbatim>\<open>linux_robust.rs\<close>), its signal state (\<^verbatim>\<open>linux_signal.rs\<close>) and
  its clear-on-exit word (\<^verbatim>\<open>linux_thread.rs\<close>). \<^verbatim>\<open>linux_fd.rs\<close> maps descriptor numbers to open objects, counts
  what holds each object, and keeps it until nothing does; the object itself lives in \<^verbatim>\<open>linux_pipe.rs\<close>,
  \<^verbatim>\<open>linux_eventfd.rs\<close>, \<^verbatim>\<open>linux_timerfd.rs\<close>, \<^verbatim>\<open>linux_signalfd.rs\<close>, \<^verbatim>\<open>linux_memfd.rs\<close>, \<^verbatim>\<open>linux_epoll.rs\<close>,
  \<^verbatim>\<open>linux_socket.rs\<close> or \<^verbatim>\<open>linux_unix_dgram.rs\<close>. An epoll watch and a descriptor sent over a socket name an
  open object by a generation-tagged key instead of a number.

  \<^bold>\<open>Conventions.\<close>
  A Rust \<open>Result\<close> is \<open>('a, 'e) result\<close> with the constructors \<open>Ok\<close> and \<open>Err\<close>, and every early return is a
  branch. A table is a list whose length the invariants fix, and a search is \<open>position\<close>. Integers keep their
  width as words, with \<open>checked_add\<close>, \<open>saturating_add\<close> and wrap-around as the code has them; \<open>usize\<close> indices
  and lengths, which the code bounds before use, are natural numbers. A function that changes state takes
  the state and returns its result with the new state. What a module does under one lock is one atomic step;
  interleavings are sequences of such steps, related by the inductive predicates \<open>\<dots>_step\<close>.

  \<^bold>\<open>The theories.\<close>
  \<^item> \<open>Prelude\<close>: results, words and searches. \<open>Handles\<close>: process handles and the interfaces
    \<open>handle_codec\<close>, \<open>offset_codec\<close>, \<open>generation_lifetime\<close> and \<open>invariant_machine\<close>. \<open>Ring\<close>: circular arrays and
    the interface \<open>byte_stream\<close>. \<open>Owners\<close>: tables with one slot per owner and the interface \<open>owner_registry\<close>.
    The interface \<open>waker\<close> of the process table stands in \<open>Futex\<close>. Every interface is interpreted on the tables
    of the modules that offer it.
  \<^item> \<open>UserContext\<close> (\<^verbatim>\<open>process/context.rs\<close>, \<^verbatim>\<open>process/abi.rs\<close>): the saved registers and their validation. A
    validated image returns to user mode with user segments, user addresses and safe flags.
  \<^item> \<open>Lifecycle\<close> (\<^verbatim>\<open>process/lifecycle.rs\<close>): the process table, one definition per function. \<open>LifecycleInv\<close>: its
    invariant, kept by every function. \<open>Scheduler\<close> and \<open>SchedulerProps\<close>: at most one process runs and it is the
    recorded one, an authority is accepted exactly by the dispatch that issued it and never later, the round
    robin reaches every runnable process, a group exit leaves one zombie, and a reaped generation is gone.
  \<^item> \<open>UserMemory\<close> (\<^verbatim>\<open>syscalls.rs\<close>, \<^verbatim>\<open>mmio.rs\<close>): page walk, validation and copies over physical memory. The
    paged copies equal the copies byte by byte, and a write reaches only bytes that the walk permits.
  \<^item> \<open>Futex\<close>, \<open>FutexKernel\<close>, \<open>FutexProps\<close> (\<^verbatim>\<open>linux_futex.rs\<close>): the table of waiters refines one queue per key,
    and the waiters are exactly the blocked processes in every interleaving with the process table.
  \<^item> \<open>Robust\<close> (\<^verbatim>\<open>linux_robust.rs\<close>), \<open>ThreadId\<close> (\<^verbatim>\<open>linux_thread.rs\<close>), \<open>Signal\<close> (\<^verbatim>\<open>linux_signal.rs\<close>), and
    \<open>ExitCleanup\<close> (\<open>cleanup_linux_thread_exit\<close> and the member loop of a group exit in \<^verbatim>\<open>syscalls.rs\<close>): the walk of
    a robust list is bounded on any memory and complete on a well-formed list, delivery takes the lowest
    effective signal, \<open>SIGKILL\<close> cannot be masked, and a group exit releases all that its members registered.
  \<^item> \<open>EventFd\<close>, \<open>TimerFd\<close>, \<open>SignalFd\<close>, \<open>Memfd\<close>, \<open>Pipe\<close> (the modules of those names): counters are conserved,
    each passed deadline is counted once, reads are exact, and a pipe delivers the bytes written, in order.
  \<^item> \<open>UnixAddress\<close>, \<open>Dgram\<close> (\<^verbatim>\<open>linux_unix_dgram.rs\<close>), \<open>Socket\<close> (\<^verbatim>\<open>linux_socket.rs\<close>): datagrams are queued
    whole, streams carry the bytes sent, and descriptors in flight are neither lost nor duplicated.
  \<^item> \<open>Epoll\<close> (\<^verbatim>\<open>linux_epoll.rs\<close>): a wait reports exactly the due watches, in order, and loses no edge.
  \<^item> \<open>ObjectKey\<close>, \<open>FdRegistry\<close> (\<^verbatim>\<open>linux_fd.rs\<close>): keys, and each section under the registry lock.
    \<open>FdReferences\<close>: the invariant that ties the counters to what holds an object, kept by each section.
    \<open>FdMachine\<close>: all interleavings of the sections; the counters are exact and a dead key stays dead.
    \<open>FdTables\<close>: the sections refine a map from numbers to objects for each process.

  \<^bold>\<open>Bounds and termination.\<close>
  No definition uses fuel. Table sizes are those of the source: 64 processes, 128 descriptors each and 8192
  open objects. Loops that are not structural have a measure: the wake loop its remaining count, the robust
  walk its visit limit of 2048, signal delivery the pending bits, the user copies the bytes left, the drain of
  a rights queue its length. No user word, pointer or page-table entry is assumed to be well formed.

  \<^bold>\<open>Parameters.\<close>
  The clock, the closures that read and mark user words, the calls of the process runtime on shared memory,
  and the readiness of an epoll target are arguments, as they are in the code or come from another module.

  \<^bold>\<open>Not modelled.\<close>
  In \<^verbatim>\<open>linux_fd.rs\<close>: the dispatch of each call to the module of its object, the finalization that follows a
  lock section, and the conversions of error codes. Files and mounts (\<^verbatim>\<open>akashic_vfs.rs\<close>, \<^verbatim>\<open>linux_file.rs\<close>,
  \<^verbatim>\<open>linux_mount.rs\<close>), the numeric dispatch of system calls, and image loading are left out for their size. Page-table
  construction, context switching, interrupts, drivers and allocators work on hardware and raw memory. The
  numerical and research subsystems have no contract with the parts above.
\<close>

end
